(* ===== verification/Relay_Prelude.thy ===== *)
theory Relay_Prelude
  imports Main "HOL-Library.Word" "HOL-Library.List_Lexorder" "HOL-Library.Sublist"
    "HOL-Library.Product_Lexorder"
begin

unbundle bit_operations_syntax

text \<open>
  The shared vocabulary of the development: the crate's error values
  (\<^verbatim>\<open>src/src/error.rs\<close>), results as sums with the error on the left, Rust text as
  lists of Unicode scalar values with its UTF-8 bytes, big-endian byte strings,
  checked and saturating machine arithmetic, and ordered maps and sets
  (\<^verbatim>\<open>BTreeMap\<close>, \<^verbatim>\<open>BTreeSet\<close>) as strictly sorted lists behind an interface locale.
\<close>

named_theorems result_simps \<open>evaluation of result combinators\<close>
named_theorems bt_simps \<open>facts about ordered maps\<close>

section \<open>Machine types and text\<close>

type_synonym byte = "8 word"
type_synonym u16 = "16 word"
type_synonym u32 = "32 word"
type_synonym u64 = "64 word"
type_synonym digest = "byte list"

text \<open>
  A Rust \<^verbatim>\<open>str\<close> is a sequence of Unicode scalar values stored as UTF-8; its
  \<^verbatim>\<open>len\<close> counts bytes and its order is the byte order, which for UTF-8 is the
  order of the scalar values.
\<close>

type_synonym uchar = nat
type_synonym ustr = "uchar list"

definition lit :: "string \<Rightarrow> ustr" where
  "lit s = map of_char s"

definition utf8_char :: "uchar \<Rightarrow> byte list" where
  "utf8_char c =
     (if c < 128 then [word_of_nat c]
      else if c < 2048 then [word_of_nat (192 + c div 64), word_of_nat (128 + c mod 64)]
      else if c < 65536
        then [word_of_nat (224 + c div 4096), word_of_nat (128 + c div 64 mod 64),
              word_of_nat (128 + c mod 64)]
      else [word_of_nat (240 + c div 262144), word_of_nat (128 + c div 4096 mod 64),
            word_of_nat (128 + c div 64 mod 64), word_of_nat (128 + c mod 64)])"

definition as_bytes :: "ustr \<Rightarrow> byte list" where
  "as_bytes s = concat (map utf8_char s)"

definition str_len :: "ustr \<Rightarrow> nat" where
  "str_len s = length (as_bytes s)"

definition is_ascii :: "ustr \<Rightarrow> bool" where
  "is_ascii s = list_all (\<lambda>c. c < 128) s"

lemma as_bytes_Nil [simp]: "as_bytes [] = []"
  by (simp add: as_bytes_def)

lemma as_bytes_Cons [simp]: "as_bytes (c # s) = utf8_char c @ as_bytes s"
  by (simp add: as_bytes_def)

lemma as_bytes_append [simp]: "as_bytes (s @ t) = as_bytes s @ as_bytes t"
  by (simp add: as_bytes_def)

lemma str_len_Nil [simp]: "str_len [] = 0"
  by (simp add: str_len_def)

lemma str_len_Cons [simp]: "str_len (c # s) = length (utf8_char c) + str_len s"
  by (simp add: str_len_def)

lemma str_len_append [simp]: "str_len (s @ t) = str_len s + str_len t"
  by (simp add: str_len_def)

lemma utf8_char_ascii [simp]: "c < 128 \<Longrightarrow> utf8_char c = [word_of_nat c]"
  by (simp add: utf8_char_def)

lemma utf8_char_nonempty [simp]: "utf8_char c \<noteq> []"
  by (simp add: utf8_char_def)

lemma length_utf8_char: "1 \<le> length (utf8_char c) \<and> length (utf8_char c) \<le> 4"
  by (simp add: utf8_char_def)

lemma str_len_ge_length: "length s \<le> str_len s"
proof (induction s)
  case (Cons c s)
  then show ?case using length_utf8_char [of c] by simp
qed simp

lemma str_len_ascii: "is_ascii s \<Longrightarrow> str_len s = length s"
  by (induction s) (auto simp: is_ascii_def)

lemma as_bytes_ascii: "is_ascii s \<Longrightarrow> as_bytes s = map word_of_nat s"
  by (induction s) (auto simp: is_ascii_def)

lemma str_len_eq_0 [simp]: "str_len s = 0 \<longleftrightarrow> s = []"
  using str_len_ge_length [of s] by auto

lemma lit_Nil [simp]: "lit [] = []"
  by (simp add: lit_def)

lemma lit_Cons [simp]: "lit (c # cs) = of_char c # lit cs"
  by (simp add: lit_def)

lemma is_ascii_simps [simp]:
  "is_ascii []"
  "is_ascii (c # s) \<longleftrightarrow> c < 128 \<and> is_ascii s"
  "is_ascii (s @ t) \<longleftrightarrow> is_ascii s \<and> is_ascii t"
  by (auto simp: is_ascii_def)


section \<open>Errors and results\<close>

datatype error_kind =
    InvalidInput | Conflict | NotFound | NotReady | NotTrusted | Revoked | Unsupported
  | UnsupportedSchema | UnsupportedCapability | AuthenticationFailed | RouteUnavailable
  | StreamInterrupted | Overloaded | ResourceExhausted | StorageLocked | StorageCorrupt
  | PermissionDenied | Io | CommitUnknown | Cancelled | ShuttingDown | Internal

datatype provider_error_kind =
    P_Unsupported | P_UnsupportedSchema | P_UnsupportedCapability | P_CommitUnknown | P_Overloaded
  | P_ResourceExhausted | P_StorageLocked | P_StorageCorrupt | P_PermissionDenied | P_Io
  | P_Cancelled | P_Internal

datatype provider_error_context =
    StorageOpen | StorageSnapshot | StorageScan | StorageCommit | StorageReconcile | StorageFlush
  | KeyCreate | KeyReconcile | KeyPublicKey | KeySign | KeyDelete | EntropySource | TransportBind
  | TransportConnect | TransportAccept | TransportSend | TransportReceive | TransportClose
  | DiscoveryLookup | PacketConsumer | NeighborPolicy | LoadBalancingPolicy | RoutingPolicy

datatype error = Error (err_kind: error_kind) (err_context: string)

fun into_error_kind :: "provider_error_kind \<Rightarrow> error_kind" where
  "into_error_kind P_Unsupported = Unsupported"
| "into_error_kind P_UnsupportedSchema = UnsupportedSchema"
| "into_error_kind P_UnsupportedCapability = UnsupportedCapability"
| "into_error_kind P_CommitUnknown = CommitUnknown"
| "into_error_kind P_Overloaded = Overloaded"
| "into_error_kind P_ResourceExhausted = ResourceExhausted"
| "into_error_kind P_StorageLocked = StorageLocked"
| "into_error_kind P_StorageCorrupt = StorageCorrupt"
| "into_error_kind P_PermissionDenied = PermissionDenied"
| "into_error_kind P_Io = Io"
| "into_error_kind P_Cancelled = Cancelled"
| "into_error_kind P_Internal = Internal"

fun provider_context_text :: "provider_error_context \<Rightarrow> string" where
  "provider_context_text StorageOpen = ''storage open''"
| "provider_context_text StorageSnapshot = ''storage snapshot''"
| "provider_context_text StorageScan = ''storage scan''"
| "provider_context_text StorageCommit = ''storage commit''"
| "provider_context_text StorageReconcile = ''storage reconcile''"
| "provider_context_text StorageFlush = ''storage flush''"
| "provider_context_text KeyCreate = ''key create''"
| "provider_context_text KeyReconcile = ''key reconcile''"
| "provider_context_text KeyPublicKey = ''key public key''"
| "provider_context_text KeySign = ''key sign''"
| "provider_context_text KeyDelete = ''key delete''"
| "provider_context_text EntropySource = ''entropy''"
| "provider_context_text TransportBind = ''transport bind''"
| "provider_context_text TransportConnect = ''transport connect''"
| "provider_context_text TransportAccept = ''transport accept''"
| "provider_context_text TransportSend = ''transport send''"
| "provider_context_text TransportReceive = ''transport receive''"
| "provider_context_text TransportClose = ''transport close''"
| "provider_context_text DiscoveryLookup = ''discovery''"
| "provider_context_text PacketConsumer = ''packet consumer''"
| "provider_context_text NeighborPolicy = ''neighbor policy''"
| "provider_context_text LoadBalancingPolicy = ''load balancing policy''"
| "provider_context_text RoutingPolicy = ''routing policy''"

definition provider_error :: "provider_error_kind \<Rightarrow> provider_error_context \<Rightarrow> error" where
  "provider_error k c = Error (into_error_kind k) (provider_context_text c)"

type_synonym 'a result = "error + 'a"

abbreviation Ok :: "'a \<Rightarrow> 'e + 'a" where "Ok \<equiv> Inr"
abbreviation Err :: "'e \<Rightarrow> 'e + 'a" where "Err \<equiv> Inl"

abbreviation invalid_input :: "string \<Rightarrow> error" where "invalid_input \<equiv> Error InvalidInput"
abbreviation conflict :: "string \<Rightarrow> error" where "conflict \<equiv> Error Conflict"
abbreviation not_found :: "string \<Rightarrow> error" where "not_found \<equiv> Error NotFound"
abbreviation not_trusted :: "string \<Rightarrow> error" where "not_trusted \<equiv> Error NotTrusted"
abbreviation not_ready :: "string \<Rightarrow> error" where "not_ready \<equiv> Error NotReady"
abbreviation overload_error :: "string \<Rightarrow> error" where "overload_error \<equiv> Error Overloaded"
abbreviation internal :: "string \<Rightarrow> error" where "internal \<equiv> Error Internal"
abbreviation resource_exhausted :: "string \<Rightarrow> error" where
  "resource_exhausted \<equiv> Error ResourceExhausted"
abbreviation authentication_failed :: "string \<Rightarrow> error" where
  "authentication_failed \<equiv> Error AuthenticationFailed"

text \<open>\<open>and_then\<close> is the early return of the question-mark operator.\<close>

definition and_then :: "'e + 'a \<Rightarrow> ('a \<Rightarrow> 'e + 'b) \<Rightarrow> 'e + 'b" where
  "and_then r f = (case r of Inl e \<Rightarrow> Inl e | Inr x \<Rightarrow> f x)"

definition guard_or :: "bool \<Rightarrow> 'e \<Rightarrow> 'e + unit" where
  "guard_or b e = (if b then Inr () else Inl e)"

definition map_err :: "'e + 'a \<Rightarrow> ('e \<Rightarrow> 'f) \<Rightarrow> 'f + 'a" where
  "map_err r f = (case r of Inl e \<Rightarrow> Inl (f e) | Inr x \<Rightarrow> Inr x)"

definition ok_or :: "'a option \<Rightarrow> 'e \<Rightarrow> 'e + 'a" where
  "ok_or v e = (case v of None \<Rightarrow> Inl e | Some x \<Rightarrow> Inr x)"

definition is_ok :: "'e + 'a \<Rightarrow> bool" where
  "is_ok r = (case r of Inl _ \<Rightarrow> False | Inr _ \<Rightarrow> True)"

primrec map_result :: "('a \<Rightarrow> 'e + 'b) \<Rightarrow> 'a list \<Rightarrow> 'e + 'b list" where
  "map_result f [] = Inr []"
| "map_result f (x # xs) = and_then (f x) (\<lambda>y. and_then (map_result f xs) (\<lambda>ys. Inr (y # ys)))"

lemma and_then_simps [simp, result_simps]:
  "and_then (Inl e) f = Inl e"
  "and_then (Inr x) f = f x"
  by (simp_all add: and_then_def)

lemma and_then_Ok_iff: "and_then r f = Inr y \<longleftrightarrow> (\<exists>x. r = Inr x \<and> f x = Inr y)"
  by (cases r) auto

lemma and_then_Err_iff:
  "and_then r f = Inl e \<longleftrightarrow> r = Inl e \<or> (\<exists>x. r = Inr x \<and> f x = Inl e)"
  by (cases r) auto

lemma and_then_split:
  "P (and_then r f) \<longleftrightarrow> (\<forall>e. r = Inl e \<longrightarrow> P (Inl e)) \<and> (\<forall>x. r = Inr x \<longrightarrow> P (f x))"
  by (cases r) auto

lemma map_err_simps [simp, result_simps]:
  "map_err (Inl e) f = Inl (f e)"
  "map_err (Inr x) f = Inr x"
  by (simp_all add: map_err_def)

lemma map_err_Ok_iff [simp]: "map_err r f = Inr x \<longleftrightarrow> r = Inr x"
  by (cases r) auto

lemma ok_or_simps [simp, result_simps]:
  "ok_or None e = Inl e"
  "ok_or (Some x) e = Inr x"
  by (simp_all add: ok_or_def)

lemma ok_or_Ok_iff [simp]: "ok_or v e = Inr x \<longleftrightarrow> v = Some x"
  by (cases v) auto

lemma guard_or_simps [simp, result_simps]:
  "guard_or True e = Inr ()"
  "guard_or False e = Inl e"
  by (simp_all add: guard_or_def)

lemma guard_or_Ok_iff [simp]: "guard_or b e = Inr u \<longleftrightarrow> b"
  by (simp add: guard_or_def)

lemma is_ok_simps [simp, result_simps]: "is_ok (Inl e) = False" "is_ok (Inr x) = True"
  by (simp_all add: is_ok_def)

lemma is_ok_iff: "is_ok r \<longleftrightarrow> (\<exists>x. r = Inr x)"
  by (cases r) auto

lemma map_result_total: "(\<And>x. x \<in> set xs \<Longrightarrow> f x = Ok (g x)) \<Longrightarrow> map_result f xs = Ok (map g xs)"
  by (induction xs) auto

lemma map_result_map: "map_result f (map g xs) = map_result (\<lambda>x. f (g x)) xs"
  by (induction xs) simp_all

lemma map_result_member: "map_result f xs = Ok ys \<Longrightarrow> x \<in> set xs \<Longrightarrow> \<exists>y. f x = Ok y"
  by (induction xs arbitrary: ys) (auto simp: and_then_Ok_iff)

lemma map_result_Ok_iff:
  "map_result f xs = Inr ys \<longleftrightarrow> list_all2 (\<lambda>x y. f x = Inr y) xs ys"
proof (induction xs arbitrary: ys)
  case Nil
  then show ?case by (cases ys) auto
next
  case (Cons x xs)
  then show ?case by (cases ys) (auto simp: and_then_Ok_iff)
qed

text \<open>The provider projection of error categories is injective: no two provider
  categories share a core category.\<close>

lemma into_error_kind_inj: "into_error_kind a = into_error_kind b \<longleftrightarrow> a = b"
  by (cases a; cases b) simp_all

section \<open>Arithmetic\<close>

definition saturating_add :: "'a::len word \<Rightarrow> 'a word \<Rightarrow> 'a word" where
  "saturating_add a b = (if unat a + unat b < 2 ^ LENGTH('a) then a + b else - 1)"

definition saturating_sub :: "'a::len word \<Rightarrow> 'a word \<Rightarrow> 'a word" where
  "saturating_sub a b = (if b \<le> a then a - b else 0)"

definition saturating_mul :: "'a::len word \<Rightarrow> 'a word \<Rightarrow> 'a word" where
  "saturating_mul a b = (if unat a * unat b < 2 ^ LENGTH('a) then a * b else - 1)"

definition checked_add :: "'a::len word \<Rightarrow> 'a word \<Rightarrow> 'a word option" where
  "checked_add a b = (if unat a + unat b < 2 ^ LENGTH('a) then Some (a + b) else None)"

definition checked_sub :: "'a::len word \<Rightarrow> 'a word \<Rightarrow> 'a word option" where
  "checked_sub a b = (if b \<le> a then Some (a - b) else None)"

lemma unat_less_exp: "unat (w :: 'a::len word) < 2 ^ LENGTH('a)"
  by (rule unsigned_less)

lemma unat_minus_one_word: "unat (- 1 :: 'a::len word) = 2 ^ LENGTH('a) - 1"
  by (simp add: unsigned_minus_1_eq_mask mask_eq_exp_minus_1)

lemma unat_saturating_add:
  "unat (saturating_add a b) = min (unat a + unat b) (2 ^ LENGTH('a) - 1)"
  for a b :: "'a::len word"
  by (auto simp: saturating_add_def unat_minus_one_word unat_word_ariths min_def)

lemma unat_saturating_mul:
  "unat (saturating_mul a b) = min (unat a * unat b) (2 ^ LENGTH('a) - 1)"
  for a b :: "'a::len word"
proof (cases "unat a * unat b < 2 ^ LENGTH('a)")
  case True
  then show ?thesis by (simp add: saturating_mul_def unat_word_ariths)
next
  case False
  then have "2 ^ LENGTH('a) - 1 \<le> unat a * unat b" by linarith
  with False show ?thesis by (simp add: saturating_mul_def unat_minus_one_word)
qed

lemma unat_saturating_sub: "unat (saturating_sub a b) = unat a - unat b"
  by (auto simp: saturating_sub_def unat_sub word_le_nat_alt)

lemma checked_add_Some: "checked_add a b = Some c \<Longrightarrow> unat c = unat a + unat b"
  by (auto simp: checked_add_def unat_word_ariths split: if_splits)

lemma checked_add_one: "checked_add (g :: u64) 1 = Some n \<Longrightarrow> n = g + 1 \<and> g \<noteq> - 1"
  using unat_minus_one_word [where ?'a = 64]
  by (auto simp: checked_add_def split: if_split_asm)

lemma checked_add_one_Some: "g \<noteq> - 1 \<Longrightarrow> checked_add (g :: u64) 1 = Some (g + 1)"
proof -
  assume "g \<noteq> - 1"
  then have "unat g \<noteq> 2 ^ 64 - 1" using unat_minus_one_word [where ?'a = 64] word_unat_eq_iff [of g "- 1"] by simp
  then show ?thesis using unat_less_exp [of g] by (simp add: checked_add_def)
qed

lemma checked_sub_Some: "checked_sub a b = Some c \<Longrightarrow> unat a = unat c + unat b"
  by (auto simp: checked_sub_def unat_sub word_le_nat_alt split: if_splits)

section \<open>Host time\<close>

text \<open>A host time is a number of nanoseconds since the epoch, whose whole seconds are a signed
  64-bit count; arithmetic past that fails.\<close>

definition checked_add_time :: "int \<Rightarrow> int \<Rightarrow> int option" where
  "checked_add_time t d = (if (t + d) div 10 ^ 9 < 2 ^ 63 then Some (t + d) else None)"

definition checked_sub_time :: "int \<Rightarrow> int \<Rightarrow> int option" where
  "checked_sub_time t d = (if - (2 ^ 63) \<le> (t - d) div 10 ^ 9 then Some (t - d) else None)"

definition host_time :: "int \<Rightarrow> bool" where
  "host_time t \<longleftrightarrow> - (2 ^ 63) \<le> t div 10 ^ 9 \<and> t div 10 ^ 9 < 2 ^ 63"

section \<open>Big-endian byte strings\<close>

primrec be_bytes :: "nat \<Rightarrow> nat \<Rightarrow> byte list" where
  "be_bytes 0 v = []"
| "be_bytes (Suc n) v = be_bytes n (v div 256) @ [word_of_nat v]"

definition from_be :: "byte list \<Rightarrow> nat" where
  "from_be bs = foldl (\<lambda>acc b. acc * 256 + unat b) 0 bs"

definition to_be_bytes_u16 :: "u16 \<Rightarrow> byte list" where
  "to_be_bytes_u16 w = be_bytes 2 (unat w)"

definition to_be_bytes_u32 :: "u32 \<Rightarrow> byte list" where
  "to_be_bytes_u32 w = be_bytes 4 (unat w)"

definition to_be_bytes_u64 :: "u64 \<Rightarrow> byte list" where
  "to_be_bytes_u64 w = be_bytes 8 (unat w)"

definition from_be_bytes :: "byte list \<Rightarrow> 'a::len word" where
  "from_be_bytes bs = word_of_nat (from_be bs)"

lemma length_be_bytes [simp]: "length (be_bytes n v) = n"
  by (induction n arbitrary: v) auto

lemma from_be_Nil [simp]: "from_be [] = 0"
  by (simp add: from_be_def)

lemma from_be_snoc [simp]: "from_be (bs @ [b]) = from_be bs * 256 + unat b"
  by (simp add: from_be_def)

lemma from_be_be_bytes: "from_be (be_bytes n v) = v mod 256 ^ n"
proof (induction n arbitrary: v)
  case (Suc n)
  have "v div 256 mod 256 ^ n * 256 + v mod 256 = v mod 256 ^ Suc n"
    by (simp add: mod_mult2_eq mult.commute)
  then show ?case by (simp add: Suc unat_of_nat)
qed simp

lemma be_bytes_from_be: "length bs = n \<Longrightarrow> be_bytes n (from_be bs) = bs"
proof (induction bs arbitrary: n rule: rev_induct)
  case (snoc b bs)
  have "(from_be bs * 256 + unat b) div 256 = from_be bs"
    using unat_less_exp [of b] by simp
  moreover have "word_of_nat (from_be bs * 256 + unat b) = b"
  proof -
    have "word_of_nat (from_be bs * 256 + unat b) = word_of_nat (from_be bs) * (256::byte) + b"
      by simp
    also have "(256::byte) = 0" by simp
    finally show ?thesis by simp
  qed
  ultimately show ?case using snoc by auto
qed simp

lemma from_be_less: "from_be bs < 256 ^ length bs"
proof -
  have "from_be bs = from_be bs mod 256 ^ length bs"
    by (metis be_bytes_from_be from_be_be_bytes)
  then show ?thesis by (metis mod_less_divisor zero_less_numeral zero_less_power)
qed

lemma length_to_be [simp]:
  "length (to_be_bytes_u16 a) = 2" "length (to_be_bytes_u32 b) = 4" "length (to_be_bytes_u64 c) = 8"
  by (simp_all add: to_be_bytes_u16_def to_be_bytes_u32_def to_be_bytes_u64_def)

lemma from_to_be_u16 [simp]: "from_be_bytes (to_be_bytes_u16 w) = w"
  using unat_less_exp [of w] by (simp add: from_be_bytes_def to_be_bytes_u16_def from_be_be_bytes)

lemma from_to_be_u32 [simp]: "from_be_bytes (to_be_bytes_u32 w) = w"
  using unat_less_exp [of w] by (simp add: from_be_bytes_def to_be_bytes_u32_def from_be_be_bytes)

lemma from_to_be_u64 [simp]: "from_be_bytes (to_be_bytes_u64 w) = w"
  using unat_less_exp [of w] by (simp add: from_be_bytes_def to_be_bytes_u64_def from_be_be_bytes)

lemma to_from_be_u16: "length bs = 2 \<Longrightarrow> to_be_bytes_u16 (from_be_bytes bs) = bs"
  using from_be_less [of bs]
  by (simp add: from_be_bytes_def to_be_bytes_u16_def unat_of_nat be_bytes_from_be)

lemma to_from_be_u32: "length bs = 4 \<Longrightarrow> to_be_bytes_u32 (from_be_bytes bs) = bs"
  using from_be_less [of bs]
  by (simp add: from_be_bytes_def to_be_bytes_u32_def unat_of_nat be_bytes_from_be)

lemma to_be_bytes_u64_inj: "to_be_bytes_u64 a = to_be_bytes_u64 b \<Longrightarrow> a = b"
  using from_to_be_u64 by metis

lemma to_from_be_u64: "length bs = 8 \<Longrightarrow> to_be_bytes_u64 (from_be_bytes bs) = bs"
  using from_be_less [of bs]
  by (simp add: from_be_bytes_def to_be_bytes_u64_def unat_of_nat be_bytes_from_be)


section \<open>Lists\<close>

primrec join :: "'a list \<Rightarrow> 'a list list \<Rightarrow> 'a list" where
  "join sep [] = []"
| "join sep (x # xs) = (case xs of [] \<Rightarrow> x | _ \<Rightarrow> x @ sep @ join sep xs)"

lemma join_Cons_Cons [simp]: "join sep (x # y # ys) = x @ sep @ join sep (y # ys)"
  by simp

text \<open>A strictly sorted list is its own sort without adjacent duplicates.\<close>

lemma strict_sorted_imp_distinct: "sorted_wrt (<) xs \<Longrightarrow> distinct (xs :: 'a::linorder list)"
  by (simp add: strict_sorted_iff)

lemma strict_sorted_sort_id: "sorted_wrt (<) xs \<Longrightarrow> sort xs = (xs :: 'a::linorder list)"
  by (simp add: strict_sorted_iff sorted_sort_id)

lemma strict_sorted_remdups_adj:
  "sorted_wrt (<) xs \<Longrightarrow> remdups_adj xs = (xs :: 'a::linorder list)"
  by (simp add: strict_sorted_iff remdups_adj_distinct)

lemma sorted_remdups_adj_strict: "sorted xs \<Longrightarrow> sorted_wrt (<) (remdups_adj (xs :: 'a::linorder list))"
proof (induction xs rule: remdups_adj.induct)
  case (3 x y ys)
  show ?case
  proof (cases "x = y")
    case False
    with "3.prems" have "x < y" "\<forall>z\<in>set (y # ys). y \<le> z" by auto
    then have "\<forall>z\<in>set (remdups_adj (y # ys)). x < z" by fastforce
    with 3 False show ?thesis by simp
  qed (use 3 in auto)
qed simp_all

lemma dedup_sort_strict [simp]: "sorted_wrt (<) (remdups_adj (sort (xs :: 'a::linorder list)))"
  by (rule sorted_remdups_adj_strict) simp

lemma dedup_sort_idem [simp]:
  "remdups_adj (sort (remdups_adj (sort xs))) = remdups_adj (sort (xs :: 'a::linorder list))"
  by (simp add: strict_sorted_sort_id strict_sorted_remdups_adj)

section \<open>Ordered maps and sets\<close>

text \<open>
  A \<^verbatim>\<open>BTreeMap\<close> is an association list with strictly increasing keys. Its iteration
  order is the list order; \<open>map_of\<close> is its lookup.
\<close>

type_synonym ('k, 'v) btree = "('k \<times> 'v) list"

definition bt_ok :: "('k::linorder, 'v) btree \<Rightarrow> bool" where
  "bt_ok m = sorted_wrt (<) (map fst m)"

fun bt_insert :: "'k::linorder \<Rightarrow> 'v \<Rightarrow> ('k, 'v) btree \<Rightarrow> ('k, 'v) btree" where
  "bt_insert k v [] = [(k, v)]"
| "bt_insert k v ((a, b) # m) =
     (if k < a then (k, v) # (a, b) # m
      else if k = a then (k, v) # m
      else (a, b) # bt_insert k v m)"

definition bt_remove :: "'k \<Rightarrow> ('k, 'v) btree \<Rightarrow> ('k, 'v) btree" where
  "bt_remove k m = filter (\<lambda>e. fst e \<noteq> k) m"

abbreviation bt_get :: "('k, 'v) btree \<Rightarrow> 'k \<Rightarrow> 'v option" where
  "bt_get m k \<equiv> map_of m k"

definition bs_insert :: "'k::linorder \<Rightarrow> 'k list \<Rightarrow> 'k list" where
  "bs_insert k s = map fst (bt_insert k () (map (\<lambda>x. (x, ())) s))"

definition bs_of_list :: "'k::linorder list \<Rightarrow> 'k list" where
  "bs_of_list xs = fold bs_insert xs []"

text \<open>The laws a client of an ordered map relies on.\<close>

locale ordered_map =
  fixes get :: "'m \<Rightarrow> 'k \<Rightarrow> 'v option"
    and ins :: "'k \<Rightarrow> 'v \<Rightarrow> 'm \<Rightarrow> 'm"
    and del :: "'k \<Rightarrow> 'm \<Rightarrow> 'm"
    and empty :: 'm
    and inv :: "'m \<Rightarrow> bool"
  assumes get_empty: "get empty k = None"
    and get_ins: "inv m \<Longrightarrow> get (ins k v m) k' = (if k' = k then Some v else get m k')"
    and get_del: "inv m \<Longrightarrow> get (del k m) k' = (if k' = k then None else get m k')"
    and inv_empty: "inv empty"
    and inv_ins: "inv m \<Longrightarrow> inv (ins k v m)"
    and inv_del: "inv m \<Longrightarrow> inv (del k m)"
begin

lemma get_ins_same: "inv m \<Longrightarrow> get (ins k v m) k = Some v"
  by (simp add: get_ins)

lemma ins_then_del: "inv m \<Longrightarrow> get m k = None \<Longrightarrow> get (del k (ins k v m)) = get m"
  by (auto simp: fun_eq_iff get_ins get_del inv_ins)

lemma inv_fold_ins: "inv m \<Longrightarrow> inv (fold (\<lambda>(k, v). ins k v) kvs m)"
  by (induction kvs arbitrary: m) (auto simp: inv_ins)

lemma dom_fold_ins:
  "inv m \<Longrightarrow> dom (get (fold (\<lambda>(k, v). ins k v) kvs m)) = fst ` set kvs \<union> dom (get m)"
proof (induction kvs arbitrary: m)
  case (Cons kv kvs)
  then show ?case by (cases kv) (auto simp: get_ins inv_ins split: if_splits)
qed simp

end

lemma bt_ok_Nil [simp]: "bt_ok []"
  by (simp add: bt_ok_def)

lemma bt_ok_Cons: "bt_ok ((k, v) # m) \<longleftrightarrow> (\<forall>x\<in>set m. k < fst x) \<and> bt_ok m"
  by (auto simp: bt_ok_def)

lemma set_fst_bt_insert: "fst ` set (bt_insert k v m) = insert k (fst ` set m)"
  by (induction k v m rule: bt_insert.induct) auto

lemma bt_insert_ok: "bt_ok m \<Longrightarrow> bt_ok (bt_insert k v m)"
proof (induction k v m rule: bt_insert.induct)
  case (2 k v a b m)
  have "\<forall>y\<in>fst ` set (bt_insert k v m). a < y" if "\<not> k < a" "k \<noteq> a"
    unfolding set_fst_bt_insert using "2.prems" that by (auto simp: bt_ok_Cons)
  with 2 show ?case by (force simp: bt_ok_Cons)
qed (simp add: bt_ok_def)

lemma bt_get_insert: "bt_get (bt_insert k v m) k' = (if k' = k then Some v else bt_get m k')"
  by (induction k v m rule: bt_insert.induct) auto

lemma bt_get_remove: "bt_get (bt_remove k m) k' = (if k' = k then None else bt_get m k')"
  unfolding bt_remove_def by (induction m) auto

lemma bt_remove_ok: "bt_ok m \<Longrightarrow> bt_ok (bt_remove k m)"
  by (induction m) (auto simp: bt_ok_def bt_remove_def)

interpretation bt: ordered_map "map_of :: ('k::linorder \<times> 'v) list \<Rightarrow> _" bt_insert bt_remove "[]" bt_ok
  by unfold_locales (simp_all add: bt_get_insert bt_get_remove bt_insert_ok bt_remove_ok)

lemma bt_ok_distinct: "bt_ok m \<Longrightarrow> distinct (map fst m)"
  by (simp add: bt_ok_def strict_sorted_imp_distinct)

lemma bt_get_iff: "bt_ok m \<Longrightarrow> bt_get m k = Some v \<longleftrightarrow> (k, v) \<in> set m"
  by (simp add: bt_ok_distinct)

lemma length_bt_insert:
  "bt_ok m \<Longrightarrow> length (bt_insert k v m) = (if bt_get m k = None then Suc (length m) else length m)"
proof (induction k v m rule: bt_insert.induct)
  case (2 k v a b m)
  then show ?case
    by (auto simp: bt_ok_Cons map_of_eq_None_iff split: if_splits)
qed simp

lemma length_bt_remove_le: "length (bt_remove k m) \<le> length m"
  by (simp add: bt_remove_def)

lemma set_bs_insert [simp]: "set (bs_insert k s) = insert k (set s)"
  using set_fst_bt_insert [of k "()" "map (\<lambda>x. (x, ())) s"]
  by (simp add: bs_insert_def image_image)

lemma bs_insert_sorted: "sorted_wrt (<) s \<Longrightarrow> sorted_wrt (<) (bs_insert k s)"
  using bt_insert_ok [of "map (\<lambda>x. (x, ())) s" k "()"]
  by (simp add: bs_insert_def bt_ok_def comp_def)

lemma bs_of_list_aux:
  "sorted_wrt (<) s \<Longrightarrow> sorted_wrt (<) (fold bs_insert xs s) \<and> set (fold bs_insert xs s) = set xs \<union> set s"
  by (induction xs arbitrary: s) (auto simp: bs_insert_sorted)

lemma set_bs_of_list [simp]: "set (bs_of_list xs) = set xs"
  using bs_of_list_aux [of "[]" xs] by (simp add: bs_of_list_def)

lemma bs_of_list_sorted [simp]: "sorted_wrt (<) (bs_of_list xs)"
  using bs_of_list_aux [of "[]" xs] by (simp add: bs_of_list_def)

lemma strict_sorted_eqI:
  "sorted_wrt (<) xs \<Longrightarrow> sorted_wrt (<) ys \<Longrightarrow> set xs = set ys \<Longrightarrow> xs = (ys :: 'a::linorder list)"
  by (rule strict_sorted_equal)

lemma bs_of_list_cong: "set xs = set ys \<Longrightarrow> bs_of_list xs = bs_of_list ys"
  by (rule strict_sorted_eqI) simp_all

lemma bt_fold_insert_get:
  "distinct (map fst kvs) \<Longrightarrow>
   bt_get (fold (\<lambda>(k, v). bt_insert k v) kvs m) k = (case map_of kvs k of Some v \<Rightarrow> Some v | None \<Rightarrow> bt_get m k)"
proof (induction kvs arbitrary: m)
  case (Cons kv kvs)
  obtain a b where kv: "kv = (a, b)" by (cases kv)
  have n: "map_of kvs a = None" using Cons.prems by (simp add: kv map_of_eq_None_iff)
  have "bt_get (fold (\<lambda>(k, v). bt_insert k v) (kv # kvs) m) k =
      (case map_of kvs k of Some v \<Rightarrow> Some v | None \<Rightarrow> if k = a then Some b else bt_get m k)"
    using Cons.IH [of "bt_insert a b m"] Cons.prems by (simp add: kv bt_get_insert split: option.split)
  with n show ?case by (simp add: kv split: option.split)
qed simp

lemma bt_set_ext:
  assumes "bt_ok m" "bt_ok m'" "set m = set m'"
  shows "m = m'"
  using assms(3) bt_ok_distinct [OF assms(1)] bt_ok_distinct [OF assms(2)] assms(1,2) [unfolded bt_ok_def]
  by (intro map_sorted_distinct_set_unique [of fst]) (simp_all add: strict_sorted_imp_sorted distinct_map)

lemma bt_ext: "bt_ok m \<Longrightarrow> bt_ok m' \<Longrightarrow> bt_get m = bt_get m' \<Longrightarrow> m = m'"
  by (rule bt_set_ext) (auto simp flip: bt_get_iff)

lemma length_eq_card_keys: "bt_ok m \<Longrightarrow> length m = card (dom (bt_get m))"
  using distinct_card [of "map fst m"] by (simp add: bt_ok_distinct dom_map_of_conv_image_fst)

lemma bt_fold_insert_length:
  "distinct (map fst kvs) \<Longrightarrow> length (fold (\<lambda>(k, v). bt_insert k v) kvs []) = length kvs"
proof -
  assume d: "distinct (map fst kvs)"
  have "length (fold (\<lambda>(k, v). bt_insert k v) kvs []) = card (fst ` set kvs)"
    using length_eq_card_keys [OF bt.inv_fold_ins [OF bt_ok_Nil, of kvs]] bt.dom_fold_ins [OF bt_ok_Nil, of kvs]
    by simp
  also have "\<dots> = length kvs" using distinct_card [OF d] by simp
  finally show ?thesis .
qed

lemma prefix_imp_list_le: "prefix p k \<Longrightarrow> p \<le> (k :: 'a::linorder list)"
  by (induction p k rule: list_induct2') auto

lemma sorted_wrt_filter_map:
  "sorted_wrt (<) (map f xs) \<Longrightarrow> sorted_wrt (<) (map f (filter P xs))"
  by (induction xs) auto

lemma prefix_convex: "p \<le> a \<Longrightarrow> a \<le> b \<Longrightarrow> prefix p b \<Longrightarrow> prefix p (a :: 'a::linorder list)"
proof (induction p arbitrary: a b)
  case (Cons x p)
  from Cons.prems(3) obtain b' where b: "b = x # b'" "prefix p b'" by (cases b) auto
  from Cons.prems obtain y a' where a: "a = y # a'" by (cases a) auto
  with Cons.prems b have "x = y" "p \<le> a'" "a' \<le> b'" by auto
  with Cons.IH [of a' b'] a b show ?case by simp
qed simp

lemma takeWhile_prefix_sorted:
  "sorted_wrt (<) (map fst xs) \<Longrightarrow> \<forall>x \<in> set xs. p \<le> fst x \<Longrightarrow>
   takeWhile (\<lambda>x. prefix p (fst x)) xs = filter (\<lambda>x. prefix p (fst x)) (xs :: ('a::linorder list \<times> 'b) list)"
proof (induction xs)
  case (Cons x xs)
  show ?case
  proof (cases "prefix p (fst x)")
    case False
    have "\<not> prefix p (fst y)" if "y \<in> set xs" for y
      using that Cons.prems False prefix_convex [of p "fst x" "fst y"] by (auto simp: less_imp_le)
    with False show ?thesis by (simp add: filter_empty_conv)
  qed (use Cons in simp)
qed simp

lemma append_less_append: "n @ a < n @ b \<longleftrightarrow> a < (b :: 'a::linorder list)"
  by (induction n) auto

lemma sorted_drop_prefix:
  "sorted_wrt (<) (map fst xs) \<Longrightarrow> \<forall>x \<in> set xs. prefix n (fst x) \<Longrightarrow>
   sorted_wrt (<) (map (\<lambda>x. drop (length n) (fst x)) (xs :: ('a::linorder list \<times> 'b) list))"
proof (induction xs)
  case (Cons x xs)
  have "drop (length n) (fst x) < drop (length n) (fst y)" if "y \<in> set xs" for y
  proof -
    have "fst x < fst y" "prefix n (fst x)" "prefix n (fst y)" using Cons.prems that by auto
    then show ?thesis by (auto simp: prefix_def append_less_append)
  qed
  with Cons show ?case by auto
qed simp

lemmas bt_facts [bt_simps] = bt_get_insert bt_get_remove bt_insert_ok bt_remove_ok

end
