(* ===== verification/Hex_Codec.thy ===== *)
theory Hex_Codec
  imports Relay_Prelude
begin

text \<open>
  The crate-private lowercase hexadecimal codec of \<^verbatim>\<open>src/src/hex.rs\<close>. The main
  result is that decoding accepts exactly the image of encoding, so every byte string
  has one textual form.
\<close>

definition HEX :: ustr where
  "HEX = lit ''0123456789abcdef''"

definition hex_encode :: "byte list \<Rightarrow> ustr" where
  "hex_encode bytes =
     concat (map (\<lambda>b. [HEX ! unat (drop_bit 4 b), HEX ! unat (b AND 15)]) bytes)"

definition is_hex_digit :: "byte \<Rightarrow> bool" where
  "is_hex_digit b = ((48 \<le> b \<and> b \<le> 57) \<or> (97 \<le> b \<and> b \<le> 102))"

definition hex_value :: "byte \<Rightarrow> string \<Rightarrow> byte result" where
  "hex_value b ctx =
     (if 48 \<le> b \<and> b \<le> 57 then Ok (b - 48)
      else if 97 \<le> b \<and> b \<le> 102 then Ok (b - 97 + 10)
      else Err (invalid_input ctx))"

fun hex_pairs :: "byte list \<Rightarrow> string \<Rightarrow> byte list result" where
  "hex_pairs (a # b # rest) ctx =
     and_then (hex_value a ctx) (\<lambda>h.
     and_then (hex_value b ctx) (\<lambda>l.
     and_then (hex_pairs rest ctx) (\<lambda>out. Ok ((push_bit 4 h OR l) # out))))"
| "hex_pairs _ ctx = Ok []"

definition hex_decode :: "ustr \<Rightarrow> string \<Rightarrow> byte list result" where
  "hex_decode value ctx =
     (if str_len value mod 2 \<noteq> 0 \<or> \<not> list_all is_hex_digit (as_bytes value)
      then Err (invalid_input ctx)
      else hex_pairs (as_bytes value) ctx)"

definition hex_decode_array :: "nat \<Rightarrow> ustr \<Rightarrow> string \<Rightarrow> byte list result" where
  "hex_decode_array n value ctx =
     and_then (hex_decode value ctx) (\<lambda>bytes.
       if length bytes = n then Ok bytes else Err (invalid_input ctx))"

lemma fifteen_mask: "b AND (15 :: byte) = take_bit 4 b"
  by (simp add: take_bit_eq_mask mask_eq_exp_minus_1)

lemma unat_high_nibble: "unat (drop_bit 4 (b :: byte)) = unat b div 16"
proof -
  have "unat (drop_bit 4 b) = drop_bit 4 (unat b)" by (rule unat_drop_bit_eq)
  then show ?thesis by (simp add: drop_bit_nat_def)
qed

lemma unat_low_nibble: "unat (b AND (15 :: byte)) = unat b mod 16"
proof -
  have "unat (b AND 15) = take_bit 4 (unat b)" by (simp only: fifteen_mask unsigned_take_bit_eq)
  then show ?thesis by (simp add: take_bit_nat_def)
qed

lemma bit_byte_less_16: "unat (l :: byte) < 16 \<Longrightarrow> bit l n \<Longrightarrow> n < 4"
proof -
  assume "unat l < 16" and b: "bit l n"
  then have "take_bit 4 (unat l) = unat l" by (simp add: take_bit_nat_def)
  then have "take_bit 4 l = l"
    by (metis unsigned_take_bit_eq unsigned_word_eqI)
  with b have "bit (take_bit 4 l) n" by simp
  then show "n < 4" by (simp add: bit_take_bit_iff)
qed

lemma unat_join_nibbles:
  assumes "unat (h :: byte) < 16" "unat (l :: byte) < 16"
  shows "unat (push_bit 4 h OR l) = unat h * 16 + unat l"
proof -
  have "push_bit 4 h + l = push_bit 4 h OR l"
  proof (rule disjunctive_add)
    fix n
    show "\<not> bit (push_bit 4 h) n \<or> \<not> bit l n"
      using bit_byte_less_16 [OF assms(2), of n] by (auto simp: bit_push_bit_iff)
  qed
  moreover have "unat (push_bit 4 h + l) = unat h * 16 + unat l"
    using assms by (simp add: push_bit_eq_mult unat_word_ariths mult.commute)
  ultimately show ?thesis by simp
qed

lemma byte_nibbles: "push_bit 4 (drop_bit 4 b) OR (b AND 15) = (b :: byte)"
proof -
  have "unat (drop_bit 4 b) < 16" "unat (b AND 15) < 16"
    using unat_less_exp [of b] by (simp_all only: unat_high_nibble unat_low_nibble) simp_all
  then have "unat (push_bit 4 (drop_bit 4 b) OR (b AND 15)) = unat b div 16 * 16 + unat b mod 16"
    by (simp only: unat_join_nibbles unat_high_nibble unat_low_nibble)
  then show ?thesis by (simp only: word_unat_eq_iff) simp
qed


lemma HEX_length [simp]: "length HEX = 16"
  by (simp add: HEX_def)

lemma HEX_nth:
  assumes "n < 16"
  shows "HEX ! n = (if n < 10 then 48 + n else 87 + n)"
proof -
  have "list_all (\<lambda>n. HEX ! n = (if n < 10 then 48 + n else 87 + n)) [0..<16]"
    by code_simp
  with assms show ?thesis by (simp add: list_all_iff)
qed

lemma hex_value_nat:
  "hex_value b ctx =
     (if 48 \<le> unat b \<and> unat b \<le> 57 then Ok (word_of_nat (unat b - 48))
      else if 97 \<le> unat b \<and> unat b \<le> 102 then Ok (word_of_nat (unat b - 87))
      else Err (invalid_input ctx))"
proof -
  have "b - 48 = word_of_nat (unat b - 48)" if "48 \<le> unat b"
    using that by (simp add: of_nat_diff)
  moreover have "b - 97 + 10 = word_of_nat (unat b - 87)" if "97 \<le> unat b"
    using that by (simp add: of_nat_diff)
  ultimately show ?thesis by (auto simp: hex_value_def word_le_nat_alt)
qed

lemma HEX_digit:
  assumes "n < 16"
  shows "HEX ! n < 128" "is_hex_digit (word_of_nat (HEX ! n))"
    "hex_value (word_of_nat (HEX ! n)) ctx = Ok (word_of_nat n)"
proof -
  have u: "unat (word_of_nat (HEX ! n) :: byte) = (if n < 10 then 48 + n else 87 + n)"
    using assms by (simp add: HEX_nth unat_of_nat)
  show "HEX ! n < 128" using assms by (simp add: HEX_nth)
  show "is_hex_digit (word_of_nat (HEX ! n))"
    using assms unfolding is_hex_digit_def word_le_nat_alt u by auto
  show "hex_value (word_of_nat (HEX ! n)) ctx = Ok (word_of_nat n)"
    using assms unfolding hex_value_nat u by auto
qed

lemma hex_value_Ok:
  assumes "hex_value b ctx = Ok v"
  shows "unat v < 16" "HEX ! unat v = unat b" "unat b < 128"
proof -
  define n where "n = (if unat b \<le> 57 then unat b - 48 else unat b - 87)"
  have n: "v = word_of_nat n" "n < 16" "(if n < 10 then 48 + n else 87 + n) = unat b" "unat b < 128"
    using assms by (auto simp: hex_value_nat n_def split: if_splits)
  then have "unat v = n" by (simp add: unat_of_nat)
  with n show "unat v < 16" "HEX ! unat v = unat b" "unat b < 128" by (auto simp: HEX_nth)
qed

lemma is_hex_digit_iff: "is_hex_digit b \<longleftrightarrow> is_ok (hex_value b ctx)"
  by (simp add: is_hex_digit_def hex_value_def)

lemma as_bytes_small_ascii: "list_all (\<lambda>b. unat b < 128) (as_bytes s) \<Longrightarrow> is_ascii s"
proof (induction s)
  case (Cons c s)
  have "\<exists>b\<in>set (utf8_char c). \<not> unat b < 128" if "\<not> c < 128"
  proof -
    have "unat (word_of_nat (128 + c mod 64) :: byte) = 128 + c mod 64"
    proof (subst unat_of_nat)
      have "c mod 64 < 64" by simp
      then show "(128 + c mod 64) mod 2 ^ LENGTH(8) = 128 + c mod 64" by simp
    qed
    then have "\<not> unat (word_of_nat (128 + c mod 64) :: byte) < 128" by simp
    moreover have "word_of_nat (128 + c mod 64) \<in> set (utf8_char c)"
      using that by (simp add: utf8_char_def)
    ultimately show ?thesis by blast
  qed
  with Cons show ?case by (auto simp: list_all_iff)
qed simp

lemma hex_encode_Cons [simp]:
  "hex_encode (b # bs) = HEX ! unat (drop_bit 4 b) # HEX ! unat (b AND 15) # hex_encode bs"
  by (simp add: hex_encode_def)

lemma hex_encode_Nil [simp]: "hex_encode [] = []"
  by (simp add: hex_encode_def)

lemma nibbles_less: "unat (drop_bit 4 (b :: byte)) < 16" "unat (b AND (15 :: byte)) < 16"
  unfolding unat_high_nibble unat_low_nibble using unat_less_exp [of b] by simp_all

lemma hex_encode_ascii: "is_ascii (hex_encode bs)"
  by (induction bs) (auto simp: HEX_digit nibbles_less)

lemma hex_encode_digits: "list_all is_hex_digit (map word_of_nat (hex_encode bs))"
  by (induction bs) (auto simp: HEX_digit nibbles_less)

lemma even_length_hex_encode: "length (hex_encode bs) = 2 * length bs"
  by (induction bs) auto

lemma hex_pairs_encode: "hex_pairs (map word_of_nat (hex_encode bs)) ctx = Ok bs"
proof (induction bs)
  case (Cons b bs)
  then show ?case by (simp add: HEX_digit nibbles_less byte_nibbles)
qed simp

lemma hex_pairs_Ok:
  "hex_pairs bs ctx = Ok out \<Longrightarrow> even (length bs) \<Longrightarrow> map unat bs = hex_encode out"
proof (induction bs ctx arbitrary: out rule: hex_pairs.induct)
  case (1 a b rest ctx)
  then obtain h l o' where hl: "hex_value a ctx = Ok h" "hex_value b ctx = Ok l"
    and r: "hex_pairs rest ctx = Ok o'" and out: "out = (push_bit 4 h OR l) # o'"
    by (auto simp: and_then_Ok_iff)
  note h = hex_value_Ok [OF hl(1)] and l = hex_value_Ok [OF hl(2)]
  have u: "unat (push_bit 4 h OR l) = unat h * 16 + unat l"
    using h l by (simp add: unat_join_nibbles)
  have "unat (drop_bit 4 (push_bit 4 h OR l)) = unat h" "unat ((push_bit 4 h OR l) AND 15) = unat l"
    unfolding unat_high_nibble unat_low_nibble u using h l by simp_all
  with 1 r out h l show ?case by (simp only: hex_encode_Cons) auto
qed auto


text \<open>The decoder accepts a text exactly when it is the encoding of some bytes, and
  returns those bytes: encoding and decoding are inverse, and uppercase, odd-length and
  non-hexadecimal texts are rejected.\<close>

lemma hex_decode_iff_encode: "hex_decode s ctx = Ok bs \<longleftrightarrow> s = hex_encode bs"
proof
  assume "s = hex_encode bs"
  then show "hex_decode s ctx = Ok bs"
    by (simp add: hex_decode_def str_len_ascii as_bytes_ascii hex_encode_ascii hex_encode_digits
        even_length_hex_encode hex_pairs_encode)
next
  assume d: "hex_decode s ctx = Ok bs"
  then have digits: "list_all is_hex_digit (as_bytes s)" and p: "hex_pairs (as_bytes s) ctx = Ok bs"
    and len: "even (length (as_bytes s))"
    by (auto simp: hex_decode_def str_len_def split: if_splits)
  have "unat b < 128" if "is_hex_digit b" for b
    using that is_hex_digit_iff [of b ctx] hex_value_Ok(3) [of b ctx] by (auto simp: is_ok_iff)
  with digits have "is_ascii s" by (auto intro: as_bytes_small_ascii simp: list_all_iff)
  moreover from this have "map unat (as_bytes s) = s"
    by (induction s) (auto simp: unat_of_nat)
  ultimately show "s = hex_encode bs" using hex_pairs_Ok [OF p len] by simp
qed

lemma hex_decode_encode [simp]: "hex_decode (hex_encode bs) ctx = Ok bs"
  by (simp add: hex_decode_def str_len_ascii as_bytes_ascii hex_encode_ascii hex_encode_digits
      even_length_hex_encode hex_pairs_encode)

lemma hex_decode_array_length: "hex_decode_array n s ctx = Ok bs \<Longrightarrow> length bs = n"
  by (auto simp: hex_decode_array_def and_then_Ok_iff split: if_splits)

end
