(* ===== verification/Identifiers.thy ===== *)
theory Identifiers
  imports Relay_Prelude
begin

text \<open>
  The canonical identifiers of \<^verbatim>\<open>src/src/identity/id.rs\<close>: a fixed prefix followed by
  21 base-62 characters. Entropy is a provider outside the crate; one call of
  \<^verbatim>\<open>Entropy::fill\<close> is one element of a list of fallible outputs, and running past the
  list is \<open>None\<close> (the rejection loop is still waiting for entropy).
\<close>

definition RANDOM_SUFFIX_LEN :: nat where "RANDOM_SUFFIX_LEN = 21"

definition BASE62_ALPHABET :: ustr where
  "BASE62_ALPHABET = lit ''0123456789abcdefghijklmnopqrstuvwxyzABCDEFGHIJKLMNOPQRSTUVWXYZ''"

definition base62_suffix_space :: nat where
  "base62_suffix_space = 62 ^ RANDOM_SUFFIX_LEN"

text \<open>The digit loop fills the suffix from its last position to its first.\<close>

primrec base62_digits :: "nat \<Rightarrow> nat \<Rightarrow> ustr" where
  "base62_digits 0 value = []"
| "base62_digits (Suc index) value =
     base62_digits index (value div 62) @ [BASE62_ALPHABET ! (value mod 62)]"

definition encode_base62_suffix :: "nat \<Rightarrow> ustr" where
  "encode_base62_suffix value = base62_digits RANDOM_SUFFIX_LEN value"

fun random_base62_suffix ::
  "byte list result list \<Rightarrow> (ustr result \<times> byte list result list) option" where
  "random_base62_suffix [] = None"
| "random_base62_suffix (fill # entropy) =
     (case fill of
        Inl e \<Rightarrow> Some (Err e, entropy)
      | Inr candidate \<Rightarrow>
          (let value = from_be candidate
           in if value \<ge> base62_suffix_space then random_base62_suffix entropy
              else Some (Ok (encode_base62_suffix value), entropy)))"

definition is_base62 :: "byte \<Rightarrow> bool" where
  "is_base62 b = ((48 \<le> b \<and> b \<le> 57) \<or> (97 \<le> b \<and> b \<le> 122) \<or> (65 \<le> b \<and> b \<le> 90))"

definition validate_id :: "ustr \<Rightarrow> ustr \<Rightarrow> string \<Rightarrow> unit result" where
  "validate_id value pre ctx =
     (let expected_len = str_len pre + RANDOM_SUFFIX_LEN
      in if str_len value \<noteq> expected_len \<or> \<not> prefix (as_bytes pre) (as_bytes value)
         then Err (invalid_input ctx)
         else if \<not> list_all is_base62 (drop (str_len pre) (as_bytes value))
         then Err (invalid_input ctx)
         else Ok ())"

text \<open>The identifier families share one grammar and differ in prefix and context.\<close>

datatype id_family =
  NodeId | ClusterId | TraceId | TransactionId | ListenerId | SessionId | KeyOperationId

fun id_prefix :: "id_family \<Rightarrow> ustr" where
  "id_prefix NodeId = lit ''node_''"
| "id_prefix ClusterId = lit ''cluster_''"
| "id_prefix TraceId = lit ''trace_''"
| "id_prefix TransactionId = lit ''txn_''"
| "id_prefix ListenerId = lit ''listener_''"
| "id_prefix SessionId = lit ''session_''"
| "id_prefix KeyOperationId = lit ''keyop_''"

fun id_context :: "id_family \<Rightarrow> string" where
  "id_context NodeId = ''node id''"
| "id_context ClusterId = ''cluster id''"
| "id_context TraceId = ''trace id''"
| "id_context TransactionId = ''transaction id''"
| "id_context ListenerId = ''listener id''"
| "id_context SessionId = ''session id''"
| "id_context KeyOperationId = ''key operation id''"

definition id_parse :: "id_family \<Rightarrow> ustr \<Rightarrow> ustr result" where
  "id_parse fam value =
     and_then (validate_id value (id_prefix fam) (id_context fam)) (\<lambda>_. Ok value)"

definition id_generate ::
  "id_family \<Rightarrow> byte list result list \<Rightarrow> (ustr result \<times> byte list result list) option" where
  "id_generate fam entropy =
     map_option (\<lambda>(r, rest). (and_then r (\<lambda>suffix. Ok (id_prefix fam @ suffix)), rest))
       (random_base62_suffix entropy)"

lemma length_alphabet [simp]: "length BASE62_ALPHABET = 62"
  by (simp add: BASE62_ALPHABET_def)

lemma alphabet_base62:
  assumes "n < 62"
  shows "BASE62_ALPHABET ! n < 128" "is_base62 (word_of_nat (BASE62_ALPHABET ! n))"
proof -
  have "list_all (\<lambda>c. c < 128 \<and> is_base62 (word_of_nat c)) BASE62_ALPHABET"
    by (simp add: BASE62_ALPHABET_def is_base62_def)
  with assms show "BASE62_ALPHABET ! n < 128" "is_base62 (word_of_nat (BASE62_ALPHABET ! n))"
    by (simp_all add: list_all_iff)
qed

lemma distinct_alphabet: "distinct BASE62_ALPHABET"
  by (simp add: BASE62_ALPHABET_def)

lemma base62_digits_ok:
  "length (base62_digits n v) = n \<and> is_ascii (base62_digits n v) \<and>
   list_all is_base62 (map word_of_nat (base62_digits n v))"
  by (induction n arbitrary: v) (auto simp: alphabet_base62)

lemma base62_digits_inj:
  "v < 62 ^ n \<Longrightarrow> w < 62 ^ n \<Longrightarrow> base62_digits n v = base62_digits n w \<Longrightarrow> v = w"
proof (induction n arbitrary: v w)
  case (Suc n)
  have "v div 62 = w div 62"
    using Suc.prems by (intro Suc.IH) auto
  moreover have "v mod 62 = w mod 62"
    using Suc.prems(3) distinct_alphabet by (simp add: nth_eq_iff_index_eq)
  ultimately show ?case by (metis div_mult_mod_eq)
qed simp

lemma random_base62_suffix_Ok:
  "random_base62_suffix entropy = Some (Ok s, rest) \<Longrightarrow>
     \<exists>v < base62_suffix_space. s = encode_base62_suffix v"
  by (induction entropy rule: random_base62_suffix.induct)
    (force simp: Let_def not_le split: sum.splits if_splits)+

lemma id_prefix_ascii [simp]: "is_ascii (id_prefix fam)"
  by (cases fam) simp_all

lemma id_parse_suffix:
  assumes "v < base62_suffix_space"
  shows "id_parse fam (id_prefix fam @ encode_base62_suffix v) = Ok (id_prefix fam @ encode_base62_suffix v)"
proof -
  let ?p = "id_prefix fam" and ?s = "encode_base62_suffix v"
  have s: "length ?s = RANDOM_SUFFIX_LEN" "is_ascii ?s" "list_all is_base62 (map word_of_nat ?s)"
    using base62_digits_ok [of RANDOM_SUFFIX_LEN v] by (simp_all add: encode_base62_suffix_def)
  then have "validate_id (?p @ ?s) ?p (id_context fam) = Ok ()"
    by (simp add: validate_id_def as_bytes_ascii str_len_ascii)
  then show ?thesis by (simp add: id_parse_def)
qed

lemma base62_digits_numeral:
  "base62_digits (numeral k) v =
     base62_digits (pred_numeral k) (v div 62) @ [BASE62_ALPHABET ! (v mod 62)]"
  by (simp only: numeral_eq_Suc [of k] base62_digits.simps)

text \<open>Every identifier the crate generates is accepted by its own parser unchanged,
  whatever the entropy source delivers.\<close>

lemma id_generate_parses:
  assumes "id_generate fam entropy = Some (Ok ident, rest)"
  shows "id_parse fam ident = Ok ident"
proof -
  obtain s where s: "random_base62_suffix entropy = Some (Ok s, rest)" "ident = id_prefix fam @ s"
    using assms by (auto simp: id_generate_def and_then_Ok_iff)
  then show ?thesis using random_base62_suffix_Ok id_parse_suffix by metis
qed

lemma encode_base62_suffix_inj:
  "v < base62_suffix_space \<Longrightarrow> w < base62_suffix_space \<Longrightarrow>
   encode_base62_suffix v = encode_base62_suffix w \<Longrightarrow> v = w"
  by (auto simp: encode_base62_suffix_def base62_suffix_space_def dest: base62_digits_inj)

text \<open>Identifiers with a small suffix, for concrete inputs.\<close>

definition sample_ident :: "id_family \<Rightarrow> nat \<Rightarrow> ustr" where
  "sample_ident fam v = id_prefix fam @ encode_base62_suffix v"

lemma sample_ident_parse: "v < 62 \<Longrightarrow> id_parse fam (sample_ident fam v) = Ok (sample_ident fam v)"
  unfolding sample_ident_def by (rule id_parse_suffix) (simp add: base62_suffix_space_def RANDOM_SUFFIX_LEN_def)

end
