(* ===== verification/Qualified_Tags.thy ===== *)
theory Qualified_Tags
  imports Relay_Prelude
begin

text \<open>
  Domain-qualified tags (\<^verbatim>\<open>src/src/protocol/tag.rs\<close>) and the labels built on them
  (\<^verbatim>\<open>src/src/label.rs\<close>). The DNS grammar belongs to the external \<^verbatim>\<open>domain\<close> crate:
  \<open>dns\<close> is whether \<^verbatim>\<open>Name::from_str\<close> accepts a host, a parameter of every
  definition that parses a tag. The theorems that re-parse a canonical tag rely on one
  documented fact about it, that host names are case-insensitive.
\<close>

section \<open>Splitting at a separator\<close>

fun split_on :: "'a \<Rightarrow> 'a list \<Rightarrow> 'a list list" where
  "split_on c [] = [[]]"
| "split_on c (x # xs) =
     (if x = c then [] # split_on c xs
      else case split_on c xs of [] \<Rightarrow> [[x]] | p # ps \<Rightarrow> (x # p) # ps)"

lemma split_on_nonempty [simp]: "split_on c s \<noteq> []"
  by (induction s) (auto split: list.splits)

lemma split_on_append: "c \<notin> set p \<Longrightarrow> split_on c (p @ c # s) = p # split_on c s"
  by (induction p) auto

lemma split_on_notin: "c \<notin> set p \<Longrightarrow> split_on c p = [p]"
  by (induction p) auto

lemma split_on_join: "join [c] (split_on c s) = s"
proof (induction s)
  case (Cons x xs)
  obtain p ps where ps: "split_on c xs = p # ps" by (cases "split_on c xs") auto
  with Cons show ?case by (cases ps) auto
qed simp

lemma split_on_parts: "p \<in> set (split_on c s) \<Longrightarrow> c \<notin> set p"
  by (induction s arbitrary: p) (auto split: list.splits if_splits)

lemma split_on_3:
  "split_on c s = [d, k, n] \<longleftrightarrow> s = d @ c # k @ c # n \<and> c \<notin> set d \<and> c \<notin> set k \<and> c \<notin> set n"
proof
  assume a: "split_on c s = [d, k, n]"
  then show "s = d @ c # k @ c # n \<and> c \<notin> set d \<and> c \<notin> set k \<and> c \<notin> set n"
    using split_on_join [of c s] split_on_parts [of _ c s] by simp
qed (simp add: split_on_append split_on_notin)

section \<open>Tags\<close>

definition MIN_TAG_LEN :: nat where "MIN_TAG_LEN = 5"
definition MAX_TAG_LEN :: nat where "MAX_TAG_LEN = 128"
definition MAX_COMPONENT_LEN :: nat where "MAX_COMPONENT_LEN = 63"
definition BUILTIN_DOMAIN :: ustr where "BUILTIN_DOMAIN = lit ''radiata.woooo.tech''"
definition CATEGORY_CRYPTO :: ustr where "CATEGORY_CRYPTO = lit ''crypto''"
definition CATEGORY_LIMITS :: ustr where "CATEGORY_LIMITS = lit ''limits''"

abbreviation slash :: uchar where "slash \<equiv> 47"

datatype qualified_tag =
  QualifiedTag (tag_value: ustr) (domain_end: nat) (category_end: nat)

definition tag_fields :: "qualified_tag \<Rightarrow> ustr \<times> nat \<times> nat" where
  "tag_fields t = (tag_value t, domain_end t, category_end t)"

lemma tag_fields_eq [simp]: "tag_fields a = tag_fields b \<longleftrightarrow> a = b"
  by (cases a; cases b) (simp add: tag_fields_def)

text \<open>The derived order compares the fields lexicographically.\<close>

instantiation qualified_tag :: linorder
begin

definition less_eq_qualified_tag :: "qualified_tag \<Rightarrow> qualified_tag \<Rightarrow> bool" where
  "less_eq_qualified_tag a b = (tag_fields a \<le> tag_fields b)"

definition less_qualified_tag :: "qualified_tag \<Rightarrow> qualified_tag \<Rightarrow> bool" where
  "less_qualified_tag a b = (tag_fields a < tag_fields b)"

instance
proof
  fix x y z :: qualified_tag
  show "x < y \<longleftrightarrow> x \<le> y \<and> \<not> y \<le> x"
    by (simp add: less_eq_qualified_tag_def less_qualified_tag_def less_le_not_le)
  show "x \<le> x" by (simp add: less_eq_qualified_tag_def)
  show "x \<le> y \<Longrightarrow> y \<le> z \<Longrightarrow> x \<le> z"
    unfolding less_eq_qualified_tag_def by (rule order_trans)
  show "x \<le> y \<Longrightarrow> y \<le> x \<Longrightarrow> x = y"
    unfolding less_eq_qualified_tag_def by (metis order_antisym tag_fields_eq)
  show "x \<le> y \<or> y \<le> x" unfolding less_eq_qualified_tag_def by (rule linear)
qed

end

definition to_ascii_lowercase :: "ustr \<Rightarrow> ustr" where
  "to_ascii_lowercase s = map (\<lambda>c. if 65 \<le> c \<and> c \<le> 90 then c + 32 else c) s"

definition is_lower :: "uchar \<Rightarrow> bool" where "is_lower c = (97 \<le> c \<and> c \<le> 122)"
definition is_digit :: "uchar \<Rightarrow> bool" where "is_digit c = (48 \<le> c \<and> c \<le> 57)"
definition is_upper :: "uchar \<Rightarrow> bool" where "is_upper c = (65 \<le> c \<and> c \<le> 90)"

definition valid_dns_hostname :: "(ustr \<Rightarrow> bool) \<Rightarrow> ustr \<Rightarrow> bool" where
  "valid_dns_hostname dns host = (host \<noteq> [] \<and> dns host)"

definition valid_name_component :: "ustr \<Rightarrow> bool" where
  "valid_name_component component =
     (if component = [] \<or> length component > MAX_COMPONENT_LEN then False
      else is_lower (hd component)
        \<and> (is_lower (last component) \<or> is_upper (last component) \<or> is_digit (last component))
        \<and> list_all (\<lambda>c. is_lower c \<or> is_digit c \<or> c = 45) component)"

definition validate_tag :: "(ustr \<Rightarrow> bool) \<Rightarrow> ustr \<Rightarrow> (nat \<times> nat) result" where
  "validate_tag dns value =
     (let err = invalid_input ''qualified tag''
      in if \<not> (MIN_TAG_LEN \<le> str_len value \<and> str_len value \<le> MAX_TAG_LEN) \<or> \<not> is_ascii value
         then Err err
         else case split_on slash value of
             domain # category # name # more \<Rightarrow>
               if more \<noteq> []
                 \<or> \<not> valid_dns_hostname dns domain
                 \<or> \<not> valid_name_component category
                 \<or> \<not> valid_name_component name
                 \<or> (domain = BUILTIN_DOMAIN \<and> category = CATEGORY_CRYPTO)
               then Err err
               else Ok (length domain, length domain + 1 + length category)
           | _ \<Rightarrow> Err err)"

definition tag_parse :: "(ustr \<Rightarrow> bool) \<Rightarrow> ustr \<Rightarrow> qualified_tag result" where
  "tag_parse dns value =
     and_then (validate_tag dns value) (\<lambda>(d_end, c_end).
       let domain = to_ascii_lowercase (take d_end value)
       in Ok (QualifiedTag (domain @ drop d_end value) d_end c_end))"

definition tag_domain :: "qualified_tag \<Rightarrow> ustr" where
  "tag_domain t = take (domain_end t) (tag_value t)"

definition tag_category :: "qualified_tag \<Rightarrow> ustr" where
  "tag_category t = drop (domain_end t + 1) (take (category_end t) (tag_value t))"

definition tag_name :: "qualified_tag \<Rightarrow> ustr" where
  "tag_name t = drop (category_end t + 1) (tag_value t)"

text \<open>The category-restricted tags and keys generated by one macro.\<close>

definition category_parse ::
  "ustr \<Rightarrow> string \<Rightarrow> (ustr \<Rightarrow> bool) \<Rightarrow> ustr \<Rightarrow> qualified_tag result" where
  "category_parse category ctx dns value =
     and_then (tag_parse dns value) (\<lambda>tag.
       if tag_category tag \<noteq> category then Err (invalid_input ctx) else Ok tag)"

definition feature_tag_parse :: "(ustr \<Rightarrow> bool) \<Rightarrow> ustr \<Rightarrow> qualified_tag result" where
  "feature_tag_parse = category_parse (lit ''features'') ''feature tag''"

definition protocol_tag_parse :: "(ustr \<Rightarrow> bool) \<Rightarrow> ustr \<Rightarrow> qualified_tag result" where
  "protocol_tag_parse = category_parse (lit ''protocols'') ''protocol tag''"

definition transport_tag_parse :: "(ustr \<Rightarrow> bool) \<Rightarrow> ustr \<Rightarrow> qualified_tag result" where
  "transport_tag_parse = category_parse (lit ''transports'') ''transport tag''"

definition discovery_tag_parse :: "(ustr \<Rightarrow> bool) \<Rightarrow> ustr \<Rightarrow> qualified_tag result" where
  "discovery_tag_parse = category_parse (lit ''discovery'') ''discovery tag''"

definition label_key_parse :: "(ustr \<Rightarrow> bool) \<Rightarrow> ustr \<Rightarrow> qualified_tag result" where
  "label_key_parse = category_parse (lit ''labels'') ''label key''"

definition from_label_tag :: "qualified_tag \<Rightarrow> qualified_tag option" where
  "from_label_tag tag = (if tag_category tag = lit ''labels'' then Some tag else None)"

section \<open>The shape of parsed tags\<close>

definition make_tag :: "ustr \<Rightarrow> ustr \<Rightarrow> ustr \<Rightarrow> qualified_tag" where
  "make_tag d k n = QualifiedTag (d @ slash # k @ slash # n) (length d) (length d + 1 + length k)"

lemma tag_accessors [simp]:
  "tag_domain (make_tag d k n) = d"
  "tag_category (make_tag d k n) = k"
  "tag_name (make_tag d k n) = n"
  "tag_value (make_tag d k n) = d @ slash # k @ slash # n"
  by (simp_all add: make_tag_def tag_domain_def tag_category_def tag_name_def)

lemma make_tag_inject [simp]: "make_tag d k n = make_tag d' k' n' \<longleftrightarrow> d = d' \<and> k = k' \<and> n = n'"
  by (metis tag_accessors(1-3))

lemma make_tag_less [simp]: "make_tag d k n < make_tag d k n' \<longleftrightarrow> n < n'"
proof -
  have "d @ slash # k @ slash # n < d @ slash # k @ slash # n' \<longleftrightarrow> n < n'"
    using append_less_append [of "d @ slash # k @ [slash]" n n'] by simp
  then show ?thesis
    by (auto simp: less_qualified_tag_def tag_fields_def make_tag_def less_prod_def)
qed

lemma length_lowercase [simp]: "length (to_ascii_lowercase s) = length s"
  by (simp add: to_ascii_lowercase_def)

lemma lowercase_idem [simp]: "to_ascii_lowercase (to_ascii_lowercase s) = to_ascii_lowercase s"
  by (simp add: to_ascii_lowercase_def)

lemma lowercase_ascii: "is_ascii s \<Longrightarrow> is_ascii (to_ascii_lowercase s)"
  by (auto simp: to_ascii_lowercase_def is_ascii_def list_all_iff)

lemma lowercase_no_slash: "slash \<notin> set s \<Longrightarrow> slash \<notin> set (to_ascii_lowercase s)"
  by (auto simp: to_ascii_lowercase_def)

lemma lowercase_eq_Nil [simp]: "to_ascii_lowercase s = [] \<longleftrightarrow> s = []"
  by (simp add: to_ascii_lowercase_def)

lemma name_component_no_slash: "valid_name_component n \<Longrightarrow> slash \<notin> set n"
  by (auto simp: valid_name_component_def list_all_iff is_lower_def is_digit_def split: if_splits)

definition tag_parts_ok :: "(ustr \<Rightarrow> bool) \<Rightarrow> ustr \<Rightarrow> ustr \<Rightarrow> ustr \<Rightarrow> bool" where
  "tag_parts_ok dns d k n =
     (MIN_TAG_LEN \<le> length d + length k + length n + 2 \<and>
      length d + length k + length n + 2 \<le> MAX_TAG_LEN \<and>
      is_ascii d \<and> is_ascii k \<and> is_ascii n \<and> slash \<notin> set d \<and>
      valid_dns_hostname dns d \<and> valid_name_component k \<and> valid_name_component n \<and>
      \<not> (d = BUILTIN_DOMAIN \<and> k = CATEGORY_CRYPTO))"

lemma validate_tag_Ok:
  "validate_tag dns s = Ok r \<longleftrightarrow>
     (\<exists>d k n. s = d @ slash # k @ slash # n \<and> tag_parts_ok dns d k n \<and>
              r = (length d, length d + 1 + length k))"
proof
  assume a: "validate_tag dns s = Ok r"
  then have asc: "is_ascii s" and len: "MIN_TAG_LEN \<le> length s" "length s \<le> MAX_TAG_LEN"
    by (auto simp: validate_tag_def Let_def str_len_ascii split: if_splits)
  from a obtain d k n where sp: "split_on slash s = [d, k, n]"
    and v: "valid_dns_hostname dns d" "valid_name_component k" "valid_name_component n"
      "\<not> (d = BUILTIN_DOMAIN \<and> k = CATEGORY_CRYPTO)" and r: "r = (length d, length d + 1 + length k)"
    by (auto simp: validate_tag_def Let_def split: if_splits list.splits)
  from sp have s: "s = d @ slash # k @ slash # n" "slash \<notin> set d" by (simp_all add: split_on_3)
  with asc len v r show "\<exists>d k n. s = d @ slash # k @ slash # n \<and> tag_parts_ok dns d k n \<and>
      r = (length d, length d + 1 + length k)"
    by (intro exI [of _ d] exI [of _ k] exI [of _ n]) (simp add: tag_parts_ok_def)
next
  assume "\<exists>d k n. s = d @ slash # k @ slash # n \<and> tag_parts_ok dns d k n \<and>
      r = (length d, length d + 1 + length k)"
  then obtain d k n where s: "s = d @ slash # k @ slash # n" and ok: "tag_parts_ok dns d k n"
    and r: "r = (length d, length d + 1 + length k)" by blast
  have "split_on slash s = [d, k, n]"
    using ok s by (simp add: split_on_3 tag_parts_ok_def name_component_no_slash)
  moreover have "is_ascii s" using ok s by (simp add: tag_parts_ok_def)
  ultimately show "validate_tag dns s = Ok r"
    using ok s r by (simp add: validate_tag_def Let_def str_len_ascii tag_parts_ok_def)
qed

lemma tag_parse_Ok:
  "tag_parse dns s = Ok t \<longleftrightarrow>
     (\<exists>d k n. s = d @ slash # k @ slash # n \<and> tag_parts_ok dns d k n \<and>
              t = make_tag (to_ascii_lowercase d) k n)"
proof -
  have "tag_parse dns s = Ok t \<longleftrightarrow> (\<exists>r. validate_tag dns s = Ok r \<and>
      t = QualifiedTag (to_ascii_lowercase (take (fst r) s) @ drop (fst r) s) (fst r) (snd r))"
    by (auto simp: tag_parse_def and_then_Ok_iff)
  also have "\<dots> \<longleftrightarrow> (\<exists>d k n. s = d @ slash # k @ slash # n \<and> tag_parts_ok dns d k n \<and>
      t = make_tag (to_ascii_lowercase d) k n)"
    unfolding validate_tag_Ok make_tag_def by (rule iffI) (elim exE conjE, force)+
  finally show ?thesis .
qed

lemma tag_parts_lowercase:
  assumes "tag_parts_ok dns d k n" "\<And>h. dns (to_ascii_lowercase h) = dns h"
    "\<not> (to_ascii_lowercase d = BUILTIN_DOMAIN \<and> k = CATEGORY_CRYPTO)"
  shows "tag_parts_ok dns (to_ascii_lowercase d) k n"
  using assms by (simp add: tag_parts_ok_def valid_dns_hostname_def lowercase_ascii lowercase_no_slash)

definition reserved_tag :: "qualified_tag \<Rightarrow> bool" where
  "reserved_tag t = (tag_domain t = BUILTIN_DOMAIN \<and> tag_category t = CATEGORY_CRYPTO)"

lemma tag_reparse:
  assumes "tag_parse dns s = Ok t" "\<And>h. dns (to_ascii_lowercase h) = dns h" "\<not> reserved_tag t"
  shows "tag_parse dns (tag_value t) = Ok t"
proof -
  from assms(1) obtain d k n where ok: "tag_parts_ok dns d k n"
    and t: "t = make_tag (to_ascii_lowercase d) k n"
    by (auto simp: tag_parse_Ok)
  have "tag_parts_ok dns (to_ascii_lowercase d) k n"
    using tag_parts_lowercase [OF ok assms(2)] assms(3) t by (simp add: reserved_tag_def)
  then show ?thesis unfolding t tag_parse_Ok
    by (intro exI [of _ "to_ascii_lowercase d"] exI [of _ k] exI [of _ n]) simp
qed

abbreviation builtin_tag :: "string \<Rightarrow> string \<Rightarrow> qualified_tag" where
  "builtin_tag k n \<equiv> make_tag BUILTIN_DOMAIN (lit k) (lit n)"

lemmas name_component_defs = valid_name_component_def MAX_COMPONENT_LEN_def is_lower_def is_upper_def is_digit_def

lemma builtin_tag_parse:
  assumes "dns BUILTIN_DOMAIN" "valid_name_component k" "valid_name_component n"
    "k \<noteq> CATEGORY_CRYPTO" "is_ascii k" "is_ascii n" "length k + length n \<le> 108"
  shows "tag_parse dns (BUILTIN_DOMAIN @ slash # k @ slash # n) = Ok (make_tag BUILTIN_DOMAIN k n)"
proof -
  have "tag_parts_ok dns BUILTIN_DOMAIN k n" "to_ascii_lowercase BUILTIN_DOMAIN = BUILTIN_DOMAIN"
    using assms by (simp_all add: tag_parts_ok_def valid_dns_hostname_def MIN_TAG_LEN_def MAX_TAG_LEN_def
        BUILTIN_DOMAIN_def to_ascii_lowercase_def)
  then show ?thesis unfolding tag_parse_Ok by metis
qed

lemma builtin_text_parse:
  assumes "dns BUILTIN_DOMAIN" "valid_name_component (lit k)" "valid_name_component (lit n)" "lit k \<noteq> CATEGORY_CRYPTO"
    "is_ascii (lit k)" "is_ascii (lit n)" "length k + length n \<le> 108"
  shows "tag_parse dns (lit ''radiata.woooo.tech'' @ slash # lit k @ slash # lit n) = Ok (builtin_tag k n)"
  using builtin_tag_parse [of dns "lit k" "lit n"] assms by (simp add: BUILTIN_DOMAIN_def lit_def)

text \<open>The stored text of a parsed tag is canonical: parsing it again yields the same
  tag with the same component offsets, for every tag outside the reserved signature
  namespace.\<close>

lemma tag_parse_canonical:
  assumes "tag_parse dns s = Ok t" and "\<forall>h. dns (to_ascii_lowercase h) = dns h"
    and "\<not> reserved_tag t"
  shows "tag_parse dns (tag_value t) = Ok t \<and>
    tag_value t = tag_domain t @ slash # tag_category t @ slash # tag_name t \<and>
    to_ascii_lowercase (tag_domain t) = tag_domain t \<and>
    valid_name_component (tag_category t) \<and> valid_name_component (tag_name t)"
proof -
  from assms(1) obtain d k n where "tag_parts_ok dns d k n" "t = make_tag (to_ascii_lowercase d) k n"
    by (auto simp: tag_parse_Ok)
  with tag_reparse [OF assms(1)] assms(2,3) show ?thesis by (simp add: tag_parts_ok_def)
qed

text \<open>C38: the reserved-namespace guard compares the domain before it is lowercased, so an
  uppercase spelling of the built-in domain yields a tag whose canonical text is in the
  reserved signature namespace, a text the parser itself rejects.\<close>

theorem reserved_tag_guard_bypass:
  assumes "dns (lit ''RADIATA.woooo.tech'')"
  shows "\<exists>t. tag_parse dns (lit ''RADIATA.woooo.tech/crypto/session'') = Ok t \<and>
    reserved_tag t \<and> tag_value t = lit ''radiata.woooo.tech/crypto/session'' \<and>
    tag_parse dns (tag_value t) = Err (invalid_input ''qualified tag'')"
  using assms
  by (simp add: tag_parse_def validate_tag_def str_len_ascii MIN_TAG_LEN_def MAX_TAG_LEN_def
      valid_dns_hostname_def valid_name_component_def MAX_COMPONENT_LEN_def is_lower_def is_upper_def
      is_digit_def BUILTIN_DOMAIN_def CATEGORY_CRYPTO_def reserved_tag_def tag_domain_def
      tag_category_def to_ascii_lowercase_def)

theorem reserved_tag_guard_bypass_witness:
  "\<exists>t. tag_parse (\<lambda>_. True) (lit ''RADIATA.woooo.tech/crypto/session'') = Ok t \<and>
    reserved_tag t \<and> tag_value t = lit ''radiata.woooo.tech/crypto/session'' \<and>
    tag_parse (\<lambda>_. True) (tag_value t) = Err (invalid_input ''qualified tag'')"
  by (rule reserved_tag_guard_bypass) simp

end
