(* ===== verification/Labels.thy ===== *)
theory Labels
  imports Qualified_Tags
begin

text \<open>
  Bounded node and resource labels (\<^verbatim>\<open>src/src/label.rs\<close>): a label set is an ordered map
  from label keys to values of at most 256 bytes, with at most 64 entries.
\<close>

definition LABEL_VALUE_MAX_BYTES :: nat where "LABEL_VALUE_MAX_BYTES = 256"
definition LABEL_SET_MAX_ENTRIES :: nat where "LABEL_SET_MAX_ENTRIES = 64"

type_synonym label_key = qualified_tag
type_synonym label_value = ustr

definition label_value_parse :: "ustr \<Rightarrow> label_value result" where
  "label_value_parse value =
     (if value = [] \<or> str_len value > LABEL_VALUE_MAX_BYTES
      then Err (invalid_input ''label value'') else Ok value)"

record label_set =
  ls_entries :: "(label_key, label_value) btree"

definition label_set_new :: label_set where
  "label_set_new = \<lparr>ls_entries = []\<rparr>"

definition label_set_contains :: "label_set \<Rightarrow> label_key \<Rightarrow> bool" where
  "label_set_contains s key = (bt_get (ls_entries s) key \<noteq> None)"

definition label_set_insert :: "label_set \<Rightarrow> label_key \<Rightarrow> label_value \<Rightarrow> label_set result" where
  "label_set_insert s key value =
     (if label_set_contains s key then Err (conflict ''label set'')
      else if length (ls_entries s) \<ge> LABEL_SET_MAX_ENTRIES
      then Err (resource_exhausted ''label set'')
      else Ok (s\<lparr>ls_entries := bt_insert key value (ls_entries s)\<rparr>))"

definition label_set_get :: "label_set \<Rightarrow> label_key \<Rightarrow> label_value option" where
  "label_set_get s key = bt_get (ls_entries s) key"

definition label_set_remove :: "label_set \<Rightarrow> label_key \<Rightarrow> label_set \<times> label_value option" where
  "label_set_remove s key =
     (s\<lparr>ls_entries := bt_remove key (ls_entries s)\<rparr>, bt_get (ls_entries s) key)"

text \<open>The canonical-set invariant: strictly ordered keys within the entry bound.\<close>

definition label_set_ok :: "label_set \<Rightarrow> bool" where
  "label_set_ok s = (bt_ok (ls_entries s) \<and> length (ls_entries s) \<le> LABEL_SET_MAX_ENTRIES)"

lemma label_set_new_ok [simp]: "label_set_ok label_set_new"
  by (simp add: label_set_ok_def label_set_new_def)

lemma label_set_insert_ok:
  "label_set_ok s \<Longrightarrow> label_set_insert s k v = Ok s' \<Longrightarrow> label_set_ok s'"
  by (auto simp: label_set_insert_def label_set_ok_def label_set_contains_def bt.inv_ins
      length_bt_insert split: if_splits)

lemma label_set_remove_ok: "label_set_ok s \<Longrightarrow> label_set_ok (fst (label_set_remove s k))"
  using length_bt_remove_le [of k "ls_entries s"]
  by (auto simp: label_set_remove_def label_set_ok_def bt.inv_del)

lemma label_set_get_insert:
  "label_set_ok s \<Longrightarrow> label_set_insert s k v = Ok s' \<Longrightarrow>
   label_set_get s' k' = (if k' = k then Some v else label_set_get s k')"
  by (auto simp: label_set_insert_def label_set_get_def label_set_ok_def bt.get_ins split: if_splits)

lemma label_set_get_remove:
  "label_set_ok s \<Longrightarrow>
   label_set_get (fst (label_set_remove s k)) k' = (if k' = k then None else label_set_get s k')"
  by (simp add: label_set_remove_def label_set_get_def label_set_ok_def bt.get_del)

text \<open>A key above all others is appended.\<close>

lemma label_set_insert_last:
  assumes "bt_ok (pre @ [e])" "length pre < LABEL_SET_MAX_ENTRIES"
  shows "label_set_insert \<lparr>ls_entries = pre\<rparr> (fst e) (snd e) = Ok \<lparr>ls_entries = pre @ [e]\<rparr>"
proof -
  have lt: "\<forall>x\<in>set pre. fst x < fst e" using assms(1) by (auto simp: bt_ok_def sorted_wrt_append)
  then have "bt_get pre (fst e) = None" by (force simp: map_of_eq_None_iff)
  moreover have "bt_insert (fst e) (snd e) pre = pre @ [e]" using lt by (induction pre) auto
  ultimately show ?thesis using assms(2) by (simp add: label_set_insert_def label_set_contains_def)
qed

text \<open>Inserting a label keeps the set canonical and bounded, makes exactly that label
  readable, and fails with a typed error exactly when the key is present or the set is
  full; removing it restores the previous readings.\<close>

lemma label_set_insert_correct:
  assumes "label_set_ok s"
  shows "(case label_set_insert s k v of
      Inl e \<Rightarrow> (label_set_get s k \<noteq> None \<and> e = conflict ''label set'') \<or>
        (label_set_get s k = None \<and> length (ls_entries s) = LABEL_SET_MAX_ENTRIES \<and>
         e = resource_exhausted ''label set'')
    | Inr s' \<Rightarrow> label_set_get s k = None \<and> length (ls_entries s) < LABEL_SET_MAX_ENTRIES \<and>
        label_set_ok s' \<and> label_set_get s' = (label_set_get s)(k \<mapsto> v) \<and>
        label_set_get (fst (label_set_remove s' k)) = label_set_get s)"
proof (cases "label_set_insert s k v")
  case (Inl e)
  with assms show ?thesis
    by (auto simp: label_set_insert_def label_set_contains_def label_set_get_def label_set_ok_def
        split: if_splits)
next
  case (Inr s')
  have k: "label_set_get s k = None" "length (ls_entries s) < LABEL_SET_MAX_ENTRIES"
    using Inr by (auto simp: label_set_insert_def label_set_contains_def label_set_get_def split: if_splits)
  have ok: "label_set_ok s'" using assms Inr by (rule label_set_insert_ok)
  have "label_set_get s' = (label_set_get s)(k \<mapsto> v)"
    using label_set_get_insert [OF assms Inr] by (auto simp: fun_eq_iff)
  moreover have "label_set_get (fst (label_set_remove s' k)) = label_set_get s"
    using k(1) label_set_get_insert [OF assms Inr] label_set_get_remove [OF ok]
    by (auto simp: fun_eq_iff)
  ultimately show ?thesis using Inr k ok by simp
qed

end
