(* ===== verification/Wire_Prelude.thy ===== *)
theory Wire_Prelude
  imports Relay_Prelude
begin

text \<open>
  The closed wire-kind registry (\<^verbatim>\<open>src/src/protocol/wire.rs\<close>) and the fixed sixteen-byte
  message prelude (\<^verbatim>\<open>src/src/protocol/envelope.rs\<close>).
\<close>

section \<open>Kinds\<close>

definition BASE_SCHEMA_ID :: u16 where "BASE_SCHEMA_ID = 1"

datatype handshake_kind =
    InitiatorHello | ResponderHello | ResponderProof | InitiatorProof | SelectionConfirmation
  | AdmissionGrantDelivery

definition handshake_kinds :: "handshake_kind list" where
  "handshake_kinds = [InitiatorHello, ResponderHello, ResponderProof, InitiatorProof,
     SelectionConfirmation, AdmissionGrantDelivery]"

fun handshake_kind_id :: "handshake_kind \<Rightarrow> u16" where
  "handshake_kind_id InitiatorHello = 1"
| "handshake_kind_id ResponderHello = 2"
| "handshake_kind_id ResponderProof = 3"
| "handshake_kind_id InitiatorProof = 4"
| "handshake_kind_id SelectionConfirmation = 5"
| "handshake_kind_id AdmissionGrantDelivery = 6"

fun handshake_position :: "handshake_kind \<Rightarrow> nat" where
  "handshake_position InitiatorHello = 1"
| "handshake_position ResponderHello = 2"
| "handshake_position ResponderProof = 3"
| "handshake_position InitiatorProof = 4"
| "handshake_position SelectionConfirmation = 5"
| "handshake_position AdmissionGrantDelivery = 6"

fun handshake_arity :: "handshake_kind \<Rightarrow> nat" where
  "handshake_arity InitiatorHello = 8"
| "handshake_arity ResponderHello = 6"
| "handshake_arity ResponderProof = 3"
| "handshake_arity InitiatorProof = 3"
| "handshake_arity SelectionConfirmation = 2"
| "handshake_arity AdmissionGrantDelivery = 2"

datatype packet_kind = PacketOpen | PacketChunk | PacketEnd | PacketAck

definition packet_kinds :: "packet_kind list" where
  "packet_kinds = [PacketOpen, PacketChunk, PacketEnd, PacketAck]"

fun packet_kind_id :: "packet_kind \<Rightarrow> u16" where
  "packet_kind_id PacketOpen = 16"
| "packet_kind_id PacketChunk = 17"
| "packet_kind_id PacketEnd = 18"
| "packet_kind_id PacketAck = 19"

definition lookup_handshake :: "u16 \<Rightarrow> u16 \<Rightarrow> handshake_kind option" where
  "lookup_handshake schema_id kind_id =
     (if schema_id \<noteq> BASE_SCHEMA_ID then None
      else find (\<lambda>k. handshake_kind_id k = kind_id) handshake_kinds)"

definition lookup_packet :: "u16 \<Rightarrow> u16 \<Rightarrow> packet_kind option" where
  "lookup_packet schema_id kind_id =
     (if schema_id \<noteq> BASE_SCHEMA_ID then None
      else find (\<lambda>k. packet_kind_id k = kind_id) packet_kinds)"

definition is_declared :: "u16 \<Rightarrow> u16 \<Rightarrow> bool" where
  "is_declared schema_id kind_id =
     (lookup_handshake schema_id kind_id \<noteq> None \<or> lookup_packet schema_id kind_id \<noteq> None)"

text \<open>The registry is closed and collision-free: a declared pair of schema and kind
  resolves to exactly one published message kind, of exactly one of the two families, and
  every published kind resolves to itself.\<close>

lemma wire_registry_closed:
  "(lookup_handshake schema kid = Some h \<longleftrightarrow> schema = BASE_SCHEMA_ID \<and> handshake_kind_id h = kid) \<and>
   (lookup_packet schema kid = Some p \<longleftrightarrow> schema = BASE_SCHEMA_ID \<and> packet_kind_id p = kid) \<and>
   (is_declared schema kid \<longleftrightarrow>
      (\<exists>h. lookup_handshake schema kid = Some h) \<noteq> (\<exists>p. lookup_packet schema kid = Some p))"
proof -
  have h: "lookup_handshake schema kid = Some h \<longleftrightarrow> schema = BASE_SCHEMA_ID \<and> handshake_kind_id h = kid" for h
    by (cases h) (auto simp: lookup_handshake_def handshake_kinds_def)
  have p: "lookup_packet schema kid = Some p \<longleftrightarrow> schema = BASE_SCHEMA_ID \<and> packet_kind_id p = kid" for p
    by (cases p) (auto simp: lookup_packet_def packet_kinds_def)
  have "handshake_kind_id h \<noteq> packet_kind_id p" for h p
    by (cases h; cases p) simp_all
  then have "lookup_handshake schema kid = None \<or> lookup_packet schema kid = None"
    using h p by (metis not_None_eq)
  then show ?thesis using h p by (auto simp: is_declared_def)
qed

section \<open>The prelude\<close>

definition MAGIC :: "byte list" where "MAGIC = [77, 82, 76, 89]"
definition PRELUDE_LEN :: nat where "PRELUDE_LEN = 16"

record wire_prelude =
  wp_schema_id :: u16
  wp_kind_id :: u16
  wp_flags :: u16
  wp_body_len :: u32

definition prelude_encode :: "wire_prelude \<Rightarrow> byte list" where
  "prelude_encode p =
     MAGIC @ to_be_bytes_u16 (wp_schema_id p) @ to_be_bytes_u16 (wp_kind_id p) @
     to_be_bytes_u16 (wp_flags p) @ [0, 0] @ to_be_bytes_u32 (wp_body_len p)"

definition prelude_decode :: "byte list \<Rightarrow> wire_prelude result" where
  "prelude_decode bytes =
     (if length bytes < PRELUDE_LEN \<or> take 4 bytes \<noteq> MAGIC
      then Err (invalid_input ''wire prelude'')
      else if bytes ! 10 \<noteq> 0 \<or> bytes ! 11 \<noteq> 0
      then Err (invalid_input ''wire reserved bits'')
      else Ok \<lparr>wp_schema_id = from_be_bytes [bytes ! 4, bytes ! 5],
               wp_kind_id = from_be_bytes [bytes ! 6, bytes ! 7],
               wp_flags = from_be_bytes [bytes ! 8, bytes ! 9],
               wp_body_len = from_be_bytes [bytes ! 12, bytes ! 13, bytes ! 14, bytes ! 15]\<rparr>)"

text \<open>On a 64-bit host the body length always fits \<^verbatim>\<open>usize\<close> and the sum cannot overflow.\<close>

definition split_message ::
  "byte list \<Rightarrow> u16 \<Rightarrow> u32 \<Rightarrow> u32 \<Rightarrow> (u16 \<Rightarrow> u16 \<Rightarrow> bool) \<Rightarrow> (wire_prelude \<times> byte list) result" where
  "split_message message allowed_flags message_limit receive_limit declared =
     and_then (prelude_decode message) (\<lambda>p.
       if \<not> declared (wp_schema_id p) (wp_kind_id p)
         \<or> wp_flags p AND NOT allowed_flags \<noteq> 0
         \<or> wp_body_len p > message_limit
         \<or> wp_body_len p > receive_limit
       then Err (invalid_input ''wire limits'')
       else if length message \<noteq> PRELUDE_LEN + unat (wp_body_len p)
       then Err (invalid_input ''wire body length'')
       else Ok (p, drop PRELUDE_LEN message))"

lemma length_prelude_encode [simp]: "length (prelude_encode p) = 16"
  by (simp add: prelude_encode_def MAGIC_def)

lemma list2_eta: "length xs = 2 \<Longrightarrow> [xs ! 0, xs ! 1] = xs"
  by (cases xs; cases "tl xs") auto

lemma list4_eta: "length xs = 4 \<Longrightarrow> [xs ! 0, xs ! 1, xs ! 2, xs ! 3] = xs"
  by (auto simp: list_eq_iff_nth_eq less_Suc_eq numeral_eq_Suc nth_Cons')

lemma prelude_decode_encode: "prelude_decode (prelude_encode p @ rest) = Ok p"
proof -
  obtain s0 s1 where s: "to_be_bytes_u16 (wp_schema_id p) = [s0, s1]"
    using list2_eta [of "to_be_bytes_u16 (wp_schema_id p)"] by (metis length_to_be(1))
  obtain k0 k1 where k: "to_be_bytes_u16 (wp_kind_id p) = [k0, k1]"
    using list2_eta [of "to_be_bytes_u16 (wp_kind_id p)"] by (metis length_to_be(1))
  obtain f0 f1 where f: "to_be_bytes_u16 (wp_flags p) = [f0, f1]"
    using list2_eta [of "to_be_bytes_u16 (wp_flags p)"] by (metis length_to_be(1))
  obtain b0 b1 b2 b3 where b: "to_be_bytes_u32 (wp_body_len p) = [b0, b1, b2, b3]"
    using list4_eta [of "to_be_bytes_u32 (wp_body_len p)"] by (metis length_to_be(2))
  show ?thesis
    using from_to_be_u16 [of "wp_schema_id p"] from_to_be_u16 [of "wp_kind_id p"]
      from_to_be_u16 [of "wp_flags p"] from_to_be_u32 [of "wp_body_len p"]
    by (simp add: prelude_decode_def prelude_encode_def MAGIC_def PRELUDE_LEN_def s k f b)
qed


lemma take_16_nth:
  assumes "16 \<le> length xs"
  shows "take 16 xs = take 4 xs @ [xs ! 4, xs ! 5] @ [xs ! 6, xs ! 7] @ [xs ! 8, xs ! 9] @
    [xs ! 10, xs ! 11] @ [xs ! 12, xs ! 13, xs ! 14, xs ! 15]"
proof -
  have step: "take (Suc n) xs = take n xs @ [xs ! n]" if "n < 16" for n
    using assms that by (simp add: take_Suc_conv_app_nth)
  show ?thesis
    using step [of 15] step [of 14] step [of 13] step [of 12] step [of 11] step [of 10] step [of 9]
      step [of 8] step [of 7] step [of 6] step [of 5] step [of 4]
    by simp
qed

lemma prelude_decode_Ok:
  assumes "prelude_decode bytes = Ok p"
  shows "16 \<le> length bytes" "take 16 bytes = prelude_encode p"
proof -
  show len: "16 \<le> length bytes"
    using assms by (auto simp: prelude_decode_def PRELUDE_LEN_def split: if_splits)
  show "take 16 bytes = prelude_encode p"
    using assms take_16_nth [OF len]
    by (auto simp: prelude_decode_def prelude_encode_def to_from_be_u16 to_from_be_u32 split: if_splits)
qed

text \<open>A received message is accepted exactly when it is the encoding of a prelude
  followed by a body of the declared length, with a declared kind, no flag outside the
  allowed set, and a length within both limits; the returned parts are that prelude and
  body.\<close>

lemma split_message_exact:
  "split_message msg allowed mlimit rlimit declared = Ok (p, body) \<longleftrightarrow>
     msg = prelude_encode p @ body \<and> length body = unat (wp_body_len p) \<and>
     declared (wp_schema_id p) (wp_kind_id p) \<and> wp_flags p AND NOT allowed = 0 \<and>
     wp_body_len p \<le> mlimit \<and> wp_body_len p \<le> rlimit"
proof
  assume "split_message msg allowed mlimit rlimit declared = Ok (p, body)"
  then have d: "prelude_decode msg = Ok p" and
    rest: "declared (wp_schema_id p) (wp_kind_id p)" "wp_flags p AND NOT allowed = 0"
      "wp_body_len p \<le> mlimit" "wp_body_len p \<le> rlimit"
      "length msg = 16 + unat (wp_body_len p)" "body = drop 16 msg"
    by (auto simp: split_message_def and_then_Ok_iff PRELUDE_LEN_def not_less split: if_splits)
  have "msg = prelude_encode p @ body"
    using append_take_drop_id [of 16 msg] prelude_decode_Ok [OF d] rest(6) by simp
  moreover have "length body = unat (wp_body_len p)" using rest(5,6) by simp
  ultimately show "msg = prelude_encode p @ body \<and> length body = unat (wp_body_len p) \<and>
     declared (wp_schema_id p) (wp_kind_id p) \<and> wp_flags p AND NOT allowed = 0 \<and>
     wp_body_len p \<le> mlimit \<and> wp_body_len p \<le> rlimit" using rest(1-4) by blast
next
  assume a: "msg = prelude_encode p @ body \<and> length body = unat (wp_body_len p) \<and>
     declared (wp_schema_id p) (wp_kind_id p) \<and> wp_flags p AND NOT allowed = 0 \<and>
     wp_body_len p \<le> mlimit \<and> wp_body_len p \<le> rlimit"
  then have m: "msg = prelude_encode p @ body" by blast
  have "\<not> mlimit < wp_body_len p" "\<not> rlimit < wp_body_len p" using a by (simp_all add: not_less)
  with a show "split_message msg allowed mlimit rlimit declared = Ok (p, body)"
    unfolding split_message_def m prelude_decode_encode and_then_simps PRELUDE_LEN_def by simp
qed

end
