(* ===== verification/Selectors.thy ===== *)
theory Selectors
  imports Labels
begin

text \<open>
  The bounded label selector of \<^verbatim>\<open>src/src/routing.rs\<close>: its cursor parser, canonical
  text, and evaluator. The cursor (input and byte position) is the remaining input; a
  checkpoint is a remembered remaining input. Whitespace is Rust's
  \<^verbatim>\<open>char::is_whitespace\<close>, the Unicode White\_Space property.
\<close>

section \<open>Definitions\<close>

definition SELECTOR_INPUT_MAX_BYTES :: nat where "SELECTOR_INPUT_MAX_BYTES = 1024"
definition SELECTOR_MAX_PREDICATES :: nat where "SELECTOR_MAX_PREDICATES = 16"
definition SELECTOR_MAX_SET_VALUES :: nat where "SELECTOR_MAX_SET_VALUES = 16"
definition RESERVED_TYPE_LABEL_KEY :: ustr where
  "RESERVED_TYPE_LABEL_KEY = lit ''radiata.woooo.tech/resources/type''"
definition RESERVED_URI_LABEL_KEY :: ustr where
  "RESERVED_URI_LABEL_KEY = lit ''radiata.woooo.tech/resources/uri''"

definition is_whitespace :: "uchar \<Rightarrow> bool" where
  "is_whitespace c =
     ((9 \<le> c \<and> c \<le> 13) \<or> c = 32 \<or> c = 133 \<or> c = 160 \<or> c = 5760 \<or> (8192 \<le> c \<and> c \<le> 8202) \<or>
      c = 8232 \<or> c = 8233 \<or> c = 8239 \<or> c = 8287 \<or> c = 12288)"

abbreviation ch_space :: uchar where "ch_space \<equiv> 32"
abbreviation ch_bang :: uchar where "ch_bang \<equiv> 33"
abbreviation ch_open :: uchar where "ch_open \<equiv> 40"
abbreviation ch_close :: uchar where "ch_close \<equiv> 41"
abbreviation ch_comma :: uchar where "ch_comma \<equiv> 44"
abbreviation ch_eq :: uchar where "ch_eq \<equiv> 61"
abbreviation ch_backslash :: uchar where "ch_backslash \<equiv> 92"

datatype predicate =
    Exists qualified_tag
  | NotExists qualified_tag
  | Equals qualified_tag ustr
  | NotEquals qualified_tag ustr
  | InSet qualified_tag "ustr list"
  | NotInSet qualified_tag "ustr list"

fun predicate_matches :: "predicate \<Rightarrow> (qualified_tag \<Rightarrow> ustr option) \<Rightarrow> bool" where
  "predicate_matches (Exists key) lookup = (lookup key \<noteq> None)"
| "predicate_matches (NotExists key) lookup = (lookup key = None)"
| "predicate_matches (Equals key value) lookup = (lookup key = Some value)"
| "predicate_matches (NotEquals key value) lookup =
     (case lookup key of None \<Rightarrow> True | Some found \<Rightarrow> found \<noteq> value)"
| "predicate_matches (InSet key values) lookup =
     (case lookup key of None \<Rightarrow> False | Some found \<Rightarrow> list_ex (\<lambda>v. v = found) values)"
| "predicate_matches (NotInSet key values) lookup =
     (case lookup key of None \<Rightarrow> True | Some found \<Rightarrow> \<not> list_ex (\<lambda>v. v = found) values)"

definition escape_char :: "uchar \<Rightarrow> ustr" where
  "escape_char c =
     (if c = ch_space then [ch_backslash, ch_space]
      else if c = 9 then [ch_backslash, 116]
      else if c = 10 then [ch_backslash, 110]
      else if c = 13 then [ch_backslash, 114]
      else if c \<in> {ch_backslash, ch_comma, ch_open, ch_close, ch_eq, ch_bang} then [ch_backslash, c]
      else [c])"

definition escape_value :: "ustr \<Rightarrow> ustr" where
  "escape_value value = concat (map escape_char value)"

definition unescape :: "uchar \<Rightarrow> uchar option" where
  "unescape c =
     (if c = ch_space then Some ch_space
      else if c = 116 then Some 9
      else if c = 110 then Some 10
      else if c = 114 then Some 13
      else if c \<in> {ch_backslash, ch_comma, ch_open, ch_close, ch_eq, ch_bang} then Some c
      else None)"

definition canonical_set :: "ustr list \<Rightarrow> ustr" where
  "canonical_set values = join [ch_comma] (map escape_value (remdups_adj (sort values)))"

fun predicate_canonical :: "predicate \<Rightarrow> ustr" where
  "predicate_canonical (Exists key) = tag_value key"
| "predicate_canonical (NotExists key) = ch_bang # tag_value key"
| "predicate_canonical (Equals key value) = tag_value key @ ch_eq # escape_value value"
| "predicate_canonical (NotEquals key value) = tag_value key @ ch_bang # ch_eq # escape_value value"
| "predicate_canonical (InSet key values) =
     tag_value key @ lit '' in ('' @ canonical_set values @ [ch_close]"
| "predicate_canonical (NotInSet key values) =
     tag_value key @ lit '' notin ('' @ canonical_set values @ [ch_close]"

definition skip_whitespace :: "ustr \<Rightarrow> ustr" where
  "skip_whitespace s = dropWhile is_whitespace s"

definition key_stop :: "uchar \<Rightarrow> bool" where
  "key_stop c = (is_whitespace c \<or> c \<in> {ch_eq, ch_bang, ch_open, ch_close, ch_comma, ch_backslash})"

definition selector_key_allowed :: "qualified_tag \<Rightarrow> bool" where
  "selector_key_allowed tag =
     (tag_category tag = lit ''labels'' \<or>
      (tag_category tag = lit ''resources'' \<and>
       (tag_value tag = RESERVED_TYPE_LABEL_KEY \<or> tag_value tag = RESERVED_URI_LABEL_KEY)))"

definition parse_key :: "(ustr \<Rightarrow> bool) \<Rightarrow> ustr \<Rightarrow> (qualified_tag \<times> ustr) result" where
  "parse_key dns s =
     and_then (tag_parse dns (takeWhile (\<lambda>c. \<not> key_stop c) s)) (\<lambda>tag.
       if selector_key_allowed tag then Ok (tag, dropWhile (\<lambda>c. \<not> key_stop c) s)
       else Err (invalid_input ''selector key''))"

fun parse_value_loop :: "bool \<Rightarrow> ustr \<Rightarrow> ustr \<Rightarrow> (ustr \<times> ustr) result" where
  "parse_value_loop in_list value [] = Ok (value, [])"
| "parse_value_loop in_list value (c # s) =
     (if c = ch_backslash then
        (case s of
           [] \<Rightarrow> Err (invalid_input ''selector escape'')
         | e # s' \<Rightarrow>
             (case unescape e of
                None \<Rightarrow> Err (invalid_input ''selector escape'')
              | Some u \<Rightarrow> parse_value_loop in_list (value @ [u]) s'))
      else if is_whitespace c then Ok (value, c # s)
      else if in_list \<and> (c = ch_comma \<or> c = ch_close) then Ok (value, c # s)
      else if c \<in> {ch_open, ch_close, ch_comma, ch_eq, ch_bang}
      then Err (invalid_input ''selector value'')
      else parse_value_loop in_list (value @ [c]) s)"

definition parse_value :: "bool \<Rightarrow> ustr \<Rightarrow> (ustr \<times> ustr) result" where
  "parse_value in_list s =
     and_then (parse_value_loop in_list [] s) (\<lambda>(value, rest).
       if value = [] \<or> str_len value > LABEL_VALUE_MAX_BYTES
       then Err (invalid_input ''selector value'') else Ok (value, rest))"

lemma and_then_cong [fundef_cong]:
  "r = r' \<Longrightarrow> (\<And>x. r' = Inr x \<Longrightarrow> f x = g x) \<Longrightarrow> and_then r f = and_then r' g"
  by (cases r') auto

function parse_set_loop :: "ustr list \<Rightarrow> ustr \<Rightarrow> (ustr list \<times> ustr) result" where
  "parse_set_loop values s =
     (if length values \<ge> SELECTOR_MAX_SET_VALUES
      then Err (resource_exhausted ''selector set values'')
      else and_then (parse_value True (skip_whitespace s)) (\<lambda>(value, s2).
        case skip_whitespace s2 of
          [] \<Rightarrow> Err (invalid_input ''selector set'')
        | c # s3 \<Rightarrow>
            if c = ch_comma then parse_set_loop (values @ [value]) s3
            else if c = ch_close then Ok (values @ [value], s3)
            else Err (invalid_input ''selector set'')))"
  by pat_completeness auto
termination
  by (relation "measure (\<lambda>(values, s). SELECTOR_MAX_SET_VALUES - length values)") auto

declare parse_set_loop.simps [simp del]

definition parse_set :: "ustr \<Rightarrow> (ustr list \<times> ustr) result" where
  "parse_set s =
     (case s of
        c # s' \<Rightarrow> if c = ch_open then parse_set_loop [] s' else Err (invalid_input ''selector set'')
      | [] \<Rightarrow> Err (invalid_input ''selector set''))"

definition keyword_tail :: "ustr \<Rightarrow> ustr \<Rightarrow> ustr option" where
  "keyword_tail keyword s =
     (if prefix keyword s then
        (case drop (length keyword) s of
           [] \<Rightarrow> Some []
         | c # t \<Rightarrow> if is_whitespace c \<or> c = ch_open then Some (c # t) else None)
      else None)"

text \<open>The operator tail after a key; \<open>None\<close> is the restored checkpoint.\<close>

definition parse_operator_tail ::
  "qualified_tag \<Rightarrow> ustr \<Rightarrow> (predicate \<times> ustr) option result" where
  "parse_operator_tail key s0 =
     (let s = skip_whitespace s0;
          words =
            (case keyword_tail (lit ''in'') s of
               Some t \<Rightarrow> and_then (parse_set (skip_whitespace t)) (\<lambda>(vs, r). Ok (Some (InSet key vs, r)))
             | None \<Rightarrow>
                 (case keyword_tail (lit ''notin'') s of
                    Some t \<Rightarrow>
                      and_then (parse_set (skip_whitespace t)) (\<lambda>(vs, r). Ok (Some (NotInSet key vs, r)))
                  | None \<Rightarrow> Ok None))
      in case s of
           [] \<Rightarrow> words
         | c # t \<Rightarrow>
             if c = ch_eq then
               and_then (parse_value False (skip_whitespace t)) (\<lambda>(v, r). Ok (Some (Equals key v, r)))
             else if c = ch_bang then
               (case t of
                  [] \<Rightarrow> Ok None
                | c2 # t2 \<Rightarrow>
                    if c2 \<noteq> ch_eq then Ok None
                    else and_then (parse_value False (skip_whitespace t2))
                           (\<lambda>(v, r). Ok (Some (NotEquals key v, r))))
             else words)"

definition parse_predicate :: "(ustr \<Rightarrow> bool) \<Rightarrow> ustr \<Rightarrow> (predicate \<times> ustr) result" where
  "parse_predicate dns s =
     (if s \<noteq> [] \<and> hd s = ch_bang
      then and_then (parse_key dns (tl s)) (\<lambda>(key, r). Ok (NotExists key, r))
      else and_then (parse_key dns s) (\<lambda>(key, r).
             and_then (parse_operator_tail key r) (\<lambda>tail.
               case tail of Some pr \<Rightarrow> Ok pr | None \<Rightarrow> Ok (Exists key, r))))"

section \<open>Progress and termination of the predicate loop\<close>

lemma length_skip_whitespace: "length (skip_whitespace s) \<le> length s"
  by (simp add: skip_whitespace_def length_dropWhile_le)

lemma parse_value_loop_length: "parse_value_loop b v s = Ok (w, r) \<Longrightarrow> length r \<le> length s"
proof (induction b v s rule: parse_value_loop.induct)
  case (2 b v c s)
  show ?case
  proof (cases "c = ch_backslash")
    case True
    with "2.prems" obtain e s' u where s: "s = e # s'" "unescape e = Some u"
      and r: "parse_value_loop b (v @ [u]) s' = Ok (w, r)"
      by (auto split: list.splits option.splits)
    from "2.IH"(1) [OF True s r] show ?thesis by (simp add: s)
  next
    case False
    then show ?thesis using "2.prems" "2.IH"(2) by (auto split: if_splits)
  qed
qed simp

lemma parse_value_length: "parse_value b s = Ok (w, r) \<Longrightarrow> length r \<le> length s"
  by (auto simp: parse_value_def and_then_Ok_iff dest: parse_value_loop_length split: if_splits)

lemma parse_set_loop_Ok:
  assumes "parse_set_loop vs s = Ok (ws, r)"
  obtains v s2 c s3 where "\<not> length vs \<ge> SELECTOR_MAX_SET_VALUES"
    "parse_value True (skip_whitespace s) = Ok (v, s2)" "skip_whitespace s2 = c # s3"
    "c = ch_comma \<and> parse_set_loop (vs @ [v]) s3 = Ok (ws, r) \<or> c \<noteq> ch_comma \<and> r = s3 \<and> ws = vs @ [v]"
proof -
  have lt: "\<not> length vs \<ge> SELECTOR_MAX_SET_VALUES"
    using assms unfolding parse_set_loop.simps [of vs s] by (auto split: if_splits)
  then obtain v s2 where v: "parse_value True (skip_whitespace s) = Ok (v, s2)"
    using assms unfolding parse_set_loop.simps [of vs s] by (auto simp: and_then_Ok_iff)
  with assms lt show thesis unfolding parse_set_loop.simps [of vs s]
    by (cases "skip_whitespace s2") (auto intro: that [OF lt v] split: if_split_asm)
qed

lemma parse_set_loop_length: "parse_set_loop vs s = Ok (ws, r) \<Longrightarrow> length r \<le> length s"
proof (induction vs s rule: parse_set_loop.induct)
  case (1 vs s)
  from "1.prems" show ?case
  proof (rule parse_set_loop_Ok)
    fix v s2 c s3
    assume lt: "\<not> length vs \<ge> SELECTOR_MAX_SET_VALUES"
      and v: "parse_value True (skip_whitespace s) = Ok (v, s2)" and c: "skip_whitespace s2 = c # s3"
      and res: "c = ch_comma \<and> parse_set_loop (vs @ [v]) s3 = Ok (ws, r) \<or>
        c \<noteq> ch_comma \<and> r = s3 \<and> ws = vs @ [v]"
    have "length s3 < length s"
      using c length_skip_whitespace [of s2] parse_value_length [OF v] length_skip_whitespace [of s]
      by simp
    with res "1.IH" [OF lt v refl c] show ?thesis by auto
  qed
qed

lemma parse_set_length: "parse_set s = Ok (ws, r) \<Longrightarrow> length r \<le> length s"
  by (fastforce simp: parse_set_def dest: parse_set_loop_length split: list.splits if_splits)

lemma keyword_tail_length: "keyword_tail w s = Some t \<Longrightarrow> length t \<le> length s"
  by (auto simp: keyword_tail_def split: if_splits list.splits)

lemma parse_operator_tail_Some:
  assumes "parse_operator_tail key s = Ok (Some (p, r))"
  shows "(\<exists>v b t. p = Equals key v \<and> parse_value b t = Ok (v, r) \<and> length t \<le> length s) \<or>
    (\<exists>v b t. p = NotEquals key v \<and> parse_value b t = Ok (v, r) \<and> length t \<le> length s) \<or>
    (\<exists>vs t. p = InSet key vs \<and> parse_set t = Ok (vs, r) \<and> length t \<le> length s) \<or>
    (\<exists>vs t. p = NotInSet key vs \<and> parse_set t = Ok (vs, r) \<and> length t \<le> length s)"
proof -
  define s1 where "s1 = skip_whitespace s"
  have le: "length s1 \<le> length s" by (simp add: s1_def length_skip_whitespace)
  have sk: "length (skip_whitespace t) \<le> length s" if "length t \<le> length s1" for t
    using length_skip_whitespace [of t] that le by simp
  have kw: "length (skip_whitespace t) \<le> length s" if "keyword_tail w s1 = Some t" for w t
    using keyword_tail_length [OF that] by (rule sk)
  show ?thesis
  proof (cases s1)
    case Nil
    then show ?thesis using assms by (simp add: parse_operator_tail_def s1_def keyword_tail_def)
  next
    case (Cons c t)
    from assms show ?thesis
      unfolding parse_operator_tail_def Let_def s1_def [symmetric]
      using Cons sk [of t] sk [of "tl t"] kw
      by (auto simp: and_then_Ok_iff split: if_splits option.splits list.splits) blast+
  qed
qed

lemma tag_parse_Nil: "tag_parse dns [] \<noteq> Ok t"
  by (simp add: tag_parse_Ok)

lemma parse_key_length: "parse_key dns s = Ok (k, r) \<Longrightarrow> length r < length s"
proof -
  assume a: "parse_key dns s = Ok (k, r)"
  let ?P = "\<lambda>c. \<not> key_stop c"
  have "takeWhile ?P s \<noteq> []" "r = dropWhile ?P s"
    using a by (auto simp: parse_key_def and_then_Ok_iff tag_parse_Nil split: if_splits)
  moreover have "length s = length (takeWhile ?P s) + length (dropWhile ?P s)"
    by (metis length_append takeWhile_dropWhile_id)
  ultimately show ?thesis by simp
qed

lemma parse_predicate_cases:
  assumes "parse_predicate dns s = Ok (p, r)"
  shows "\<exists>k s' r'. parse_key dns s' = Ok (k, r') \<and> length s' \<le> length s \<and>
    (p = NotExists k \<and> r = r' \<or> p = Exists k \<and> r = r' \<or> parse_operator_tail k r' = Ok (Some (p, r)))"
proof (cases "s \<noteq> [] \<and> hd s = ch_bang")
  case True
  with assms obtain k where "parse_key dns (tl s) = Ok (k, r)" "p = NotExists k"
    by (auto simp: parse_predicate_def and_then_Ok_iff)
  then show ?thesis by (intro exI [of _ k] exI [of _ "tl s"] exI [of _ r]) simp
next
  case False
  with assms show ?thesis
    by (auto simp: parse_predicate_def and_then_Ok_iff split: option.splits) blast+
qed

lemma parse_predicate_length: "parse_predicate dns s = Ok (p, r) \<Longrightarrow> length r < length s"
  using parse_predicate_cases [of dns s p r] parse_operator_tail_Some
  by (fastforce dest: parse_key_length parse_value_length parse_set_length)

function parse_predicate_stream ::
  "(ustr \<Rightarrow> bool) \<Rightarrow> bool \<Rightarrow> predicate list \<Rightarrow> ustr \<Rightarrow> predicate list result" where
  "parse_predicate_stream dns enforce predicates s =
     (if skip_whitespace s = [] then Ok predicates
      else if enforce \<and> length predicates \<ge> SELECTOR_MAX_PREDICATES
      then Err (resource_exhausted ''selector predicates'')
      else and_then (parse_predicate dns (skip_whitespace s)) (\<lambda>(predicate, rest).
             parse_predicate_stream dns enforce (predicates @ [predicate]) rest))"
  by pat_completeness auto
termination
proof (relation "measure (\<lambda>(_, _, _, s). length s)", goal_cases)
  case (2 dns enforce predicates s x p r)
  then show ?case using parse_predicate_length [of dns "skip_whitespace s" p r]
      length_skip_whitespace [of s] by simp
qed simp

declare parse_predicate_stream.simps [simp del]

record selector =
  sel_canonical :: ustr
  sel_predicates :: "predicate list"

definition parse_predicates :: "(ustr \<Rightarrow> bool) \<Rightarrow> ustr \<Rightarrow> predicate list result" where
  "parse_predicates dns canonical = parse_predicate_stream dns False [] canonical"

definition selector_parse :: "(ustr \<Rightarrow> bool) \<Rightarrow> ustr \<Rightarrow> selector result" where
  "selector_parse dns value =
     (if value = [] \<or> str_len value > SELECTOR_INPUT_MAX_BYTES
      then Err (invalid_input ''selector input'')
      else and_then (parse_predicate_stream dns True [] value) (\<lambda>predicates.
        if predicates = [] then Err (invalid_input ''selector input'')
        else
          let canonical = join [ch_space] (remdups_adj (sort (map predicate_canonical predicates)))
          in if str_len canonical > SELECTOR_INPUT_MAX_BYTES
             then Err (invalid_input ''selector input'')
             else and_then (parse_predicates dns canonical) (\<lambda>reparsed.
               Ok \<lparr>sel_canonical = canonical, sel_predicates = reparsed\<rparr>)))"

definition selector_matches_with :: "selector \<Rightarrow> (qualified_tag \<Rightarrow> ustr option) \<Rightarrow> bool" where
  "selector_matches_with sel lookup =
     list_all (\<lambda>predicate. predicate_matches predicate lookup) (sel_predicates sel)"

definition label_lookup :: "label_set \<Rightarrow> qualified_tag \<Rightarrow> ustr option" where
  "label_lookup labels tag = Option.bind (from_label_tag tag) (\<lambda>key. label_set_get labels key)"

definition selector_matches :: "selector \<Rightarrow> label_set \<Rightarrow> bool" where
  "selector_matches sel labels = selector_matches_with sel (label_lookup labels)"

section \<open>Canonical text parses back\<close>

definition wf_value :: "ustr \<Rightarrow> bool" where
  "wf_value v = (v \<noteq> [] \<and> str_len v \<le> LABEL_VALUE_MAX_BYTES \<and>
     (\<forall>c \<in> set v. is_whitespace c \<longrightarrow> c \<in> {ch_space, 9, 10, 13}))"

definition value_stop :: "bool \<Rightarrow> ustr \<Rightarrow> bool" where
  "value_stop in_list tail = (tail = [] \<or> is_whitespace (hd tail) \<or>
     (in_list \<and> hd tail \<in> {ch_comma, ch_close}))"

lemma escape_value_simps [simp]:
  "escape_value [] = []" "escape_value (c # v) = escape_char c @ escape_value v"
  by (simp_all add: escape_value_def)

lemma whitespace_ascii [simp]:
  "is_whitespace ch_space" "\<not> is_whitespace ch_backslash" "\<not> is_whitespace ch_comma"
  "\<not> is_whitespace ch_open" "\<not> is_whitespace ch_close" "\<not> is_whitespace ch_eq"
  "\<not> is_whitespace ch_bang"
  by (simp_all add: is_whitespace_def)

lemma skip_whitespace_Cons [simp]:
  "skip_whitespace (c # s) = (if is_whitespace c then skip_whitespace s else c # s)"
  by (simp add: skip_whitespace_def)

lemma skip_whitespace_Nil [simp]: "skip_whitespace [] = []"
  by (simp add: skip_whitespace_def)

lemma parse_value_loop_stop: "value_stop b tail \<Longrightarrow> parse_value_loop b v tail = Ok (v, tail)"
  by (cases tail) (auto simp: value_stop_def is_whitespace_def)

lemma parse_value_loop_escape_char:
  assumes "is_whitespace c \<longrightarrow> c \<in> {ch_space, 9, 10, 13}"
  shows "parse_value_loop b v (escape_char c @ s) = parse_value_loop b (v @ [c]) s"
  using assms by (auto simp: escape_char_def unescape_def)

lemma parse_value_loop_escape:
  assumes "\<forall>c \<in> set w. is_whitespace c \<longrightarrow> c \<in> {ch_space, 9, 10, 13}" "value_stop b tail"
  shows "parse_value_loop b v (escape_value w @ tail) = Ok (v @ w, tail)"
  using assms
proof (induction w arbitrary: v)
  case (Cons c w)
  then show ?case using parse_value_loop_escape_char [of c b v "escape_value w @ tail"] by simp
qed (simp add: parse_value_loop_stop)

lemma parse_value_escape:
  "wf_value w \<Longrightarrow> value_stop b tail \<Longrightarrow> parse_value b (escape_value w @ tail) = Ok (w, tail)"
  by (simp add: parse_value_def wf_value_def parse_value_loop_escape)

lemma skip_whitespace_escape:
  "wf_value w \<Longrightarrow> skip_whitespace (escape_value w @ tail) = escape_value w @ tail"
  by (cases w) (auto simp: wf_value_def escape_char_def)

lemma parse_set_loop_escape:
  assumes "ws \<noteq> []" "list_all wf_value ws" "length vs + length ws \<le> SELECTOR_MAX_SET_VALUES"
  shows "parse_set_loop vs (join [ch_comma] (map escape_value ws) @ ch_close # tail) = Ok (vs @ ws, tail)"
  using assms
proof (induction ws arbitrary: vs)
  case (Cons w ws)
  have lt: "\<not> length vs \<ge> SELECTOR_MAX_SET_VALUES" using Cons.prems by simp
  show ?case
  proof (cases ws)
    case Nil
    then show ?thesis using Cons.prems lt
      by (subst parse_set_loop.simps)
        (simp add: skip_whitespace_escape parse_value_escape value_stop_def)
  next
    case (Cons w2 ws2)
    then show ?thesis using Cons.prems Cons.IH [of "vs @ [w]"] lt
      by (subst parse_set_loop.simps)
        (simp add: skip_whitespace_escape parse_value_escape value_stop_def)
  qed
qed simp

text \<open>Values read by the parser are well formed.\<close>

lemma unescape_whitespace: "unescape e = Some u \<Longrightarrow> is_whitespace u \<Longrightarrow> u \<in> {ch_space, 9, 10, 13}"
  by (auto simp: unescape_def split: if_splits)

lemma parse_value_loop_chars:
  "parse_value_loop b v s = Ok (w, r) \<Longrightarrow>
   \<forall>c \<in> set v. is_whitespace c \<longrightarrow> c \<in> {ch_space, 9, 10, 13} \<Longrightarrow>
   \<forall>c \<in> set w. is_whitespace c \<longrightarrow> c \<in> {ch_space, 9, 10, 13}"
proof (induction b v s rule: parse_value_loop.induct)
  case (2 b v c s)
  show ?case
  proof (cases "c = ch_backslash")
    case True
    with "2.prems" obtain e s' u where s: "s = e # s'" "unescape e = Some u"
      and r: "parse_value_loop b (v @ [u]) s' = Ok (w, r)"
      by (auto split: list.splits option.splits)
    have "\<forall>c \<in> set (v @ [u]). is_whitespace c \<longrightarrow> c \<in> {ch_space, 9, 10, 13}"
      using "2.prems"(2) unescape_whitespace [OF s(2)] by auto
    from "2.IH"(1) [OF True s r this] show ?thesis .
  next
    case False
    then show ?thesis using "2.prems" "2.IH"(2) by (auto split: if_split_asm)
  qed
qed simp

lemma parse_value_wf: "parse_value b s = Ok (w, r) \<Longrightarrow> wf_value w"
  by (auto simp: parse_value_def and_then_Ok_iff wf_value_def dest!: parse_value_loop_chars
      split: if_splits)

lemma parse_set_loop_wf:
  "parse_set_loop vs s = Ok (ws, r) \<Longrightarrow> list_all wf_value vs \<Longrightarrow>
   ws \<noteq> [] \<and> length ws \<le> SELECTOR_MAX_SET_VALUES \<and> list_all wf_value ws"
proof (induction vs s rule: parse_set_loop.induct)
  case (1 vs s)
  from "1.prems"(1) show ?case
  proof (rule parse_set_loop_Ok)
    fix v s2 c s3
    assume lt: "\<not> length vs \<ge> SELECTOR_MAX_SET_VALUES"
      and v: "parse_value True (skip_whitespace s) = Ok (v, s2)" and c: "skip_whitespace s2 = c # s3"
      and res: "c = ch_comma \<and> parse_set_loop (vs @ [v]) s3 = Ok (ws, r) \<or>
        c \<noteq> ch_comma \<and> r = s3 \<and> ws = vs @ [v]"
    have "list_all wf_value (vs @ [v])" using "1.prems"(2) parse_value_wf [OF v] by simp
    with lt res "1.IH" [OF lt v refl c] show ?thesis by auto
  qed
qed

lemma parse_set_wf:
  "parse_set s = Ok (ws, r) \<Longrightarrow>
   ws \<noteq> [] \<and> length ws \<le> SELECTOR_MAX_SET_VALUES \<and> list_all wf_value ws"
  by (rule parse_set_loop_wf [of "[]" "tl s" ws r])
    (auto simp: parse_set_def split: list.splits if_splits)

text \<open>Keys read by the parser reparse from their canonical text.\<close>

definition wf_key :: "(ustr \<Rightarrow> bool) \<Rightarrow> qualified_tag \<Rightarrow> bool" where
  "wf_key dns k = (tag_parse dns (tag_value k) = Ok k \<and> selector_key_allowed k \<and>
     (\<forall>c \<in> set (tag_value k). \<not> key_stop c))"

lemma is_whitespace_range: "is_whitespace c \<Longrightarrow> c \<le> 32 \<or> 133 \<le> c"
  unfolding is_whitespace_def by linarith

lemma key_stop_lowercase:
  "\<forall>c \<in> set d. \<not> key_stop c \<Longrightarrow> \<forall>c \<in> set (to_ascii_lowercase d). \<not> key_stop c"
proof -
  have "\<not> key_stop (c + 32)" if "65 \<le> c \<and> c \<le> 90" for c
    using that is_whitespace_range [of "c + 32"] by (auto simp: key_stop_def)
  then show "\<forall>c \<in> set d. \<not> key_stop c \<Longrightarrow> ?thesis"
    unfolding to_ascii_lowercase_def by (auto simp del: Un_iff)
qed

lemma allowed_not_reserved: "selector_key_allowed k \<Longrightarrow> \<not> reserved_tag k"
  by (auto simp: selector_key_allowed_def reserved_tag_def CATEGORY_CRYPTO_def)

lemma parse_key_wf:
  assumes "parse_key dns s = Ok (k, r)" "\<And>h. dns (to_ascii_lowercase h) = dns h"
  shows "wf_key dns k"
proof -
  let ?t = "takeWhile (\<lambda>c. \<not> key_stop c) s"
  from assms(1) have t: "tag_parse dns ?t = Ok k" and al: "selector_key_allowed k"
    by (auto simp: parse_key_def and_then_Ok_iff split: if_splits)
  have ns: "\<forall>c \<in> set ?t. \<not> key_stop c" using set_takeWhileD by fast
  from t obtain d c n where s: "?t = d @ slash # c @ slash # n"
    and k: "k = make_tag (to_ascii_lowercase d) c n" unfolding tag_parse_Ok by blast
  have "\<forall>c \<in> set (tag_value k). \<not> key_stop c"
    using ns key_stop_lowercase [of d] unfolding s k tag_accessors by (simp add: ball_Un)
  with al tag_reparse [OF t assms(2) allowed_not_reserved [OF al]] show ?thesis
    by (simp add: wf_key_def)
qed

lemma wf_key_slash: "wf_key dns k \<Longrightarrow> slash \<in> set (tag_value k)"
  by (auto simp: wf_key_def tag_parse_Ok)

lemma parse_key_tag_value:
  assumes "wf_key dns k" "tail = [] \<or> key_stop (hd tail)"
  shows "parse_key dns (tag_value k @ tail) = Ok (k, tail)"
proof -
  have "takeWhile (\<lambda>c. \<not> key_stop c) (tag_value k @ tail) = tag_value k"
    "dropWhile (\<lambda>c. \<not> key_stop c) (tag_value k @ tail) = tail"
    using assms by (cases tail; auto simp: wf_key_def)+
  then show ?thesis using assms(1) by (simp add: parse_key_def wf_key_def)
qed

lemma keyword_tail_tag_value:
  assumes "wf_key dns k" "slash \<notin> set w"
  shows "keyword_tail w (tag_value k @ tail) = None"
proof (cases "prefix w (tag_value k @ tail)")
  case True
  have "\<not> prefix (tag_value k) w" using wf_key_slash [OF assms(1)] assms(2)
    by (auto simp: prefix_def)
  with True obtain rest where r: "tag_value k = w @ rest" "rest \<noteq> []"
    by (auto simp: prefix_append) (auto simp: prefix_def)
  then have "\<not> key_stop (hd rest)" using assms(1) by (auto simp: wf_key_def)
  with r show ?thesis by (cases rest) (auto simp: keyword_tail_def key_stop_def)
qed (simp add: keyword_tail_def)

fun predicate_key :: "predicate \<Rightarrow> qualified_tag" where
  "predicate_key (Exists k) = k"
| "predicate_key (NotExists k) = k"
| "predicate_key (Equals k v) = k"
| "predicate_key (NotEquals k v) = k"
| "predicate_key (InSet k vs) = k"
| "predicate_key (NotInSet k vs) = k"

fun predicate_values :: "predicate \<Rightarrow> ustr list option" where
  "predicate_values (Equals k v) = Some [v]"
| "predicate_values (NotEquals k v) = Some [v]"
| "predicate_values (InSet k vs) = Some vs"
| "predicate_values (NotInSet k vs) = Some vs"
| "predicate_values _ = None"

definition wf_predicate :: "(ustr \<Rightarrow> bool) \<Rightarrow> predicate \<Rightarrow> bool" where
  "wf_predicate dns p = (wf_key dns (predicate_key p) \<and>
     (case predicate_values p of None \<Rightarrow> True
      | Some vs \<Rightarrow> vs \<noteq> [] \<and> length vs \<le> SELECTOR_MAX_SET_VALUES \<and> list_all wf_value vs))"

fun normalise :: "predicate \<Rightarrow> predicate" where
  "normalise (InSet k vs) = InSet k (remdups_adj (sort vs))"
| "normalise (NotInSet k vs) = NotInSet k (remdups_adj (sort vs))"
| "normalise p = p"

lemma parse_predicate_wf:
  assumes "parse_predicate dns s = Ok (p, r)" "\<And>h. dns (to_ascii_lowercase h) = dns h"
  shows "wf_predicate dns p"
proof -
  have one: "1 \<le> SELECTOR_MAX_SET_VALUES" by (simp add: SELECTOR_MAX_SET_VALUES_def)
  from parse_predicate_cases [OF assms(1)] obtain k s' r' where k: "parse_key dns s' = Ok (k, r')"
    and p: "p = NotExists k \<or> p = Exists k \<or> parse_operator_tail k r' = Ok (Some (p, r))" by blast
  from p show ?thesis
    using parse_key_wf [OF k assms(2)] parse_operator_tail_Some [of k r' p r] one
    by (auto simp: wf_predicate_def dest!: parse_value_wf parse_set_wf)
qed

definition tail_ok :: "ustr \<Rightarrow> bool" where
  "tail_ok tail = ((tail = [] \<or> hd tail = ch_space) \<and> (\<forall>k. parse_operator_tail k tail = Ok None))"

lemma tail_ok_Nil [simp]: "tail_ok []"
  by (simp add: tail_ok_def parse_operator_tail_def keyword_tail_def)

lemma tag_value_hd:
  assumes "wf_key dns k"
  obtains c t where "tag_value k = c # t" "\<not> key_stop c"
  using assms wf_key_slash [OF assms] by (cases "tag_value k") (auto simp: wf_key_def)

lemma predicate_canonical_head:
  "\<exists>b. predicate_canonical p = (case p of NotExists k \<Rightarrow> ch_bang # tag_value k | _ \<Rightarrow> tag_value (predicate_key p) @ b)"
  by (cases p) (auto intro: exI [of _ "[]"])

lemma canonical_skip_whitespace:
  assumes "wf_predicate dns p"
  shows "skip_whitespace (predicate_canonical p @ s) = predicate_canonical p @ s"
proof -
  have "wf_key dns (predicate_key p)" using assms by (simp add: wf_predicate_def)
  then obtain c t where "tag_value (predicate_key p) = c # t" "\<not> key_stop c" by (rule tag_value_hd)
  then show ?thesis by (cases p) (simp_all add: key_stop_def)
qed

lemma tail_ok_canonical:
  assumes "wf_predicate dns p"
  shows "tail_ok (ch_space # predicate_canonical p @ s)"
proof -
  have wk: "wf_key dns (predicate_key p)" using assms by (simp add: wf_predicate_def)
  obtain c t where ct: "tag_value (predicate_key p) = c # t" "\<not> key_stop c" using wk by (rule tag_value_hd)
  have kw: "keyword_tail w (c # t @ r) = None" if "slash \<notin> set w" for w r
    using keyword_tail_tag_value [OF wk that] ct by simp
  have bang: "keyword_tail (lit ''in'') (ch_bang # r) = None" "keyword_tail (lit ''notin'') (ch_bang # r) = None" for r
    by (simp_all add: keyword_tail_def)
  have "parse_operator_tail k (ch_space # predicate_canonical p @ s) = Ok None" for k
    unfolding parse_operator_tail_def Let_def skip_whitespace_Cons canonical_skip_whitespace [OF assms]
    using ct kw by (cases p) (simp_all add: key_stop_def bang)
  then show ?thesis by (simp add: tail_ok_def)
qed

lemma dedup_sort_wf:
  "vs \<noteq> [] \<and> length vs \<le> n \<and> list_all P vs \<Longrightarrow>
   remdups_adj (sort vs) \<noteq> [] \<and> length (remdups_adj (sort vs)) \<le> n \<and> list_all P (remdups_adj (sort vs))"
  using remdups_adj_length [of "sort vs"] set_empty [of "sort vs"] by (auto simp: list_all_iff)

lemma parse_set_canonical:
  assumes "vs \<noteq> [] \<and> length vs \<le> SELECTOR_MAX_SET_VALUES \<and> list_all wf_value vs"
  shows "parse_set (ch_open # canonical_set vs @ ch_close # tail) = Ok (remdups_adj (sort vs), tail)"
  using parse_set_loop_escape [of "remdups_adj (sort vs)" "[]" tail] dedup_sort_wf [OF assms]
  by (simp add: parse_set_def canonical_set_def)

lemma tail_ok_value_stop: "tail_ok tail \<Longrightarrow> value_stop False tail"
  by (auto simp: tail_ok_def value_stop_def)

lemma parse_operator_tail_canonical:
  assumes "tail_ok tail"
  shows "wf_value v \<Longrightarrow> parse_operator_tail k (ch_eq # escape_value v @ tail) = Ok (Some (Equals k v, tail))"
    and "wf_value v \<Longrightarrow>
      parse_operator_tail k (ch_bang # ch_eq # escape_value v @ tail) = Ok (Some (NotEquals k v, tail))"
    and "vs \<noteq> [] \<and> length vs \<le> SELECTOR_MAX_SET_VALUES \<and> list_all wf_value vs \<Longrightarrow>
      parse_operator_tail k (lit '' in ('' @ canonical_set vs @ ch_close # tail) =
        Ok (Some (InSet k (remdups_adj (sort vs)), tail))"
    and "vs \<noteq> [] \<and> length vs \<le> SELECTOR_MAX_SET_VALUES \<and> list_all wf_value vs \<Longrightarrow>
      parse_operator_tail k (lit '' notin ('' @ canonical_set vs @ ch_close # tail) =
        Ok (Some (NotInSet k (remdups_adj (sort vs)), tail))"
proof -
  show "wf_value v \<Longrightarrow> parse_operator_tail k (ch_eq # escape_value v @ tail) = Ok (Some (Equals k v, tail))"
    "wf_value v \<Longrightarrow>
      parse_operator_tail k (ch_bang # ch_eq # escape_value v @ tail) = Ok (Some (NotEquals k v, tail))"
    by (simp_all add: parse_operator_tail_def skip_whitespace_escape parse_value_escape
        tail_ok_value_stop [OF assms])
  have nw: "\<not> is_whitespace 105" "\<not> is_whitespace 110" by (simp_all add: is_whitespace_def)
  assume vs: "vs \<noteq> [] \<and> length vs \<le> SELECTOR_MAX_SET_VALUES \<and> list_all wf_value vs"
  show "parse_operator_tail k (lit '' in ('' @ canonical_set vs @ ch_close # tail) =
        Ok (Some (InSet k (remdups_adj (sort vs)), tail))"
    using parse_set_canonical [OF vs] by (simp add: parse_operator_tail_def keyword_tail_def nw)
  show "parse_operator_tail k (lit '' notin ('' @ canonical_set vs @ ch_close # tail) =
        Ok (Some (NotInSet k (remdups_adj (sort vs)), tail))"
    using parse_set_canonical [OF vs] by (simp add: parse_operator_tail_def keyword_tail_def nw)
qed

lemma parse_predicate_key_first:
  assumes "wf_key dns k" "tail = [] \<or> key_stop (hd tail)"
  shows "parse_predicate dns (tag_value k @ tail) =
    and_then (parse_operator_tail k tail) (\<lambda>t. case t of Some pr \<Rightarrow> Ok pr | None \<Rightarrow> Ok (Exists k, tail))"
proof -
  obtain c t where "tag_value k = c # t" "\<not> key_stop c" using assms(1) by (rule tag_value_hd)
  then have "hd (tag_value k @ tail) \<noteq> ch_bang" by (auto simp: key_stop_def)
  then show ?thesis by (simp add: parse_predicate_def parse_key_tag_value [OF assms])
qed

lemma parse_predicate_canonical:
  assumes "wf_predicate dns p" "tail_ok tail"
  shows "parse_predicate dns (predicate_canonical p @ tail) = Ok (normalise p, tail)"
proof -
  have k: "wf_key dns (predicate_key p)" using assms(1) by (simp add: wf_predicate_def)
  have t: "tail = [] \<or> key_stop (hd tail)" "parse_operator_tail key tail = Ok None" for key
    using assms(2) by (auto simp: tail_ok_def key_stop_def)
  have st: "key_stop ch_eq" "key_stop ch_bang" "key_stop ch_space" by (simp_all add: key_stop_def)
  note tails = parse_operator_tail_canonical [OF assms(2)] t
  show ?thesis
  proof (cases p)
    case (NotExists key)
    with k show ?thesis by (simp add: parse_predicate_def parse_key_tag_value t(1))
  qed (use assms(1) k st tails in \<open>simp_all add: parse_predicate_key_first wf_predicate_def\<close>)
qed

lemma parse_predicate_stream_skip:
  "skip_whitespace s = skip_whitespace s' \<Longrightarrow>
   parse_predicate_stream dns e acc s = parse_predicate_stream dns e acc s'"
  by (simp add: parse_predicate_stream.simps [of dns e acc])

lemma parse_stream_canonical:
  assumes "list_all (wf_predicate dns) ps" "e \<longrightarrow> length acc + length ps \<le> SELECTOR_MAX_PREDICATES"
  shows "parse_predicate_stream dns e acc (join [ch_space] (map predicate_canonical ps)) =
    Ok (acc @ map normalise ps)"
  using assms
proof (induction ps arbitrary: acc)
  case Nil
  then show ?case by (simp add: parse_predicate_stream.simps [of dns e acc])
next
  case (Cons p ps)
  define tail where "tail = (if ps = [] then [] else ch_space # join [ch_space] (map predicate_canonical ps))"
  have j: "join [ch_space] (map predicate_canonical (p # ps)) = predicate_canonical p @ tail"
    by (cases ps) (simp_all add: tail_def)
  have wf: "wf_predicate dns p" using Cons.prems by simp
  have tok: "tail_ok tail"
  proof (cases ps)
    case (Cons q qs)
    then obtain s where "tail = ch_space # predicate_canonical q @ s" by (cases qs) (auto simp: tail_def)
    then show ?thesis using tail_ok_canonical [of dns q s] Cons.prems Cons by simp
  qed (simp add: tail_def)
  have ne: "predicate_canonical p @ tail \<noteq> []"
    using wf_key_slash [of dns "predicate_key p"] wf by (cases p) (auto simp: wf_predicate_def)
  have "parse_predicate_stream dns e acc (predicate_canonical p @ tail) =
      parse_predicate_stream dns e (acc @ [normalise p]) tail"
    unfolding parse_predicate_stream.simps [of dns e acc "predicate_canonical p @ tail"]
      canonical_skip_whitespace [OF wf] parse_predicate_canonical [OF wf tok]
    using Cons.prems ne by auto
  also have "\<dots> = parse_predicate_stream dns e (acc @ [normalise p]) (join [ch_space] (map predicate_canonical ps))"
    by (rule parse_predicate_stream_skip) (simp add: tail_def)
  finally show ?case using Cons.IH [of "acc @ [normalise p]"] Cons.prems unfolding j by simp
qed

lemma parse_stream_wf:
  "parse_predicate_stream dns e acc s = Ok ps \<Longrightarrow> (\<And>h. dns (to_ascii_lowercase h) = dns h) \<Longrightarrow>
   list_all (wf_predicate dns) acc \<Longrightarrow> (e \<longrightarrow> length acc \<le> SELECTOR_MAX_PREDICATES) \<Longrightarrow>
   list_all (wf_predicate dns) ps \<and> (e \<longrightarrow> length ps \<le> SELECTOR_MAX_PREDICATES)"
proof (induction dns e acc s rule: parse_predicate_stream.induct)
  case (1 dns e acc s)
  show ?case
  proof (cases "skip_whitespace s = []")
    case True
    then show ?thesis using "1.prems" by (simp add: parse_predicate_stream.simps [of dns e acc])
  next
    case False
    then obtain p r where lt: "\<not> (e \<and> length acc \<ge> SELECTOR_MAX_PREDICATES)"
      and p: "parse_predicate dns (skip_whitespace s) = Ok (p, r)"
      and rest: "parse_predicate_stream dns e (acc @ [p]) r = Ok ps"
      using "1.prems"(1) unfolding parse_predicate_stream.simps [of dns e acc s]
      by (auto simp: and_then_Ok_iff split: if_split_asm)
    have "list_all (wf_predicate dns) (acc @ [p])"
      using "1.prems"(2,3) parse_predicate_wf [OF p] by simp
    then show ?thesis using "1.IH" [OF False lt p refl rest] "1.prems"(2) lt by (simp add: not_le Suc_le_eq)
  qed
qed

lemma canonical_normalise [simp]: "predicate_canonical (normalise p) = predicate_canonical p"
  by (cases p) (simp_all add: canonical_set_def)

lemma normalise_idem [simp]: "normalise (normalise p) = normalise p"
  by (cases p) simp_all

lemma matches_normalise [simp]: "predicate_matches (normalise p) lookup = predicate_matches p lookup"
  by (cases p) (simp_all add: list_ex_iff split: option.split)

lemma canonical_inj:
  assumes "wf_predicate dns p" "wf_predicate dns q" "predicate_canonical p = predicate_canonical q"
  shows "normalise p = normalise q"
  using parse_predicate_canonical [OF assms(1) tail_ok_Nil] parse_predicate_canonical [OF assms(2) tail_ok_Nil]
    assms(3) by simp

lemma canonical_witnesses:
  assumes "list_all (wf_predicate dns) ps"
  obtains qs where "remdups_adj (sort (map predicate_canonical ps)) = map predicate_canonical qs"
    "list_all (wf_predicate dns) qs" "length qs \<le> length ps" "normalise ` set qs = normalise ` set ps"
proof -
  let ?cs = "remdups_adj (sort (map predicate_canonical ps))"
  define f where "f c = (SOME q. q \<in> set ps \<and> predicate_canonical q = c)" for c
  have f: "f c \<in> set ps \<and> predicate_canonical (f c) = c" if "c \<in> set ?cs" for c
  proof -
    have "\<exists>q. q \<in> set ps \<and> predicate_canonical q = c" using that by auto
    then show ?thesis unfolding f_def by (rule someI_ex)
  qed
  have wf: "q \<in> set ps \<Longrightarrow> wf_predicate dns q" for q using assms by (auto simp: list_all_iff)
  have cs: "set ?cs = predicate_canonical ` set ps" by simp
  have "map (predicate_canonical \<circ> f) ?cs = ?cs" by (rule map_idI) (use f in auto)
  then have "?cs = map predicate_canonical (map f ?cs)" by simp
  moreover have "list_all (wf_predicate dns) (map f ?cs)" using f wf by (auto simp: list_all_iff)
  moreover have "length (map f ?cs) \<le> length ps"
    using remdups_adj_length [of "sort (map predicate_canonical ps)"] by simp
  moreover have "normalise ` set (map f ?cs) = normalise ` set ps"
  proof
    show "normalise ` set (map f ?cs) \<subseteq> normalise ` set ps" using f by auto
    show "normalise ` set ps \<subseteq> normalise ` set (map f ?cs)"
    proof
      fix x assume "x \<in> normalise ` set ps"
      then obtain p where p: "p \<in> set ps" "x = normalise p" by blast
      then have c: "predicate_canonical p \<in> set ?cs" unfolding cs by blast
      from f [OF c] p have "x = normalise (f (predicate_canonical p))"
        using canonical_inj [OF wf wf] by metis
      with c show "x \<in> normalise ` set (map f ?cs)" by (metis image_eqI list.set_map)
    qed
  qed
  ultimately show thesis by (rule that)
qed

lemma selector_parse_accepted:
  assumes raw: "parse_predicate_stream dns True [] s = Ok ps" "ps \<noteq> []" "s \<noteq> []"
    "str_len s \<le> SELECTOR_INPUT_MAX_BYTES"
    and bound: "str_len (join [ch_space] (remdups_adj (sort (map predicate_canonical ps))))
      \<le> SELECTOR_INPUT_MAX_BYTES"
    and dns: "\<And>h. dns (to_ascii_lowercase h) = dns h"
  obtains qs where "selector_parse dns s = Ok \<lparr>sel_canonical = join [ch_space] (map predicate_canonical qs),
      sel_predicates = map normalise qs\<rparr>"
    "list_all (wf_predicate dns) qs" "length qs \<le> SELECTOR_MAX_PREDICATES"
    "normalise ` set qs = normalise ` set ps" "sorted_wrt (<) (map predicate_canonical qs)"
proof -
  have wf: "list_all (wf_predicate dns) ps" "length ps \<le> SELECTOR_MAX_PREDICATES"
    using parse_stream_wf [OF raw(1) dns] by simp_all
  from canonical_witnesses [OF wf(1)] obtain qs
    where q: "remdups_adj (sort (map predicate_canonical ps)) = map predicate_canonical qs"
    "list_all (wf_predicate dns) qs" "length qs \<le> length ps" "normalise ` set qs = normalise ` set ps" .
  have "sorted_wrt (<) (map predicate_canonical qs)" by (simp flip: q(1))
  moreover have "selector_parse dns s = Ok \<lparr>sel_canonical = join [ch_space] (map predicate_canonical qs),
      sel_predicates = map normalise qs\<rparr>"
    using raw bound parse_stream_canonical [OF q(2), of False "[]"]
    by (simp add: selector_parse_def parse_predicates_def q(1))
  ultimately show thesis using that q wf(2) by simp
qed

lemma selector_parse_Ok:
  assumes "selector_parse dns s = Ok sel"
  obtains ps where "parse_predicate_stream dns True [] s = Ok ps" "ps \<noteq> []" "s \<noteq> []"
    "str_len s \<le> SELECTOR_INPUT_MAX_BYTES"
    "str_len (join [ch_space] (remdups_adj (sort (map predicate_canonical ps))))
      \<le> SELECTOR_INPUT_MAX_BYTES"
    "sel_canonical sel = join [ch_space] (remdups_adj (sort (map predicate_canonical ps)))"
  using assms by (auto simp: selector_parse_def and_then_Ok_iff Let_def split: if_split_asm)

section \<open>Properties\<close>

text \<open>C22: an accepted selector is its own canonical form. Its stored text is the
  single-space join of its predicates' canonical texts in strictly increasing order, is
  inside the input bound, and parses back to exactly the same selector.\<close>

theorem selector_parse_canonical:
  assumes "selector_parse dns s = Ok sel" and "\<forall>h. dns (to_ascii_lowercase h) = dns h"
  shows "selector_parse dns (sel_canonical sel) = Ok sel \<and>
    str_len (sel_canonical sel) \<le> SELECTOR_INPUT_MAX_BYTES \<and>
    sel_canonical sel = join [ch_space] (map predicate_canonical (sel_predicates sel)) \<and>
    sorted_wrt (<) (map predicate_canonical (sel_predicates sel)) \<and>
    length (sel_predicates sel) \<le> SELECTOR_MAX_PREDICATES"
proof -
  have dns: "\<And>h. dns (to_ascii_lowercase h) = dns h" using assms(2) by simp
  from assms(1) obtain ps where raw: "parse_predicate_stream dns True [] s = Ok ps" "ps \<noteq> []" "s \<noteq> []"
      "str_len s \<le> SELECTOR_INPUT_MAX_BYTES"
    and bound: "str_len (join [ch_space] (remdups_adj (sort (map predicate_canonical ps))))
      \<le> SELECTOR_INPUT_MAX_BYTES"
    and can: "sel_canonical sel = join [ch_space] (remdups_adj (sort (map predicate_canonical ps)))"
    by (rule selector_parse_Ok)
  from raw bound dns obtain qs where q: "selector_parse dns s =
      Ok \<lparr>sel_canonical = join [ch_space] (map predicate_canonical qs), sel_predicates = map normalise qs\<rparr>"
    and wq: "list_all (wf_predicate dns) qs" and len: "length qs \<le> SELECTOR_MAX_PREDICATES"
    and im: "normalise ` set qs = normalise ` set ps" and st: "sorted_wrt (<) (map predicate_canonical qs)"
    by (rule selector_parse_accepted)
  have sel: "sel = \<lparr>sel_canonical = join [ch_space] (map predicate_canonical qs), sel_predicates = map normalise qs\<rparr>"
    using assms(1) q by simp
  have mc: "map predicate_canonical (map normalise qs) = map predicate_canonical qs" by simp
  have ne: "qs \<noteq> []" using im raw(2) by auto
  then have "predicate_canonical (hd qs) \<noteq> []" using wq wf_key_slash [of dns "predicate_key (hd qs)"]
    by (cases qs; cases "hd qs") (auto simp: wf_predicate_def)
  with ne have nj: "join [ch_space] (map predicate_canonical qs) \<noteq> []"
    by (cases qs; cases "tl qs") auto
  have "selector_parse dns (sel_canonical sel) = Ok sel"
    using parse_stream_canonical [OF wq, of True "[]"] parse_stream_canonical [OF wq, of False "[]"]
      len ne nj bound can st
    by (simp add: sel selector_parse_def parse_predicates_def mc strict_sorted_sort_id
        strict_sorted_remdups_adj comp_def)
  then show ?thesis using bound can st len by (simp add: sel comp_def)
qed

text \<open>Canonicalisation cannot fail and does not change the meaning: when the raw
  expression parses to a nonempty predicate list and the canonical text is inside the
  bound, the internal reparse succeeds, and the stored selector matches a label lookup
  exactly when every predicate written in the raw expression does.\<close>

lemma selector_parse_meaning:
  assumes "parse_predicate_stream dns True [] s = Ok ps" "ps \<noteq> []" "s \<noteq> []"
    "str_len s \<le> SELECTOR_INPUT_MAX_BYTES"
    and "str_len (join [ch_space] (remdups_adj (sort (map predicate_canonical ps))))
      \<le> SELECTOR_INPUT_MAX_BYTES"
    and "\<forall>h. dns (to_ascii_lowercase h) = dns h"
  shows "\<exists>sel. selector_parse dns s = Ok sel \<and>
    (\<forall>lookup. selector_matches_with sel lookup = (\<forall>p \<in> set ps. predicate_matches p lookup))"
proof -
  obtain qs where q: "selector_parse dns s =
      Ok \<lparr>sel_canonical = join [ch_space] (map predicate_canonical qs), sel_predicates = map normalise qs\<rparr>"
    and im: "normalise ` set qs = normalise ` set ps"
    using selector_parse_accepted [OF assms(1-5)] assms(6) by metis
  have m: "(\<forall>p \<in> set xs. predicate_matches p l) = (\<forall>x \<in> normalise ` set xs. predicate_matches x l)" for xs l
    by simp
  show ?thesis
    by (rule exI, rule conjI, rule q)
      (simp add: selector_matches_with_def list_all_iff m [of qs] m [of ps] im del: ball_simps)
qed

definition sample_zone :: qualified_tag where
  "sample_zone = make_tag (lit ''e.org'') (lit ''labels'') (lit ''zone'')"

lemma parse_stream_step:
  "skip_whitespace s = s' \<Longrightarrow> s' \<noteq> [] \<Longrightarrow> length acc < SELECTOR_MAX_PREDICATES \<Longrightarrow>
   parse_predicate dns s' = Ok (p, r) \<Longrightarrow>
   parse_predicate_stream dns e acc s = parse_predicate_stream dns e (acc @ [p]) r"
  by (simp add: parse_predicate_stream.simps [of dns e acc s])

lemma parse_stream_end: "skip_whitespace s = [] \<Longrightarrow> parse_predicate_stream dns e acc s = Ok acc"
  by (simp add: parse_predicate_stream.simps [of dns e acc s])

lemmas tag_eval = tag_parse_def validate_tag_def str_len_ascii MIN_TAG_LEN_def MAX_TAG_LEN_def
  valid_dns_hostname_def valid_name_component_def MAX_COMPONENT_LEN_def is_lower_def is_upper_def
  is_digit_def BUILTIN_DOMAIN_def CATEGORY_CRYPTO_def make_tag_def to_ascii_lowercase_def

lemma sample_key:
  "parse_key (\<lambda>_. True) (lit ''E.org/labels/zone'') = Ok (sample_zone, [])"
  "parse_key (\<lambda>_. True) (lit ''E.org/labels/zone '' @ r) = Ok (sample_zone, ch_space # r)"
  by (simp_all add: parse_key_def key_stop_def is_whitespace_def tag_eval sample_zone_def
      selector_key_allowed_def tag_category_def)

definition sample_selector :: selector where
  "sample_selector = \<lparr>sel_canonical = lit ''!e.org/labels/zone e.org/labels/zone=a'',
     sel_predicates = [NotExists sample_zone, Equals sample_zone (lit ''a'')]\<rparr>"

lemma sample_stream:
  "parse_predicate_stream (\<lambda>_. True) True [] (lit ''E.org/labels/zone = a  !E.org/labels/zone'') =
    Ok [Equals sample_zone (lit ''a''), NotExists sample_zone]"
proof -
  have k: "parse_key (\<lambda>_. True) (lit ''E.org/labels/zone = a  !E.org/labels/zone'') =
      Ok (sample_zone, lit '' = a  !E.org/labels/zone'')"
    "parse_key (\<lambda>_. True) (lit ''E.org/labels/zone'') = Ok (sample_zone, [])"
    using sample_key(1) sample_key(2) [of "lit ''= a  !E.org/labels/zone''"] by simp_all
  have p: "parse_predicate (\<lambda>_. True) (lit ''E.org/labels/zone = a  !E.org/labels/zone'') =
      Ok (Equals sample_zone (lit ''a''), lit ''  !E.org/labels/zone'')"
    "parse_predicate (\<lambda>_. True) (lit ''!E.org/labels/zone'') = Ok (NotExists sample_zone, [])"
    using k by (simp_all add: parse_predicate_def parse_operator_tail_def keyword_tail_def
        parse_value_def LABEL_VALUE_MAX_BYTES_def is_whitespace_def)
  show ?thesis
    using parse_stream_step [OF _ _ _ p(1), of "lit ''E.org/labels/zone = a  !E.org/labels/zone''" "[]" True]
      parse_stream_step [OF _ _ _ p(2), of "lit ''  !E.org/labels/zone''" "[Equals sample_zone (lit ''a'')]" True]
      parse_stream_end [of "[]" "\<lambda>_. True" True "[Equals sample_zone (lit ''a''), NotExists sample_zone]"]
    by (simp add: SELECTOR_MAX_PREDICATES_def is_whitespace_def)
qed

lemma sample_texts:
  "remdups_adj (sort (map predicate_canonical [Equals sample_zone (lit ''a''), NotExists sample_zone])) =
    map predicate_canonical (sel_predicates sample_selector)"
  "join [ch_space] (map predicate_canonical (sel_predicates sample_selector)) = sel_canonical sample_selector"
  "str_len (sel_canonical sample_selector) \<le> SELECTOR_INPUT_MAX_BYTES"
  by (simp_all add: sample_selector_def sample_zone_def escape_char_def str_len_ascii
      SELECTOR_INPUT_MAX_BYTES_def)

lemma sample_parse:
  "selector_parse (\<lambda>_. True) (lit ''E.org/labels/zone = a  !E.org/labels/zone'') = Ok sample_selector"
proof -
  have wf: "list_all (wf_predicate (\<lambda>_. True)) (sel_predicates sample_selector)"
    using parse_stream_wf [OF sample_stream] by (simp add: sample_selector_def)
  have "map normalise (sel_predicates sample_selector) = sel_predicates sample_selector"
    by (simp add: sample_selector_def)
  moreover have "lit ''E.org/labels/zone = a  !E.org/labels/zone'' \<noteq> []"
    "str_len (lit ''E.org/labels/zone = a  !E.org/labels/zone'') \<le> SELECTOR_INPUT_MAX_BYTES"
    by (simp_all add: str_len_ascii SELECTOR_INPUT_MAX_BYTES_def)
  ultimately show ?thesis using parse_stream_canonical [OF wf, of False "[]"] sample_texts
    by (simp add: selector_parse_def parse_predicates_def sample_stream del: lit_Cons list.map)
qed

theorem selector_parse_canonical_witness:
  "selector_parse (\<lambda>_. True) (sel_canonical sample_selector) = Ok sample_selector \<and>
   sel_canonical sample_selector = lit ''!e.org/labels/zone e.org/labels/zone=a''"
  by (rule conjI, rule conjunct1 [OF selector_parse_canonical [OF sample_parse]])
    (simp_all add: sample_selector_def)

end
