(* ===== verification/Route_Context.thy ===== *)
theory Route_Context
  imports Relay_Prelude
begin

text \<open>
  The per-hop routing envelope of \<^verbatim>\<open>src/src/routing.rs\<close> (\<^verbatim>\<open>RouteContext\<close>): construction,
  the wire projection, and the checked receive step. A run relation composes the receive
  steps of consecutive holders; its invariant gives the hop bound and loop freedom.
\<close>

type_synonym node_id = ustr
type_synonym trace_id = ustr

record hop_state =
  hs_current :: node_id
  hs_visited :: "node_id list"
  hs_remaining_hops :: u32

record route_context =
  rc_trace_id :: trace_id
  rc_source :: node_id
  rc_destination :: node_id
  rc_current :: node_id
  rc_visited :: "node_id list"
  rc_remaining_hops :: u32

datatype route_progress = Arrive | Continue node_id route_context

definition route_new :: "trace_id \<Rightarrow> node_id \<Rightarrow> node_id \<Rightarrow> u32 \<Rightarrow> route_context" where
  "route_new trace_id source destination max_hops =
     \<lparr>rc_trace_id = trace_id, rc_source = source, rc_destination = destination,
      rc_current = source, rc_visited = [], rc_remaining_hops = max_hops\<rparr>"

definition route_hop_state :: "route_context \<Rightarrow> hop_state" where
  "route_hop_state ctx =
     \<lparr>hs_current = rc_current ctx, hs_visited = rc_visited ctx, hs_remaining_hops = rc_remaining_hops ctx\<rparr>"

definition route_from_frame ::
  "trace_id \<Rightarrow> node_id \<Rightarrow> node_id \<Rightarrow> hop_state option \<Rightarrow> route_context" where
  "route_from_frame trace_id source destination route =
     (case route of
        Some hs \<Rightarrow> \<lparr>rc_trace_id = trace_id, rc_source = source, rc_destination = destination,
                    rc_current = hs_current hs, rc_visited = hs_visited hs,
                    rc_remaining_hops = hs_remaining_hops hs\<rparr>
      | None \<Rightarrow> route_new trace_id source destination 1)"

definition route_forward :: "route_context \<Rightarrow> node_id \<Rightarrow> route_context" where
  "route_forward ctx local =
     ctx\<lparr>rc_current := local, rc_visited := rc_visited ctx @ [rc_current ctx],
         rc_remaining_hops := saturating_sub (rc_remaining_hops ctx) 1\<rparr>"

text \<open>The duplicate scan of the visited chain, with its \<open>seen\<close> set.\<close>

fun chain_scan :: "node_id list \<Rightarrow> node_id list \<Rightarrow> bool" where
  "chain_scan seen [] = True"
| "chain_scan seen (node # nodes) =
     (if List.member seen node then False else chain_scan (bs_insert node seen) nodes)"

definition route_receive ::
  "route_context \<Rightarrow> node_id \<Rightarrow> node_id \<Rightarrow> (route_context \<Rightarrow> node_id result) \<Rightarrow> route_progress result" where
  "route_receive ctx local peer choose_next =
     (if rc_current ctx = local \<or> List.member (rc_visited ctx) local
      then Err (conflict ''route loop'')
      else if \<not> chain_scan [] (rc_visited ctx) then Err (conflict ''route loop'')
      else if rc_visited ctx \<noteq> [] \<and> hd (rc_visited ctx) \<noteq> rc_source ctx
      then Err (invalid_input ''route chain'')
      else if rc_current ctx \<noteq> peer then Err (not_trusted ''route holder'')
      else if rc_destination ctx = local then Ok Arrive
      else if rc_remaining_hops ctx = 0 then Err (resource_exhausted ''route hops'')
      else
        (let next_hop = choose_next ctx
         in case next_hop of
              Inr hop \<Rightarrow>
                if hop = local \<or> hop = rc_current ctx \<or> hop = rc_source ctx \<or>
                   List.member (rc_visited ctx) hop
                then Err (conflict ''route loop'')
                else Ok (Continue hop (route_forward ctx local))
            | Inl e \<Rightarrow> Err e))"

section \<open>Runs of honest holders\<close>

text \<open>
  A run state is an envelope together with the node about to receive it. The receiver's
  authenticated peer is the holder that sent the packet, which is the \<open>current\<close> of the
  envelope it produced.
\<close>

inductive route_run :: "route_context \<Rightarrow> node_id \<Rightarrow> nat \<Rightarrow> route_context \<Rightarrow> node_id \<Rightarrow> bool"
  for ctx0 :: route_context and at0 :: node_id where
  start: "route_run ctx0 at0 0 ctx0 at0"
| hop: "route_run ctx0 at0 n ctx local \<Longrightarrow>
    route_receive ctx local (rc_current ctx) choose_next = Ok (Continue nh ctx') \<Longrightarrow>
    route_run ctx0 at0 (Suc n) ctx' nh"

inductive_cases route_run_SucE: "route_run ctx0 at0 (Suc n) ctx local"

lemma chain_scan_iff: "chain_scan seen nodes \<longleftrightarrow> distinct nodes \<and> set nodes \<inter> set seen = {}"
  by (induction seen nodes rule: chain_scan.induct) auto

lemma route_receive_Ok:
  "route_receive ctx local peer choose_next = Ok res \<longleftrightarrow>
     rc_current ctx \<noteq> local \<and> local \<notin> set (rc_visited ctx) \<and> distinct (rc_visited ctx) \<and>
     (rc_visited ctx \<noteq> [] \<longrightarrow> hd (rc_visited ctx) = rc_source ctx) \<and> rc_current ctx = peer \<and>
     (if rc_destination ctx = local then res = Arrive
      else rc_remaining_hops ctx \<noteq> 0 \<and>
        (\<exists>hop. choose_next ctx = Ok hop \<and> hop \<notin> {local, rc_current ctx, rc_source ctx} \<union> set (rc_visited ctx) \<and>
               res = Continue hop (route_forward ctx local)))"
  by (cases "choose_next ctx") (auto simp: route_receive_def chain_scan_iff)

definition run_inv :: "route_context \<Rightarrow> nat \<Rightarrow> route_context \<Rightarrow> node_id \<Rightarrow> bool" where
  "run_inv ctx0 n ctx local =
     (distinct (rc_visited ctx @ [rc_current ctx, local]) \<and>
      hd (rc_visited ctx @ [rc_current ctx]) = rc_source ctx0 \<and>
      length (rc_visited ctx) = n \<and>
      unat (rc_remaining_hops ctx) + n = unat (rc_remaining_hops ctx0) \<and>
      rc_trace_id ctx = rc_trace_id ctx0 \<and> rc_source ctx = rc_source ctx0 \<and>
      rc_destination ctx = rc_destination ctx0)"

lemma unat_saturating_dec: "w \<noteq> 0 \<Longrightarrow> unat (saturating_sub w 1) + 1 = unat (w :: u32)"
  using unat_gt_0 [of w] by (simp add: unat_saturating_sub)

lemma run_inv_hop:
  assumes "run_inv ctx0 n ctx local"
    and "route_receive ctx local (rc_current ctx) choose_next = Ok (Continue nh ctx')"
  shows "run_inv ctx0 (Suc n) ctx' nh"
proof -
  from assms(2) have ne: "rc_remaining_hops ctx \<noteq> 0" "rc_destination ctx \<noteq> local"
    and hop: "nh \<notin> {local, rc_current ctx, rc_source ctx} \<union> set (rc_visited ctx)"
    and ctx': "ctx' = route_forward ctx local"
    unfolding route_receive_Ok by (auto split: if_splits)
  have "hd (rc_visited ctx @ [rc_current ctx, local]) = hd (rc_visited ctx @ [rc_current ctx])"
    by (cases "rc_visited ctx") simp_all
  then show ?thesis using assms(1) hop unat_saturating_dec [OF ne(1)]
    by (auto simp: ctx' run_inv_def route_forward_def)
qed

lemma route_run_inv:
  "route_run ctx0 at0 n ctx local \<Longrightarrow> run_inv ctx0 0 ctx0 at0 \<Longrightarrow> run_inv ctx0 n ctx local"
  by (induction rule: route_run.induct) (auto intro: run_inv_hop)

text \<open>C21: along every run of honest holders from an origin envelope, whatever next hops
  the policies choose, the packet keeps its trace and endpoints, its chain of holders
  starts at the source and never repeats a node, each hop costs one unit of the budget,
  and the number of forwards never exceeds the caller's hop budget.\<close>

theorem route_run_bounded:
  assumes "route_run (route_new t s d max_hops) first n ctx local" and "first \<noteq> s"
  shows "n \<le> unat max_hops \<and> unat (rc_remaining_hops ctx) = unat max_hops - n \<and>
    length (rc_visited ctx) = n \<and> distinct (rc_visited ctx @ [rc_current ctx, local]) \<and>
    hd (rc_visited ctx @ [rc_current ctx]) = s \<and>
    rc_trace_id ctx = t \<and> rc_source ctx = s \<and> rc_destination ctx = d"
proof -
  have "run_inv (route_new t s d max_hops) 0 (route_new t s d max_hops) first"
    using assms(2) by (simp add: run_inv_def route_new_def)
  from route_run_inv [OF assms(1) this] show ?thesis by (auto simp: run_inv_def route_new_def)
qed

theorem route_run_bounded_witness:
  "\<exists>ctx. route_run (route_new (lit ''t'') (lit ''a'') (lit ''c'') 2) (lit ''b'') 1 ctx (lit ''c'') \<and>
    rc_visited ctx = [lit ''a''] \<and> unat (rc_remaining_hops ctx) = 1"
proof -
  let ?ctx = "route_new (lit ''t'') (lit ''a'') (lit ''c'') 2"
  have "route_receive ?ctx (lit ''b'') (rc_current ?ctx) (\<lambda>_. Ok (lit ''c'')) =
      Ok (Continue (lit ''c'') (route_forward ?ctx (lit ''b'')))"
    by (simp add: route_receive_Ok route_new_def)
  from route_run.hop [OF route_run.start this]
  have run: "route_run ?ctx (lit ''b'') 1 (route_forward ?ctx (lit ''b'')) (lit ''c'')" by simp
  moreover have "unat (rc_remaining_hops (route_forward ?ctx (lit ''b''))) = 1"
    using route_run_bounded [OF run] by simp
  ultimately show ?thesis by (intro exI conjI) (auto simp: route_forward_def route_new_def)
qed

text \<open>The receive check is exact on every branch that touches a peer claim: a loop
  through the local node or a repeated chain member is a conflict, a chain that does not
  start at the source is invalid, a holder other than the authenticated peer is not
  trusted, and an exhausted budget stops a packet that has not arrived.\<close>

lemma route_receive_rejects:
  "(rc_current ctx = local \<or> local \<in> set (rc_visited ctx) \<or> \<not> distinct (rc_visited ctx) \<longrightarrow>
     route_receive ctx local peer choose_next = Err (conflict ''route loop'')) \<and>
   (rc_current ctx \<noteq> local \<and> local \<notin> set (rc_visited ctx) \<and> distinct (rc_visited ctx) \<longrightarrow>
     (rc_visited ctx \<noteq> [] \<and> hd (rc_visited ctx) \<noteq> rc_source ctx \<longrightarrow>
        route_receive ctx local peer choose_next = Err (invalid_input ''route chain'')) \<and>
     (rc_visited ctx = [] \<or> hd (rc_visited ctx) = rc_source ctx \<longrightarrow>
        (rc_current ctx \<noteq> peer \<longrightarrow> route_receive ctx local peer choose_next = Err (not_trusted ''route holder'')) \<and>
        (rc_current ctx = peer \<and> rc_destination ctx \<noteq> local \<and> rc_remaining_hops ctx = 0 \<longrightarrow>
           route_receive ctx local peer choose_next = Err (resource_exhausted ''route hops''))))"
  by (auto simp: route_receive_def chain_scan_iff)

text \<open>C34: with an empty visited chain the claimed source is not compared with anything: any
  authenticated peer that names itself the current holder delivers a packet to its
  destination under an arbitrary source identity.\<close>

theorem route_receive_source_unchecked:
  assumes "local \<noteq> peer"
  shows "route_receive (route_from_frame t source local
      (Some \<lparr>hs_current = peer, hs_visited = [], hs_remaining_hops = hops\<rparr>)) local peer choose_next = Ok Arrive"
  using assms by (simp add: route_receive_def route_from_frame_def)

theorem route_receive_source_unchecked_witness:
  "route_receive (route_from_frame (lit ''t'') (lit ''victim'') (lit ''b'')
      (Some \<lparr>hs_current = lit ''p'', hs_visited = [], hs_remaining_hops = 1\<rparr>))
      (lit ''b'') (lit ''p'') (\<lambda>_. Err (internal ''unused'')) = Ok Arrive"
  by (rule route_receive_source_unchecked) simp

end
