(* ===== verification/Admission_Rate.thy ===== *)
theory Admission_Rate
  imports Relay_Prelude "HOL-Library.Multiset"
begin

text \<open>
  The credential-admission limiter of \<^verbatim>\<open>src/src/identity/admission_rate.rs\<close>: normalised
  sources, fixed rate windows, pending slots, and idle eviction. Instants are nanoseconds of
  the monotonic clock, and \<^verbatim>\<open>duration_since\<close> truncates at zero as natural subtraction does.
  Operations return the new limiter state together with their result, because a rejected
  attempt also changes the windows. A poisoned mutex (a panic under the lock) is not
  modelled.
\<close>

section \<open>Definitions\<close>

definition PENDING_PER_SOURCE :: nat where "PENDING_PER_SOURCE = 4"
definition PENDING_GLOBAL :: nat where "PENDING_GLOBAL = 64"
definition RATE_PER_SOURCE :: nat where "RATE_PER_SOURCE = 16"
definition RATE_GLOBAL :: nat where "RATE_GLOBAL = 256"
definition WINDOW_SECONDS :: nat where "WINDOW_SECONDS = 60 * 1000000000"
definition SOURCE_BUCKET_LIMIT :: nat where "SOURCE_BUCKET_LIMIT = 1024"
definition SOURCE_IDLE_LIFETIME :: nat where "SOURCE_IDLE_LIFETIME = 600 * 1000000000"

type_synonym instant = nat

datatype admission_source = V4 "byte list" | V6 "byte list"

instantiation admission_source :: linorder
begin

fun less_eq_admission_source :: "admission_source \<Rightarrow> admission_source \<Rightarrow> bool" where
  "V4 a \<le> V4 b = (a \<le> b)"
| "V4 a \<le> V6 b = True"
| "V6 a \<le> V4 b = False"
| "V6 a \<le> V6 b = (a \<le> b)"

definition less_admission_source :: "admission_source \<Rightarrow> admission_source \<Rightarrow> bool" where
  "less_admission_source a b = (a \<le> b \<and> \<not> b \<le> a)"

instance
proof
  fix x y z :: admission_source
  show "x < y \<longleftrightarrow> x \<le> y \<and> \<not> y \<le> x" by (rule less_admission_source_def)
  show "x \<le> x" by (cases x) simp_all
  show "x \<le> y \<Longrightarrow> y \<le> z \<Longrightarrow> x \<le> z" by (cases x; cases y; cases z) auto
  show "x \<le> y \<Longrightarrow> y \<le> x \<Longrightarrow> x = y" by (cases x; cases y) auto
  show "x \<le> y \<or> y \<le> x" by (cases x; cases y) auto
qed

end

text \<open>A socket address is its IP octets and port.\<close>

datatype ip_addr = IpV4 "byte list" | IpV6 "byte list"

definition V4_MAPPED_PREFIX :: "byte list" where
  "V4_MAPPED_PREFIX = [0, 0, 0, 0, 0, 0, 0, 0, 0, 0, 255, 255]"

definition source_normalize :: "ip_addr \<times> u16 \<Rightarrow> admission_source" where
  "source_normalize address =
     (case fst address of
        IpV4 v4 \<Rightarrow> V4 v4
      | IpV6 octets \<Rightarrow> if take 12 octets = V4_MAPPED_PREFIX then V4 (drop 12 octets) else V6 octets)"

record rate_window =
  rw_start :: instant
  rw_count :: nat
  rw_limit :: nat

definition window_new :: "instant \<Rightarrow> nat \<Rightarrow> rate_window" where
  "window_new now limit = \<lparr>rw_start = now, rw_count = 0, rw_limit = limit\<rparr>"

definition window_record :: "rate_window \<Rightarrow> instant \<Rightarrow> rate_window \<times> unit result" where
  "window_record w now =
     (let w1 = (if now - rw_start w \<ge> WINDOW_SECONDS then w\<lparr>rw_start := now, rw_count := 0\<rparr> else w)
      in if rw_count w1 \<ge> rw_limit w1 then (w1, Err (overload_error ''admission rate window''))
         else (w1\<lparr>rw_count := rw_count w1 + 1\<rparr>, Ok ()))"

record source_bucket =
  sb_pending :: nat
  sb_window :: rate_window
  sb_last_seen :: instant

record limiter =
  lm_sources :: "(admission_source, source_bucket) btree"
  lm_global_pending :: nat
  lm_global_window :: rate_window

definition limiter_new :: "instant \<Rightarrow> limiter" where
  "limiter_new now =
     \<lparr>lm_sources = [], lm_global_pending = 0, lm_global_window = window_new now RATE_GLOBAL\<rparr>"

definition evict_idle :: "limiter \<Rightarrow> instant \<Rightarrow> limiter" where
  "evict_idle inner now =
     (let expired = map fst (filter (\<lambda>(_, b). sb_pending b = 0 \<and>
                      now - sb_last_seen b \<ge> SOURCE_IDLE_LIFETIME) (lm_sources inner))
      in inner\<lparr>lm_sources := fold bt_remove expired (lm_sources inner)\<rparr>)"

text \<open>The bucket part of \<^verbatim>\<open>begin\<close>, under the entry of its source.\<close>

definition bucket_admit :: "source_bucket \<Rightarrow> instant \<Rightarrow> source_bucket \<times> unit result" where
  "bucket_admit b now =
     (case window_record (sb_window b) now of
        (w, Inl e) \<Rightarrow> (b\<lparr>sb_last_seen := now, sb_window := w\<rparr>, Err e)
      | (w, Inr _) \<Rightarrow>
          (let b1 = b\<lparr>sb_last_seen := now, sb_window := w\<rparr>
           in if sb_pending b1 \<ge> PENDING_PER_SOURCE
              then (b1, Err (overload_error ''admission source pending''))
              else (b1\<lparr>sb_pending := sb_pending b1 + 1\<rparr>, Ok ())))"

definition bucket_full :: "limiter \<Rightarrow> admission_source \<Rightarrow> bool" where
  "bucket_full inner source =
     (bt_get (lm_sources inner) source = None \<and> length (lm_sources inner) \<ge> SOURCE_BUCKET_LIMIT)"

definition limiter_begin :: "limiter \<Rightarrow> instant \<Rightarrow> admission_source \<Rightarrow> limiter \<times> unit result" where
  "limiter_begin inner0 now source =
     (let inner = (if bucket_full inner0 source then evict_idle inner0 now else inner0)
      in if bucket_full inner source
         then (inner, Err (overload_error ''admission source buckets''))
         else case window_record (lm_global_window inner) now of
             (w, Inl e) \<Rightarrow> (inner\<lparr>lm_global_window := w\<rparr>, Err e)
           | (w, Inr _) \<Rightarrow>
               (let inner1 = inner\<lparr>lm_global_window := w\<rparr>
                in if lm_global_pending inner1 \<ge> PENDING_GLOBAL
                   then (inner1, Err (overload_error ''admission global pending''))
                   else
                     (let bucket0 = (case bt_get (lm_sources inner1) source of
                              Some b \<Rightarrow> b
                            | None \<Rightarrow> \<lparr>sb_pending = 0, sb_window = window_new now RATE_PER_SOURCE,
                                        sb_last_seen = now\<rparr>);
                          (bucket, res) = bucket_admit bucket0 now;
                          inner2 = inner1\<lparr>lm_sources := bt_insert source bucket (lm_sources inner1)\<rparr>
                      in case res of
                           Inl e \<Rightarrow> (inner2, Err e)
                         | Inr _ \<Rightarrow>
                             (inner2\<lparr>lm_global_pending := lm_global_pending inner2 + 1\<rparr>, Ok ()))))"

text \<open>Dropping an admission slot.\<close>

definition slot_drop :: "limiter \<Rightarrow> admission_source \<Rightarrow> limiter" where
  "slot_drop inner source =
     (let inner1 = inner\<lparr>lm_global_pending := lm_global_pending inner - 1\<rparr>
      in case bt_get (lm_sources inner1) source of
           None \<Rightarrow> inner1
         | Some b \<Rightarrow>
             inner1\<lparr>lm_sources := bt_insert source (b\<lparr>sb_pending := sb_pending b - 1\<rparr>) (lm_sources inner1)\<rparr>)"

section \<open>Reachable states\<close>

text \<open>The limiter together with the multiset of sources whose slots are outstanding.\<close>

inductive limiter_reachable :: "limiter \<Rightarrow> admission_source multiset \<Rightarrow> bool" where
  init: "limiter_reachable (limiter_new now) {#}"
| admitted: "limiter_reachable inner slots \<Longrightarrow> limiter_begin inner now source = (inner', Inr u) \<Longrightarrow>
    limiter_reachable inner' (add_mset source slots)"
| refused: "limiter_reachable inner slots \<Longrightarrow> limiter_begin inner now source = (inner', Inl e) \<Longrightarrow>
    limiter_reachable inner' slots"
| dropped: "limiter_reachable inner (add_mset source slots) \<Longrightarrow>
    limiter_reachable (slot_drop inner source) slots"

definition bucket_ok :: "source_bucket \<Rightarrow> nat \<Rightarrow> bool" where
  "bucket_ok b n = (sb_pending b = n \<and> n \<le> PENDING_PER_SOURCE \<and>
     rw_limit (sb_window b) = RATE_PER_SOURCE \<and> rw_count (sb_window b) \<le> RATE_PER_SOURCE)"

definition source_ok ::
  "(admission_source, source_bucket) btree \<Rightarrow> admission_source multiset \<Rightarrow> admission_source \<Rightarrow> bool" where
  "source_ok sources slots source =
     (case bt_get sources source of
        None \<Rightarrow> count slots source = 0
      | Some b \<Rightarrow> bucket_ok b (count slots source))"

definition limiter_inv :: "limiter \<Rightarrow> admission_source multiset \<Rightarrow> bool" where
  "limiter_inv inner slots =
     (bt_ok (lm_sources inner) \<and> length (lm_sources inner) \<le> SOURCE_BUCKET_LIMIT \<and>
      lm_global_pending inner = size slots \<and> size slots \<le> PENDING_GLOBAL \<and>
      rw_limit (lm_global_window inner) = RATE_GLOBAL \<and> rw_count (lm_global_window inner) \<le> RATE_GLOBAL \<and>
      (\<forall>source. source_ok (lm_sources inner) slots source))"

lemma window_record_bounds:
  assumes "window_record w now = (w', r)" "rw_count w \<le> rw_limit w"
  shows "rw_limit w' = rw_limit w \<and> rw_count w' \<le> rw_limit w"
  using assms by (auto simp: window_record_def Let_def split: if_splits)

lemma bucket_admit_ok:
  assumes "bucket_admit b now = (b', r)" "bucket_ok b n"
  shows "bucket_ok b' (case r of Inl _ \<Rightarrow> n | Inr _ \<Rightarrow> Suc n)"
proof -
  obtain w rw where w: "window_record (sb_window b) now = (w, rw)" by force
  have "rw_limit w = RATE_PER_SOURCE \<and> rw_count w \<le> RATE_PER_SOURCE"
    using window_record_bounds [OF w] assms(2) by (simp add: bucket_ok_def)
  with assms w show ?thesis
    by (auto simp: bucket_admit_def bucket_ok_def Let_def split: sum.splits if_splits)
qed

lemma fold_bt_remove_get:
  "bt_get (fold bt_remove ks m) k = (if k \<in> set ks then None else bt_get m k)"
  by (induction ks arbitrary: m) (auto simp: bt_get_remove)

lemma fold_bt_remove_ok: "bt_ok m \<Longrightarrow> bt_ok (fold bt_remove ks m)"
  by (induction ks arbitrary: m) (auto simp: bt_remove_ok)

lemma fold_bt_remove_length: "length (fold bt_remove ks m) \<le> length m"
proof (induction ks arbitrary: m)
  case (Cons k ks)
  then show ?case using length_bt_remove_le [of k m] le_trans by (fastforce simp del: length_filter_le)
qed simp

lemma evict_idle_get:
  assumes "bt_ok (lm_sources inner)"
  shows "bt_get (lm_sources (evict_idle inner now)) k =
    (case bt_get (lm_sources inner) k of
       Some b \<Rightarrow> if sb_pending b = 0 \<and> now - sb_last_seen b \<ge> SOURCE_IDLE_LIFETIME then None else Some b
     | None \<Rightarrow> None)"
proof -
  let ?P = "\<lambda>b. sb_pending b = 0 \<and> now - sb_last_seen b \<ge> SOURCE_IDLE_LIFETIME"
  have "k \<in> set (map fst (filter (\<lambda>(_, b). ?P b) (lm_sources inner))) \<longleftrightarrow>
      (\<exists>b. (k, b) \<in> set (lm_sources inner) \<and> ?P b)" by force
  also have "\<dots> \<longleftrightarrow> (\<exists>b. bt_get (lm_sources inner) k = Some b \<and> ?P b)"
    by (simp only: bt_get_iff [OF assms])
  finally show ?thesis
    unfolding evict_idle_def Let_def by (simp add: fold_bt_remove_get split: option.split)
qed

lemma evict_idle_inv: "limiter_inv inner slots \<Longrightarrow> limiter_inv (evict_idle inner now) slots"
proof -
  assume inv: "limiter_inv inner slots"
  then have ok: "bt_ok (lm_sources inner)" by (simp add: limiter_inv_def)
  have "source_ok (lm_sources (evict_idle inner now)) slots k" for k
  proof -
    have "source_ok (lm_sources inner) slots k" using inv by (simp add: limiter_inv_def)
    then show ?thesis unfolding source_ok_def evict_idle_get [OF ok]
      by (auto simp: bucket_ok_def split: option.splits if_split)
  qed
  moreover have "bt_ok (lm_sources (evict_idle inner now))"
    "length (lm_sources (evict_idle inner now)) \<le> length (lm_sources inner)"
    using ok by (simp_all add: evict_idle_def fold_bt_remove_ok fold_bt_remove_length)
  ultimately show ?thesis using inv by (simp add: limiter_inv_def evict_idle_def)
qed

lemma limiter_inv_update:
  assumes "limiter_inv inner slots" "bucket_ok b (count slots' source)"
    and "\<not> bucket_full inner source" "\<And>k. k \<noteq> source \<Longrightarrow> count slots' k = count slots k"
    and "n = size slots'" "size slots' \<le> PENDING_GLOBAL"
    and "rw_limit w = RATE_GLOBAL" "rw_count w \<le> RATE_GLOBAL"
  shows "limiter_inv \<lparr>lm_sources = bt_insert source b (lm_sources inner), lm_global_pending = n,
    lm_global_window = w\<rparr> slots'"
proof -
  have "source_ok (bt_insert source b (lm_sources inner)) slots' k" for k
  proof -
    have "source_ok (lm_sources inner) slots k" using assms(1) by (simp add: limiter_inv_def)
    then show ?thesis using assms(2) assms(4) [of k]
      by (cases "k = source") (auto simp: source_ok_def bt_get_insert split: option.splits)
  qed
  moreover have "bt_ok (lm_sources inner)" "length (lm_sources inner) \<le> SOURCE_BUCKET_LIMIT"
    using assms(1) by (simp_all add: limiter_inv_def)
  moreover from this have "length (bt_insert source b (lm_sources inner)) \<le> SOURCE_BUCKET_LIMIT"
    using assms(3) by (auto simp: length_bt_insert bucket_full_def)
  ultimately show ?thesis using assms(5-8) by (simp add: limiter_inv_def bt_insert_ok)
qed

lemma limiter_begin_inv:
  assumes "limiter_inv inner0 slots" "limiter_begin inner0 now source = (inner', r)"
  shows "limiter_inv inner' (case r of Inl _ \<Rightarrow> slots | Inr _ \<Rightarrow> add_mset source slots)"
proof -
  define inner where "inner = (if bucket_full inner0 source then evict_idle inner0 now else inner0)"
  have inv: "limiter_inv inner slots" using assms(1) by (simp add: inner_def evict_idle_inv)
  then have win: "rw_limit (lm_global_window inner) = RATE_GLOBAL"
      "rw_count (lm_global_window inner) \<le> rw_limit (lm_global_window inner)"
    and pend: "lm_global_pending inner = size slots" "size slots \<le> PENDING_GLOBAL"
    and src: "source_ok (lm_sources inner) slots source"
    by (simp_all add: limiter_inv_def)
  obtain w rw where w: "window_record (lm_global_window inner) now = (w, rw)" by force
  define bucket0 where "bucket0 = (case bt_get (lm_sources inner) source of Some b \<Rightarrow> b
    | None \<Rightarrow> \<lparr>sb_pending = 0, sb_window = window_new now RATE_PER_SOURCE, sb_last_seen = now\<rparr>)"
  obtain b rb where b: "bucket_admit bucket0 now = (b, rb)" by force
  have wb: "rw_limit w = RATE_GLOBAL" "rw_count w \<le> RATE_GLOBAL"
    using window_record_bounds [OF w win(2)] win(1) by simp_all
  have "bucket_ok bucket0 (count slots source)"
    using src by (auto simp: bucket0_def source_ok_def bucket_ok_def window_new_def split: option.splits)
  from bucket_admit_ok [OF b this]
  have bb: "bucket_ok b (count (case rb of Inl _ \<Rightarrow> slots | Inr _ \<Rightarrow> add_mset source slots) source)"
    by (cases rb) simp_all
  show ?thesis
  proof (cases "bucket_full inner source \<or> \<not> is_ok rw \<or> lm_global_pending inner \<ge> PENDING_GLOBAL")
    case True
    then have "inner' = inner \<or> inner' = inner\<lparr>lm_global_window := w\<rparr>" "\<exists>e. r = Inl e"
      using assms(2) w unfolding limiter_begin_def inner_def [symmetric] Let_def
      by (auto split: sum.splits if_split_asm)
    then show ?thesis using inv wb by (auto simp: limiter_inv_def)
  next
    case False
    then have "inner' = \<lparr>lm_sources = bt_insert source b (lm_sources inner),
        lm_global_pending = (case rb of Inl _ \<Rightarrow> size slots | Inr _ \<Rightarrow> Suc (size slots)),
        lm_global_window = w\<rparr>" "r = rb"
      using assms(2) w b pend(1) unfolding limiter_begin_def inner_def [symmetric] Let_def bucket0_def
      by (auto split: sum.splits option.splits)
    moreover have "size slots < PENDING_GLOBAL" using False pend by simp
    ultimately show ?thesis
      using limiter_inv_update [OF inv bb, where n = "case rb of Inl _ \<Rightarrow> size slots | Inr _ \<Rightarrow> Suc (size slots)"]
        False wb by (cases rb) auto
  qed
qed

lemma slot_drop_inv:
  assumes "limiter_inv inner (add_mset source slots)"
  shows "limiter_inv (slot_drop inner source) slots"
proof -
  have src: "source_ok (lm_sources inner) (add_mset source slots) source"
    using assms by (simp add: limiter_inv_def)
  then obtain b where b: "bt_get (lm_sources inner) source = Some b"
    "bucket_ok b (Suc (count slots source))" by (auto simp: source_ok_def split: option.splits)
  have "bucket_ok (b\<lparr>sb_pending := sb_pending b - 1\<rparr>) (count slots source)"
    using b(2) by (auto simp: bucket_ok_def)
  from limiter_inv_update [OF assms this, of "size slots" "lm_global_window inner"] b assms
  show ?thesis by (simp add: slot_drop_def bucket_full_def limiter_inv_def)
qed

lemma limiter_reachable_inv: "limiter_reachable inner slots \<Longrightarrow> limiter_inv inner slots"
proof (induction rule: limiter_reachable.induct)
  case (init now)
  show ?case by (simp add: limiter_inv_def limiter_new_def window_new_def source_ok_def)
next
  case (admitted inner slots now source inner' u)
  then show ?case using limiter_begin_inv [of inner slots now source inner' "Inr u"] by simp
next
  case (refused inner slots now source inner' e)
  then show ?case using limiter_begin_inv [of inner slots now source inner' "Inl e"] by simp
next
  case (dropped inner source slots)
  from dropped.IH show ?case by (rule slot_drop_inv)
qed

text \<open>C23: in every reachable limiter state, over any sequence of attempts, refusals,
  evictions and slot drops at any times, the pending counters equal the outstanding slots,
  globally and per source; at most 64 attempts are pending in all and 4 per source; the
  windows never exceed their limits; and at most 1024 source buckets exist.\<close>

theorem limiter_bounded:
  assumes "limiter_reachable inner slots"
  shows "lm_global_pending inner = size slots \<and> size slots \<le> 64 \<and> count slots source \<le> 4 \<and>
    length (lm_sources inner) \<le> 1024 \<and> rw_count (lm_global_window inner) \<le> 256 \<and>
    (\<forall>b. bt_get (lm_sources inner) source = Some b \<longrightarrow>
       sb_pending b = count slots source \<and> rw_count (sb_window b) \<le> 16) \<and>
    (source \<in># slots \<longrightarrow> bt_get (lm_sources inner) source \<noteq> None)"
proof -
  have inv: "limiter_inv inner slots" by (rule limiter_reachable_inv [OF assms])
  then have "source_ok (lm_sources inner) slots source" by (simp add: limiter_inv_def)
  then have "count slots source \<le> 4"
    "\<forall>b. bt_get (lm_sources inner) source = Some b \<longrightarrow>
       sb_pending b = count slots source \<and> rw_count (sb_window b) \<le> 16"
    "source \<in># slots \<longrightarrow> bt_get (lm_sources inner) source \<noteq> None"
    by (auto simp: source_ok_def bucket_ok_def PENDING_PER_SOURCE_def RATE_PER_SOURCE_def
        not_in_iff split: option.splits)
  with inv show ?thesis
    by (simp add: limiter_inv_def PENDING_GLOBAL_def RATE_GLOBAL_def SOURCE_BUCKET_LIMIT_def)
qed

theorem limiter_bounded_witness:
  "\<exists>inner. limiter_reachable inner {#V4 [10, 0, 0, 1]#} \<and> lm_global_pending inner = 1"
proof -
  obtain inner' where "limiter_begin (limiter_new 0) 5 (V4 [10, 0, 0, 1]) = (inner', Inr ())"
    by (simp add: limiter_begin_def limiter_new_def bucket_full_def SOURCE_BUCKET_LIMIT_def
        window_record_def window_new_def WINDOW_SECONDS_def RATE_GLOBAL_def RATE_PER_SOURCE_def
        PENDING_GLOBAL_def PENDING_PER_SOURCE_def bucket_admit_def Let_def)
  from limiter_reachable.admitted [OF limiter_reachable.init this]
  have r: "limiter_reachable inner' {#V4 [10, 0, 0, 1]#}" .
  from limiter_bounded [OF r] r show ?thesis by (intro exI [of _ inner']) simp
qed

section \<open>The rate over any window-long interval\<close>

datatype limiter_op = BeginAt instant admission_source | DropSlot admission_source

fun run_ops :: "limiter \<Rightarrow> limiter_op list \<Rightarrow> nat" where
  "run_ops inner [] = 0"
| "run_ops inner (BeginAt now source # ops) =
     (case limiter_begin inner now source of
        (inner', Inl _) \<Rightarrow> run_ops inner' ops
      | (inner', Inr _) \<Rightarrow> Suc (run_ops inner' ops))"
| "run_ops inner (DropSlot source # ops) = run_ops (slot_drop inner source) ops"

fun op_times :: "limiter_op list \<Rightarrow> instant list" where
  "op_times [] = []"
| "op_times (BeginAt now source # ops) = now # op_times ops"
| "op_times (DropSlot source # ops) = op_times ops"

lemma slot_drop_window: "lm_global_window (slot_drop inner source) = lm_global_window inner"
  by (simp add: slot_drop_def Let_def split: option.split)

lemma limiter_begin_window:
  assumes "limiter_begin inner now source = (inner', r)"
  shows "lm_global_window inner' = lm_global_window inner \<and> \<not> is_ok r \<or>
    lm_global_window inner' = fst (window_record (lm_global_window inner) now) \<and>
    (is_ok r \<longrightarrow> is_ok (snd (window_record (lm_global_window inner) now)))"
proof -
  define inner1 where "inner1 = (if bucket_full inner source then evict_idle inner now else inner)"
  have g: "lm_global_window inner1 = lm_global_window inner" by (simp add: inner1_def evict_idle_def)
  show ?thesis
    using assms unfolding limiter_begin_def inner1_def [symmetric] Let_def
    by (auto simp: g [symmetric] split: if_split_asm sum.splits prod.splits)
qed

lemma record_step:
  assumes "window_record w now = (w', r)"
  shows "now < rw_start w + WINDOW_SECONDS \<Longrightarrow> rw_start w' = rw_start w \<and> rw_limit w' = rw_limit w \<and>
      (is_ok r \<longrightarrow> rw_count w < rw_limit w \<and> rw_count w' = Suc (rw_count w)) \<and>
      (\<not> is_ok r \<longrightarrow> rw_count w' = rw_count w)"
    and "\<not> now < rw_start w + WINDOW_SECONDS \<Longrightarrow> rw_start w' = now \<and> rw_limit w' = rw_limit w \<and>
      (is_ok r \<longrightarrow> rw_count w' = 1 \<and> 0 < rw_limit w) \<and> (\<not> is_ok r \<longrightarrow> rw_count w' = 0)"
proof -
  have pos: "0 < WINDOW_SECONDS" by (simp add: WINDOW_SECONDS_def)
  have reset: "now - rw_start w \<ge> WINDOW_SECONDS \<longleftrightarrow> \<not> now < rw_start w + WINDOW_SECONDS"
    using pos by linarith
  show "now < rw_start w + WINDOW_SECONDS \<Longrightarrow> rw_start w' = rw_start w \<and> rw_limit w' = rw_limit w \<and>
      (is_ok r \<longrightarrow> rw_count w < rw_limit w \<and> rw_count w' = Suc (rw_count w)) \<and>
      (\<not> is_ok r \<longrightarrow> rw_count w' = rw_count w)"
    "\<not> now < rw_start w + WINDOW_SECONDS \<Longrightarrow> rw_start w' = now \<and> rw_limit w' = rw_limit w \<and>
      (is_ok r \<longrightarrow> rw_count w' = 1 \<and> 0 < rw_limit w) \<and> (\<not> is_ok r \<longrightarrow> rw_count w' = 0)"
    using assms unfolding window_record_def Let_def reset by (auto split: if_split_asm)
qed

lemma run_ops_same_window:
  "\<forall>t \<in> set (op_times ops). t < rw_start (lm_global_window inner) + WINDOW_SECONDS \<Longrightarrow>
   run_ops inner ops \<le> rw_limit (lm_global_window inner) - rw_count (lm_global_window inner)"
proof (induction inner ops rule: run_ops.induct)
  case (2 inner now source ops)
  obtain inner' r where b: "limiter_begin inner now source = (inner', r)" by force
  obtain w' rw where w: "window_record (lm_global_window inner) now = (w', rw)" by force
  have "now < rw_start (lm_global_window inner) + WINDOW_SECONDS" using "2.prems" by simp
  note st = record_step(1) [OF w this]
  from limiter_begin_window [OF b] st w
  have same: "rw_start (lm_global_window inner') = rw_start (lm_global_window inner)"
      "rw_limit (lm_global_window inner') = rw_limit (lm_global_window inner)"
    and cnt: "rw_count (lm_global_window inner') \<ge> rw_count (lm_global_window inner)"
      "is_ok r \<Longrightarrow> rw_count (lm_global_window inner) < rw_limit (lm_global_window inner) \<and>
        rw_count (lm_global_window inner') = Suc (rw_count (lm_global_window inner))"
    by (auto simp: is_ok_iff)
  show ?case
  proof (cases r)
    case (Inl e)
    have "run_ops inner' ops \<le> rw_limit (lm_global_window inner') - rw_count (lm_global_window inner')"
      using "2.IH"(1) [OF b [symmetric] Inl] "2.prems" same by simp
    then show ?thesis using b Inl same cnt by simp
  next
    case (Inr u)
    have "run_ops inner' ops \<le> rw_limit (lm_global_window inner') - rw_count (lm_global_window inner')"
      using "2.IH"(2) [OF b [symmetric] Inr] "2.prems" same by simp
    then show ?thesis using b Inr same cnt(2) by simp linarith
  qed
next
  case (3 inner source ops)
  then show ?case by (simp add: slot_drop_window)
qed simp

lemma run_ops_BeginAt:
  "limiter_begin inner now source = (inner', r) \<Longrightarrow>
   run_ops inner (BeginAt now source # ops) = (if is_ok r then 1 else 0) + run_ops inner' ops"
  by (cases r) simp_all

lemma run_ops_interval:
  "sorted (op_times ops) \<Longrightarrow> \<forall>t \<in> set (op_times ops). t0 \<le> t \<and> t < t0 + WINDOW_SECONDS \<Longrightarrow>
   run_ops inner ops \<le> (rw_limit (lm_global_window inner) - rw_count (lm_global_window inner)) +
     rw_limit (lm_global_window inner)"
proof (induction ops arbitrary: inner)
  case (Cons op ops)
  show ?case
  proof (cases op)
    case (DropSlot source)
    then show ?thesis using Cons.IH [of "slot_drop inner source"] Cons.prems
      by (simp add: slot_drop_window)
  next
    case (BeginAt now source)
    obtain inner' r where b: "limiter_begin inner now source = (inner', r)" by force
    obtain w' rw where w: "window_record (lm_global_window inner) now = (w', rw)" by force
    have times: "t0 \<le> now" "\<forall>t \<in> set (op_times ops). t0 \<le> t \<and> t < t0 + WINDOW_SECONDS"
      "sorted (op_times ops)" using Cons.prems BeginAt by simp_all
    note IH = Cons.IH [OF times(3,2), of inner'] and split = run_ops_BeginAt [OF b, of ops]
      and win = limiter_begin_window [OF b, unfolded w fst_conv snd_conv]
    show ?thesis
    proof (cases "now < rw_start (lm_global_window inner) + WINDOW_SECONDS")
      case True
      from win record_step(1) [OF w True] IH split BeginAt show ?thesis by auto
    next
      case False
      show ?thesis
      proof (cases "lm_global_window inner' = w'")
        case True
        have "\<forall>t \<in> set (op_times ops). t < rw_start (lm_global_window inner') + WINDOW_SECONDS"
          using times record_step(2) [OF w False] True by auto
        from run_ops_same_window [OF this] win record_step(2) [OF w False] split BeginAt True
        show ?thesis by auto
      next
        case False
        with win IH split BeginAt show ?thesis by auto
      qed
    qed
  qed
qed simp

text \<open>C35: over any interval shorter than the 60-second window, with attempts in clock order
  and slots released in any pattern, the limiter admits at most twice the global rate limit:
  a fixed window lets at most one reset fall inside the interval.\<close>

theorem limiter_rate_bound:
  assumes "limiter_reachable inner slots" and "sorted (op_times ops)"
    and "\<forall>t \<in> set (op_times ops). t0 \<le> t \<and> t < t0 + WINDOW_SECONDS"
  shows "run_ops inner ops \<le> 2 * RATE_GLOBAL"
  using run_ops_interval [OF assms(2,3), of inner] limiter_reachable_inv [OF assms(1)]
  by (simp add: limiter_inv_def)

theorem limiter_rate_bound_witness:
  "run_ops (limiter_new 0) [BeginAt 5 (V4 [10, 0, 0, 1]), DropSlot (V4 [10, 0, 0, 1])] \<le> 2 * RATE_GLOBAL"
  by (rule limiter_rate_bound [OF limiter_reachable.init, of _ 0]) (simp_all add: WINDOW_SECONDS_def)

text \<open>Every alias of one source shares one bucket: the port never matters, and an
  IPv4-mapped IPv6 address normalises to the same source as the IPv4 address; no other
  addresses are merged.\<close>

lemma source_normalize_aliases:
  "source_normalize (a, p) = source_normalize (b, q) \<longleftrightarrow>
     a = b \<or> (\<exists>v4. {a, b} = {IpV4 v4, IpV6 (V4_MAPPED_PREFIX @ v4)})"
proof -
  have l: "take 12 (V4_MAPPED_PREFIX @ v) = V4_MAPPED_PREFIX" "drop 12 (V4_MAPPED_PREFIX @ v) = v" for v
    by (simp_all add: V4_MAPPED_PREFIX_def)
  have m: "(V4 x = source_normalize (IpV6 y, r)) = (y = V4_MAPPED_PREFIX @ x)" for x y r
  proof
    show "V4 x = source_normalize (IpV6 y, r) \<Longrightarrow> y = V4_MAPPED_PREFIX @ x"
      by (auto simp: source_normalize_def split: if_split_asm) (metis append_take_drop_id)
    show "y = V4_MAPPED_PREFIX @ x \<Longrightarrow> V4 x = source_normalize (IpV6 y, r)"
      by (simp only: source_normalize_def fst_conv ip_addr.case l if_True simp_thms)
  qed
  have v6: "source_normalize (IpV6 x, r) = source_normalize (IpV6 y, u) \<longleftrightarrow> x = y" for x y r u
  proof -
    have "take 12 x = take 12 y \<Longrightarrow> drop 12 x = drop 12 y \<Longrightarrow> x = y" by (metis append_take_drop_id)
    then show ?thesis by (auto simp: source_normalize_def)
  qed
  have v4: "source_normalize (IpV4 x, r) = V4 x" for x r by (simp add: source_normalize_def)
  show ?thesis
  proof (cases a; cases b)
    fix x y assume ab: "a = IpV4 x" "b = IpV6 y"
    then show ?thesis unfolding ab v4 m by (auto simp: doubleton_eq_iff)
  next
    fix x y assume ab: "a = IpV6 x" "b = IpV4 y"
    show ?thesis unfolding ab v4 eq_commute [of _ "V4 y"] m by (auto simp: doubleton_eq_iff)
  qed (auto simp: v4 v6 doubleton_eq_iff)
qed

end
