(* ===== verification/Paging.thy ===== *)
theory Paging
  imports Relay_Prelude
begin

text \<open>
  Keyset-cursor paging (\<^verbatim>\<open>src/src/paging.rs\<close>): one page over an ordered scan, and the walk
  that follows the continuation cursors. A scan is the list of the outcomes its \<^verbatim>\<open>next\<close>
  will return, entries or storage errors; an exhausted scan returns no entry.
\<close>

type_synonym store_bytes = "byte list"
type_synonym scan = "(error + (store_bytes \<times> store_bytes)) list"

definition MAX_VIEW_PAGE_ITEMS :: nat where "MAX_VIEW_PAGE_ITEMS = 64"

definition check_page_shape :: "nat \<Rightarrow> nat \<Rightarrow> store_bytes option \<Rightarrow> string \<Rightarrow> unit result" where
  "check_page_shape count maximum cursor ctx =
     (if count > maximum then Err (resource_exhausted ctx)
      else if count = 0 \<and> cursor \<noteq> None then Err (invalid_input ctx)
      else Ok ())"

record 'a paged =
  pg_items :: "'a list"
  pg_next :: "store_bytes option"

definition scan_next :: "scan \<Rightarrow> (store_bytes \<times> store_bytes) option result" where
  "scan_next s = (case s of [] \<Rightarrow> Ok None | Inl e # _ \<Rightarrow> Err e | Inr entry # _ \<Rightarrow> Ok (Some entry))"

fun scan_loop ::
  "store_bytes option \<Rightarrow> nat \<Rightarrow> (store_bytes \<Rightarrow> store_bytes \<Rightarrow> 'a option result) \<Rightarrow> 'a list \<Rightarrow> scan \<Rightarrow>
   'a paged result" where
  "scan_loop cursor limit select items [] = Ok \<lparr>pg_items = items, pg_next = None\<rparr>"
| "scan_loop cursor limit select items (Inl e # s) = Err e"
| "scan_loop cursor limit select items (Inr (key, value) # s) =
     (if (case cursor of Some c \<Rightarrow> key \<le> c | None \<Rightarrow> False)
      then scan_loop cursor limit select items s
      else case select key value of
          Inl e \<Rightarrow> Err e
        | Inr None \<Rightarrow> scan_loop cursor limit select items s
        | Inr (Some item) \<Rightarrow>
            if length (items @ [item]) \<ge> limit
            then and_then (scan_next s) (\<lambda>more.
                   Ok \<lparr>pg_items = items @ [item], pg_next = (if more \<noteq> None then Some key else None)\<rparr>)
            else scan_loop cursor limit select (items @ [item]) s)"

definition scan_paged ::
  "scan \<Rightarrow> store_bytes option \<Rightarrow> nat \<Rightarrow> (store_bytes \<Rightarrow> store_bytes \<Rightarrow> 'a option result) \<Rightarrow> 'a paged result" where
  "scan_paged s cursor limit select = scan_loop cursor limit select [] s"

fun page_keys_loop ::
  "store_bytes option \<Rightarrow> nat \<Rightarrow> 'a list \<Rightarrow> (store_bytes \<times> 'a) list \<Rightarrow> 'a paged" where
  "page_keys_loop cursor limit items [] = \<lparr>pg_items = items, pg_next = None\<rparr>"
| "page_keys_loop cursor limit items ((key, item) # entries) =
     (if (case cursor of Some c \<Rightarrow> key \<le> c | None \<Rightarrow> False)
      then page_keys_loop cursor limit items entries
      else if length (items @ [item]) \<ge> limit
      then \<lparr>pg_items = items @ [item], pg_next = (if entries \<noteq> [] then Some key else None)\<rparr>
      else page_keys_loop cursor limit (items @ [item]) entries)"

definition page_keys :: "(store_bytes \<times> 'a) list \<Rightarrow> store_bytes option \<Rightarrow> nat \<Rightarrow> 'a paged" where
  "page_keys entries cursor limit = page_keys_loop cursor limit [] entries"

section \<open>Walking the pages\<close>

text \<open>A client follows the cursors over one snapshot; the fuel bounds the number of pages.\<close>

fun walk_pages ::
  "nat \<Rightarrow> (store_bytes option \<Rightarrow> 'a paged result) \<Rightarrow> store_bytes option \<Rightarrow> 'a list result option" where
  "walk_pages 0 page cursor = None"
| "walk_pages (Suc fuel) page cursor =
     (case page cursor of
        Inl e \<Rightarrow> Some (Err e)
      | Inr p \<Rightarrow>
          (case pg_next p of
             None \<Rightarrow> Some (Ok (pg_items p))
           | Some c \<Rightarrow>
               map_option (\<lambda>r. and_then r (\<lambda>rest. Ok (pg_items p @ rest))) (walk_pages fuel page (Some c))))"

definition past :: "store_bytes option \<Rightarrow> store_bytes \<Rightarrow> bool" where
  "past cursor key = (case cursor of Some c \<Rightarrow> \<not> key \<le> c | None \<Rightarrow> True)"

lemma scan_loop_skip:
  "\<forall>e \<in> set skipped. \<not> past cursor (fst e) \<Longrightarrow>
   scan_loop cursor limit select items (map Inr skipped @ s) = scan_loop cursor limit select items s"
  by (induction skipped) (auto simp: past_def split: option.splits)

lemma scan_next_map [simp]:
  "scan_next (map Inr es) = Ok (case es of [] \<Rightarrow> None | e # _ \<Rightarrow> Some e)"
  by (cases es) (simp_all add: scan_next_def)

text \<open>One page over an error-free scan with a total selection cuts the remaining entries in two.\<close>

lemma scan_loop_page:
  assumes "\<forall>e \<in> set es. past cursor (fst e)"
  shows "\<exists>pre suf nxt. es = pre @ suf \<and>
    scan_loop cursor limit (\<lambda>k v. Ok (f (k, v))) items (map Inr es) =
      Ok \<lparr>pg_items = items @ List.map_filter f pre, pg_next = nxt\<rparr> \<and>
    (case nxt of None \<Rightarrow> suf = [] | Some c \<Rightarrow> pre \<noteq> [] \<and> suf \<noteq> [] \<and> c = fst (last pre))"
  using assms
proof (induction es arbitrary: items)
  case Nil
  show ?case by (simp add: map_filter_simps)
next
  case (Cons e es)
  obtain k v where e: "e = (k, v)" by force
  have p: "past cursor k" and ps: "\<forall>e \<in> set es. past cursor (fst e)" using Cons.prems e by simp_all
  have skip: "\<not> (case cursor of Some c \<Rightarrow> k \<le> c | None \<Rightarrow> False)"
    using p by (auto simp: past_def split: option.splits)
  have grow: "\<exists>pre suf nxt. e # es = pre @ suf \<and>
      scan_loop cursor limit (\<lambda>k v. Ok (f (k, v))) items' (map Inr es) =
        Ok \<lparr>pg_items = items @ List.map_filter f pre, pg_next = nxt\<rparr> \<and>
      (case nxt of None \<Rightarrow> suf = [] | Some c \<Rightarrow> pre \<noteq> [] \<and> suf \<noteq> [] \<and> c = fst (last pre))"
    if "items' = items @ List.map_filter f [e]" for items'
  proof -
    from Cons.IH [OF ps, of items'] obtain pre suf nxt where "es = pre @ suf"
      "scan_loop cursor limit (\<lambda>k v. Ok (f (k, v))) items' (map Inr es) =
        Ok \<lparr>pg_items = items' @ List.map_filter f pre, pg_next = nxt\<rparr>"
      "case nxt of None \<Rightarrow> suf = [] | Some c \<Rightarrow> pre \<noteq> [] \<and> suf \<noteq> [] \<and> c = fst (last pre)" by blast
    then show ?thesis using that
      by (intro exI [of _ "e # pre"] exI [of _ suf] exI [of _ "nxt"])
        (auto simp: map_filter_simps split: option.splits)
  qed
  show ?case
  proof (cases "f e")
    case None
    then show ?thesis using grow [of items] skip e by (simp add: map_filter_simps)
  next
    case (Some item)
    show ?thesis
    proof (cases "length (items @ [item]) \<ge> limit")
      case True
      then show ?thesis using Some skip e
        by (intro exI [of _ "[e]"] exI [of _ es] exI [of _ "if es \<noteq> [] then Some k else None"])
          (simp add: map_filter_simps split: list.split)
    next
      case False
      then show ?thesis using grow [of "items @ [item]"] Some skip e
        by (simp add: map_filter_simps)
    qed
  qed
qed

lemma walk_pages_from:
  assumes "sorted_wrt (<) (map fst (done_es @ todo))"
    and "\<forall>e \<in> set done_es. \<not> past cursor (fst e)" "\<forall>e \<in> set todo. past cursor (fst e)"
    and "length todo < fuel"
  shows "walk_pages fuel (\<lambda>c. scan_paged (map Inr (done_es @ todo)) c limit (\<lambda>k v. Ok (f (k, v)))) cursor =
    Some (Ok (List.map_filter f todo))"
  using assms
proof (induction fuel arbitrary: done_es todo cursor)
  case (Suc fuel)
  let ?page = "\<lambda>c. scan_paged (map Inr (done_es @ todo)) c limit (\<lambda>k v. Ok (f (k, v)))"
  have page: "?page cursor = scan_loop cursor limit (\<lambda>k v. Ok (f (k, v))) [] (map Inr todo)"
    using scan_loop_skip [OF Suc.prems(2)] by (simp add: scan_paged_def)
  from scan_loop_page [OF Suc.prems(3), of limit f "[]"] obtain pre suf nxt
    where todo: "todo = pre @ suf"
      and res: "?page cursor = Ok \<lparr>pg_items = List.map_filter f pre, pg_next = nxt\<rparr>"
      and nxt: "case nxt of None \<Rightarrow> suf = [] | Some c \<Rightarrow> pre \<noteq> [] \<and> suf \<noteq> [] \<and> c = fst (last pre)"
    unfolding page by auto
  show ?case
  proof (cases nxt)
    case None
    then show ?thesis using res nxt todo by simp
  next
    case (Some c)
    with nxt have pre: "pre \<noteq> []" "c = fst (last pre)" by simp_all
    then obtain xs e where xs: "pre = xs @ [e]" "c = fst e" by (metis append_butlast_last_id)
    have below: "\<forall>x \<in> set (done_es @ pre). \<not> past (Some c) (fst x)"
      and above: "\<forall>x \<in> set suf. past (Some c) (fst x)"
      using Suc.prems(1) unfolding todo xs by (auto simp: past_def sorted_wrt_append)
    have "walk_pages fuel (\<lambda>c. scan_paged (map Inr ((done_es @ pre) @ suf)) c limit (\<lambda>k v. Ok (f (k, v)))) (Some c) =
        Some (Ok (List.map_filter f suf))"
      using Suc.prems(1,4) below above unfolding todo by (intro Suc.IH) (auto simp: xs(1))
    then show ?thesis using res Some todo by (simp add: map_filter_def)
  qed
qed simp

text \<open>C27: following the continuation cursors over one ordered snapshot terminates within
  one page per entry and delivers every selected entry exactly once, in key order, for every
  page limit.\<close>

theorem walk_pages_complete:
  assumes "sorted_wrt (<) (map fst entries)"
  shows "walk_pages (Suc (length entries)) (\<lambda>c. scan_paged (map Inr entries) c limit (\<lambda>k v. Ok (f (k, v)))) None =
    Some (Ok (List.map_filter f entries))"
  using walk_pages_from [of "[]" entries None "Suc (length entries)" limit f] assms
  by (simp add: past_def)

theorem walk_pages_complete_witness:
  "walk_pages 4 (\<lambda>c. scan_paged (map Inr [([1], [10]), ([2], [20]), ([2, 0], [30])]) c 2 (\<lambda>k v. Ok (Some v))) None =
    Some (Ok [[10], [20], [30 :: byte]])"
  using walk_pages_complete [of "[([1], [10]), ([2], [20]), ([2, 0], [30])]" 2 "\<lambda>e. Some (snd e)"]
  by (simp add: map_filter_simps numeral_eq_Suc)

text \<open>The synchronous pager is the scan pager with a total selection.\<close>

lemma page_keys_eq_scan_paged:
  "scan_paged (map Inr entries) cursor limit (\<lambda>k v. Ok (Some v)) = Ok (page_keys entries cursor limit)"
proof -
  have "scan_loop cursor limit (\<lambda>k v. Ok (Some v)) items (map Inr entries) =
      Ok (page_keys_loop cursor limit items entries)" for items
    by (induction entries arbitrary: items) (auto split: option.split list.split)
  then show ?thesis by (simp add: scan_paged_def page_keys_def)
qed

text \<open>Without filtering a page is empty only when no entry is left, so the stream
  never ends with an empty page; with a filter it can: the end-of-stream peek counts a raw
  entry that the selection then skips.\<close>

lemma trailing_empty_page:
  "(pg_items (page_keys entries cursor limit) = [] \<longleftrightarrow> (\<forall>e \<in> set entries. \<not> past cursor (fst e))) \<and>
   (\<exists>raw select. sorted_wrt (<) (map fst raw) \<and>
     scan_paged (map Inr raw) None 1 select = Ok \<lparr>pg_items = [()], pg_next = Some [1]\<rparr> \<and>
     scan_paged (map Inr raw) (Some [1]) 1 select = Ok \<lparr>pg_items = [], pg_next = None\<rparr>)"
proof (rule conjI)
  have ne: "items \<noteq> [] \<Longrightarrow> pg_items (page_keys_loop cursor limit items es) \<noteq> []"
    for items :: "'a list" and es
    by (induction cursor limit items es rule: page_keys_loop.induct) auto
  show "pg_items (page_keys entries cursor limit) = [] \<longleftrightarrow> (\<forall>e \<in> set entries. \<not> past cursor (fst e))"
    unfolding page_keys_def using ne [of "[_]"]
    by (induction entries) (auto simp: past_def split: option.splits if_split_asm)
  show "\<exists>raw select. sorted_wrt (<) (map fst raw) \<and>
     scan_paged (map Inr raw) None 1 select = Ok \<lparr>pg_items = [()], pg_next = Some [1]\<rparr> \<and>
     scan_paged (map Inr raw) (Some [1]) 1 select = Ok \<lparr>pg_items = [], pg_next = None\<rparr>"
    by (rule exI [of _ "[([1], []), ([2], [])]"], rule exI [of _ "\<lambda>k v. Ok (if k = [1] then Some () else None)"])
      (simp add: scan_paged_def scan_next_def)
qed

end
