(* ===== verification/Neighbor_Plan.thy ===== *)
theory Neighbor_Plan
  imports Relay_Prelude
begin

text \<open>
  Deterministic sparse neighbour planning and the maintenance limiter of
  \<^verbatim>\<open>src/src/membership/neighbor.rs\<close>. A member set is its canonical ascending list. The
  planner's endless cycle iterator is a partial function, so that a walk that never
  collects its target is the value \<open>None\<close>.
\<close>

definition clamp :: "nat \<Rightarrow> nat \<Rightarrow> nat \<Rightarrow> nat" where
  "clamp lo hi n = (if n < lo then lo else if n > hi then hi else n)"

text \<open>The first index holding a member, as \<^verbatim>\<open>Iterator::position\<close>.\<close>

fun position_of :: "'a \<Rightarrow> 'a list \<Rightarrow> nat option" where
  "position_of x [] = None"
| "position_of x (y # ys) = (if y = x then Some 0 else map_option Suc (position_of x ys))"

partial_function (option) cycle_walk ::
  "'a \<Rightarrow> 'a list \<Rightarrow> nat \<Rightarrow> nat \<Rightarrow> 'a list \<Rightarrow> 'a list option" where
  "cycle_walk local members target cursor neighbors =
     (let nxt = members ! (cursor mod length members)
      in if nxt = local then cycle_walk local members target (cursor + 1) neighbors
         else if \<not> List.member neighbors nxt then
           (let neighbors' = neighbors @ [nxt]
            in if length neighbors' \<ge> target then Some neighbors'
               else cycle_walk local members target (cursor + 1) neighbors')
         else cycle_walk local members target (cursor + 1) neighbors)"

definition plan_neighbors :: "'a \<Rightarrow> 'a list \<Rightarrow> nat \<Rightarrow> 'a list option" where
  "plan_neighbors local members degree0 =
     (let degree = clamp 1 64 degree0
      in if \<not> List.member members local then Some []
         else
           (let available = length members - 1;
                target = min degree available
            in if target = 0 then Some []
               else
                 (let position = (case position_of local members of Some p \<Rightarrow> p | None \<Rightarrow> 0)
                  in cycle_walk local members target (position + 1) [])))"

record maintenance_bounds =
  mb_max_pending :: nat
  mb_max_queue :: nat

record maintenance_load =
  ml_pending :: nat
  ml_queued :: nat

definition load_new :: maintenance_load where
  "load_new = \<lparr>ml_pending = 0, ml_queued = 0\<rparr>"

definition can_queue :: "maintenance_load \<Rightarrow> maintenance_bounds \<Rightarrow> bool" where
  "can_queue l bounds = (ml_queued l < mb_max_queue bounds)"

definition start_connect :: "maintenance_load \<Rightarrow> maintenance_bounds \<Rightarrow> maintenance_load result" where
  "start_connect l bounds =
     (if ml_pending l \<ge> mb_max_pending bounds then Err (overload_error ''neighbor maintenance'')
      else Ok (l\<lparr>ml_pending := ml_pending l + 1,
                 ml_queued := (if ml_queued l > 0 then ml_queued l - 1 else ml_queued l)\<rparr>))"

definition finish_connect :: "maintenance_load \<Rightarrow> maintenance_load" where
  "finish_connect l = l\<lparr>ml_pending := ml_pending l - 1\<rparr>"

definition enqueue :: "maintenance_load \<Rightarrow> maintenance_bounds \<Rightarrow> maintenance_load result" where
  "enqueue l bounds =
     (if \<not> can_queue l bounds then Err (overload_error ''neighbor maintenance'')
      else Ok (l\<lparr>ml_queued := ml_queued l + 1\<rparr>))"

inductive load_reachable :: "maintenance_bounds \<Rightarrow> maintenance_load \<Rightarrow> bool"
  for bounds :: maintenance_bounds where
  load_init: "load_reachable bounds load_new"
| load_enqueue: "load_reachable bounds l \<Longrightarrow> enqueue l bounds = Inr l' \<Longrightarrow> load_reachable bounds l'"
| load_start: "load_reachable bounds l \<Longrightarrow> start_connect l bounds = Inr l' \<Longrightarrow> load_reachable bounds l'"
| load_finish: "load_reachable bounds l \<Longrightarrow> load_reachable bounds (finish_connect l)"

section \<open>The planned cycle\<close>

text \<open>The members after the local node in cyclic order.\<close>

definition cyclic_others :: "'a \<Rightarrow> 'a list \<Rightarrow> 'a list" where
  "cyclic_others local members =
     tl (dropWhile (\<lambda>m. m \<noteq> local) members) @ takeWhile (\<lambda>m. m \<noteq> local) members"

lemma position_of_split: "x \<notin> set pre \<Longrightarrow> position_of x (pre @ x # suf) = Some (length pre)"
  by (induction pre) auto

lemma cyclic_others_split: "x \<notin> set pre \<Longrightarrow> cyclic_others x (pre @ x # suf) = suf @ pre"
proof -
  assume a: "x \<notin> set pre"
  have "takeWhile (\<lambda>m. m \<noteq> x) (pre @ x # suf) = pre" using a by (induction pre) auto
  moreover have "dropWhile (\<lambda>m. m \<noteq> x) (pre @ x # suf) = x # suf" using a by (induction pre) auto
  ultimately show ?thesis by (simp only: cyclic_others_def list.sel)
qed

lemma nth_cycle:
  assumes "j < length (suf @ pre)"
  shows "(pre @ x # suf) ! ((length pre + 1 + j) mod length (pre @ x # suf)) = (suf @ pre) ! j"
proof (cases "j < length suf")
  case True
  then show ?thesis by (simp add: nth_append)
next
  case False
  let ?n = "length (pre @ x # suf)"
  have "(length pre + 1 + j) mod ?n = (?n + (j - length suf)) mod ?n" using False by simp
  also have "\<dots> = j - length suf" unfolding mod_add_self1 using assms by (intro mod_less) simp
  finally have e: "(length pre + 1 + j) mod ?n = j - length suf" .
  have "j - length suf < length pre" using assms False by simp
  then show ?thesis unfolding e using False by (simp add: nth_append)
qed

lemma cycle_walk_step:
  assumes "members ! (cursor mod length members) = y" "y \<noteq> local" "y \<notin> set neighbors"
  shows "cycle_walk local members target cursor neighbors =
    (if length (neighbors @ [y]) \<ge> target then Some (neighbors @ [y])
     else cycle_walk local members target (cursor + 1) (neighbors @ [y]))"
  by (subst cycle_walk.simps) (simp only: assms Let_def if_False if_True List.member_iff not_False_eq_True)

lemma cycle_walk_collects:
  assumes "distinct (pre @ x # suf)" "target \<le> length (suf @ pre)" "j < target"
  shows "cycle_walk x (pre @ x # suf) target (length pre + 1 + j) (take j (suf @ pre)) =
    Some (take target (suf @ pre))"
  using assms(3)
proof (induction "target - j" arbitrary: j)
  case (Suc d)
  let ?others = "suf @ pre"
  have j: "j < length ?others" using Suc.prems assms(2) by simp
  have mem: "?others ! j \<in> set ?others" using j by (rule nth_mem)
  then have ne: "?others ! j \<noteq> x" using assms(1) by auto
  have d: "distinct ?others" using assms(1) by auto
  then have new: "?others ! j \<notin> set (take j ?others)"
    using j by (auto simp: in_set_conv_nth nth_eq_iff_index_eq simp del: take_append length_append)
  have tk: "take j ?others @ [?others ! j] = take (Suc j) ?others"
    using j by (simp only: take_Suc_conv_app_nth)
  have len: "length (take (Suc j) ?others) = Suc j" using j by simp
  note step = cycle_walk_step [OF nth_cycle [OF j] ne new, unfolded tk len]
  show ?case
  proof (cases "Suc j \<ge> target")
    case True
    then have "target = Suc j" using Suc.prems by simp
    then show ?thesis unfolding step by simp
  next
    case False
    then have "cycle_walk x (pre @ x # suf) target (length pre + 1 + Suc j) (take (Suc j) ?others) =
        Some (take target ?others)" using Suc by (intro Suc.hyps(1)) auto
    then show ?thesis unfolding step using False by simp
  qed
qed simp

lemma plan_neighbors_eq:
  assumes "distinct members"
  shows "plan_neighbors local members degree =
    Some (if local \<in> set members then take (clamp 1 64 degree) (cyclic_others local members) else [])"
proof (cases "local \<in> set members")
  case True
  then obtain pre suf where m: "members = pre @ local # suf" "local \<notin> set pre"
    by (meson split_list_first)
  let ?d = "clamp 1 64 degree" and ?others = "suf @ pre"
  have d: "1 \<le> ?d" by (simp add: clamp_def)
  have t: "take (min ?d (length ?others)) ?others = take ?d ?others" by (simp add: min_def)
  show ?thesis
  proof (cases "?others = []")
    case empty: True
    then show ?thesis using m by (simp add: plan_neighbors_def cyclic_others_def)
  next
    case False
    then have "0 < min ?d (length ?others)" using d by simp
    moreover from this have "cycle_walk local members (min ?d (length ?others)) (length pre + 1) [] =
        Some (take ?d ?others)"
      using cycle_walk_collects [of pre local suf "min ?d (length ?others)" 0] assms m
      unfolding t by simp
    moreover have "length members - 1 = length ?others" using m by simp
    moreover have "position_of local members = Some (length pre)" "cyclic_others local members = ?others"
      using m by (simp_all add: position_of_split cyclic_others_split)
    ultimately show ?thesis using True
      by (auto simp: plan_neighbors_def Let_def min_def simp del: take_append length_append)
  qed
qed (simp add: plan_neighbors_def)

lemma cyclic_others_props:
  assumes "distinct members" "local \<in> set members"
  shows "distinct (cyclic_others local members)" "set (cyclic_others local members) = set members - {local}"
    "length (cyclic_others local members) = length members - 1"
proof -
  obtain pre suf where m: "members = pre @ local # suf" "local \<notin> set pre"
    using assms(2) by (meson split_list_first)
  then show "distinct (cyclic_others local members)"
    "set (cyclic_others local members) = set members - {local}"
    "length (cyclic_others local members) = length members - 1"
    using assms(1) by (auto simp: cyclic_others_split)
qed

text \<open>The planner always returns. A member plans the next members after itself in
  the canonical cycle, as many as the clamped degree and the membership allow; the plan has
  no self-edge and no duplicate and names only members. A non-member plans nothing.\<close>

lemma plan_neighbors_correct:
  assumes "sorted_wrt (<) (members :: 'a::linorder list)"
  shows "\<exists>plan. plan_neighbors local members degree = Some plan \<and>
    distinct plan \<and> local \<notin> set plan \<and> set plan \<subseteq> set members \<and>
    (if local \<in> set members
     then prefix plan (cyclic_others local members) \<and>
       length plan = min (clamp 1 64 degree) (length members - 1)
     else plan = [])"
proof -
  have d: "distinct members" using assms by (rule strict_sorted_imp_distinct)
  show ?thesis
  proof (cases "local \<in> set members")
    case True
    note o = cyclic_others_props [OF d True]
    have "set (take (clamp 1 64 degree) (cyclic_others local members)) \<subseteq> set members - {local}"
      using o(2) by (metis set_take_subset)
    then show ?thesis using True o plan_neighbors_eq [OF d, of local degree]
      by (auto simp: take_is_prefix)
  qed (simp add: plan_neighbors_eq [OF d])
qed

text \<open>With two or more members, following first planned neighbours walks the whole
  membership in canonical cyclic order, for every requested degree: the planned edges
  always contain the cycle through all members.\<close>

lemma plan_neighbors_cycle:
  assumes "sorted_wrt (<) (members :: 'a::linorder list)" and "i < length members" and "2 \<le> length members"
  shows "\<exists>plan. plan_neighbors (members ! i) members degree = Some plan \<and> plan \<noteq> [] \<and>
    hd plan = members ! ((i + 1) mod length members)"
proof -
  have d: "distinct members" using assms(1) by (rule strict_sorted_imp_distinct)
  define pre suf where "pre = take i members" and "suf = drop (Suc i) members"
  have m: "members = pre @ members ! i # suf" 
    unfolding pre_def suf_def by (rule id_take_nth_drop [OF assms(2)])
  have lp: "length pre = i" using assms(2) by (simp add: pre_def)
  have "distinct (pre @ members ! i # suf)" unfolding m [symmetric] by (rule d)
  then have np: "members ! i \<notin> set pre" by auto
  have co: "cyclic_others (members ! i) members = suf @ pre"
    by (rule cyclic_others_split [OF np, of suf, unfolded m [symmetric]])
  have "length members = Suc (length (suf @ pre))" by (subst m) simp
  then have ne: "0 < length (suf @ pre)" using assms(3) by linarith
  have "members ! ((i + 1) mod length members) = (suf @ pre) ! 0"
    using nth_cycle [OF ne, of "members ! i"] unfolding m [symmetric] lp by simp
  then have "hd (take (clamp 1 64 degree) (suf @ pre)) = members ! ((i + 1) mod length members)"
    using ne hd_take [of "clamp 1 64 degree" "suf @ pre"]
    by (simp add: hd_conv_nth clamp_def del: take_append)
  moreover have "take (clamp 1 64 degree) (suf @ pre) \<noteq> []" using ne by (simp add: clamp_def)
  ultimately show ?thesis using plan_neighbors_eq [OF d, of "members ! i" degree] assms(2) co by simp
qed

text \<open>Under any sequence of enqueues, connects and completions, the limiter never holds
  more pending connects or queued candidates than its bounds.\<close>

lemma load_bounded:
  assumes "load_reachable bounds l"
  shows "ml_pending l \<le> mb_max_pending bounds \<and> ml_queued l \<le> mb_max_queue bounds"
  using assms
  by induction (auto simp: load_new_def enqueue_def can_queue_def start_connect_def finish_connect_def
      split: if_split_asm)

end
