(* ===== verification/Recovery.thy ===== *)
theory Recovery
  imports Relay_Prelude
begin

text \<open>
  The continuous recovery controller of \<^verbatim>\<open>src/src/membership/recovery.rs\<close>: activation by
  observation, exponential wall-clock backoff on saturating 64-bit seconds, bounded
  fan-out, and the immediate-recovery command. Member sets are their canonical ascending
  lists, as iterating a \<^verbatim>\<open>BTreeSet\<close> yields them.
\<close>

record recovery_policy =
  rp_neighbors :: nat
  rp_fan_out :: nat
  rp_initial_backoff :: u64
  rp_maximum_backoff :: u64

datatype recovery_state = Idle | Recovering | Connected

record 'n recovery_step =
  rs_targets :: "'n list"
  rs_backoff_seconds :: u64

record 'n recovery_controller =
  rcv_policy :: recovery_policy
  rcv_state :: recovery_state
  rcv_attempts :: u64
  rcv_last_attempt_at :: u64
  rcv_pending :: "'n list"

definition recovery_new :: "recovery_policy \<Rightarrow> 'n recovery_controller" where
  "recovery_new policy =
     \<lparr>rcv_policy = policy, rcv_state = Idle, rcv_attempts = 0, rcv_last_attempt_at = 0, rcv_pending = []\<rparr>"

definition pending_count :: "'n recovery_controller \<Rightarrow> nat" where
  "pending_count c = length (rcv_pending c)"

definition backoff_seconds :: "'n recovery_controller \<Rightarrow> u64 \<Rightarrow> u64" where
  "backoff_seconds c now =
     (let exponent = min (rcv_attempts c) 16;
          doubled = saturating_mul (rp_initial_backoff (rcv_policy c)) (push_bit (unat exponent) 1);
          capped = min doubled (rp_maximum_backoff (rcv_policy c))
      in if now \<ge> saturating_add (rcv_last_attempt_at c) capped then 0 else capped)"

definition next_attempt_seconds :: "'n recovery_controller \<Rightarrow> u64 \<Rightarrow> u64 option" where
  "next_attempt_seconds c now =
     (if rcv_state c \<noteq> Recovering then None
      else Some (saturating_add (rcv_last_attempt_at c) (backoff_seconds c now)))"

definition recovery_observe ::
  "'n recovery_controller \<Rightarrow> 'n list \<Rightarrow> 'n list \<Rightarrow> 'n recovery_controller" where
  "recovery_observe c online reachable =
     (let unreachable = filter (\<lambda>m. \<not> List.member reachable m) online
      in if unreachable = [] then
           (let c1 = (if rcv_state c \<noteq> Idle then c\<lparr>rcv_state := Connected\<rparr> else c)
            in c1\<lparr>rcv_pending := []\<rparr>)
         else
           (let c1 = c\<lparr>rcv_pending := unreachable\<rparr>
            in if rcv_state c1 = Idle \<or> rcv_state c1 = Connected
               then c1\<lparr>rcv_state := Recovering, rcv_attempts := 0\<rparr> else c1))"

definition next_step ::
  "'n recovery_controller \<Rightarrow> u64 \<Rightarrow> 'n list \<Rightarrow> 'n recovery_controller \<times> 'n recovery_step" where
  "next_step c now candidates =
     (let backoff = backoff_seconds c now;
          targets = take (max (rp_fan_out (rcv_policy c)) 1) candidates
      in (c\<lparr>rcv_last_attempt_at := now, rcv_attempts := saturating_add (rcv_attempts c) 1\<rparr>,
          \<lparr>rs_targets = targets, rs_backoff_seconds = backoff\<rparr>))"

definition recovery_due :: "'n recovery_controller \<Rightarrow> u64 \<Rightarrow> bool" where
  "recovery_due c now =
     (if rcv_state c \<noteq> Recovering then False
      else now \<ge> saturating_add (rcv_last_attempt_at c) (backoff_seconds c now))"

definition recovery_immediate :: "'n recovery_controller \<Rightarrow> u64 \<Rightarrow> 'n recovery_controller" where
  "recovery_immediate c now =
     (if rcv_pending c = [] \<and> rcv_state c \<noteq> Recovering then c
      else c\<lparr>rcv_state := Recovering, rcv_last_attempt_at := saturating_sub now 1\<rparr>)"

section \<open>Backoff\<close>

text \<open>The specified delay: doubling from the initial value, at most 16 times, up to the cap.\<close>

definition spec_delay :: "'n recovery_controller \<Rightarrow> nat" where
  "spec_delay c = min (unat (rp_initial_backoff (rcv_policy c)) * 2 ^ min (unat (rcv_attempts c)) 16)
     (unat (rp_maximum_backoff (rcv_policy c)))"

definition capped_backoff :: "'n recovery_controller \<Rightarrow> u64" where
  "capped_backoff c =
     min (saturating_mul (rp_initial_backoff (rcv_policy c)) (push_bit (unat (min (rcv_attempts c) 16)) 1))
       (rp_maximum_backoff (rcv_policy c))"

lemma unat_min: "unat (min a b) = min (unat a) (unat (b :: 'a::len word))"
  by (simp add: min_def word_le_nat_alt)

lemma unat_shift_one: "n \<le> 16 \<Longrightarrow> unat (push_bit n 1 :: u64) = 2 ^ n"
proof -
  assume n: "n \<le> 16"
  then have "(2 :: nat) ^ n \<le> 2 ^ 16" by (rule power_increasing) simp
  then have lt: "(2 :: nat) ^ n < 2 ^ LENGTH(64)" by simp
  have "unat (push_bit n 1 :: u64) = take_bit LENGTH(64) (push_bit n (unat (1 :: u64)))"
    by (rule unsigned_push_bit_eq)
  also have "\<dots> = take_bit LENGTH(64) (2 ^ n)" by (simp only: push_bit_eq_mult unsigned_1 mult_1)
  also have "\<dots> = 2 ^ n" using lt by (rule take_bit_nat_eq_self)
  finally show ?thesis .
qed

lemma unat_capped: "unat (capped_backoff c) = spec_delay c"
proof -
  have m: "unat (min (rcv_attempts c) 16) = min (unat (rcv_attempts c)) 16" by (simp add: unat_min)
  then have "unat (push_bit (unat (min (rcv_attempts c) 16)) 1 :: u64) = 2 ^ min (unat (rcv_attempts c)) 16"
    using unat_shift_one [of "min (unat (rcv_attempts c)) 16"] by simp
  then show ?thesis
    using unat_less_exp [of "rp_maximum_backoff (rcv_policy c)"]
    by (simp add: capped_backoff_def spec_delay_def unat_min unat_saturating_mul)
qed

lemma backoff_cases:
  "backoff_seconds c now =
     (if now \<ge> saturating_add (rcv_last_attempt_at c) (capped_backoff c) then 0 else capped_backoff c)"
  by (simp add: backoff_seconds_def capped_backoff_def Let_def)

lemma due_iff_capped:
  "recovery_due c now \<longleftrightarrow> rcv_state c = Recovering \<and>
     now \<ge> saturating_add (rcv_last_attempt_at c) (capped_backoff c)"
proof -
  have "rcv_last_attempt_at c \<le> saturating_add (rcv_last_attempt_at c) (capped_backoff c)"
    using unat_less_exp [of "rcv_last_attempt_at c"]
    by (simp add: word_le_nat_alt unat_saturating_add)
  moreover have "saturating_add (rcv_last_attempt_at c) 0 = rcv_last_attempt_at c"
    by (rule word_unat_eq_iff [THEN iffD2])
      (use unat_less_exp [of "rcv_last_attempt_at c"] in \<open>simp add: unat_saturating_add\<close>)
  ultimately show ?thesis by (auto simp: recovery_due_def backoff_cases)
qed

text \<open>The deadline is exactly the specified delay after the last attempt: a
  recovering controller is due at a wall time if and only if that time has reached the
  last attempt plus the doubled, capped delay, with the sum saturating at the clock's
  range; and no reported backoff exceeds the configured maximum.\<close>

lemma recovery_due_spec:
  "(recovery_due c now \<longleftrightarrow> rcv_state c = Recovering \<and>
     min (unat (rcv_last_attempt_at c) + spec_delay c) (2 ^ 64 - 1) \<le> unat now) \<and>
   unat (backoff_seconds c now) \<le> unat (rp_maximum_backoff (rcv_policy c))"
proof (rule conjI)
  show "recovery_due c now \<longleftrightarrow> rcv_state c = Recovering \<and>
     min (unat (rcv_last_attempt_at c) + spec_delay c) (2 ^ 64 - 1) \<le> unat now"
    by (simp add: due_iff_capped word_le_nat_alt unat_saturating_add unat_capped)
  show "unat (backoff_seconds c now) \<le> unat (rp_maximum_backoff (rcv_policy c))"
    using unat_capped [of c] by (simp add: backoff_cases spec_delay_def)
qed

text \<open>An observation leaves the controller recovering exactly when some known online
  member is unreachable, with precisely those members pending; activation restarts the
  backoff, and continued recovery keeps it.\<close>

lemma recovery_observe_spec:
  fixes online reachable :: "'n list"
  shows "(let c' = recovery_observe c online reachable in
     (rcv_state c' = Recovering \<longleftrightarrow> \<not> set online \<subseteq> set reachable) \<and>
     set (rcv_pending c') = set online - set reachable \<and>
     (rcv_state c' = Recovering \<and> rcv_state c \<noteq> Recovering \<longrightarrow> rcv_attempts c' = 0) \<and>
     (rcv_state c' = Recovering \<and> rcv_state c = Recovering \<longrightarrow>
        rcv_attempts c' = rcv_attempts c \<and> rcv_last_attempt_at c' = rcv_last_attempt_at c))"
proof -
  let ?u = "filter (\<lambda>m. \<not> List.member reachable m) online"
  have u: "set ?u = set online - set reachable" by auto
  have e: "?u = [] \<longleftrightarrow> set online \<subseteq> set reachable" by (auto simp: filter_empty_conv)
  show ?thesis
    using u e by (cases "rcv_state c"; cases "?u = []")
      (auto simp: recovery_observe_def Let_def simp del: List.member_iff)
qed

text \<open>A recovery cycle dials at most the fan-out (at least one), only candidates, in
  order, and re-arms the deadline at its own time plus the next doubled delay.\<close>

lemma next_step_spec:
  assumes "rcv_state c = Recovering"
  shows "(let (c', step) = next_step c now candidates in
     prefix (rs_targets step) candidates \<and>
     length (rs_targets step) = min (max (rp_fan_out (rcv_policy c)) 1) (length candidates) \<and>
     (recovery_due c' later \<longleftrightarrow> min (unat now + spec_delay c') (2 ^ 64 - 1) \<le> unat later) \<and>
     spec_delay c \<le> spec_delay c')"
proof -
  let ?c' = "fst (next_step c now candidates)"
  have att: "unat (rcv_attempts c) \<le> unat (rcv_attempts ?c')"
    using unat_less_exp [of "rcv_attempts c"] by (simp add: next_step_def Let_def unat_saturating_add)
  then have "(2 :: nat) ^ min (unat (rcv_attempts c)) 16 \<le> 2 ^ min (unat (rcv_attempts ?c')) 16"
    by (intro power_increasing) auto
  then have "spec_delay c \<le> spec_delay ?c'"
    by (auto simp: spec_delay_def next_step_def Let_def min_le_iff_disj intro: mult_le_mono2)
  moreover have "recovery_due ?c' later \<longleftrightarrow> min (unat now + spec_delay ?c') (2 ^ 64 - 1) \<le> unat later"
    using assms by (simp add: due_iff_capped word_le_nat_alt unat_saturating_add unat_capped)
      (simp add: next_step_def Let_def)
  ultimately show ?thesis by (simp add: next_step_def Let_def take_is_prefix min.commute)
qed

definition sample_controller :: "nat recovery_controller" where
  "sample_controller = \<lparr>rcv_policy = \<lparr>rp_neighbors = 4, rp_fan_out = 2, rp_initial_backoff = 1,
     rp_maximum_backoff = 300\<rparr>, rcv_state = Recovering, rcv_attempts = 1, rcv_last_attempt_at = 10,
     rcv_pending = [7]\<rparr>"

text \<open>C36: the immediate-recovery command does not make a cycle due. It rewinds the last
  attempt to one second ago, so whenever the current delay is above one second the
  controller is not due at the moment of the command, and a cycle that was already due
  stops being due.\<close>

theorem immediate_not_due:
  assumes "spec_delay c > 1" and "0 < now" and "unat now + spec_delay c < 2 ^ 64"
    and "rcv_state c = Recovering"
  shows "\<not> recovery_due (recovery_immediate c now) now"
proof -
  have "unat (saturating_sub now 1) + 1 = unat now"
    using assms(2) by (simp add: unat_saturating_sub word_less_nat_alt)
  moreover have "spec_delay (recovery_immediate c now) = spec_delay c"
    by (simp add: spec_delay_def recovery_immediate_def)
  ultimately show ?thesis using assms
    by (auto simp: due_iff_capped word_le_nat_alt unat_saturating_add unat_capped recovery_immediate_def)
qed

theorem immediate_not_due_witness:
  "recovery_due sample_controller 100 \<and> \<not> recovery_due (recovery_immediate sample_controller 100) 100"
proof (rule conjI)
  show "recovery_due sample_controller 100"
    by (simp add: due_iff_capped word_le_nat_alt unat_saturating_add unat_capped spec_delay_def
        sample_controller_def)
  show "\<not> recovery_due (recovery_immediate sample_controller 100) 100"
    by (rule immediate_not_due) (simp_all add: spec_delay_def sample_controller_def)
qed

end
