(* ===== verification/Store_Provider.thy ===== *)
theory Store_Provider
  imports Qualified_Tags
begin

text \<open>
  The backend-neutral storage interface of \<^verbatim>\<open>src/src/provider.rs\<close>: values with their
  digests, conditional operations, transactions and their canonical digest input, receipts,
  outcomes, capabilities, and the shared condition check. SHA-256 is the parameter
  \<open>sha\<close>. A transaction id is its text, a revision and a key are bytes, and a namespace is a
  qualified tag.
\<close>

section \<open>Definitions\<close>

type_synonym store_key = "byte list"
type_synonym store_revision = "byte list"
type_synonym store_namespace = qualified_tag
type_synonym transaction_id = ustr

definition STORE_VALUE_DOMAIN :: "byte list" where
  "STORE_VALUE_DOMAIN = as_bytes (lit ''radiata/store-value/v1'') @ [0]"
definition STORE_TRANSACTION_DOMAIN :: "byte list" where
  "STORE_TRANSACTION_DOMAIN = as_bytes (lit ''radiata/store-transaction/v1'') @ [0]"

definition update_length :: "nat \<Rightarrow> byte list" where
  "update_length n = be_bytes 16 n"

definition update_bytes :: "byte list \<Rightarrow> byte list" where
  "update_bytes bs = update_length (length bs) @ bs"

definition digest_store_value :: "(byte list \<Rightarrow> digest) \<Rightarrow> byte list \<Rightarrow> digest" where
  "digest_store_value sha value = sha (STORE_VALUE_DOMAIN @ update_bytes value)"

record store_value =
  sv_value :: "byte list"
  sv_digest :: digest

definition store_value_new :: "(byte list \<Rightarrow> digest) \<Rightarrow> byte list \<Rightarrow> store_value" where
  "store_value_new sha value = \<lparr>sv_value = value, sv_digest = digest_store_value sha value\<rparr>"

lemma store_value_new_iff:
  "v = store_value_new sha (sv_value v) \<longleftrightarrow> sv_digest v = digest_store_value sha (sv_value v)"
  by (cases v) (simp add: store_value_new_def)

definition store_revision_new :: "byte list \<Rightarrow> store_revision result" where
  "store_revision_new value =
     (if value = [] then Err (invalid_input ''store revision'') else Ok value)"

datatype store_expectation = Absent | Exact digest

datatype store_operation =
    Check store_namespace store_key store_expectation
  | Put store_namespace store_key store_expectation store_value
  | Delete store_namespace store_key digest
  | ForgetReceipt transaction_id digest

record commit_receipt =
  cr_transaction :: transaction_id
  cr_operation_digest :: digest
  cr_committed_revision :: store_revision

datatype commit_outcome =
    Committed commit_receipt | Aborted | ConflictOutcome | UnknownOutcome transaction_id digest

datatype reconcile_outcome =
    ReconcileCommitted commit_receipt | ReconcileAborted | DigestConflict | ReconcileUnknown

definition update_namespace_and_key :: "store_namespace \<Rightarrow> store_key \<Rightarrow> byte list" where
  "update_namespace_and_key ns key = update_bytes (as_bytes (tag_value ns)) @ update_bytes key"

fun update_expectation :: "store_expectation \<Rightarrow> byte list" where
  "update_expectation Absent = [0]"
| "update_expectation (Exact d) = 1 # d"

fun operation_bytes :: "store_operation \<Rightarrow> byte list" where
  "operation_bytes (Check ns key e) = 0 # update_namespace_and_key ns key @ update_expectation e"
| "operation_bytes (Put ns key e v) =
     1 # update_namespace_and_key ns key @ update_expectation e @ update_bytes (sv_value v)"
| "operation_bytes (Delete ns key d) = 2 # update_namespace_and_key ns key @ d"
| "operation_bytes (ForgetReceipt t d) = 3 # update_bytes (as_bytes t) @ d"

definition transaction_bytes :: "store_revision \<Rightarrow> store_operation list \<Rightarrow> byte list" where
  "transaction_bytes base ops =
     STORE_TRANSACTION_DOMAIN @ update_bytes base @ update_length (length ops) @
     concat (map operation_bytes ops)"

definition digest_store_operations ::
  "(byte list \<Rightarrow> digest) \<Rightarrow> store_revision \<Rightarrow> store_operation list \<Rightarrow> digest" where
  "digest_store_operations sha base ops = sha (transaction_bytes base ops)"

text \<open>The identities that a transaction may name only once, in their derived order.\<close>

datatype operation_identity = KeyId store_namespace store_key | ReceiptId transaction_id

fun identity_le :: "operation_identity \<Rightarrow> operation_identity \<Rightarrow> bool" where
  "identity_le (KeyId n k) (KeyId n' k') = ((n, k) \<le> (n', k'))"
| "identity_le (KeyId n k) (ReceiptId t) = True"
| "identity_le (ReceiptId t) (KeyId n k) = False"
| "identity_le (ReceiptId t) (ReceiptId t') = (t \<le> t')"

instantiation operation_identity :: linorder
begin

definition less_eq_operation_identity :: "operation_identity \<Rightarrow> operation_identity \<Rightarrow> bool" where
  "less_eq_operation_identity a b = identity_le a b"

definition less_operation_identity :: "operation_identity \<Rightarrow> operation_identity \<Rightarrow> bool" where
  "less_operation_identity a b = (identity_le a b \<and> \<not> identity_le b a)"

instance
proof
  fix x y z :: operation_identity
  show "x < y \<longleftrightarrow> x \<le> y \<and> \<not> y \<le> x"
    by (simp add: less_eq_operation_identity_def less_operation_identity_def)
  show "x \<le> x" by (cases x) (simp_all add: less_eq_operation_identity_def)
  show "x \<le> y \<Longrightarrow> y \<le> z \<Longrightarrow> x \<le> z"
    unfolding less_eq_operation_identity_def
    by (cases x; cases y; cases z) auto
  show "x \<le> y \<Longrightarrow> y \<le> x \<Longrightarrow> x = y"
    unfolding less_eq_operation_identity_def
    by (cases x; cases y) auto
  show "x \<le> y \<or> y \<le> x"
    unfolding less_eq_operation_identity_def
    by (cases x; cases y) auto
qed

end

fun operation_identity_of :: "store_operation \<Rightarrow> operation_identity" where
  "operation_identity_of (Check ns key e) = KeyId ns key"
| "operation_identity_of (Put ns key e v) = KeyId ns key"
| "operation_identity_of (Delete ns key d) = KeyId ns key"
| "operation_identity_of (ForgetReceipt t d) = ReceiptId t"

fun adjacent_equal :: "'a list \<Rightarrow> bool" where
  "adjacent_equal (x # y # ys) = (x = y \<or> adjacent_equal (y # ys))"
| "adjacent_equal _ = False"

definition validate_distinct_operations :: "store_operation list \<Rightarrow> unit result" where
  "validate_distinct_operations ops =
     (if adjacent_equal (sort (map operation_identity_of ops))
      then Err (invalid_input ''storage transaction operations'') else Ok ())"

record store_transaction =
  st_id :: transaction_id
  st_operation_digest :: digest
  st_base_revision :: store_revision
  st_operations :: "store_operation list"

definition store_transaction_new ::
  "(byte list \<Rightarrow> digest) \<Rightarrow> transaction_id \<Rightarrow> store_revision \<Rightarrow> store_operation list \<Rightarrow> store_transaction result" where
  "store_transaction_new sha tx_id base ops =
     (if ops = [] then Err (invalid_input ''storage transaction operations'')
      else and_then (validate_distinct_operations ops) (\<lambda>_.
        Ok \<lparr>st_id = tx_id, st_operation_digest = digest_store_operations sha base ops,
            st_base_revision = base, st_operations = ops\<rparr>))"

definition computed_operation_digest :: "(byte list \<Rightarrow> digest) \<Rightarrow> store_transaction \<Rightarrow> digest" where
  "computed_operation_digest sha tx = digest_store_operations sha (st_base_revision tx) (st_operations tx)"

type_synonym entry_table = "(store_namespace \<times> store_key, store_value) btree"
type_synonym receipt_table = "(transaction_id, commit_receipt) btree"

fun expectation_matches :: "store_value option \<Rightarrow> store_expectation \<Rightarrow> bool" where
  "expectation_matches None Absent = True"
| "expectation_matches (Some v) (Exact d) = (sv_digest v = d)"
| "expectation_matches _ _ = False"

fun condition_matches :: "entry_table \<Rightarrow> receipt_table \<Rightarrow> store_operation \<Rightarrow> bool" where
  "condition_matches entries receipts (Check ns key e) = expectation_matches (bt_get entries (ns, key)) e"
| "condition_matches entries receipts (Put ns key e v) = expectation_matches (bt_get entries (ns, key)) e"
| "condition_matches entries receipts (Delete ns key d) =
     (case bt_get entries (ns, key) of None \<Rightarrow> False | Some v \<Rightarrow> sv_digest v = d)"
| "condition_matches entries receipts (ForgetReceipt t d) =
     (case bt_get receipts t of None \<Rightarrow> False | Some r \<Rightarrow> cr_operation_digest r = d)"

text \<open>The per-key expectation of a conditional write, from one snapshot read.\<close>

definition snapshot_expectation :: "store_value option result \<Rightarrow> store_expectation result" where
  "snapshot_expectation read =
     and_then read (\<lambda>value. Ok (case value of Some current \<Rightarrow> Exact (sv_digest current) | None \<Rightarrow> Absent))"

section \<open>Capabilities\<close>

datatype durability_level = ProcessCrashAtomic | OsCrashDurable

record store_requirements =
  rq_durability :: durability_level
  rq_conditional_batch :: bool
  rq_ordered_scan :: bool
  rq_reconciliation :: bool
  rq_exclusive_lifetime_lock :: bool
  rq_transactional_migration :: bool

definition metadata_requirements :: store_requirements where
  "metadata_requirements = \<lparr>rq_durability = OsCrashDurable, rq_conditional_batch = True,
     rq_ordered_scan = True, rq_reconciliation = True, rq_exclusive_lifetime_lock = True,
     rq_transactional_migration = False\<rparr>"

record store_capabilities =
  cp_durability :: durability_level
  cp_conditional_batch :: bool
  cp_ordered_scan :: bool
  cp_reconciliation :: bool
  cp_exclusive_lifetime_lock :: bool
  cp_transactional_migration :: bool

definition capabilities_new :: "durability_level \<Rightarrow> store_capabilities" where
  "capabilities_new d = \<lparr>cp_durability = d, cp_conditional_batch = False, cp_ordered_scan = False,
     cp_reconciliation = False, cp_exclusive_lifetime_lock = False, cp_transactional_migration = False\<rparr>"

fun durability_satisfies :: "durability_level \<Rightarrow> durability_level \<Rightarrow> bool" where
  "durability_satisfies OsCrashDurable required = True"
| "durability_satisfies ProcessCrashAtomic ProcessCrashAtomic = True"
| "durability_satisfies ProcessCrashAtomic OsCrashDurable = False"

definition capabilities_satisfy :: "store_capabilities \<Rightarrow> store_requirements \<Rightarrow> bool" where
  "capabilities_satisfy c r =
     (durability_satisfies (cp_durability c) (rq_durability r) \<and>
      (rq_conditional_batch r \<longrightarrow> cp_conditional_batch c) \<and>
      (rq_ordered_scan r \<longrightarrow> cp_ordered_scan c) \<and>
      (rq_reconciliation r \<longrightarrow> cp_reconciliation c) \<and>
      (rq_exclusive_lifetime_lock r \<longrightarrow> cp_exclusive_lifetime_lock c) \<and>
      (rq_transactional_migration r \<longrightarrow> cp_transactional_migration c))"

section \<open>Transactions name every identity once\<close>

lemma adjacent_equal_sorted: "sorted xs \<Longrightarrow> adjacent_equal xs \<longleftrightarrow> \<not> distinct (xs :: 'a::linorder list)"
proof (induction xs rule: adjacent_equal.induct)
  case (1 x y ys)
  then have "x \<in> set ys \<Longrightarrow> x = y" by (auto intro: order_antisym)
  with 1 show ?case by auto
qed auto

lemma validate_distinct_iff:
  "validate_distinct_operations ops = Ok u \<longleftrightarrow> distinct (map operation_identity_of ops)"
  by (simp add: validate_distinct_operations_def adjacent_equal_sorted)

lemma store_transaction_new_Ok:
  "store_transaction_new sha i b ops = Ok tx \<longleftrightarrow> ops \<noteq> [] \<and> distinct (map operation_identity_of ops) \<and>
     tx = \<lparr>st_id = i, st_operation_digest = digest_store_operations sha b ops,
           st_base_revision = b, st_operations = ops\<rparr>"
  by (auto simp: store_transaction_new_def and_then_Ok_iff validate_distinct_iff)

section \<open>The digest input is unambiguous\<close>

lemma be_bytes_inj: "a < 256 ^ n \<Longrightarrow> b < 256 ^ n \<Longrightarrow> be_bytes n a = be_bytes n b \<Longrightarrow> a = b"
  by (metis from_be_be_bytes mod_less)

text \<open>Lengths are hashed as 128-bit integers.\<close>

definition LENGTH_BOUND :: nat where "LENGTH_BOUND = 256 ^ 16"

lemma update_length_inj: "a < LENGTH_BOUND \<Longrightarrow> b < LENGTH_BOUND \<Longrightarrow> update_length a = update_length b \<Longrightarrow> a = b"
  unfolding update_length_def LENGTH_BOUND_def by (rule be_bytes_inj)

lemma update_length_append:
  "a < LENGTH_BOUND \<Longrightarrow> b < LENGTH_BOUND \<Longrightarrow> update_length a @ s = update_length b @ t \<longleftrightarrow> a = b \<and> s = t"
  using update_length_inj [of a b] append_eq_append_conv [of "update_length a" "update_length b" s t]
    length_be_bytes [of 16] by (auto simp: update_length_def simp del: be_bytes.simps)

lemma update_bytes_append:
  "length a < LENGTH_BOUND \<Longrightarrow> length b < LENGTH_BOUND \<Longrightarrow>
   update_bytes a @ s = update_bytes b @ t \<longleftrightarrow> a = b \<and> s = t"
  by (auto simp: update_bytes_def update_length_append)

lemma as_bytes_inj: "is_ascii a \<Longrightarrow> is_ascii b \<Longrightarrow> as_bytes a = as_bytes b \<Longrightarrow> a = b"
proof -
  assume a: "is_ascii a" and b: "is_ascii b" and e: "as_bytes a = as_bytes b"
  have r: "map unat (map word_of_nat s :: byte list) = s" if "is_ascii s" for s
    using that by (induction s) (auto simp: is_ascii_def unat_of_nat)
  from e have "map unat (map word_of_nat a :: byte list) = map unat (map word_of_nat b :: byte list)"
    by (simp only: as_bytes_ascii [OF a] as_bytes_ascii [OF b])
  then show ?thesis by (simp only: r [OF a] r [OF b])
qed

definition namespace_wf :: "store_namespace \<Rightarrow> bool" where
  "namespace_wf ns = (length (tag_value ns) < LENGTH_BOUND \<and> is_ascii (tag_value ns) \<and>
     (\<exists>d k n. ns = make_tag d k n \<and> slash \<notin> set d \<and> slash \<notin> set k))"

definition bytes_wf :: "byte list \<Rightarrow> bool" where
  "bytes_wf bs = (length bs < LENGTH_BOUND)"

fun expectation_wf :: "store_expectation \<Rightarrow> bool" where
  "expectation_wf Absent = True"
| "expectation_wf (Exact d) = (length d = 32)"

fun operation_wf :: "(byte list \<Rightarrow> digest) \<Rightarrow> store_operation \<Rightarrow> bool" where
  "operation_wf sha (Check ns key e) = (namespace_wf ns \<and> bytes_wf key \<and> expectation_wf e)"
| "operation_wf sha (Put ns key e v) =
     (namespace_wf ns \<and> bytes_wf key \<and> expectation_wf e \<and> bytes_wf (sv_value v) \<and>
      v = store_value_new sha (sv_value v))"
| "operation_wf sha (Delete ns key d) = (namespace_wf ns \<and> bytes_wf key \<and> length d = 32)"
| "operation_wf sha (ForgetReceipt t d) = (is_ascii t \<and> length t < LENGTH_BOUND \<and> length d = 32)"

lemma tag_value_inj:
  assumes "namespace_wf a" "namespace_wf b" "tag_value a = tag_value b"
  shows "a = b"
proof -
  from assms obtain d k n d' k' n' where t: "a = make_tag d k n" "b = make_tag d' k' n'"
    and s: "slash \<notin> set d" "slash \<notin> set k" "slash \<notin> set d'" "slash \<notin> set k'"
    by (auto simp: namespace_wf_def)
  have split: "xs @ slash # r = ys @ slash # q \<Longrightarrow> slash \<notin> set xs \<Longrightarrow> slash \<notin> set ys \<Longrightarrow> xs = ys \<and> r = q"
    for xs ys r q :: ustr
    by (induction xs ys rule: list_induct2') auto
  have "d @ slash # (k @ slash # n) = d' @ slash # (k' @ slash # n')" using assms(3) t by simp
  from split [OF this s(1,3)] have "d = d'" "k @ slash # n = k' @ slash # n'" by simp_all
  with split [OF this(2) s(2,4)] show ?thesis by (simp add: t)
qed

lemma namespace_key_append:
  assumes "namespace_wf a" "namespace_wf b" "bytes_wf k" "bytes_wf l"
  shows "update_namespace_and_key a k @ s = update_namespace_and_key b l @ t \<longleftrightarrow> a = b \<and> k = l \<and> s = t"
proof -
  have len: "length (as_bytes (tag_value x)) < LENGTH_BOUND" if "namespace_wf x" for x
    using that str_len_ascii [of "tag_value x"] by (simp add: namespace_wf_def str_len_def)
  have "as_bytes (tag_value a) = as_bytes (tag_value b) \<Longrightarrow> a = b"
    using tag_value_inj [OF assms(1,2)] as_bytes_inj [of "tag_value a" "tag_value b"] assms(1,2)
    unfolding namespace_wf_def by blast
  moreover have "update_namespace_and_key a k @ s = update_namespace_and_key b l @ t \<longleftrightarrow>
      as_bytes (tag_value a) = as_bytes (tag_value b) \<and> k = l \<and> s = t"
    using assms(3,4) update_bytes_append [OF len [OF assms(1)] len [OF assms(2)]]
    unfolding update_namespace_and_key_def bytes_wf_def append_assoc by (simp add: update_bytes_append)
  ultimately show ?thesis by auto
qed

lemma expectation_append:
  assumes "expectation_wf e" "expectation_wf f"
  shows "update_expectation e @ s = update_expectation f @ t \<longleftrightarrow> e = f \<and> s = t"
  using assms by (cases e; cases f) (auto simp: append_eq_append_conv)

lemma operation_bytes_append:
  assumes "operation_wf sha a" "operation_wf sha b"
  shows "operation_bytes a @ s = operation_bytes b @ t \<longleftrightarrow> a = b \<and> s = t"
proof -
  have len: "length (as_bytes x) < LENGTH_BOUND" if "is_ascii x" "length x < LENGTH_BOUND" for x
    using that str_len_ascii [of x] by (simp add: str_len_def)
  show ?thesis
  proof (cases a; cases b)
    fix ns k e v ns' k' e' v' assume ab: "a = Put ns k e v" "b = Put ns' k' e' v'"
    then have "sv_value v = sv_value v' \<Longrightarrow> v = v'" using assms by (metis operation_wf.simps(2))
    with ab assms show ?thesis
      by (auto simp: namespace_key_append expectation_append update_bytes_append bytes_wf_def)
  next
    fix x d y d' assume ab: "a = ForgetReceipt x d" "b = ForgetReceipt y d'"
    then show ?thesis using assms len [of x] len [of y] as_bytes_inj [of x y]
      by (auto simp: update_bytes_append append_eq_append_conv)
  qed (use assms in \<open>auto simp: namespace_key_append expectation_append append_eq_append_conv\<close>)
qed

lemma operations_bytes_inj:
  "list_all (operation_wf sha) xs \<Longrightarrow> list_all (operation_wf sha) ys \<Longrightarrow> length xs = length ys \<Longrightarrow>
   concat (map operation_bytes xs) = concat (map operation_bytes ys) \<longleftrightarrow> xs = ys"
proof (induction xs arbitrary: ys)
  case (Cons x xs)
  then obtain y ys' where "ys = y # ys'" by (cases ys) auto
  with Cons show ?case using operation_bytes_append [of sha x y] by auto
qed simp

text \<open>C24: the transaction digest is computed over an unambiguous text: two transactions
  feed the hash the same bytes only if they have the same base revision and the same
  operations in the same order, so equal digests of different transactions are hash
  collisions.\<close>

theorem transaction_bytes_unambiguous:
  assumes "list_all (operation_wf sha) ops" "list_all (operation_wf sha) ops'"
    and "length ops < LENGTH_BOUND" "length ops' < LENGTH_BOUND" "bytes_wf base" "bytes_wf base'"
  shows "transaction_bytes base ops = transaction_bytes base' ops' \<longleftrightarrow> base = base' \<and> ops = ops'"
  using assms operations_bytes_inj [of sha ops ops']
  by (auto simp: transaction_bytes_def update_bytes_append update_length_append bytes_wf_def)

theorem transaction_bytes_unambiguous_witness:
  "transaction_bytes [1] [ForgetReceipt (lit ''a'') (replicate 32 0)] \<noteq>
   transaction_bytes [1] [ForgetReceipt (lit ''b'') (replicate 32 0)]"
  using transaction_bytes_unambiguous [of "\<lambda>_. []" "[ForgetReceipt (lit ''a'') (replicate 32 0)]"
      "[ForgetReceipt (lit ''b'') (replicate 32 0)]" "[1]" "[1]"]
  by (simp add: bytes_wf_def LENGTH_BOUND_def)

end
