(* ===== verification/Store_Contract.thy ===== *)
theory Store_Contract
  imports Store_Provider
begin

text \<open>
  The contract of a metadata store backend (the \<^verbatim>\<open>Storage\<close> trait of
  \<^verbatim>\<open>src/src/provider.rs\<close>), as an abstract versioned map with receipts, and the facts its
  clients rely on. The contract is the locale \<open>store_backend\<close>, which the JSON and redb adapters
  interpret in their own theories, and its extension \<open>definite_backend\<close>, in which an error
  other than an indeterminate one has no effect; only the JSON adapter interprets that one.
\<close>

record abs_store =
  as_generation :: u64
  as_entries :: "store_namespace \<times> store_key \<Rightarrow> byte list option"
  as_receipts :: "transaction_id \<Rightarrow> commit_receipt option"

definition namespace_ok :: "store_namespace \<Rightarrow> bool" where
  "namespace_ok ns = (namespace_wf ns \<and> 0 \<notin> set (tag_value ns))"

lemma namespace_ok_make_tag:
  assumes "slash \<notin> set d" "slash \<notin> set k" "is_ascii (tag_value (make_tag d k n))"
    "length (tag_value (make_tag d k n)) < LENGTH_BOUND" "0 \<notin> set (tag_value (make_tag d k n))"
  shows "namespace_ok (make_tag d k n)"
  using assms unfolding namespace_ok_def namespace_wf_def by blast

fun operation_ok :: "(byte list \<Rightarrow> digest) \<Rightarrow> store_operation \<Rightarrow> bool" where
  "operation_ok sha (Check ns key e) = namespace_ok ns"
| "operation_ok sha (Put ns key e v) = (namespace_ok ns \<and> v = store_value_new sha (sv_value v))"
| "operation_ok sha (Delete ns key d) = namespace_ok ns"
| "operation_ok sha (ForgetReceipt t d) = is_ascii t"

text \<open>Transactions as core constructs them: checked ids and namespaces, values with their own
  digests, 32-byte digests, and pairwise distinct identities.\<close>

definition transaction_ok :: "(byte list \<Rightarrow> digest) \<Rightarrow> store_transaction \<Rightarrow> bool" where
  "transaction_ok sha tx =
     (is_ascii (st_id tx) \<and> length (st_operation_digest tx) = 32 \<and>
      list_all (operation_ok sha) (st_operations tx) \<and>
      distinct (map operation_identity_of (st_operations tx)))"

fun abs_expectation :: "(byte list \<Rightarrow> digest) \<Rightarrow> byte list option \<Rightarrow> store_expectation \<Rightarrow> bool" where
  "abs_expectation sha None Absent = True"
| "abs_expectation sha (Some v) (Exact d) = (digest_store_value sha v = d)"
| "abs_expectation sha _ _ = False"

fun abs_condition :: "(byte list \<Rightarrow> digest) \<Rightarrow> abs_store \<Rightarrow> store_operation \<Rightarrow> bool" where
  "abs_condition sha st (Check ns key e) = abs_expectation sha (as_entries st (ns, key)) e"
| "abs_condition sha st (Put ns key e v) = abs_expectation sha (as_entries st (ns, key)) e"
| "abs_condition sha st (Delete ns key d) = abs_expectation sha (as_entries st (ns, key)) (Exact d)"
| "abs_condition sha st (ForgetReceipt t d) =
     (case as_receipts st t of None \<Rightarrow> False | Some r \<Rightarrow> cr_operation_digest r = d)"

fun abs_apply :: "store_operation \<Rightarrow> abs_store \<Rightarrow> abs_store" where
  "abs_apply (Check ns key e) st = st"
| "abs_apply (Put ns key e v) st = st\<lparr>as_entries := (as_entries st)((ns, key) := Some (sv_value v))\<rparr>"
| "abs_apply (Delete ns key d) st = st\<lparr>as_entries := (as_entries st)((ns, key) := None)\<rparr>"
| "abs_apply (ForgetReceipt t d) st = st\<lparr>as_receipts := (as_receipts st)(t := None)\<rparr>"

definition abs_receipt :: "abs_store \<Rightarrow> store_transaction \<Rightarrow> commit_receipt" where
  "abs_receipt st tx = \<lparr>cr_transaction = st_id tx, cr_operation_digest = st_operation_digest tx,
     cr_committed_revision = to_be_bytes_u64 (as_generation st + 1)\<rparr>"

definition abs_admissible :: "(byte list \<Rightarrow> digest) \<Rightarrow> abs_store \<Rightarrow> store_transaction \<Rightarrow> bool" where
  "abs_admissible sha st tx =
     (st_operation_digest tx = computed_operation_digest sha tx \<and>
      st_base_revision tx = to_be_bytes_u64 (as_generation st) \<and>
      list_all (abs_condition sha st) (st_operations tx))"

definition abs_commit :: "abs_store \<Rightarrow> store_transaction \<Rightarrow> abs_store" where
  "abs_commit st tx =
     (let st1 = fold abs_apply (st_operations tx) st
      in st1\<lparr>as_generation := as_generation st + 1,
             as_receipts := (as_receipts st1)(st_id tx := Some (abs_receipt st tx))\<rparr>)"

text \<open>
  What one commit call may do. A known transaction id is answered from its receipt without
  effect; an inadmissible transaction conflicts without effect; an admissible one either is
  applied whole, with a receipt or an indeterminate answer, or fails without effect.
\<close>

definition commit_spec ::
  "(byte list \<Rightarrow> digest) \<Rightarrow> abs_store \<Rightarrow> store_transaction \<Rightarrow> abs_store \<Rightarrow> commit_outcome result \<Rightarrow> bool" where
  "commit_spec sha st tx st' r =
     ((\<exists>e. r = Err e \<and> st' = st) \<or>
      (case as_receipts st (st_id tx) of
         Some old \<Rightarrow> st' = st \<and>
           r = Ok (if cr_operation_digest old = st_operation_digest tx then Committed old else ConflictOutcome)
       | None \<Rightarrow>
           if \<not> abs_admissible sha st tx then st' = st \<and> r = Ok ConflictOutcome
           else as_generation st \<noteq> - 1 \<and> st' = abs_commit st tx \<and>
             (r = Ok (Committed (abs_receipt st tx)) \<or>
              r = Ok (UnknownOutcome (st_id tx) (st_operation_digest tx)) \<or>
              (\<exists>c. r = Err (Error CommitUnknown c)))))"

text \<open>
  The weaker contract both adapters keep: a commit is a step of the abstract store, but the
  answer to an applied transaction may be any error. An adapter whose engine can fail after
  its write became durable keeps only this.
\<close>

definition atomic_step ::
  "(byte list \<Rightarrow> digest) \<Rightarrow> abs_store \<Rightarrow> store_transaction \<Rightarrow> abs_store \<Rightarrow> commit_outcome result \<Rightarrow> bool" where
  "atomic_step sha st tx st' r =
     (commit_spec sha st tx st' r \<or>
      (\<exists>e. r = Err e) \<and> as_receipts st (st_id tx) = None \<and> abs_admissible sha st tx \<and>
      as_generation st \<noteq> - 1 \<and> st' = abs_commit st tx)"

text \<open>An error of a commit that is always without effect.\<close>

definition clean_failure ::
  "(byte list \<Rightarrow> digest) \<Rightarrow> ('s \<Rightarrow> bool) \<Rightarrow> ('s \<Rightarrow> abs_store) \<Rightarrow>
   ('s \<Rightarrow> store_transaction \<Rightarrow> 's \<times> commit_outcome result) \<Rightarrow> error \<Rightarrow> bool" where
  "clean_failure sha ok absf commit e \<longleftrightarrow>
     (\<forall>s tx s'. ok s \<longrightarrow> transaction_ok sha tx \<longrightarrow> commit s tx = (s', Err e) \<longrightarrow> absf s' = absf s)"

definition reconcile_spec :: "abs_store \<Rightarrow> transaction_id \<Rightarrow> digest \<Rightarrow> reconcile_outcome" where
  "reconcile_spec st t d =
     (case as_receipts st t of
        None \<Rightarrow> ReconcileAborted
      | Some r \<Rightarrow> if cr_operation_digest r = d then ReconcileCommitted r else DigestConflict)"

lemma abs_apply_frame [simp]: "as_generation (fold abs_apply ops st) = as_generation st"
proof (induction ops arbitrary: st)
  case (Cons op ops)
  then show ?case by (cases op) simp_all
qed simp

lemma abs_commit_simps [simp]:
  "as_generation (abs_commit st tx) = as_generation st + 1"
  "as_receipts (abs_commit st tx) (st_id tx) = Some (abs_receipt st tx)"
  by (simp_all add: abs_commit_def Let_def)

lemma abs_receipt_simps [simp]:
  "cr_transaction (abs_receipt st tx) = st_id tx"
  "cr_operation_digest (abs_receipt st tx) = st_operation_digest tx"
  by (simp_all add: abs_receipt_def)

text \<open>Entries after a batch of distinct operations: each touched key has its operation's value.\<close>

fun op_effect :: "store_operation \<Rightarrow> (store_namespace \<times> store_key \<times> byte list option) option" where
  "op_effect (Put ns key e v) = Some (ns, key, Some (sv_value v))"
| "op_effect (Delete ns key d) = Some (ns, key, None)"
| "op_effect _ = None"

lemma abs_apply_untouched:
  "KeyId ns key \<notin> set (map operation_identity_of ops) \<Longrightarrow>
   as_entries (fold abs_apply ops st) (ns, key) = as_entries st (ns, key)"
proof (induction ops arbitrary: st)
  case (Cons op ops)
  then show ?case by (cases op) auto
qed simp

lemma abs_apply_touched:
  "distinct (map operation_identity_of ops) \<Longrightarrow> op \<in> set ops \<Longrightarrow> op_effect op = Some (ns, key, v) \<Longrightarrow>
   as_entries (fold abs_apply ops st) (ns, key) = v"
proof (induction ops arbitrary: st)
  case (Cons x ops)
  show ?case
  proof (cases "x = op")
    case True
    then have "operation_identity_of x = KeyId ns key" using Cons.prems(3) by (cases op) auto
    then have "KeyId ns key \<notin> set (map operation_identity_of ops)" using Cons.prems(1) by simp
    then show ?thesis using abs_apply_untouched [of ns key ops "abs_apply x st"] True Cons.prems(3)
      by (cases op) auto
  next
    case False
    then show ?thesis using Cons by simp
  qed
qed simp

text \<open>Resubmitting one transaction, with the environment of each attempt.\<close>

fun retry ::
  "('io \<Rightarrow> 's \<Rightarrow> store_transaction \<Rightarrow> 's \<times> 'r) \<Rightarrow> 'io list \<Rightarrow> 's \<Rightarrow> store_transaction \<Rightarrow> 's" where
  "retry commit [] s tx = s"
| "retry commit (io # ios) s tx = retry commit ios (fst (commit io s tx)) tx"

section \<open>The backend interface\<close>

locale store_backend =
  fixes sha :: "byte list \<Rightarrow> digest"
    and inv :: "'s \<Rightarrow> bool"
    and abs :: "'s \<Rightarrow> abs_store"
    and commit :: "'io \<Rightarrow> 's \<Rightarrow> store_transaction \<Rightarrow> 's \<times> commit_outcome result"
    and reconcile :: "'s \<Rightarrow> transaction_id \<Rightarrow> digest \<Rightarrow> reconcile_outcome result"
  assumes commit_inv: "inv s \<Longrightarrow> transaction_ok sha tx \<Longrightarrow> commit io s tx = (s', r) \<Longrightarrow> inv s'"
    and commit_refines: "inv s \<Longrightarrow> transaction_ok sha tx \<Longrightarrow> commit io s tx = (s', r) \<Longrightarrow>
      atomic_step sha (abs s) tx (abs s') r"
    and reconcile_refines: "inv s \<Longrightarrow> is_ascii t \<Longrightarrow> reconcile s t d = Ok (reconcile_spec (abs s) t d)"
    and receipt_identity: "inv s \<Longrightarrow> as_receipts (abs s) t = Some old \<Longrightarrow> cr_transaction old = t"
begin

lemma commit_effect:
  assumes "inv s" "transaction_ok sha tx" "commit io s tx = (s', r)"
  shows "abs s' = abs s \<or>
    as_receipts (abs s) (st_id tx) = None \<and> abs_admissible sha (abs s) tx \<and> abs s' = abs_commit (abs s) tx"
  using commit_refines [OF assms] by (auto simp: atomic_step_def commit_spec_def split: option.splits if_split_asm)

text \<open>An answer of the provider is definite about the store, unless it is indeterminate or an
  error.\<close>

lemma commit_answer_ok:
  assumes "inv s" "transaction_ok sha tx" "commit io s tx = (s', Ok a)"
  shows "commit_spec sha (abs s) tx (abs s') (Ok a)"
  using commit_refines [OF assms] by (simp add: atomic_step_def)

text \<open>Reconciliation decides an indeterminate commit: it reports the receipt exactly when
  the transaction took effect.\<close>

lemma reconcile_decides:
  assumes "inv s" "transaction_ok sha tx" "commit io s tx = (s', r)" "as_receipts (abs s) (st_id tx) = None"
  shows "reconcile s' (st_id tx) (st_operation_digest tx) =
      Ok (ReconcileCommitted (abs_receipt (abs s) tx)) \<and> abs s' = abs_commit (abs s) tx \<or>
    reconcile s' (st_id tx) (st_operation_digest tx) = Ok ReconcileAborted \<and> abs s' = abs s"
proof -
  have "is_ascii (st_id tx)" using assms(2) by (simp add: transaction_ok_def)
  from reconcile_refines [OF commit_inv [OF assms(1-3)] this]
  show ?thesis using commit_effect [OF assms(1-3)] assms(4)
    by (auto simp: reconcile_spec_def)
qed

lemma retry_inv: "inv s \<Longrightarrow> transaction_ok sha tx \<Longrightarrow> inv (retry commit ios s tx)"
proof (induction ios arbitrary: s)
  case (Cons io ios)
  obtain s' r where "commit io s tx = (s', r)" by force
  with Cons show ?case using commit_inv by simp
qed simp

text \<open>Resubmitting one transaction any number of times applies it at most once.\<close>

lemma retry_at_most_once:
  "inv s \<Longrightarrow> transaction_ok sha tx \<Longrightarrow>
   abs (retry commit ios s tx) = abs s \<or>
   as_receipts (abs s) (st_id tx) = None \<and> abs (retry commit ios s tx) = abs_commit (abs s) tx"
proof (induction ios arbitrary: s)
  case (Cons io ios)
  obtain s' r where c: "commit io s tx = (s', r)" by force
  note IH = Cons.IH [OF commit_inv [OF Cons.prems c] Cons.prems(2)]
  from commit_effect [OF Cons.prems c] show ?case using IH c by auto
qed simp

text \<open>Two transactions on one base revision: after the first took effect the second is
  refused without effect.\<close>

lemma stale_base_conflicts:
  assumes "inv s" "transaction_ok sha tx" "transaction_ok sha tx'"
    and "commit io s tx = (s', r)" "abs s' = abs_commit (abs s) tx" "abs s' \<noteq> abs s"
    and "st_base_revision tx' = st_base_revision tx" "as_receipts (abs s') (st_id tx') = None"
    and "commit io' s' tx' = (s'', r')"
  shows "abs s'' = abs s' \<and> (\<exists>e. r' = Err e) \<or> abs s'' = abs s' \<and> r' = Ok ConflictOutcome"
proof -
  have "abs_admissible sha (abs s) tx" using commit_effect [OF assms(1,2,4)] assms(5,6) by auto
  then have base: "st_base_revision tx' = to_be_bytes_u64 (as_generation (abs s))"
    using assms(7) by (simp add: abs_admissible_def)
  have "as_generation (abs s') \<noteq> as_generation (abs s)" using assms(5) by simp
  then have "\<not> abs_admissible sha (abs s') tx'"
    using base by (metis abs_admissible_def from_to_be_u64)
  then show ?thesis
    using commit_refines [OF commit_inv [OF assms(1,2,4)] assms(3,9)] assms(8)
    by (auto simp: atomic_step_def commit_spec_def)
qed

end

text \<open>A backend that keeps the whole contract: of its errors only an indeterminate one may
  answer an applied transaction.\<close>

locale definite_backend = store_backend +
  assumes commit_definite: "inv s \<Longrightarrow> transaction_ok sha tx \<Longrightarrow> commit io s tx = (s', r) \<Longrightarrow>
    commit_spec sha (abs s) tx (abs s') r"
begin

lemma definite_failure: "err_kind e \<noteq> CommitUnknown \<Longrightarrow> clean_failure sha inv abs (commit io) e"
  unfolding clean_failure_def
  using commit_definite by (fastforce simp: commit_spec_def split: option.splits if_split_asm)

end

section \<open>A sample transaction\<close>

definition sample_ns :: store_namespace where
  "sample_ns = make_tag (lit ''e.org'') (lit ''labels'') (lit ''n'')"

definition sample_sha :: "byte list \<Rightarrow> digest" where
  "sample_sha bs = replicate 32 0"

definition sample_ops :: "store_operation list" where
  "sample_ops = [Put sample_ns [1] Absent (store_value_new sample_sha [7])]"

definition sample_tx :: store_transaction where
  "sample_tx = \<lparr>st_id = lit ''txn_1'',
     st_operation_digest = digest_store_operations sample_sha (to_be_bytes_u64 0) sample_ops,
     st_base_revision = to_be_bytes_u64 0, st_operations = sample_ops\<rparr>"

lemma sample_ns_ok: "namespace_ok sample_ns"
  unfolding sample_ns_def by (rule namespace_ok_make_tag) (simp_all add: LENGTH_BOUND_def)

lemma sample_tx_ok: "transaction_ok sample_sha sample_tx"
  by (simp add: sample_tx_def sample_ops_def transaction_ok_def sample_ns_ok store_value_new_def
      digest_store_operations_def sample_sha_def)

end
