(* ===== verification/Redb_Store.thy ===== *)
theory Redb_Store
  imports Store_Contract
begin

text \<open>
  The production adapter over the redb engine (\<^verbatim>\<open>src/src/storage/redb/store.rs\<close>): one
  entries table keyed by namespace text, a NUL byte and the key, one receipts table keyed by
  transaction text, and the generation counter in a meta table. A table is an ordered byte
  map. The engine's own faults are the argument \<open>io\<close>, one per phase of a commit. A write
  transaction that is dropped before its commit is discarded (documented of redb), so a fault of
  an earlier phase leaves the tables unchanged. What an error of the engine's own commit leaves
  is not documented: the write may have become durable or not, and \<open>io\<close> says which. The adapter
  implements the contract \<open>store_backend\<close> of \<open>Store_Contract\<close>.
\<close>

section \<open>Definitions\<close>

definition REVISION_META_KEY :: "byte list" where "REVISION_META_KEY = as_bytes (lit ''revision'')"
definition RECEIPT_VALUE_BYTES :: nat where "RECEIPT_VALUE_BYTES = 40"

type_synonym byte_table = "(byte list, byte list) btree"

record redb_database =
  rd_meta :: byte_table
  rd_entries :: byte_table
  rd_receipts :: byte_table

text \<open>The engine's error types, with their catch-all variants, and their mapping to errors of the
  provider. An I/O error carries whether its kind is a denied permission.\<close>

datatype storage_error = Corrupted | ValueTooLarge | IoError bool | PreviousIo | StorageOther
datatype transaction_error = TransactionStorage storage_error | TransactionOther
datatype durability_error = PersistentSavepointModified | DurabilityOther
datatype table_error =
    TableDoesNotExist | TableTypeMismatch | TypeDefinitionChanged | TableStorage storage_error
  | TableIsMultimap | TableIsNotMultimap | TableExists | TableOther
datatype commit_error = CommitStorage storage_error | CommitOther

fun map_storage_error :: "storage_error \<Rightarrow> provider_error_context \<Rightarrow> error" where
  "map_storage_error Corrupted ctx = provider_error P_StorageCorrupt ctx"
| "map_storage_error ValueTooLarge ctx = provider_error P_ResourceExhausted ctx"
| "map_storage_error (IoError denied) ctx = provider_error (if denied then P_PermissionDenied else P_Io) ctx"
| "map_storage_error PreviousIo ctx = provider_error P_Io ctx"
| "map_storage_error StorageOther ctx = provider_error P_Internal ctx"

fun map_transaction_error :: "transaction_error \<Rightarrow> provider_error_context \<Rightarrow> error" where
  "map_transaction_error (TransactionStorage e) ctx = map_storage_error e ctx"
| "map_transaction_error TransactionOther ctx = provider_error P_Internal ctx"

fun map_durability_error :: "durability_error \<Rightarrow> provider_error_context \<Rightarrow> error" where
  "map_durability_error PersistentSavepointModified ctx = provider_error P_StorageCorrupt ctx"
| "map_durability_error DurabilityOther ctx = provider_error P_Io ctx"

fun map_table_error :: "table_error \<Rightarrow> provider_error_context \<Rightarrow> error" where
  "map_table_error (TableStorage e) ctx = map_storage_error e ctx"
| "map_table_error e ctx =
     provider_error (if e \<in> {TableDoesNotExist, TableTypeMismatch, TypeDefinitionChanged}
       then P_StorageCorrupt else P_Io) ctx"

fun map_commit_error :: "commit_error \<Rightarrow> provider_error_context \<Rightarrow> error" where
  "map_commit_error (CommitStorage e) ctx = map_storage_error e ctx"
| "map_commit_error CommitOther ctx = provider_error P_Io ctx"

text \<open>The faults of one commit: at its begin, its durability setting, the opening of a table,
  a receipt read, any other read, a write, and the engine's own commit, with whether the write
  became durable all the same.\<close>

record redb_io =
  rio_begin :: "transaction_error option"
  rio_durability :: "durability_error option"
  rio_open :: "table_error option"
  rio_receipt :: "storage_error option"
  rio_read :: "storage_error option"
  rio_write :: "storage_error option"
  rio_commit :: "(commit_error \<times> bool) option"

definition composite_key :: "store_namespace \<Rightarrow> store_key \<Rightarrow> byte list" where
  "composite_key ns key = as_bytes (tag_value ns) @ 0 # key"

definition composite_prefix :: "store_namespace \<Rightarrow> byte list \<Rightarrow> byte list" where
  "composite_prefix ns pre = as_bytes (tag_value ns) @ 0 # pre"

definition owned_value :: "(byte list \<Rightarrow> digest) \<Rightarrow> byte list \<Rightarrow> store_value" where
  "owned_value sha bytes = store_value_new sha bytes"

definition decode_revision :: "byte list \<Rightarrow> u64 result" where
  "decode_revision bytes =
     (if length bytes = 8 then Ok (from_be_bytes bytes) else Err (invalid_input ''redb store revision''))"

definition current_generation :: "byte_table \<Rightarrow> u64 result" where
  "current_generation meta =
     (case bt_get meta REVISION_META_KEY of Some bytes \<Rightarrow> decode_revision bytes | None \<Rightarrow> Ok 0)"

definition encode_receipt :: "digest \<Rightarrow> u64 \<Rightarrow> byte list" where
  "encode_receipt d generation = d @ to_be_bytes_u64 generation"

definition read_receipt :: "byte_table \<Rightarrow> transaction_id \<Rightarrow> commit_receipt option result" where
  "read_receipt receipts t =
     (case bt_get receipts (as_bytes t) of
        None \<Rightarrow> Ok None
      | Some bytes \<Rightarrow>
          if length bytes \<noteq> RECEIPT_VALUE_BYTES then Err (provider_error P_StorageCorrupt StorageReconcile)
          else and_then (decode_revision (drop 32 bytes)) (\<lambda>generation.
            Ok (Some \<lparr>cr_transaction = t, cr_operation_digest = take 32 bytes,
                      cr_committed_revision = to_be_bytes_u64 generation\<rparr>)))"

definition redb_initialize :: "redb_database \<Rightarrow> redb_database" where
  "redb_initialize db =
     (if bt_get (rd_meta db) REVISION_META_KEY = None
      then db\<lparr>rd_meta := bt_insert REVISION_META_KEY (to_be_bytes_u64 0) (rd_meta db)\<rparr> else db)"

fun expectation_matches_table ::
  "(byte list \<Rightarrow> digest) \<Rightarrow> byte_table \<Rightarrow> store_namespace \<Rightarrow> store_key \<Rightarrow> store_expectation \<Rightarrow> bool" where
  "expectation_matches_table sha entries ns key Absent = (bt_get entries (composite_key ns key) = None)"
| "expectation_matches_table sha entries ns key (Exact d) =
     (case bt_get entries (composite_key ns key) of
        None \<Rightarrow> False | Some bytes \<Rightarrow> sv_digest (owned_value sha bytes) = d)"

fun redb_condition :: "(byte list \<Rightarrow> digest) \<Rightarrow> byte_table \<Rightarrow> byte_table \<Rightarrow> store_operation \<Rightarrow> bool result" where
  "redb_condition sha entries receipts (Check ns key e) = Ok (expectation_matches_table sha entries ns key e)"
| "redb_condition sha entries receipts (Put ns key e v) = Ok (expectation_matches_table sha entries ns key e)"
| "redb_condition sha entries receipts (Delete ns key d) =
     Ok (case bt_get entries (composite_key ns key) of
           None \<Rightarrow> False | Some bytes \<Rightarrow> sv_digest (owned_value sha bytes) = d)"
| "redb_condition sha entries receipts (ForgetReceipt t d) =
     and_then (read_receipt receipts t) (\<lambda>found.
       Ok (case found of None \<Rightarrow> False | Some r \<Rightarrow> cr_operation_digest r = d))"

text \<open>The condition loop: the first mismatch is a conflict.\<close>

fun redb_conditions ::
  "(byte list \<Rightarrow> digest) \<Rightarrow> byte_table \<Rightarrow> byte_table \<Rightarrow> store_operation list \<Rightarrow> bool result" where
  "redb_conditions sha entries receipts [] = Ok True"
| "redb_conditions sha entries receipts (op # ops) =
     and_then (redb_condition sha entries receipts op) (\<lambda>matches.
       if \<not> matches then Ok False else redb_conditions sha entries receipts ops)"

fun redb_apply :: "store_operation list \<Rightarrow> byte_table \<Rightarrow> byte_table \<Rightarrow> byte_table \<times> byte_table" where
  "redb_apply [] entries receipts = (entries, receipts)"
| "redb_apply (Check ns key e # ops) entries receipts = redb_apply ops entries receipts"
| "redb_apply (Put ns key e v # ops) entries receipts =
     redb_apply ops (bt_insert (composite_key ns key) (sv_value v) entries) receipts"
| "redb_apply (Delete ns key d # ops) entries receipts =
     redb_apply ops (bt_remove (composite_key ns key) entries) receipts"
| "redb_apply (ForgetReceipt t d # ops) entries receipts =
     redb_apply ops entries (bt_remove (as_bytes t) receipts)"

text \<open>An engine fault of a phase before the commit ends the call with its mapped error; the
  dropped write transaction is discarded.\<close>

definition faulted :: "error option \<Rightarrow> redb_database \<Rightarrow> redb_database \<times> commit_outcome result \<Rightarrow>
  redb_database \<times> commit_outcome result" where
  "faulted fault db continue = (case fault of Some e \<Rightarrow> (db, Err e) | None \<Rightarrow> continue)"

definition redb_commit ::
  "(byte list \<Rightarrow> digest) \<Rightarrow> redb_io \<Rightarrow> redb_database \<Rightarrow> store_transaction \<Rightarrow>
   redb_database \<times> commit_outcome result" where
  "redb_commit sha io db tx =
     faulted (map_option (\<lambda>e. map_transaction_error e StorageCommit) (rio_begin io)) db
     (faulted (map_option (\<lambda>e. map_durability_error e StorageCommit) (rio_durability io)) db
     (faulted (map_option (\<lambda>e. map_table_error e StorageCommit) (rio_open io)) db
     (faulted (map_option (\<lambda>e. map_storage_error e StorageReconcile) (rio_receipt io)) db
     (faulted (map_option (\<lambda>e. map_storage_error e StorageCommit) (rio_read io)) db
     (case read_receipt (rd_receipts db) (st_id tx) of
        Inl e \<Rightarrow> (db, Err e)
      | Inr (Some existing) \<Rightarrow>
          (db, Ok (if cr_operation_digest existing = st_operation_digest tx then Committed existing
                   else ConflictOutcome))
      | Inr None \<Rightarrow>
        if st_operation_digest tx \<noteq> computed_operation_digest sha tx then (db, Ok ConflictOutcome)
        else case current_generation (rd_meta db) of
          Inl e \<Rightarrow> (db, Err e)
        | Inr generation \<Rightarrow>
          if st_base_revision tx \<noteq> to_be_bytes_u64 generation then (db, Ok ConflictOutcome)
          else case redb_conditions sha (rd_entries db) (rd_receipts db) (st_operations tx) of
            Inl e \<Rightarrow> (db, Err e)
          | Inr False \<Rightarrow> (db, Ok ConflictOutcome)
          | Inr True \<Rightarrow>
            (case checked_add generation 1 of
               None \<Rightarrow> (db, Err (provider_error P_ResourceExhausted StorageCommit))
             | Some next_generation \<Rightarrow>
                 faulted (map_option (\<lambda>e. map_storage_error e StorageCommit) (rio_write io)) db
                 (let (entries, receipts) = redb_apply (st_operations tx) (rd_entries db) (rd_receipts db);
                      meta = bt_insert REVISION_META_KEY (to_be_bytes_u64 next_generation) (rd_meta db);
                      receipt = \<lparr>cr_transaction = st_id tx, cr_operation_digest = st_operation_digest tx,
                                 cr_committed_revision = to_be_bytes_u64 next_generation\<rparr>;
                      receipts' = bt_insert (as_bytes (st_id tx))
                                    (encode_receipt (st_operation_digest tx) next_generation) receipts;
                      written = \<lparr>rd_meta = meta, rd_entries = entries, rd_receipts = receipts'\<rparr>
                  in case rio_commit io of
                       Some (e, durable) \<Rightarrow> (if durable then written else db, Err (map_commit_error e StorageCommit))
                     | None \<Rightarrow> (written, Ok (Committed receipt)))))))))"

definition redb_reconcile :: "redb_database \<Rightarrow> transaction_id \<Rightarrow> digest \<Rightarrow> reconcile_outcome result" where
  "redb_reconcile db t d =
     and_then (read_receipt (rd_receipts db) t) (\<lambda>receipt.
       Ok (case receipt of
             Some existing \<Rightarrow> if cr_operation_digest existing = d then ReconcileCommitted existing else DigestConflict
           | None \<Rightarrow> ReconcileAborted))"

definition redb_snapshot_revision :: "redb_database \<Rightarrow> store_revision result" where
  "redb_snapshot_revision db =
     and_then (current_generation (rd_meta db)) (\<lambda>generation. store_revision_new (to_be_bytes_u64 generation))"

definition redb_snapshot_get ::
  "(byte list \<Rightarrow> digest) \<Rightarrow> redb_database \<Rightarrow> store_namespace \<Rightarrow> store_key \<Rightarrow> store_value option" where
  "redb_snapshot_get sha db ns key = map_option (owned_value sha) (bt_get (rd_entries db) (composite_key ns key))"

text \<open>A scan reads the engine's range from the composite bound and ends at the first key
  outside the prefix.\<close>

definition redb_scan ::
  "(byte list \<Rightarrow> digest) \<Rightarrow> redb_database \<Rightarrow> store_namespace \<Rightarrow> byte list \<Rightarrow> (store_key \<times> store_value) list" where
  "redb_scan sha db ns pre =
     (let bound = composite_prefix ns pre;
          base_len = str_len (tag_value ns) + 1
      in map (\<lambda>(k, v). (drop base_len k, owned_value sha v))
           (takeWhile (\<lambda>(k, _). prefix bound k) (filter (\<lambda>(k, _). \<not> k < bound) (rd_entries db))))"

definition redb_capabilities :: store_capabilities where
  "redb_capabilities = (capabilities_new OsCrashDurable)
     \<lparr>cp_conditional_batch := True, cp_ordered_scan := True, cp_reconciliation := True,
      cp_exclusive_lifetime_lock := True\<rparr>"

section \<open>The adapter meets the store contract\<close>

lemma composite_key_inj:
  assumes "namespace_ok ns" "namespace_ok ns'"
  shows "composite_key ns key = composite_key ns' key' \<longleftrightarrow> ns = ns' \<and> key = key'"
proof
  have nz: "0 \<notin> set (as_bytes (tag_value n))" if "namespace_ok n" for n
  proof -
    have asc: "is_ascii (tag_value n)" and z: "0 \<notin> set (tag_value n)"
      using that by (simp_all add: namespace_ok_def namespace_wf_def)
    have "(word_of_nat c :: byte) \<noteq> 0" if "c \<in> set (tag_value n)" for c
    proof -
      have "c < 128" using asc that by (simp add: is_ascii_def list_all_iff)
      moreover have "c \<noteq> 0" using z that by metis
      ultimately have "unat (word_of_nat c :: byte) \<noteq> 0" by (simp add: unat_of_nat)
      then show ?thesis by auto
    qed
    then show ?thesis by (auto simp: as_bytes_ascii [OF asc])
  qed
  have split: "xs @ 0 # r = ys @ 0 # q \<Longrightarrow> 0 \<notin> set xs \<Longrightarrow> 0 \<notin> set ys \<Longrightarrow> xs = ys \<and> r = q"
    for xs ys r q :: "byte list"
    by (induction xs ys rule: list_induct2') auto
  assume "composite_key ns key = composite_key ns' key'"
  from split [OF this [unfolded composite_key_def] nz [OF assms(1)] nz [OF assms(2)]]
  have "as_bytes (tag_value ns) = as_bytes (tag_value ns')" "key = key'" by simp_all
  moreover from this(1) have "tag_value ns = tag_value ns'"
    using assms by (intro as_bytes_inj) (simp_all add: namespace_ok_def namespace_wf_def)
  ultimately show "ns = ns' \<and> key = key'"
    using assms tag_value_inj by (auto simp: namespace_ok_def)
qed simp

definition redb_tables_abs :: "u64 \<Rightarrow> byte_table \<Rightarrow> byte_table \<Rightarrow> abs_store" where
  "redb_tables_abs g entries receipts = \<lparr>as_generation = g,
     as_entries = (\<lambda>(ns, key). if namespace_ok ns then bt_get entries (composite_key ns key) else None),
     as_receipts = (\<lambda>t. if is_ascii t then (case read_receipt receipts t of Inr r \<Rightarrow> r | Inl _ \<Rightarrow> None) else None)\<rparr>"

definition redb_abs :: "redb_database \<Rightarrow> abs_store" where
  "redb_abs db = redb_tables_abs (case current_generation (rd_meta db) of Inr g \<Rightarrow> g | Inl _ \<Rightarrow> 0)
     (rd_entries db) (rd_receipts db)"

definition receipts_ok :: "byte_table \<Rightarrow> bool" where
  "receipts_ok receipts = (bt_ok receipts \<and> (\<forall>k v. bt_get receipts k = Some v \<longrightarrow> length v = 40))"

definition redb_inv :: "redb_database \<Rightarrow> bool" where
  "redb_inv db = (bt_ok (rd_meta db) \<and> bt_ok (rd_entries db) \<and> receipts_ok (rd_receipts db) \<and>
     (\<forall>bytes. bt_get (rd_meta db) REVISION_META_KEY = Some bytes \<longrightarrow> length bytes = 8))"

lemma current_generation_ok: "redb_inv db \<Longrightarrow> \<exists>g. current_generation (rd_meta db) = Ok g"
  by (auto simp: redb_inv_def current_generation_def decode_revision_def split: option.split)

lemma read_receipt_ok:
  "receipts_ok receipts \<Longrightarrow> read_receipt receipts t =
     Ok (map_option (\<lambda>bytes. \<lparr>cr_transaction = t, cr_operation_digest = take 32 bytes,
       cr_committed_revision = drop 32 bytes\<rparr>) (bt_get receipts (as_bytes t)))"
  by (auto simp: read_receipt_def receipts_ok_def RECEIPT_VALUE_BYTES_def decode_revision_def
      to_from_be_u64 split: option.split)

lemma abs_expectation_table:
  assumes "namespace_ok ns"
  shows "abs_expectation sha (as_entries (redb_tables_abs g entries receipts) (ns, key)) e =
    expectation_matches_table sha entries ns key e"
  using assms by (cases e; cases "bt_get entries (composite_key ns key)")
    (simp_all add: redb_tables_abs_def owned_value_def store_value_new_def)

lemma redb_condition_ok:
  assumes "receipts_ok receipts" "operation_ok sha op"
  shows "redb_condition sha entries receipts op = Ok (abs_condition sha (redb_tables_abs g entries receipts) op)"
proof (cases op)
  case (Delete ns key d)
  then show ?thesis using assms abs_expectation_table [of ns sha g entries receipts key "Exact d"] by simp
next
  case (ForgetReceipt t d)
  then show ?thesis using assms by (simp add: read_receipt_ok redb_tables_abs_def)
qed (use assms abs_expectation_table in simp_all)

lemma redb_conditions_ok:
  "receipts_ok receipts \<Longrightarrow> list_all (operation_ok sha) ops \<Longrightarrow>
   redb_conditions sha entries receipts ops =
     Ok (list_all (abs_condition sha (redb_tables_abs g entries receipts)) ops)"
  by (induction ops) (auto simp: redb_condition_ok [where g = g])

lemma redb_tables_abs_entries:
  assumes "namespace_ok ns"
  shows "redb_tables_abs g (bt_insert (composite_key ns key) v entries) receipts =
      (redb_tables_abs g entries receipts)
        \<lparr>as_entries := (as_entries (redb_tables_abs g entries receipts))((ns, key) := Some v)\<rparr>"
    and "redb_tables_abs g (bt_remove (composite_key ns key) entries) receipts =
      (redb_tables_abs g entries receipts)
        \<lparr>as_entries := (as_entries (redb_tables_abs g entries receipts))((ns, key) := None)\<rparr>"
  using assms by (auto simp: redb_tables_abs_def fun_eq_iff bt_get_insert bt_get_remove composite_key_inj)

lemma as_bytes_eq: "is_ascii a \<Longrightarrow> is_ascii b \<Longrightarrow> as_bytes a = as_bytes b \<longleftrightarrow> a = b"
  using as_bytes_inj by blast

lemma receipts_ok_update:
  "receipts_ok receipts \<Longrightarrow> receipts_ok (bt_remove k receipts)"
  "receipts_ok receipts \<Longrightarrow> length v = 40 \<Longrightarrow> receipts_ok (bt_insert k v receipts)"
  unfolding receipts_ok_def by (auto simp: bt_remove_ok bt_insert_ok bt_get_remove bt_get_insert)

lemma redb_tables_abs_receipts:
  assumes "receipts_ok receipts" "is_ascii t"
  shows "redb_tables_abs g entries (bt_remove (as_bytes t) receipts) =
      (redb_tables_abs g entries receipts)
        \<lparr>as_receipts := (as_receipts (redb_tables_abs g entries receipts))(t := None)\<rparr>"
    and "length d = 32 \<Longrightarrow> redb_tables_abs g entries (bt_insert (as_bytes t) (encode_receipt d n) receipts) =
      (redb_tables_abs g entries receipts)
        \<lparr>as_receipts := (as_receipts (redb_tables_abs g entries receipts))
           (t := Some \<lparr>cr_transaction = t, cr_operation_digest = d, cr_committed_revision = to_be_bytes_u64 n\<rparr>)\<rparr>"
proof -
  show "redb_tables_abs g entries (bt_remove (as_bytes t) receipts) =
      (redb_tables_abs g entries receipts)
        \<lparr>as_receipts := (as_receipts (redb_tables_abs g entries receipts))(t := None)\<rparr>"
    using assms by (auto simp: redb_tables_abs_def fun_eq_iff read_receipt_ok receipts_ok_update
        bt_get_remove as_bytes_eq)
  assume d: "length d = 32"
  then have "receipts_ok (bt_insert (as_bytes t) (encode_receipt d n) receipts)"
    using assms by (simp add: receipts_ok_update encode_receipt_def)
  then show "redb_tables_abs g entries (bt_insert (as_bytes t) (encode_receipt d n) receipts) =
      (redb_tables_abs g entries receipts)
        \<lparr>as_receipts := (as_receipts (redb_tables_abs g entries receipts))
           (t := Some \<lparr>cr_transaction = t, cr_operation_digest = d, cr_committed_revision = to_be_bytes_u64 n\<rparr>)\<rparr>"
    using assms d by (auto simp: redb_tables_abs_def fun_eq_iff read_receipt_ok bt_get_insert as_bytes_eq
        encode_receipt_def)
qed

lemma redb_apply_abs:
  "redb_apply ops entries receipts = (entries', receipts') \<Longrightarrow> list_all (operation_ok sha) ops \<Longrightarrow>
   bt_ok entries \<Longrightarrow> receipts_ok receipts \<Longrightarrow>
   bt_ok entries' \<and> receipts_ok receipts' \<and>
   redb_tables_abs g entries' receipts' = fold abs_apply ops (redb_tables_abs g entries receipts)"
  by (induction ops entries receipts rule: redb_apply.induct)
    (simp_all add: redb_tables_abs_entries redb_tables_abs_receipts receipts_ok_update bt_insert_ok bt_remove_ok)

text \<open>The tables after an applied commit.\<close>

definition redb_applied :: "redb_database \<Rightarrow> store_transaction \<Rightarrow> u64 \<Rightarrow> redb_database" where
  "redb_applied db tx g =
     (let (entries, receipts) = redb_apply (st_operations tx) (rd_entries db) (rd_receipts db)
      in \<lparr>rd_meta = bt_insert REVISION_META_KEY (to_be_bytes_u64 (g + 1)) (rd_meta db), rd_entries = entries,
          rd_receipts = bt_insert (as_bytes (st_id tx)) (encode_receipt (st_operation_digest tx) (g + 1)) receipts\<rparr>)"

lemma redb_applied_abs:
  assumes inv: "redb_inv db" and ok: "transaction_ok sha tx"
    and g: "current_generation (rd_meta db) = Ok g"
  shows "redb_inv (redb_applied db tx g)" "redb_abs (redb_applied db tx g) = abs_commit (redb_abs db) tx"
proof -
  obtain entries receipts where a: "redb_apply (st_operations tx) (rd_entries db) (rd_receipts db) =
      (entries, receipts)" by force
  have asc: "is_ascii (st_id tx)" and dl: "length (st_operation_digest tx) = 32"
    using ok by (simp_all add: transaction_ok_def)
  have ap: "bt_ok entries" "receipts_ok receipts" "\<And>g. redb_tables_abs g entries receipts =
      fold abs_apply (st_operations tx) (redb_tables_abs g (rd_entries db) (rd_receipts db))"
    using redb_apply_abs [OF a] inv ok by (auto simp: redb_inv_def transaction_ok_def)
  let ?db' = "redb_applied db tx g"
  have db': "?db' = \<lparr>rd_meta = bt_insert REVISION_META_KEY (to_be_bytes_u64 (g + 1)) (rd_meta db),
      rd_entries = entries, rd_receipts = bt_insert (as_bytes (st_id tx))
        (encode_receipt (st_operation_digest tx) (g + 1)) receipts\<rparr>" by (simp add: redb_applied_def a)
  show "redb_inv ?db'" using inv ap dl
    by (simp add: db' redb_inv_def bt_insert_ok receipts_ok_update encode_receipt_def bt_get_insert)
  have cg: "current_generation (rd_meta ?db') = Ok (g + 1)"
    by (simp add: db' current_generation_def bt_get_insert decode_revision_def)
  have ab: "redb_abs db = redb_tables_abs g (rd_entries db) (rd_receipts db)" by (simp add: redb_abs_def g)
  have "redb_abs ?db' = redb_tables_abs (g + 1) entries (bt_insert (as_bytes (st_id tx))
      (encode_receipt (st_operation_digest tx) (g + 1)) receipts)"
    unfolding redb_abs_def cg by (simp add: db')
  also have "\<dots> = abs_commit (redb_abs db) tx"
    unfolding redb_tables_abs_receipts(2) [OF ap(2) asc dl] abs_commit_def Let_def ab ap(3) [of g, symmetric]
    by (simp add: redb_tables_abs_def abs_receipt_def)
  finally show "redb_abs ?db' = abs_commit (redb_abs db) tx" .
qed

text \<open>The commit on the abstract reading of its tables: a failure without effect, a failure of
  the engine's commit that left the whole batch, or the answer of the contract.\<close>

definition redb_answer ::
  "(byte list \<Rightarrow> digest) \<Rightarrow> redb_database \<Rightarrow> store_transaction \<Rightarrow> u64 \<Rightarrow> redb_database \<Rightarrow> commit_outcome result \<Rightarrow> bool" where
  "redb_answer sha db tx g db' r \<longleftrightarrow>
     (case as_receipts (redb_abs db) (st_id tx) of
        Some old \<Rightarrow> db' = db \<and> r = Ok (if cr_operation_digest old = st_operation_digest tx
          then Committed old else ConflictOutcome)
      | None \<Rightarrow> if abs_admissible sha (redb_abs db) tx
          then g \<noteq> - 1 \<and> db' = redb_applied db tx g \<and> r = Ok (Committed (abs_receipt (redb_abs db) tx))
          else db' = db \<and> r = Ok ConflictOutcome)"

definition redb_uncertain ::
  "(byte list \<Rightarrow> digest) \<Rightarrow> redb_io \<Rightarrow> redb_database \<Rightarrow> store_transaction \<Rightarrow> u64 \<Rightarrow> redb_database \<Rightarrow> commit_outcome result \<Rightarrow> bool" where
  "redb_uncertain sha io db tx g db' r \<longleftrightarrow>
     (\<exists>e. rio_commit io = Some (e, True) \<and> r = Err (map_commit_error e StorageCommit)) \<and>
     as_receipts (redb_abs db) (st_id tx) = None \<and> abs_admissible sha (redb_abs db) tx \<and>
     g \<noteq> - 1 \<and> db' = redb_applied db tx g"

lemma map_error_definite:
  "err_kind (map_storage_error e ctx) \<noteq> CommitUnknown" "err_kind (map_transaction_error te ctx) \<noteq> CommitUnknown"
  "err_kind (map_durability_error de ctx) \<noteq> CommitUnknown" "err_kind (map_table_error be ctx) \<noteq> CommitUnknown"
  "err_kind (map_commit_error ce ctx) \<noteq> CommitUnknown"
proof -
  show st: "err_kind (map_storage_error e ctx) \<noteq> CommitUnknown" for e by (cases e) (simp_all add: provider_error_def)
  show "err_kind (map_transaction_error te ctx) \<noteq> CommitUnknown" by (cases te) (simp_all add: st provider_error_def)
  show "err_kind (map_durability_error de ctx) \<noteq> CommitUnknown" by (cases de) (simp_all add: provider_error_def)
  show "err_kind (map_table_error be ctx) \<noteq> CommitUnknown" by (cases be) (simp_all add: st provider_error_def)
  show "err_kind (map_commit_error ce ctx) \<noteq> CommitUnknown" by (cases ce) (simp_all add: st provider_error_def)
qed

lemma redb_commit_cases:
  assumes inv: "redb_inv db" and ok: "transaction_ok sha tx" and g: "current_generation (rd_meta db) = Ok g"
    and c: "redb_commit sha io db tx = (db', r)"
  shows "db' = db \<and> (\<exists>e. r = Err e \<and> err_kind e \<noteq> CommitUnknown) \<or> redb_uncertain sha io db tx g db' r \<or>
    redb_answer sha db tx g db' r"
proof -
  have ab: "redb_abs db = redb_tables_abs g (rd_entries db) (rd_receipts db)" by (simp add: redb_abs_def g)
  have rok: "receipts_ok (rd_receipts db)" and asc: "is_ascii (st_id tx)"
    and ops: "list_all (operation_ok sha) (st_operations tx)"
    using inv ok by (simp_all add: redb_inv_def transaction_ok_def)
  have read: "read_receipt (rd_receipts db) (st_id tx) = Ok (as_receipts (redb_abs db) (st_id tx))"
    using asc by (simp add: ab redb_tables_abs_def read_receipt_ok [OF rok])
  have conds: "redb_conditions sha (rd_entries db) (rd_receipts db) (st_operations tx) =
      Ok (list_all (abs_condition sha (redb_abs db)) (st_operations tx))"
    unfolding ab by (rule redb_conditions_ok [OF rok ops])
  have gen: "as_generation (redb_abs db) = g" by (simp add: ab redb_tables_abs_def)
  show ?thesis
  proof (cases "rio_begin io = None \<and> rio_durability io = None \<and> rio_open io = None \<and> rio_receipt io = None \<and> rio_read io = None")
    case False
    with c show ?thesis by (auto simp: redb_commit_def faulted_def map_error_definite split: option.splits)
  next
    case nf: True
    show ?thesis
    proof (cases "checked_add g 1")
      case None
      with c nf read conds g show ?thesis
        by (auto simp: redb_commit_def faulted_def redb_answer_def abs_admissible_def gen provider_error_def
            split: if_split_asm option.splits)
    next
      case (Some n)
      then have n: "n = g + 1" "g \<noteq> - 1" using checked_add_one by blast+
      from Some c nf read conds g show ?thesis
        by (auto simp: redb_commit_def faulted_def abs_admissible_def abs_receipt_def gen n redb_applied_def
            redb_answer_def redb_uncertain_def map_error_definite Let_def
            split: if_split_asm option.split_asm option.split prod.splits)
    qed
  qed
qed

text \<open>The same over the abstract store.\<close>

lemma redb_commit_refines:
  assumes inv: "redb_inv db" and ok: "transaction_ok sha tx" and c: "redb_commit sha io db tx = (db', r)"
  shows "redb_inv db'"
    and "commit_spec sha (redb_abs db) tx (redb_abs db') r \<or>
      (\<exists>e. rio_commit io = Some (e, True) \<and> r = Err (map_commit_error e StorageCommit)) \<and>
      as_receipts (redb_abs db) (st_id tx) = None \<and> abs_admissible sha (redb_abs db) tx \<and>
      as_generation (redb_abs db) \<noteq> - 1 \<and> redb_abs db' = abs_commit (redb_abs db) tx"
    and "r = Err e \<Longrightarrow> err_kind e \<noteq> CommitUnknown"
    and "r \<noteq> Ok (UnknownOutcome t d)"
proof -
  obtain g where g: "current_generation (rd_meta db) = Ok g" using current_generation_ok [OF inv] by blast
  have gen: "as_generation (redb_abs db) = g" by (simp add: redb_abs_def g redb_tables_abs_def)
  note ap = redb_applied_abs [OF inv ok g]
  consider (err) e' where "db' = db" "r = Err e'" "err_kind e' \<noteq> CommitUnknown"
    | (unc) "redb_uncertain sha io db tx g db' r" | (ans) "redb_answer sha db tx g db' r"
    using redb_commit_cases [OF inv ok g c] by blast
  note cs = this
  show "redb_inv db'"
    using cs inv ap by cases (auto simp: redb_uncertain_def redb_answer_def split: option.split_asm if_split_asm)
  show "commit_spec sha (redb_abs db) tx (redb_abs db') r \<or>
      (\<exists>e. rio_commit io = Some (e, True) \<and> r = Err (map_commit_error e StorageCommit)) \<and>
      as_receipts (redb_abs db) (st_id tx) = None \<and> abs_admissible sha (redb_abs db) tx \<and>
      as_generation (redb_abs db) \<noteq> - 1 \<and> redb_abs db' = abs_commit (redb_abs db) tx"
    using cs
  proof cases
    case ans
    with ap gen show ?thesis
      by (auto simp: commit_spec_def redb_answer_def split: option.split_asm option.split if_split_asm)
  qed (auto simp: commit_spec_def redb_uncertain_def gen ap)
  show "r = Err e \<Longrightarrow> err_kind e \<noteq> CommitUnknown"
    using cs by cases (auto simp: redb_uncertain_def redb_answer_def map_error_definite split: option.split_asm if_split_asm)
  show "r \<noteq> Ok (UnknownOutcome t d)"
    using cs by cases (auto simp: redb_uncertain_def redb_answer_def split: option.split_asm if_split_asm)
qed

lemma redb_clean_failure:
  assumes "\<forall>f. rio_commit io \<noteq> Some (f, True)"
  shows "clean_failure sha redb_inv redb_abs (redb_commit sha io) e"
  unfolding clean_failure_def
proof (intro allI impI)
  fix s tx s'
  assume a: "redb_inv s" "transaction_ok sha tx" "redb_commit sha io s tx = (s', Err e)"
  from redb_commit_refines(2,3) [OF this] assms show "redb_abs s' = redb_abs s"
    by (auto simp: commit_spec_def split: option.splits if_split_asm)
qed

interpretation rd: store_backend sha redb_inv redb_abs "redb_commit sha" redb_reconcile
  for sha
proof
  fix s s' tx io r
  assume a: "redb_inv s" "transaction_ok sha tx" "redb_commit sha io s tx = (s', r)"
  from redb_commit_refines [OF this] show "redb_inv s'"
    and "atomic_step sha (redb_abs s) tx (redb_abs s') r" by (auto simp: atomic_step_def)
next
  fix s t d
  assume "redb_inv s" "is_ascii t"
  then show "redb_reconcile s t d = Ok (reconcile_spec (redb_abs s) t d)"
    by (simp add: redb_reconcile_def reconcile_spec_def redb_abs_def redb_tables_abs_def redb_inv_def
        read_receipt_ok split: option.split)
next
  fix s t r
  assume "redb_inv s" "as_receipts (redb_abs s) t = Some r"
  then show "cr_transaction r = t"
    by (auto simp: redb_abs_def redb_tables_abs_def redb_inv_def read_receipt_ok split: if_split_asm)
qed

text \<open>Without faults before the engine's commit the call is decided by that commit alone.\<close>

definition reaches_commit :: "redb_io \<Rightarrow> bool" where
  "reaches_commit io \<longleftrightarrow> rio_begin io = None \<and> rio_durability io = None \<and> rio_open io = None \<and>
     rio_receipt io = None \<and> rio_read io = None \<and> rio_write io = None"

lemma redb_commit_reached:
  assumes inv: "redb_inv db" and ok: "transaction_ok sha tx" and g: "current_generation (rd_meta db) = Ok g"
    and "g \<noteq> - 1" "reaches_commit io" "as_receipts (redb_abs db) (st_id tx) = None" "abs_admissible sha (redb_abs db) tx"
  shows "redb_commit sha io db tx =
    (case rio_commit io of
       Some (e, durable) \<Rightarrow> (if durable then redb_applied db tx g else db, Err (map_commit_error e StorageCommit))
     | None \<Rightarrow> (redb_applied db tx g, Ok (Committed (abs_receipt (redb_abs db) tx))))"
proof -
  have ab: "redb_abs db = redb_tables_abs g (rd_entries db) (rd_receipts db)" by (simp add: redb_abs_def g)
  have rok: "receipts_ok (rd_receipts db)" and asc: "is_ascii (st_id tx)"
    and ops: "list_all (operation_ok sha) (st_operations tx)"
    using inv ok by (simp_all add: redb_inv_def transaction_ok_def)
  have read: "read_receipt (rd_receipts db) (st_id tx) = Ok None"
    using asc assms(6) by (simp add: ab redb_tables_abs_def read_receipt_ok [OF rok])
  have gen: "as_generation (redb_abs db) = g" by (simp add: ab redb_tables_abs_def)
  have conds: "redb_conditions sha (rd_entries db) (rd_receipts db) (st_operations tx) = Ok True"
    using redb_conditions_ok [OF rok ops, of "rd_entries db" g] assms(7) by (simp add: ab abs_admissible_def)
  show ?thesis
    using assms(4,5,7) read conds g checked_add_one_Some [of g]
    by (simp add: redb_commit_def faulted_def reaches_commit_def abs_admissible_def gen redb_applied_def abs_receipt_def
        Let_def case_prod_unfold split: option.split)
qed

section \<open>Properties\<close>

text \<open>C1: every commit of the redb store is an atomic step of the abstract store: without effect on
  a replay, a conflict or a failure, and otherwise the whole batch with its receipt and the
  next generation. The one answer outside the contract is the error of the engine's own
  commit: when the write became durable all the same, the answer is an error and the whole
  batch is in the store. The byte-level keys never confuse two entries or two receipts.\<close>

theorem redb_commit_implements_contract:
  assumes "redb_inv db" and "transaction_ok sha tx" and "redb_commit sha io db tx = (db', r)"
  shows "redb_inv db' \<and>
    (commit_spec sha (redb_abs db) tx (redb_abs db') r \<or>
      (\<exists>e. rio_commit io = Some (e, True) \<and> r = Err (map_commit_error e StorageCommit)) \<and>
      as_receipts (redb_abs db) (st_id tx) = None \<and> abs_admissible sha (redb_abs db) tx \<and>
      as_generation (redb_abs db) \<noteq> - 1 \<and> redb_abs db' = abs_commit (redb_abs db) tx)"
  using redb_commit_refines [OF assms] by blast

definition empty_db :: redb_database where
  "empty_db = redb_initialize \<lparr>rd_meta = [], rd_entries = [], rd_receipts = []\<rparr>"

definition no_faults :: redb_io where
  "no_faults = \<lparr>rio_begin = None, rio_durability = None, rio_open = None, rio_receipt = None, rio_read = None,
     rio_write = None, rio_commit = None\<rparr>"

text \<open>An engine commit that fails after its write became durable.\<close>

definition late_fault :: redb_io where
  "late_fault = no_faults\<lparr>rio_commit := Some (CommitStorage (IoError False), True)\<rparr>"

lemma no_faults_reaches: "reaches_commit no_faults" "rio_commit no_faults = None"
  by (simp_all add: reaches_commit_def no_faults_def)

lemma redb_no_fault_lands:
  assumes "redb_inv db" "transaction_ok sha tx" "as_generation (redb_abs db) \<noteq> - 1"
    and "as_receipts (redb_abs db) (st_id tx) = None" "abs_admissible sha (redb_abs db) tx"
  obtains db' where "redb_commit sha no_faults db tx = (db', Ok (Committed (abs_receipt (redb_abs db) tx)))"
    "redb_inv db'" "redb_abs db' = abs_commit (redb_abs db) tx"
proof -
  obtain g where g: "current_generation (rd_meta db) = Ok g" using current_generation_ok [OF assms(1)] by blast
  have "g \<noteq> - 1" using assms(3) by (simp add: redb_abs_def g redb_tables_abs_def)
  from that redb_commit_reached [OF assms(1,2) g this no_faults_reaches(1) assms(4,5)] redb_applied_abs [OF assms(1,2) g]
  show ?thesis by (simp add: no_faults_reaches)
qed

lemma empty_db_inv: "redb_inv empty_db"
  by (simp add: empty_db_def redb_initialize_def redb_inv_def bt_ok_def receipts_ok_def)

lemma empty_db_receipts: "as_receipts (redb_abs empty_db) t = None"
  by (simp add: redb_abs_def redb_tables_abs_def empty_db_def redb_initialize_def read_receipt_def)

lemma empty_db_generation: "current_generation (rd_meta empty_db) = Ok 0" "as_generation (redb_abs empty_db) = 0"
  by (simp_all add: redb_abs_def redb_tables_abs_def empty_db_def redb_initialize_def current_generation_def decode_revision_def)

lemma sample_tx_admissible: "abs_admissible sample_sha (redb_abs empty_db) sample_tx"
proof -
  have "as_entries (redb_abs empty_db) k = None" for k
    by (cases k) (simp add: redb_abs_def redb_tables_abs_def empty_db_def redb_initialize_def)
  then show ?thesis
    by (simp add: abs_admissible_def empty_db_generation(2) sample_tx_def sample_ops_def computed_operation_digest_def)
qed

lemma sample_redb_commit:
  assumes "reaches_commit io"
  shows "redb_commit sample_sha io empty_db sample_tx =
    (case rio_commit io of
       Some (e, durable) \<Rightarrow> (if durable then redb_applied empty_db sample_tx 0 else empty_db, Err (map_commit_error e StorageCommit))
     | None \<Rightarrow> (redb_applied empty_db sample_tx 0, Ok (Committed (abs_receipt (redb_abs empty_db) sample_tx))))"
  by (rule redb_commit_reached [OF empty_db_inv sample_tx_ok empty_db_generation(1) _ assms empty_db_receipts sample_tx_admissible])
    simp

lemma sample_late_fault:
  "redb_commit sample_sha late_fault empty_db sample_tx =
     (redb_applied empty_db sample_tx 0, Err (provider_error P_Io StorageCommit))"
  by (simp add: sample_redb_commit late_fault_def reaches_commit_def no_faults_def)

theorem redb_commit_implements_contract_witness:
  "commit_spec sample_sha (redb_abs empty_db) sample_tx (redb_abs (redb_applied empty_db sample_tx 0))
     (Ok (Committed (abs_receipt (redb_abs empty_db) sample_tx))) \<and>
   redb_inv (redb_applied empty_db sample_tx 0)"
proof -
  have "redb_commit sample_sha no_faults empty_db sample_tx =
      (redb_applied empty_db sample_tx 0, Ok (Committed (abs_receipt (redb_abs empty_db) sample_tx)))"
    by (simp add: sample_redb_commit no_faults_reaches)
  from redb_commit_implements_contract [OF empty_db_inv sample_tx_ok this] show ?thesis by simp
qed

text \<open>Reconciliation decides every commit attempt of a fresh transaction id, whatever the
  attempt answered: it reports the receipt exactly when the batch took effect, and absence
  exactly when the store is unchanged.\<close>

lemma redb_reconcile_decides:
  assumes "redb_inv db" and "transaction_ok sha tx" and "redb_commit sha io db tx = (db', r)"
    and "as_receipts (redb_abs db) (st_id tx) = None"
  shows "redb_reconcile db' (st_id tx) (st_operation_digest tx) =
      Ok (ReconcileCommitted (abs_receipt (redb_abs db) tx)) \<and> redb_abs db' = abs_commit (redb_abs db) tx \<or>
    redb_reconcile db' (st_id tx) (st_operation_digest tx) = Ok ReconcileAborted \<and> redb_abs db' = redb_abs db"
  by (rule rd.reconcile_decides [OF assms])

text \<open>Resubmitting one transaction any number of times, under any engine faults, applies
  it at most once.\<close>

lemma redb_retry_at_most_once:
  assumes "redb_inv db" and "transaction_ok sha tx"
  shows "redb_abs (retry (redb_commit sha) ios db tx) = redb_abs db \<or>
    as_receipts (redb_abs db) (st_id tx) = None \<and>
    redb_abs (retry (redb_commit sha) ios db tx) = abs_commit (redb_abs db) tx"
  by (rule rd.retry_at_most_once [OF assms])

text \<open>Of two transactions prepared on one base revision at most one takes effect: after
  the first did, the other is refused without effect.\<close>

lemma redb_stale_base_conflicts:
  assumes "redb_inv db" "transaction_ok sha tx" "transaction_ok sha tx'"
    and "redb_commit sha io db tx = (db', r)" "redb_abs db' = abs_commit (redb_abs db) tx" "redb_abs db' \<noteq> redb_abs db"
    and "st_base_revision tx' = st_base_revision tx" "as_receipts (redb_abs db') (st_id tx') = None"
    and "redb_commit sha io' db' tx' = (db'', r')"
  shows "redb_abs db'' = redb_abs db' \<and> (r' = Ok ConflictOutcome \<or> (\<exists>e. r' = Err e))"
  using rd.stale_base_conflicts [OF assms] by auto

definition sample_tx2 :: store_transaction where
  "sample_tx2 = sample_tx\<lparr>st_id := lit ''txn_2''\<rparr>"

text \<open>A scan returns exactly the entries of its namespace under its prefix, in ascending
  key order, although the engine's range runs on into later namespaces.\<close>

lemma redb_scan_exact:
  assumes "redb_inv db" and "namespace_ok ns"
  shows "set (redb_scan sha db ns pre) = {(key, v). redb_snapshot_get sha db ns key = Some v \<and> prefix pre key} \<and>
    sorted_wrt (<) (map fst (redb_scan sha db ns pre))"
proof -
  have ok: "bt_ok (rd_entries db)" using assms(1) by (simp add: redb_inv_def)
  let ?n = "as_bytes (tag_value ns) @ [0]" and ?b = "composite_prefix ns pre"
  have b: "?b = ?n @ pre" "\<And>key. composite_key ns key = ?n @ key"
    by (simp_all add: composite_prefix_def composite_key_def)
  have bl: "str_len (tag_value ns) + 1 = length ?n" by (simp add: str_len_def)
  define kept where "kept = filter (\<lambda>x. prefix ?b (fst x)) (rd_entries db)"
  have srt: "sorted_wrt (<) (map fst (rd_entries db))" using ok by (simp add: bt_ok_def)
  have "takeWhile (\<lambda>x. prefix ?b (fst x)) (filter (\<lambda>x. \<not> fst x < ?b) (rd_entries db)) =
      filter (\<lambda>x. prefix ?b (fst x)) (filter (\<lambda>x. \<not> fst x < ?b) (rd_entries db))"
    by (rule takeWhile_prefix_sorted) (use srt in \<open>auto simp: sorted_wrt_filter_map not_less\<close>)
  also have "\<dots> = kept" unfolding kept_def filter_filter
    by (rule filter_cong) (auto simp: not_less prefix_imp_list_le)
  finally have scan: "redb_scan sha db ns pre = map (\<lambda>(k, v). (drop (length ?n) k, owned_value sha v)) kept"
    unfolding redb_scan_def Let_def bl by (simp only: case_prod_unfold)
  have kept: "set kept = {(?n @ key, v) | key v. (?n @ key, v) \<in> set (rd_entries db) \<and> prefix pre key}"
    unfolding kept_def b by (auto simp: prefix_def)
  have "set (redb_scan sha db ns pre) =
      {(key, owned_value sha v) | key v. (?n @ key, v) \<in> set (rd_entries db) \<and> prefix pre key}"
    unfolding scan set_map kept by force
  moreover have "sorted_wrt (<) (map fst (redb_scan sha db ns pre))"
  proof -
    have "map fst (redb_scan sha db ns pre) = map (\<lambda>x. drop (length ?n) (fst x)) kept"
      unfolding scan by (simp add: case_prod_unfold)
    moreover have "sorted_wrt (<) (map (\<lambda>x. drop (length ?n) (fst x)) kept)"
    proof (rule sorted_drop_prefix)
      show "sorted_wrt (<) (map fst kept)" unfolding kept_def by (rule sorted_wrt_filter_map [OF srt])
      show "\<forall>x \<in> set kept. prefix ?n (fst x)" unfolding kept by auto
    qed
    ultimately show ?thesis by simp
  qed
  ultimately show ?thesis
    by (auto simp: redb_snapshot_get_def b bt_get_iff [OF ok])
qed

end
