(* ===== verification/Json_Store.thy ===== *)
theory Json_Store
  imports Store_Contract Hex_Codec
begin

text \<open>
  The JSON generation store (\<^verbatim>\<open>src/src/storage/json/store.rs\<close> and \<^verbatim>\<open>document.rs\<close>): the
  in-memory head, the commit path with its document, byte and generation bounds, the
  reconcile answer, snapshots and ordered scans. The JSON serialiser is the parameter
  \<open>codec\<close>; the file-system outcomes of one commit (an existing final file, the write and
  rename, the directory barrier, the temporary-file cleanup) are the argument \<open>io\<close>. The
  adapter implements the contract of \<open>Store_Contract\<close>.
\<close>

section \<open>Generation documents\<close>

definition GENERATION_SCHEMA :: ustr where
  "GENERATION_SCHEMA = lit ''radiata.woooo.tech/schemas/json-generation-v1''"
definition STORE_SCHEMA :: ustr where
  "STORE_SCHEMA = lit ''radiata.woooo.tech/schemas/json-store-v1''"

record receipt_body =
  rb_transaction :: ustr
  rb_operation_digest :: ustr
  rb_committed_revision :: ustr

record generation_document =
  gd_schema :: ustr
  gd_store_uuid :: ustr
  gd_generation :: u64
  gd_parent_generation :: "u64 option"
  gd_parent_digest :: "ustr option"
  gd_transaction_id :: ustr
  gd_operation_digest :: ustr
  gd_store_schema :: ustr
  gd_revision :: ustr
  gd_forgotten :: "ustr list"
  gd_receipt :: receipt_body
  gd_body_length :: u64
  gd_entries :: "(ustr \<times> ustr \<times> ustr) list"
  gd_receipts :: "receipt_body list"
  gd_checksum :: ustr

text \<open>The serialiser of the two bodies and of a document; \<open>None\<close> is its error.\<close>

record json_codec =
  jc_entries :: "(ustr \<times> ustr \<times> ustr) list \<Rightarrow> byte list option"
  jc_receipts :: "receipt_body list \<Rightarrow> byte list option"
  jc_document :: "generation_document \<Rightarrow> byte list option"

record generation_input =
  gi_store_uuid :: "byte list"
  gi_generation :: u64
  gi_parent :: "(u64 \<times> digest) option"
  gi_transaction :: transaction_id
  gi_operation_digest :: digest
  gi_revision :: store_revision
  gi_forgotten :: "transaction_id list"
  gi_receipt :: commit_receipt
  gi_entries :: "(ustr \<times> byte list \<times> byte list) list"
  gi_receipts :: "(transaction_id \<times> digest \<times> store_revision) list"

definition body_length ::
  "json_codec \<Rightarrow> (ustr \<times> ustr \<times> ustr) list \<Rightarrow> receipt_body list \<Rightarrow> u64 result" where
  "body_length codec entries receipts =
     and_then (ok_or (jc_entries codec entries) (internal ''json body encode'')) (\<lambda>e.
     and_then (ok_or (jc_receipts codec receipts) (internal ''json body encode'')) (\<lambda>r.
       if length e + length r < 2 ^ 64 then Ok (word_of_nat (length e + length r))
       else Err (resource_exhausted ''json body length'')))"

definition document_build ::
  "(byte list \<Rightarrow> digest) \<Rightarrow> json_codec \<Rightarrow> generation_input \<Rightarrow> byte list result" where
  "document_build sha codec input =
     (let entries = map (\<lambda>(ns, key, value). (ns, hex_encode key, hex_encode value)) (gi_entries input);
          receipts = map (\<lambda>(t, d, rev). \<lparr>rb_transaction = t, rb_operation_digest = hex_encode d,
                       rb_committed_revision = hex_encode rev\<rparr>) (gi_receipts input)
      in and_then (body_length codec entries receipts) (\<lambda>body.
         let document = \<lparr>gd_schema = GENERATION_SCHEMA, gd_store_uuid = hex_encode (gi_store_uuid input),
               gd_generation = gi_generation input, gd_parent_generation = map_option fst (gi_parent input),
               gd_parent_digest = map_option (\<lambda>p. hex_encode (snd p)) (gi_parent input),
               gd_transaction_id = gi_transaction input,
               gd_operation_digest = hex_encode (gi_operation_digest input),
               gd_store_schema = STORE_SCHEMA, gd_revision = hex_encode (gi_revision input),
               gd_forgotten = gi_forgotten input,
               gd_receipt = \<lparr>rb_transaction = cr_transaction (gi_receipt input),
                 rb_operation_digest = hex_encode (cr_operation_digest (gi_receipt input)),
                 rb_committed_revision = hex_encode (cr_committed_revision (gi_receipt input))\<rparr>,
               gd_body_length = body, gd_entries = entries, gd_receipts = receipts, gd_checksum = []\<rparr>
         in and_then (ok_or (jc_document codec document) (internal ''json generation encode'')) (\<lambda>zeroed.
            ok_or (jc_document codec (document\<lparr>gd_checksum := hex_encode (sha zeroed)\<rparr>))
              (internal ''json generation encode''))))"

section \<open>The store\<close>

definition MAX_GENERATIONS :: u64 where "MAX_GENERATIONS = 1024"
definition MAX_TOTAL_BYTES :: u64 where "MAX_TOTAL_BYTES = 4 * 1024 * 1024 * 1024"

record json_config =
  jcf_needs_commit_barrier :: bool
  jcf_max_generations :: u64
  jcf_max_total_bytes :: u64

record json_head =
  jh_generation :: u64
  jh_digest :: digest
  jh_store_uuid :: "byte list"
  jh_entries :: entry_table
  jh_receipts :: receipt_table
  jh_total_bytes :: u64

record json_io =
  jio_final_exists :: bool
  jio_write_ok :: bool
  jio_barrier_ok :: bool
  jio_cleanup_ok :: bool

text \<open>The batch loop over the cloned tables; the list collects the forgotten ids.\<close>

fun json_apply ::
  "store_operation list \<Rightarrow> entry_table \<Rightarrow> receipt_table \<Rightarrow> transaction_id list \<Rightarrow>
   entry_table \<times> receipt_table \<times> transaction_id list" where
  "json_apply [] entries receipts forgotten = (entries, receipts, forgotten)"
| "json_apply (Check ns key e # ops) entries receipts forgotten = json_apply ops entries receipts forgotten"
| "json_apply (Put ns key e v # ops) entries receipts forgotten =
     json_apply ops (bt_insert (ns, key) v entries) receipts forgotten"
| "json_apply (Delete ns key d # ops) entries receipts forgotten =
     json_apply ops (bt_remove (ns, key) entries) receipts forgotten"
| "json_apply (ForgetReceipt t d # ops) entries receipts forgotten =
     (if (case bt_get receipts t of None \<Rightarrow> False | Some r \<Rightarrow> cr_operation_digest r = d)
      then json_apply ops entries (bt_remove t receipts) (forgotten @ [t])
      else json_apply ops entries receipts forgotten)"

definition json_commit ::
  "(byte list \<Rightarrow> digest) \<Rightarrow> json_codec \<Rightarrow> json_config \<Rightarrow> json_io \<Rightarrow> json_head \<Rightarrow> store_transaction \<Rightarrow>
   json_head \<times> commit_outcome result" where
  "json_commit sha codec cfg io head tx =
     (case bt_get (jh_receipts head) (st_id tx) of
        Some receipt \<Rightarrow>
          (head, Ok (if cr_operation_digest receipt = st_operation_digest tx then Committed receipt
                     else ConflictOutcome))
      | None \<Rightarrow>
        if st_operation_digest tx \<noteq> computed_operation_digest sha tx
           \<or> st_base_revision tx \<noteq> to_be_bytes_u64 (jh_generation head)
           \<or> \<not> list_all (condition_matches (jh_entries head) (jh_receipts head)) (st_operations tx)
        then (head, Ok ConflictOutcome)
        else case checked_add (jh_generation head) 1 of
          None \<Rightarrow> (head, Err (resource_exhausted ''json generation''))
        | Some next_generation \<Rightarrow>
          if next_generation > jcf_max_generations cfg
          then (head, Err (provider_error P_ResourceExhausted StorageCommit))
          else
            (let (entries, receipts0, forgotten) =
                   json_apply (st_operations tx) (jh_entries head) (jh_receipts head) [];
                 receipt = \<lparr>cr_transaction = st_id tx, cr_operation_digest = st_operation_digest tx,
                            cr_committed_revision = to_be_bytes_u64 next_generation\<rparr>;
                 receipts = bt_insert (st_id tx) receipt receipts0;
                 input = \<lparr>gi_store_uuid = jh_store_uuid head, gi_generation = next_generation,
                   gi_parent = (if jh_generation head > 0 then Some (jh_generation head, jh_digest head) else None),
                   gi_transaction = st_id tx, gi_operation_digest = st_operation_digest tx,
                   gi_revision = cr_committed_revision receipt, gi_forgotten = forgotten, gi_receipt = receipt,
                   gi_entries = map (\<lambda>((ns, key), v). (tag_value ns, key, sv_value v)) entries,
                   gi_receipts = map (\<lambda>(t, r). (t, cr_operation_digest r, cr_committed_revision r)) receipts\<rparr>
             in case document_build sha codec input of
                  Inl e \<Rightarrow> (head, Err e)
                | Inr document_bytes \<Rightarrow>
                  if length document_bytes \<ge> 2 ^ 64
                  then (head, Err (resource_exhausted ''json generation bytes''))
                  else case checked_add (jh_total_bytes head) (word_of_nat (length document_bytes)) of
                      None \<Rightarrow> (head, Err (resource_exhausted ''json store bytes''))
                    | Some total_bytes \<Rightarrow>
                        if total_bytes > jcf_max_total_bytes cfg
                        then (head, Err (provider_error P_ResourceExhausted StorageCommit))
                        else if jio_final_exists io
                        then (head, Err (provider_error P_StorageCorrupt StorageCommit))
                        else if \<not> jio_write_ok io
                        then (head, Err (provider_error P_CommitUnknown StorageCommit))
                        else
                          (let head' = \<lparr>jh_generation = next_generation, jh_digest = sha document_bytes,
                                 jh_store_uuid = jh_store_uuid head, jh_entries = entries,
                                 jh_receipts = receipts, jh_total_bytes = total_bytes\<rparr>
                           in if \<not> jio_cleanup_ok io
                              then (head', Err (provider_error P_CommitUnknown StorageCommit))
                              else if jcf_needs_commit_barrier cfg \<and> \<not> jio_barrier_ok io
                              then (head', Ok (UnknownOutcome (st_id tx) (st_operation_digest tx)))
                              else (head', Ok (Committed receipt)))))"

definition json_reconcile :: "json_head \<Rightarrow> transaction_id \<Rightarrow> digest \<Rightarrow> reconcile_outcome result" where
  "json_reconcile head t d =
     Ok (case bt_get (jh_receipts head) t of
           Some r \<Rightarrow> if cr_operation_digest r = d then ReconcileCommitted r else DigestConflict
         | None \<Rightarrow> ReconcileAborted)"

definition json_snapshot_revision :: "json_head \<Rightarrow> store_revision" where
  "json_snapshot_revision head = to_be_bytes_u64 (jh_generation head)"

definition json_snapshot_get :: "json_head \<Rightarrow> store_namespace \<Rightarrow> store_key \<Rightarrow> store_value option" where
  "json_snapshot_get head ns key = bt_get (jh_entries head) (ns, key)"

text \<open>A scan reads the range from the first candidate key and keeps the matching entries.\<close>

definition json_scan :: "json_head \<Rightarrow> store_namespace \<Rightarrow> byte list \<Rightarrow> (store_key \<times> store_value) list" where
  "json_scan head ns pre =
     map (\<lambda>((_, key), v). (key, v))
       (filter (\<lambda>((n, key), _). n = ns \<and> prefix pre key)
         (filter (\<lambda>(k, _). \<not> k < (ns, pre)) (jh_entries head)))"

definition json_capabilities :: "bool \<Rightarrow> store_capabilities" where
  "json_capabilities os_crash =
     (capabilities_new (if os_crash then OsCrashDurable else ProcessCrashAtomic))
       \<lparr>cp_conditional_batch := True, cp_ordered_scan := True, cp_reconciliation := True,
        cp_exclusive_lifetime_lock := True\<rparr>"

section \<open>The adapter meets the store contract\<close>

definition table_abs :: "u64 \<Rightarrow> entry_table \<Rightarrow> receipt_table \<Rightarrow> abs_store" where
  "table_abs g entries receipts = \<lparr>as_generation = g,
     as_entries = (\<lambda>k. map_option sv_value (bt_get entries k)), as_receipts = bt_get receipts\<rparr>"

definition json_abs :: "json_head \<Rightarrow> abs_store" where
  "json_abs head = table_abs (jh_generation head) (jh_entries head) (jh_receipts head)"

definition tables_ok :: "(byte list \<Rightarrow> digest) \<Rightarrow> entry_table \<Rightarrow> receipt_table \<Rightarrow> bool" where
  "tables_ok sha entries receipts = (bt_ok entries \<and> bt_ok receipts \<and>
     (\<forall>k \<in> dom (bt_get entries). sv_digest (the (bt_get entries k)) =
        digest_store_value sha (sv_value (the (bt_get entries k)))))"

definition receipts_named :: "receipt_table \<Rightarrow> bool" where
  "receipts_named receipts = (\<forall>t \<in> dom (bt_get receipts). cr_transaction (the (bt_get receipts t)) = t)"

definition json_inv :: "(byte list \<Rightarrow> digest) \<Rightarrow> json_head \<Rightarrow> bool" where
  "json_inv sha head =
     (tables_ok sha (jh_entries head) (jh_receipts head) \<and> receipts_named (jh_receipts head))"

lemma tables_ok_value:
  "tables_ok sha entries receipts \<Longrightarrow> bt_get entries k = Some v \<Longrightarrow>
   sv_digest v = digest_store_value sha (sv_value v)"
  unfolding tables_ok_def by force

lemma abs_expectation_value:
  assumes "\<And>v. read = Some v \<Longrightarrow> sv_digest v = digest_store_value sha (sv_value v)"
  shows "abs_expectation sha (map_option sv_value read) e = expectation_matches read e"
  using assms by (cases read; cases e) auto

lemma table_condition:
  assumes "tables_ok sha entries receipts"
  shows "abs_condition sha (table_abs g entries receipts) op = condition_matches entries receipts op"
proof -
  have e: "abs_expectation sha (map_option sv_value (bt_get entries k)) x =
      expectation_matches (bt_get entries k) x" for k x
    using tables_ok_value [OF assms] by (rule abs_expectation_value)
  show ?thesis
  proof (cases op)
    case (Delete ns key d)
    then show ?thesis using e [of "(ns, key)" "Exact d"]
      by (auto simp: table_abs_def split: option.split)
  qed (simp_all add: table_abs_def e split: option.split)
qed

lemma tables_ok_insert:
  "tables_ok sha entries receipts \<Longrightarrow> sv_digest v = digest_store_value sha (sv_value v) \<Longrightarrow>
   tables_ok sha (bt_insert k v entries) receipts"
  unfolding tables_ok_def by (auto simp: bt_insert_ok bt_get_insert dom_def)

lemma tables_ok_remove:
  "tables_ok sha entries receipts \<Longrightarrow> tables_ok sha (bt_remove k entries) receipts"
  unfolding tables_ok_def by (auto simp: bt_remove_ok bt_get_remove dom_def)

lemma tables_ok_receipts:
  "tables_ok sha entries receipts \<Longrightarrow> tables_ok sha entries (bt_remove t receipts)"
  "tables_ok sha entries receipts \<Longrightarrow> tables_ok sha entries (bt_insert t r receipts)"
  unfolding tables_ok_def by (auto simp: bt_remove_ok bt_insert_ok)

lemma table_abs_update:
  "table_abs g (bt_insert k v entries) receipts =
     (table_abs g entries receipts)\<lparr>as_entries := (as_entries (table_abs g entries receipts))(k := Some (sv_value v))\<rparr>"
  "table_abs g (bt_remove k entries) receipts =
     (table_abs g entries receipts)\<lparr>as_entries := (as_entries (table_abs g entries receipts))(k := None)\<rparr>"
  "table_abs g entries (bt_remove t receipts) =
     (table_abs g entries receipts)\<lparr>as_receipts := (as_receipts (table_abs g entries receipts))(t := None)\<rparr>"
  "table_abs g entries (bt_insert t r receipts) =
     (table_abs g entries receipts)\<lparr>as_receipts := (as_receipts (table_abs g entries receipts))(t := Some r)\<rparr>"
  by (auto simp: table_abs_def fun_eq_iff bt_get_insert bt_get_remove)

lemma receipts_named_update:
  "receipts_named receipts \<Longrightarrow> receipts_named (bt_remove t receipts)"
  "receipts_named receipts \<Longrightarrow> cr_transaction r = t \<Longrightarrow> receipts_named (bt_insert t r receipts)"
  unfolding receipts_named_def by (auto simp: bt_get_remove bt_get_insert dom_def)

lemma json_apply_named:
  "json_apply ops entries receipts forgotten = (entries', receipts', forgotten') \<Longrightarrow>
   receipts_named receipts \<Longrightarrow> receipts_named receipts'"
  by (induction ops entries receipts forgotten rule: json_apply.induct)
    (auto simp: receipts_named_update split: if_split_asm)

definition forget_ok :: "receipt_table \<Rightarrow> store_operation \<Rightarrow> bool" where
  "forget_ok receipts op = (case op of ForgetReceipt t d \<Rightarrow>
     (\<exists>r. bt_get receipts t = Some r \<and> cr_operation_digest r = d) | _ \<Rightarrow> True)"

lemma condition_forget_ok: "condition_matches entries receipts op \<Longrightarrow> forget_ok receipts op"
  by (cases op) (auto simp: forget_ok_def split: option.splits)

lemma json_apply_abs:
  "json_apply ops entries receipts forgotten = (entries', receipts', forgotten') \<Longrightarrow>
   tables_ok sha entries receipts \<Longrightarrow> list_all (operation_ok sha) ops \<Longrightarrow> list_all (forget_ok receipts) ops \<Longrightarrow>
   distinct (map operation_identity_of ops) \<Longrightarrow>
   tables_ok sha entries' receipts' \<and>
   table_abs g entries' receipts' = fold abs_apply ops (table_abs g entries receipts)"
proof (induction ops entries receipts forgotten rule: json_apply.induct)
  case (3 ns key e v ops entries receipts forgotten)
  then show ?case by (simp add: tables_ok_insert store_value_new_iff table_abs_update)
next
  case (4 ns key d ops entries receipts forgotten)
  then show ?case by (simp add: tables_ok_remove table_abs_update)
next
  case (5 t d ops entries receipts forgotten)
  from "5.prems"(4) have c: "case bt_get receipts t of None \<Rightarrow> False | Some r \<Rightarrow> cr_operation_digest r = d"
    by (auto simp: forget_ok_def)
  have "list_all (forget_ok (bt_remove t receipts)) ops"
    using "5.prems"(4,5) unfolding list_all_iff forget_ok_def
    by (force simp: bt_get_remove split: store_operation.splits)
  then show ?case using "5.IH"(1) [OF c] "5.prems" c
    by (simp add: tables_ok_receipts table_abs_update)
qed simp_all

lemma provider_commit_unknown: "\<exists>c. provider_error P_CommitUnknown ctx = Error CommitUnknown c"
  by (simp add: provider_error_def)

lemma json_commit_effect:
  assumes "json_commit sha codec cfg io head tx = (head', r)"
    and "bt_get (jh_receipts head) (st_id tx) = None"
    and "st_operation_digest tx = computed_operation_digest sha tx"
    and "st_base_revision tx = to_be_bytes_u64 (jh_generation head)"
    and "list_all (condition_matches (jh_entries head) (jh_receipts head)) (st_operations tx)"
    and "json_apply (st_operations tx) (jh_entries head) (jh_receipts head) [] = (entries, receipts, forgotten)"
  defines "receipt \<equiv> \<lparr>cr_transaction = st_id tx, cr_operation_digest = st_operation_digest tx,
    cr_committed_revision = to_be_bytes_u64 (jh_generation head + 1)\<rparr>"
  shows "head' = head \<and> (\<exists>e. r = Err e) \<or>
    jh_generation head' = jh_generation head + 1 \<and> jh_generation head \<noteq> - 1 \<and>
    jh_entries head' = entries \<and> jh_receipts head' = bt_insert (st_id tx) receipt receipts \<and>
    (r = Ok (Committed receipt) \<or> r = Ok (UnknownOutcome (st_id tx) (st_operation_digest tx)) \<or>
     (\<exists>c. r = Err (Error CommitUnknown c)))"
proof (cases "checked_add (jh_generation head) 1")
  case None
  then show ?thesis using assms(1-6) by (auto simp: json_commit_def)
next
  case (Some n)
  note n = checked_add_one [OF Some]
  show ?thesis
    using assms(1) Some assms(2-6) provider_commit_unknown [of StorageCommit]
    unfolding json_commit_def receipt_def n [THEN conjunct1]
    by (auto simp: n Let_def split: if_split_asm sum.split_asm option.split_asm)
qed

lemma json_commit_refines:
  assumes inv: "json_inv sha head" and ok: "transaction_ok sha tx"
    and c: "json_commit sha codec cfg io head tx = (head', r)"
  shows "json_inv sha head' \<and> commit_spec sha (json_abs head) tx (json_abs head') r"
proof (cases "bt_get (jh_receipts head) (st_id tx)")
  case (Some old)
  then have "head' = head" "r = Ok (if cr_operation_digest old = st_operation_digest tx
      then Committed old else ConflictOutcome)" using c by (simp_all add: json_commit_def)
  then show ?thesis using inv Some by (simp add: commit_spec_def json_abs_def table_abs_def)
next
  case None
  have tok: "tables_ok sha (jh_entries head) (jh_receipts head)" using inv by (simp add: json_inv_def)
  have adm: "abs_admissible sha (json_abs head) tx \<longleftrightarrow>
      st_operation_digest tx = computed_operation_digest sha tx \<and>
      st_base_revision tx = to_be_bytes_u64 (jh_generation head) \<and>
      list_all (condition_matches (jh_entries head) (jh_receipts head)) (st_operations tx)"
    unfolding abs_admissible_def json_abs_def table_condition [OF tok] by (simp add: table_abs_def)
  have none: "as_receipts (json_abs head) (st_id tx) = None" using None by (simp add: json_abs_def table_abs_def)
  show ?thesis
  proof (cases "abs_admissible sha (json_abs head) tx")
    case False
    then have "head' = head" "r = Ok ConflictOutcome" using c None adm by (auto simp: json_commit_def)
    then show ?thesis using False none inv by (simp add: commit_spec_def)
  next
    case True
    obtain entries receipts forgotten where a: "json_apply (st_operations tx) (jh_entries head)
        (jh_receipts head) [] = (entries, receipts, forgotten)" by (metis prod_cases3)
    have conds: "list_all (condition_matches (jh_entries head) (jh_receipts head)) (st_operations tx)"
      using True adm by simp
    then have fok: "list_all (forget_ok (jh_receipts head)) (st_operations tx)"
      by (auto simp: list_all_iff intro: condition_forget_ok)
    have ap: "tables_ok sha entries receipts" "\<And>g. table_abs g entries receipts =
        fold abs_apply (st_operations tx) (table_abs g (jh_entries head) (jh_receipts head))"
      using json_apply_abs [OF a tok _ fok] ok by (simp_all add: transaction_ok_def)
    have comm: "abs_commit (json_abs head) tx = table_abs (jh_generation head + 1) entries
        (bt_insert (st_id tx) (abs_receipt (json_abs head) tx) receipts)"
      unfolding abs_commit_def Let_def table_abs_update json_abs_def ap(2) [symmetric]
      by (simp add: table_abs_def)
    have rc: "abs_receipt (json_abs head) tx = \<lparr>cr_transaction = st_id tx,
        cr_operation_digest = st_operation_digest tx,
        cr_committed_revision = to_be_bytes_u64 (jh_generation head + 1)\<rparr>"
      by (simp add: abs_receipt_def json_abs_def table_abs_def)
    from json_commit_effect [OF c None _ _ conds a] True adm
    consider "head' = head" "\<exists>e. r = Err e"
      | "jh_generation head' = jh_generation head + 1" "jh_generation head \<noteq> - 1" "jh_entries head' = entries"
        "jh_receipts head' = bt_insert (st_id tx) (abs_receipt (json_abs head) tx) receipts"
        "r = Ok (Committed (abs_receipt (json_abs head) tx)) \<or>
         r = Ok (UnknownOutcome (st_id tx) (st_operation_digest tx)) \<or> (\<exists>c. r = Err (Error CommitUnknown c))"
      unfolding rc by blast
    then show ?thesis
    proof cases
      case 1
      then show ?thesis using inv by (auto simp: commit_spec_def)
    next
      case 2
      have "json_abs head' = abs_commit (json_abs head) tx" unfolding comm by (simp add: json_abs_def 2)
      moreover have "json_inv sha head'" using ap(1) json_apply_named [OF a] inv
        by (simp add: json_inv_def 2 tables_ok_receipts receipts_named_update)
      moreover have "as_generation (json_abs head) \<noteq> - 1" using 2(2) by (simp add: json_abs_def table_abs_def)
      ultimately show ?thesis using True none 2(5) by (auto simp: commit_spec_def)
    qed
  qed
qed

interpretation js: definite_backend sha "json_inv sha" json_abs "json_commit sha codec cfg" json_reconcile
  for sha codec cfg
proof
  fix s s' tx io r
  assume a: "json_inv sha s" "transaction_ok sha tx" "json_commit sha codec cfg io s tx = (s', r)"
  from json_commit_refines [OF this] show "json_inv sha s'"
    and "atomic_step sha (json_abs s) tx (json_abs s') r" and "commit_spec sha (json_abs s) tx (json_abs s') r"
    by (simp_all add: atomic_step_def)
next
  fix s t d
  show "json_reconcile s t d = Ok (reconcile_spec (json_abs s) t d)"
    by (simp add: json_reconcile_def reconcile_spec_def json_abs_def table_abs_def split: option.split)
next
  fix s t r
  assume "json_inv sha s" "as_receipts (json_abs s) t = Some r"
  then show "cr_transaction r = t"
    by (force simp: json_inv_def receipts_named_def json_abs_def table_abs_def)
qed

text \<open>C11: every commit of the JSON store is a step of the abstract store, whatever the
  file system does: without effect on a replay, a conflict or a definite failure, and
  otherwise the whole batch with its receipt and the next generation.\<close>

theorem json_commit_implements_contract:
  assumes "json_inv sha head" and "transaction_ok sha tx" and "json_commit sha codec cfg io head tx = (head', r)"
  shows "json_inv sha head' \<and> commit_spec sha (json_abs head) tx (json_abs head') r"
  using js.commit_inv [OF assms] js.commit_definite [OF assms] by simp

definition sample_codec :: json_codec where
  "sample_codec = \<lparr>jc_entries = (\<lambda>_. Some []), jc_receipts = (\<lambda>_. Some []), jc_document = (\<lambda>_. Some [0])\<rparr>"

definition sample_config :: json_config where
  "sample_config = \<lparr>jcf_needs_commit_barrier = True, jcf_max_generations = 1024, jcf_max_total_bytes = 4096\<rparr>"

definition empty_head :: json_head where
  "empty_head = \<lparr>jh_generation = 0, jh_digest = replicate 32 0, jh_store_uuid = replicate 16 0,
     jh_entries = [], jh_receipts = [], jh_total_bytes = 0\<rparr>"

definition good_io :: json_io where
  "good_io = \<lparr>jio_final_exists = False, jio_write_ok = True, jio_barrier_ok = True, jio_cleanup_ok = True\<rparr>"

lemma empty_head_inv: "json_inv sha empty_head"
  by (simp add: json_inv_def empty_head_def tables_ok_def receipts_named_def)

lemma sample_json_commit:
  "\<exists>head'. json_commit sample_sha sample_codec sample_config good_io empty_head sample_tx =
     (head', Ok (Committed (abs_receipt (json_abs empty_head) sample_tx)))"
  by (simp add: json_commit_def empty_head_def good_io_def sample_tx_def sample_config_def sample_codec_def
      document_build_def body_length_def computed_operation_digest_def checked_add_def abs_receipt_def
      json_abs_def table_abs_def sample_ops_def Let_def)

theorem json_commit_implements_contract_witness:
  "\<exists>head' r. json_commit sample_sha sample_codec sample_config good_io empty_head sample_tx = (head', r) \<and>
     commit_spec sample_sha (json_abs empty_head) sample_tx (json_abs head') r \<and>
     r = Ok (Committed (abs_receipt (json_abs empty_head) sample_tx))"
  using sample_json_commit json_commit_implements_contract [OF empty_head_inv sample_tx_ok] by blast

lemma scan_keys_sorted:
  "sorted_wrt (<) (map fst xs) \<Longrightarrow> \<forall>x \<in> set xs. fst (fst x) = ns \<Longrightarrow>
   sorted_wrt (<) (map fst (map (\<lambda>((_, key), v). (key, v)) (xs :: ((store_namespace \<times> store_key) \<times> 'v) list)))"
  by (induction xs) fastforce+

text \<open>A scan returns exactly the entries of its namespace under its prefix, in
  ascending key order.\<close>

lemma json_scan_exact:
  assumes "json_inv sha head"
  shows "set (json_scan head ns pre) = {(key, v). json_snapshot_get head ns key = Some v \<and> prefix pre key} \<and>
    sorted_wrt (<) (map fst (json_scan head ns pre))"
proof -
  have ok: "bt_ok (jh_entries head)" using assms by (simp add: json_inv_def tables_ok_def)
  define kept where "kept = filter (\<lambda>((n, key), _). n = ns \<and> prefix pre key)
    (filter (\<lambda>(k, _). \<not> k < (ns, pre)) (jh_entries head))"
  have scan: "json_scan head ns pre = map (\<lambda>((_, key), v). (key, v)) kept"
    by (simp add: json_scan_def kept_def)
  have "set kept = {((ns, key), v) | key v. ((ns, key), v) \<in> set (jh_entries head) \<and> prefix pre key}"
    unfolding kept_def by (auto simp: not_less prefix_imp_list_le)
  then have "set (json_scan head ns pre) = {(key, v). ((ns, key), v) \<in> set (jh_entries head) \<and> prefix pre key}"
    unfolding scan by force
  moreover have "sorted_wrt (<) (map fst (jh_entries head))" using ok by (simp add: bt_ok_def)
  then have "sorted_wrt (<) (map fst kept)" unfolding kept_def by (intro sorted_wrt_filter_map)
  then have "sorted_wrt (<) (map fst (json_scan head ns pre))"
    unfolding scan by (rule scan_keys_sorted [of _ ns]) (auto simp: kept_def)
  ultimately show ?thesis by (simp add: json_snapshot_get_def bt_get_iff [OF ok])
qed

end
