(* ===== verification/Metadata_Store.thy ===== *)
theory Metadata_Store
  imports Redb_Store Json_Store
begin

text \<open>
  The single-commit state machine of the metadata store (\<^verbatim>\<open>src/src/storage/mod.rs\<close>): the
  freeze around every provider call, the completion of commits and reconciliations, journal
  recovery, and the bounded entry wait. A provider call is split at its await point: the
  state after \<^verbatim>\<open>begin\<close>, the provider's answer, and the completion; dropping the call in
  between is \<open>call_drop\<close>. The client facts are proved once over the contract of
  \<open>Store_Contract\<close> and hold for both adapters.
\<close>

section \<open>Definitions\<close>

record pending_commit =
  pc_transaction :: transaction_id
  pc_digest :: digest
  pc_journal_proven :: bool

datatype commit_state = Ready | Frozen pending_commit bool

definition pending_of :: "store_transaction \<Rightarrow> pending_commit" where
  "pending_of tx = \<lparr>pc_transaction = st_id tx, pc_digest = st_operation_digest tx, pc_journal_proven = False\<rparr>"

definition begin_commit :: "commit_state \<Rightarrow> pending_commit \<Rightarrow> commit_state result" where
  "begin_commit state pending =
     (case state of
        Ready \<Rightarrow> Ok (Frozen pending True)
      | Frozen _ _ \<Rightarrow> Err (not_ready ''metadata storage commit''))"

definition begin_reconcile :: "commit_state \<Rightarrow> (pending_commit \<times> commit_state) result" where
  "begin_reconcile state =
     (case state of
        Ready \<Rightarrow> Err (not_ready ''metadata storage reconcile'')
      | Frozen pending active \<Rightarrow>
          if active then Err (not_ready ''metadata storage reconcile'')
          else Ok (pending, Frozen pending True))"

text \<open>Dropping an active provider call, as its guard does on every early return and on
  cancellation.\<close>

definition call_drop :: "commit_state \<Rightarrow> commit_state" where
  "call_drop state = (case state of Frozen pending _ \<Rightarrow> Frozen pending False | Ready \<Rightarrow> Ready)"

definition finish_ready :: "commit_state \<Rightarrow> commit_state" where
  "finish_ready state = Ready"

definition finish_frozen :: "commit_state \<Rightarrow> commit_state result" where
  "finish_frozen state =
     (case state of
        Frozen pending _ \<Rightarrow> Ok (Frozen pending False)
      | Ready \<Rightarrow> Err (internal ''metadata storage commit state''))"

text \<open>A completion that freezes: on a lost freeze the error wins and the call guard drops.\<close>

definition freeze_then :: "commit_state \<Rightarrow> 'a result \<Rightarrow> commit_state \<times> 'a result" where
  "freeze_then state answer =
     (case finish_frozen state of Inr state' \<Rightarrow> (state', answer) | Inl e \<Rightarrow> (call_drop state, Err e))"

definition validate_receipt :: "pending_commit \<Rightarrow> commit_receipt \<Rightarrow> provider_error_context \<Rightarrow> unit result" where
  "validate_receipt pending receipt ctx =
     (if cr_transaction receipt \<noteq> pc_transaction pending \<or> cr_operation_digest receipt \<noteq> pc_digest pending
      then Err (provider_error P_StorageCorrupt ctx) else Ok ())"

definition commit_complete ::
  "commit_state \<Rightarrow> pending_commit \<Rightarrow> commit_outcome result \<Rightarrow> commit_state \<times> commit_outcome result" where
  "commit_complete state pending answer =
     (case answer of
        Inr (Committed receipt) \<Rightarrow>
          (case validate_receipt pending receipt StorageCommit of
             Inl e \<Rightarrow> (call_drop state, Err e)
           | Inr _ \<Rightarrow> (finish_ready state, Ok (Committed receipt)))
      | Inr Aborted \<Rightarrow> (finish_ready state, Ok Aborted)
      | Inr ConflictOutcome \<Rightarrow> (finish_ready state, Ok ConflictOutcome)
      | Inr (UnknownOutcome t d) \<Rightarrow>
          if t \<noteq> pc_transaction pending \<or> d \<noteq> pc_digest pending
          then (call_drop state, Err (provider_error P_StorageCorrupt StorageCommit))
          else freeze_then state (Ok (UnknownOutcome t d))
      | Inl e \<Rightarrow>
          if err_kind e = CommitUnknown then freeze_then state (Err e)
          else (finish_ready state, Err e))"

definition reconcile_complete ::
  "commit_state \<Rightarrow> pending_commit \<Rightarrow> reconcile_outcome result \<Rightarrow> commit_state \<times> reconcile_outcome result" where
  "reconcile_complete state pending answer =
     (case answer of
        Inr (ReconcileCommitted receipt) \<Rightarrow>
          (case validate_receipt pending receipt StorageReconcile of
             Inl e \<Rightarrow> (call_drop state, Err e)
           | Inr _ \<Rightarrow> (finish_ready state, Ok (ReconcileCommitted receipt)))
      | Inr ReconcileAborted \<Rightarrow>
          if pc_journal_proven pending
          then freeze_then state (Err (provider_error P_StorageCorrupt StorageReconcile))
          else (finish_ready state, Ok ReconcileAborted)
      | Inr DigestConflict \<Rightarrow> freeze_then state (Ok DigestConflict)
      | Inr ReconcileUnknown \<Rightarrow> freeze_then state (Ok ReconcileUnknown)
      | Inl e \<Rightarrow> freeze_then state (Err e))"

text \<open>
  The bounded entry wait: each poll observes the shared state and whether the deadline has
  passed. The result is \<open>None\<close> while the polls seen so far keep waiting.
\<close>

fun entry_wait :: "(commit_state \<Rightarrow> 'a result) \<Rightarrow> (commit_state \<times> bool) list \<Rightarrow> 'a result option" where
  "entry_wait try_begin [] = None"
| "entry_wait try_begin ((state, expired) # polls) =
     (case try_begin state of
        Inr entered \<Rightarrow> Some (Ok entered)
      | Inl e \<Rightarrow>
          if err_kind e = NotReady then
            (if expired then Some (Err e) else entry_wait try_begin polls)
          else Some (Err e))"

text \<open>One uncontended commit and one uncontended reconciliation, with the provider's step.\<close>

definition store_commit ::
  "('s \<Rightarrow> store_transaction \<Rightarrow> 's \<times> commit_outcome result) \<Rightarrow> 's \<times> commit_state \<Rightarrow> store_transaction \<Rightarrow>
   ('s \<times> commit_state) \<times> commit_outcome result" where
  "store_commit commit_step sys tx =
     (case begin_commit (snd sys) (pending_of tx) of
        Inl e \<Rightarrow> (sys, Err e)
      | Inr state \<Rightarrow>
          (let (s', answer) = commit_step (fst sys) tx;
               (state', r) = commit_complete state (pending_of tx) answer
           in ((s', state'), r)))"

definition store_reconcile ::
  "('s \<Rightarrow> transaction_id \<Rightarrow> digest \<Rightarrow> reconcile_outcome result) \<Rightarrow> 's \<times> commit_state \<Rightarrow>
   ('s \<times> commit_state) \<times> reconcile_outcome result" where
  "store_reconcile reconcile_step sys =
     (case begin_reconcile (snd sys) of
        Inl e \<Rightarrow> (sys, Err e)
      | Inr (pending, state) \<Rightarrow>
          (let answer = reconcile_step (fst sys) (pc_transaction pending) (pc_digest pending);
               (state', r) = reconcile_complete state pending answer
           in ((fst sys, state'), r)))"

definition reconcile_if_frozen ::
  "('s \<Rightarrow> transaction_id \<Rightarrow> digest \<Rightarrow> reconcile_outcome result) \<Rightarrow> 's \<times> commit_state \<Rightarrow>
   ('s \<times> commit_state) \<times> unit result" where
  "reconcile_if_frozen reconcile_step sys =
     (if snd sys = Ready then (sys, Ok ())
      else case store_reconcile reconcile_step sys of
          (sys', Inl e) \<Rightarrow> (sys', Err e)
        | (sys', Inr (ReconcileCommitted _)) \<Rightarrow> (sys', Ok ())
        | (sys', Inr ReconcileAborted) \<Rightarrow> (sys', Ok ())
        | (sys', Inr DigestConflict) \<Rightarrow> (sys', Err (provider_error P_StorageCorrupt StorageReconcile))
        | (sys', Inr ReconcileUnknown) \<Rightarrow> (sys', Err (provider_error P_CommitUnknown StorageReconcile)))"

definition freeze_journaled :: "commit_state \<Rightarrow> transaction_id \<Rightarrow> digest \<Rightarrow> commit_state \<times> unit result" where
  "freeze_journaled state t d =
     (case state of
        Ready \<Rightarrow> (Frozen \<lparr>pc_transaction = t, pc_digest = d, pc_journal_proven = True\<rparr> False, Ok ())
      | Frozen pending active \<Rightarrow>
          if pc_transaction pending = t \<and> pc_digest pending = d
          then (Frozen (pending\<lparr>pc_journal_proven := True\<rparr>) active, Ok ())
          else (state, Err (not_ready ''metadata storage journal recovery'')))"

definition is_blocked :: "commit_state \<Rightarrow> bool" where
  "is_blocked state = (case state of Frozen _ active \<Rightarrow> \<not> active | Ready \<Rightarrow> False)"

text \<open>Opening requires a provider that satisfies the metadata requirements.\<close>

definition open_with_state ::
  "('s \<times> store_capabilities) result \<Rightarrow> commit_state \<Rightarrow> ('s \<times> commit_state) result" where
  "open_with_state opened state =
     and_then opened (\<lambda>(s, caps).
       if \<not> capabilities_satisfy caps metadata_requirements
       then Err (provider_error P_UnsupportedCapability StorageOpen) else Ok (s, state))"

definition open_recovered_state :: "transaction_id \<Rightarrow> digest \<Rightarrow> commit_state" where
  "open_recovered_state t d =
     Frozen \<lparr>pc_transaction = t, pc_digest = d, pc_journal_proven = False\<rparr> False"

section \<open>Commit and reconcile over a contract-abiding backend\<close>

lemmas machine_defs = store_commit_def begin_commit_def commit_complete_def finish_ready_def
  freeze_then_def finish_frozen_def call_drop_def validate_receipt_def pending_of_def

context store_backend
begin

lemma store_commit_outcome:
  assumes "inv s" "transaction_ok sha tx"
    and "store_commit (commit io) (s, Ready) tx = ((s', state'), r)"
  shows "inv s' \<and>
    (case r of
       Inr (Committed receipt) \<Rightarrow> state' = Ready \<and> as_receipts (abs s') (st_id tx) = Some receipt
     | Inr (UnknownOutcome t d) \<Rightarrow> state' = Frozen (pending_of tx) False
     | Inr _ \<Rightarrow> state' = Ready \<and> abs s' = abs s
     | Inl e \<Rightarrow> state' = (if err_kind e = CommitUnknown then Frozen (pending_of tx) False else Ready) \<and>
         (clean_failure sha inv abs (commit io) e \<longrightarrow> abs s' = abs s))"
proof -
  obtain answer where c: "commit io s tx = (s', answer)"
    and cc: "commit_complete (Frozen (pending_of tx) True) (pending_of tx) answer = (state', r)"
    using assms(3) by (auto simp: store_commit_def begin_commit_def split: prod.splits)
  have i: "inv s'" by (rule commit_inv [OF assms(1,2) c])
  note named = receipt_identity [OF assms(1), of "st_id tx"]
  show ?thesis
  proof (cases answer)
    case (Inl e)
    with cc have "r = Err e" "state' = (if err_kind e = CommitUnknown then Frozen (pending_of tx) False else Ready)"
      by (auto simp: machine_defs split: if_split_asm)
    with i c Inl assms(1,2) show ?thesis by (auto simp: clean_failure_def)
  next
    case (Inr a)
    with c have "commit_spec sha (abs s) tx (abs s') (Ok a)" using commit_answer_ok [OF assms(1,2)] by simp
    with Inr cc i named show ?thesis
      by (auto simp: commit_spec_def machine_defs split: option.splits if_split_asm commit_outcome.splits)
  qed
qed

text \<open>An indeterminate commit is decided by the next reconciliation, which also leaves the
  freeze.\<close>

lemma blocked_commit_reconciles:
  assumes "inv s" "transaction_ok sha tx" "as_receipts (abs s) (st_id tx) = None"
    and c: "store_commit (commit io) (s, Ready) tx = ((s', state'), r)" and "is_blocked state'"
  shows "\<exists>answer. store_reconcile reconcile (s', state') = ((s', Ready), Ok answer) \<and>
    (answer = ReconcileCommitted (abs_receipt (abs s) tx) \<and> abs s' = abs_commit (abs s) tx \<or>
     answer = ReconcileAborted \<and> abs s' = abs s)"
proof -
  have st: "state' = Frozen (pending_of tx) False"
    using store_commit_outcome [OF assms(1,2) c] assms(5)
    by (cases r) (auto simp: is_blocked_def split: commit_outcome.splits if_split_asm)
  obtain a where ca: "commit io s tx = (s', a)"
    using c by (auto simp: store_commit_def begin_commit_def split: prod.splits)
  from reconcile_decides [OF assms(1,2) ca assms(3)] show ?thesis
    by (auto simp: st store_reconcile_def begin_reconcile_def reconcile_complete_def finish_ready_def
        validate_receipt_def pending_of_def)
qed

end

section \<open>Properties\<close>

text \<open>C6: what a commit through the metadata store over redb says. \<open>Committed\<close> carries the receipt
  the store now holds, a conflict leaves the store unchanged, and an error leaves it unchanged
  or is the mapped error of an engine commit whose write became durable; then the whole batch is
  in the store. The machine is ready after every answer: an engine commit that fails, with its
  write durable or not, is answered with a definite error and freezes nothing.\<close>

theorem metadata_commit_truthful:
  assumes "redb_inv s" and "transaction_ok sha tx"
    and "store_commit (redb_commit sha io) (s, Ready) tx = ((s', state'), r)"
  shows "redb_inv s' \<and> state' = Ready \<and>
    (case r of
       Inr (Committed receipt) \<Rightarrow> as_receipts (redb_abs s') (st_id tx) = Some receipt \<and>
         (redb_abs s' = redb_abs s \<or>
          as_receipts (redb_abs s) (st_id tx) = None \<and> redb_abs s' = abs_commit (redb_abs s) tx)
     | Inr answer \<Rightarrow> answer = ConflictOutcome \<and> redb_abs s' = redb_abs s
     | Inl e \<Rightarrow> redb_abs s' = redb_abs s \<or>
         (\<exists>f. rio_commit io = Some (f, True) \<and> e = map_commit_error f StorageCommit) \<and>
         as_receipts (redb_abs s) (st_id tx) = None \<and> redb_abs s' = abs_commit (redb_abs s) tx) \<and>
    (\<forall>f durable. rio_commit io = Some (f, durable) \<longrightarrow> reaches_commit io \<longrightarrow>
       as_receipts (redb_abs s) (st_id tx) = None \<longrightarrow> abs_admissible sha (redb_abs s) tx \<longrightarrow>
       as_generation (redb_abs s) \<noteq> - 1 \<longrightarrow>
       r = Err (map_commit_error f StorageCommit) \<and>
       redb_abs s' = (if durable then abs_commit (redb_abs s) tx else redb_abs s))"
proof -
  obtain answer where c: "redb_commit sha io s tx = (s', answer)"
    and cc: "commit_complete (Frozen (pending_of tx) True) (pending_of tx) answer = (state', r)"
    using assms(3) by (auto simp: store_commit_def begin_commit_def split: prod.splits)
  note rf = redb_commit_refines [OF assms(1,2) c] and named = rd.receipt_identity [OF assms(1), of "st_id tx"]
  have "state' = Ready \<and> r = answer"
  proof (cases answer)
    case (Inl e)
    with cc rf(3) show ?thesis by (auto simp: machine_defs split: if_split_asm)
  next
    case (Inr a)
    with rf(2) cc named rf(4) show ?thesis
      by (cases a) (auto simp: commit_spec_def machine_defs split: option.splits if_split_asm)
  qed
  then have st: "state' = Ready" and r: "r = answer" by simp_all
  obtain g where g: "current_generation (rd_meta s) = Ok g" using current_generation_ok [OF assms(1)] by blast
  have gen: "as_generation (redb_abs s) = g" by (simp add: redb_abs_def g redb_tables_abs_def)
  have fails: "r = Err (map_commit_error f StorageCommit) \<and> redb_abs s' = (if durable then abs_commit (redb_abs s) tx else redb_abs s)"
    if "rio_commit io = Some (f, durable)" "reaches_commit io" "as_receipts (redb_abs s) (st_id tx) = None"
      "abs_admissible sha (redb_abs s) tx" "as_generation (redb_abs s) \<noteq> - 1" for f durable
    using redb_commit_reached [OF assms(1,2) g that(5) [unfolded gen] that(2-4)] c that(1) r redb_applied_abs(2) [OF assms(1,2) g]
    by auto
  have "case r of
       Inr (Committed receipt) \<Rightarrow> as_receipts (redb_abs s') (st_id tx) = Some receipt \<and>
         (redb_abs s' = redb_abs s \<or>
          as_receipts (redb_abs s) (st_id tx) = None \<and> redb_abs s' = abs_commit (redb_abs s) tx)
     | Inr answer \<Rightarrow> answer = ConflictOutcome \<and> redb_abs s' = redb_abs s
     | Inl e \<Rightarrow> redb_abs s' = redb_abs s \<or>
         (\<exists>f. rio_commit io = Some (f, True) \<and> e = map_commit_error f StorageCommit) \<and>
         as_receipts (redb_abs s) (st_id tx) = None \<and> redb_abs s' = abs_commit (redb_abs s) tx"
    using rf(2,4) rf(3) [unfolded r [symmetric]] r
    by (auto simp: commit_spec_def split: sum.split commit_outcome.split option.splits if_split_asm)
  with rf(1) st fails show ?thesis by blast
qed

theorem metadata_commit_truthful_witness:
  "store_commit (redb_commit sample_sha late_fault) (empty_db, Ready) sample_tx =
     ((redb_applied empty_db sample_tx 0, Ready), Err (provider_error P_Io StorageCommit)) \<and>
   redb_abs (redb_applied empty_db sample_tx 0) = abs_commit (redb_abs empty_db) sample_tx"
proof -
  have c: "store_commit (redb_commit sample_sha late_fault) (empty_db, Ready) sample_tx =
     ((redb_applied empty_db sample_tx 0, Ready), Err (provider_error P_Io StorageCommit))"
    by (simp add: machine_defs sample_late_fault provider_error_def)
  have f: "rio_commit late_fault = Some (CommitStorage (IoError False), True)" "reaches_commit late_fault"
    by (simp_all add: late_fault_def reaches_commit_def no_faults_def)
  have "as_generation (redb_abs empty_db) \<noteq> - 1" by (simp add: empty_db_generation(2))
  with metadata_commit_truthful [OF empty_db_inv sample_tx_ok c] f empty_db_receipts sample_tx_admissible
  have "redb_abs (redb_applied empty_db sample_tx 0) = abs_commit (redb_abs empty_db) sample_tx" by metis
  with c show ?thesis by blast
qed

text \<open>Over the JSON store a definite error leaves the store unchanged and the machine ready, and
  only an indeterminate answer freezes it, on exactly this transaction.\<close>

lemma json_commit_truthful:
  assumes "json_inv sha s" and "transaction_ok sha tx"
    and "store_commit (json_commit sha codec cfg io) (s, Ready) tx = ((s', state'), r)"
  shows "json_inv sha s' \<and>
    (case r of
       Inr (Committed receipt) \<Rightarrow> state' = Ready \<and> as_receipts (json_abs s') (st_id tx) = Some receipt
     | Inr (UnknownOutcome t d) \<Rightarrow> state' = Frozen (pending_of tx) False
     | Inr _ \<Rightarrow> state' = Ready \<and> json_abs s' = json_abs s
     | Inl e \<Rightarrow> if err_kind e = CommitUnknown then state' = Frozen (pending_of tx) False
               else state' = Ready \<and> json_abs s' = json_abs s)"
  using js.store_commit_outcome [OF assms] js.definite_failure
  by (auto split: sum.splits commit_outcome.splits)

text \<open>C13: over the JSON store, whose barrier or cleanup failures leave commits indeterminate, one
  reconciliation after a blocking commit of a fresh transaction returns the machine to ready in
  the same process. Its verdict is right about the head in memory: committed exactly if the batch
  is in it, aborted exactly if it is unchanged. It is read from that head alone: the adapter
  neither reopens the store under its lock nor repeats the failed barrier first, so a verdict of
  committed, and with it new commits, can precede any proof that the document is durable. The
  design asks for the opposite: an unknown outcome and frozen writes until a locked reopen.\<close>

theorem blocked_commit_resolved:
  assumes "json_inv sha s" and "transaction_ok sha tx" and "as_receipts (json_abs s) (st_id tx) = None"
    and "store_commit (json_commit sha codec cfg io) (s, Ready) tx = ((s', state'), r)"
    and "is_blocked state'"
  shows "\<exists>answer. store_reconcile json_reconcile (s', state') = ((s', Ready), Ok answer) \<and>
    (answer = ReconcileCommitted (abs_receipt (json_abs s) tx) \<and> json_abs s' = abs_commit (json_abs s) tx \<or>
     answer = ReconcileAborted \<and> json_abs s' = json_abs s)"
  by (rule js.blocked_commit_reconciles [OF assms])

definition bad_cleanup_io :: json_io where
  "bad_cleanup_io = good_io\<lparr>jio_cleanup_ok := False\<rparr>"

theorem blocked_commit_resolved_witness:
  "\<exists>s' answer. store_reconcile json_reconcile (s', Frozen (pending_of sample_tx) False) = ((s', Ready), Ok answer)"
proof -
  have "\<exists>head'. json_commit sample_sha sample_codec sample_config bad_cleanup_io empty_head sample_tx =
      (head', Err (provider_error P_CommitUnknown StorageCommit))"
    by (simp add: json_commit_def empty_head_def good_io_def bad_cleanup_io_def sample_tx_def sample_config_def
        sample_codec_def document_build_def body_length_def computed_operation_digest_def checked_add_def
        sample_ops_def Let_def)
  then obtain head' where "json_commit sample_sha sample_codec sample_config bad_cleanup_io empty_head sample_tx =
      (head', Err (provider_error P_CommitUnknown StorageCommit))" by blast
  then have c: "store_commit (json_commit sample_sha sample_codec sample_config bad_cleanup_io) (empty_head, Ready)
      sample_tx = ((head', Frozen (pending_of sample_tx) False), Err (provider_error P_CommitUnknown StorageCommit))"
    by (simp add: machine_defs provider_error_def)
  have "as_receipts (json_abs empty_head) (st_id sample_tx) = None"
    by (simp add: json_abs_def table_abs_def empty_head_def)
  from blocked_commit_resolved [OF empty_head_inv sample_tx_ok this c]
  show ?thesis by (auto simp: is_blocked_def)
qed

text \<open>The two adapters are interchangeable: from states with the same contents, a
  transaction that both answer definitely gets the same answer and leaves the same contents.\<close>

lemma adapters_agree:
  assumes "json_inv sha head" "redb_inv db" "transaction_ok sha tx" "json_abs head = redb_abs db"
    and "json_commit sha codec cfg jio head tx = (head', Ok a)" "redb_commit sha rio db tx = (db', Ok b)"
    and "\<forall>t d. a \<noteq> UnknownOutcome t d" "\<forall>t d. b \<noteq> UnknownOutcome t d"
  shows "a = b \<and> json_abs head' = redb_abs db'"
  using js.commit_answer_ok [OF assms(1,3,5)] rd.commit_answer_ok [OF assms(2,3,6)] assms(4,7,8)
  by (auto simp: commit_spec_def split: option.splits if_split_asm)

text \<open>C37: cancelling a commit call does not cancel the commit. A dropped call lets the next
  reconciliation report the transaction aborted and reopen the machine, and the engine task,
  which the runtime still runs, can apply the same transaction afterwards.\<close>

theorem cancelled_commit_lands_after_abort:
  assumes "redb_inv db" and "transaction_ok sha tx" and "as_receipts (redb_abs db) (st_id tx) = None"
    and "abs_admissible sha (redb_abs db) tx" and "as_generation (redb_abs db) \<noteq> - 1"
  shows "\<exists>state db'. begin_commit Ready (pending_of tx) = Ok state \<and>
    store_reconcile redb_reconcile (db, call_drop state) = ((db, Ready), Ok ReconcileAborted) \<and>
    redb_commit sha no_faults db tx = (db', Ok (Committed (abs_receipt (redb_abs db) tx))) \<and>
    redb_abs db' = abs_commit (redb_abs db) tx"
proof -
  have "is_ascii (st_id tx)" using assms(2) by (simp add: transaction_ok_def)
  then have rec: "redb_reconcile db (st_id tx) (st_operation_digest tx) = Ok ReconcileAborted"
    using rd.reconcile_refines [OF assms(1)] assms(3) by (simp add: reconcile_spec_def)
  obtain db' where "redb_commit sha no_faults db tx = (db', Ok (Committed (abs_receipt (redb_abs db) tx)))"
    "redb_abs db' = abs_commit (redb_abs db) tx"
    by (rule redb_no_fault_lands [OF assms(1,2,5,3,4)])
  then show ?thesis using rec
    by (simp add: begin_commit_def call_drop_def store_reconcile_def begin_reconcile_def
        reconcile_complete_def finish_ready_def pending_of_def)
qed

theorem cancelled_commit_lands_after_abort_witness:
  "\<exists>db'. redb_commit sample_sha no_faults empty_db sample_tx = (db', Ok (Committed (abs_receipt (redb_abs empty_db) sample_tx))) \<and>
    redb_abs db' = abs_commit (redb_abs empty_db) sample_tx"
proof -
  have "as_generation (redb_abs empty_db) \<noteq> - 1" by (simp add: empty_db_generation(2))
  from cancelled_commit_lands_after_abort [OF empty_db_inv sample_tx_ok empty_db_receipts sample_tx_admissible this]
  show ?thesis by auto
qed

end
