(* ===== verification/Store_Snapshot.thy ===== *)
theory Store_Snapshot
  imports Metadata_Store
begin

text \<open>
  The storage interface as the metadata clients use it (the \<^verbatim>\<open>Storage\<close> and
  \<^verbatim>\<open>StoreSnapshot\<close> traits of \<^verbatim>\<open>src/src/provider.rs\<close>): conditional commits, and reads from a
  snapshot. A snapshot is an earlier state of the store. The record \<open>storage\<close> is the trait
  object; the locale \<open>snapshot_backend\<close> extends the commit contract by what reads return,
  and both adapters interpret it.
\<close>

record 's storage =
  so_commit :: "'s \<Rightarrow> store_transaction \<Rightarrow> 's \<times> commit_outcome result"
  so_revision :: "'s \<Rightarrow> store_revision result"
  so_get :: "'s \<Rightarrow> store_namespace \<Rightarrow> store_key \<Rightarrow> store_value option result"
  so_scan :: "'s \<Rightarrow> store_namespace \<Rightarrow> byte list \<Rightarrow> (store_key \<times> store_value) list"

definition redb_storage :: "(byte list \<Rightarrow> digest) \<Rightarrow> redb_io \<Rightarrow> redb_database storage" where
  "redb_storage sha io =
     \<lparr>so_commit = redb_commit sha io, so_revision = redb_snapshot_revision,
      so_get = (\<lambda>db ns key. Ok (redb_snapshot_get sha db ns key)), so_scan = redb_scan sha\<rparr>"

definition json_storage ::
  "(byte list \<Rightarrow> digest) \<Rightarrow> json_codec \<Rightarrow> json_config \<Rightarrow> json_io \<Rightarrow> json_head storage" where
  "json_storage sha codec cfg io =
     \<lparr>so_commit = json_commit sha codec cfg io, so_revision = (\<lambda>head. Ok (json_snapshot_revision head)),
      so_get = (\<lambda>head ns key. Ok (json_snapshot_get head ns key)), so_scan = json_scan\<rparr>"

section \<open>Later states\<close>

text \<open>Every state change of a store is an admissible commit, so the generation counts the
  changes: an equal revision means equal contents.\<close>

inductive later :: "(byte list \<Rightarrow> digest) \<Rightarrow> abs_store \<Rightarrow> abs_store \<Rightarrow> bool" for sha where
  later_refl: "later sha st st"
| later_commit: "later sha st st' \<Longrightarrow> as_generation st' \<noteq> - 1 \<Longrightarrow> later sha st (abs_commit st' tx)"

inductive_cases later_commitE: "later sha st st'"

lemma unat_add_one: "(g :: u64) \<noteq> - 1 \<Longrightarrow> unat (g + 1) = unat g + 1"
  using checked_add_Some [OF checked_add_one_Some] by simp

lemma later_generation:
  "later sha st st' \<Longrightarrow> unat (as_generation st) \<le> unat (as_generation st') \<and>
   (as_generation st = as_generation st' \<longrightarrow> st' = st)"
proof (induction rule: later.induct)
  case (later_commit st st' tx)
  then have "unat (as_generation st) < unat (as_generation (abs_commit st' tx))"
    by (simp add: unat_add_one)
  then show ?case by auto
qed simp

section \<open>The snapshot interface\<close>

locale snapshot_backend = store_backend sha inv abs "\<lambda>_ :: unit. so_commit so" reconcile
  for sha :: "byte list \<Rightarrow> digest" and inv :: "'s \<Rightarrow> bool" and abs :: "'s \<Rightarrow> abs_store"
    and so :: "'s storage" and reconcile :: "'s \<Rightarrow> transaction_id \<Rightarrow> digest \<Rightarrow> reconcile_outcome result" +
  assumes get_refines: "inv s \<Longrightarrow> namespace_ok ns \<Longrightarrow>
      so_get so s ns key = Ok (map_option (store_value_new sha) (as_entries (abs s) (ns, key)))"
    and revision_refines: "inv s \<Longrightarrow> so_revision so s = Ok (to_be_bytes_u64 (as_generation (abs s)))"
    and scan_refines: "inv s \<Longrightarrow> namespace_ok ns \<Longrightarrow>
      set (so_scan so s ns pre) =
        {(key, store_value_new sha v) | key v. as_entries (abs s) (ns, key) = Some v \<and> prefix pre key} \<and>
      sorted_wrt (<) (map fst (so_scan so s ns pre))"
begin

lemma get_expectation:
  assumes "inv s" "namespace_ok ns"
  shows "\<exists>e. snapshot_expectation (so_get so s ns key) = Ok e \<and>
    (abs_expectation sha (as_entries (abs s) (ns, key)) e)"
  using get_refines [OF assms, of key]
  by (cases "as_entries (abs s) (ns, key)") (simp_all add: snapshot_expectation_def store_value_new_def)

end

interpretation rs: snapshot_backend sha redb_inv redb_abs "redb_storage sha io" redb_reconcile
  for sha io
proof (unfold_locales, goal_cases)
  case (1 s tx io' s' r)
  then show ?case using rd.commit_inv by (simp add: redb_storage_def)
next
  case (2 s tx io' s' r)
  then show ?case using rd.commit_refines by (simp add: redb_storage_def)
next
  case (3 s t d)
  then show ?case by (rule rd.reconcile_refines)
next
  case (4 s t old)
  then show ?case by (rule rd.receipt_identity)
next
  case (5 s ns key)
  then show ?case
    by (simp add: redb_storage_def redb_snapshot_get_def redb_abs_def redb_tables_abs_def owned_value_def [abs_def])
next
  case (6 s)
  have "to_be_bytes_u64 g \<noteq> []" for g
    by (metis length_to_be(3) list.size(3) zero_neq_numeral)
  then show ?case using current_generation_ok [OF 6]
    by (auto simp: redb_storage_def redb_snapshot_revision_def redb_abs_def redb_tables_abs_def store_revision_new_def)
next
  case (7 s ns pre)
  then show ?case using redb_scan_exact [OF 7, of sha pre]
    by (auto simp: redb_storage_def redb_snapshot_get_def redb_abs_def redb_tables_abs_def owned_value_def)
qed

interpretation jss: snapshot_backend sha "json_inv sha" json_abs "json_storage sha codec cfg io" json_reconcile
  for sha codec cfg io
proof (unfold_locales, goal_cases)
  case (1 s tx io' s' r)
  then show ?case using js.commit_inv by (simp add: json_storage_def)
next
  case (2 s tx io' s' r)
  then show ?case using js.commit_refines by (simp add: json_storage_def)
next
  case (3 s t d)
  then show ?case by (rule js.reconcile_refines)
next
  case (4 s t old)
  then show ?case by (rule js.receipt_identity)
next
  case (5 s ns key)
  then show ?case
    by (cases "bt_get (jh_entries s) (ns, key)")
      (auto simp: json_storage_def json_snapshot_get_def json_abs_def table_abs_def json_inv_def store_value_new_def
        dest: tables_ok_value)
next
  case (6 s)
  then show ?case by (simp add: json_storage_def json_snapshot_revision_def json_abs_def table_abs_def)
next
  case (7 s ns pre)
  have v: "v = store_value_new sha (sv_value v)" if "bt_get (jh_entries s) k = Some v" for k v
    using that 7(1) by (cases v) (auto simp: json_inv_def store_value_new_def dest: tables_ok_value)
  have "(\<exists>b. as_entries (json_abs s) (ns, key) = Some b \<and> w = store_value_new sha b) \<longleftrightarrow> json_snapshot_get s ns key = Some w" for key w
    using v by (auto simp: json_snapshot_get_def json_abs_def table_abs_def)
  then have "{(key, store_value_new sha b) | key b. as_entries (json_abs s) (ns, key) = Some b \<and> prefix pre key} =
      {(key, w). json_snapshot_get s ns key = Some w \<and> prefix pre key}" by blast
  then show ?case using json_scan_exact [OF 7(1), of ns pre] by (simp add: json_storage_def)
qed

text \<open>The two adapters read alike: from states with the same contents a scan of a
  namespace under any prefix returns the same list, in ascending key order, although the
  redb engine's range runs on into later namespaces.\<close>

lemma scans_agree:
  assumes "json_inv sha head" "redb_inv db" "namespace_ok ns" "json_abs head = redb_abs db"
  shows "json_scan head ns pre = redb_scan sha db ns pre \<and>
    sorted_wrt (<) (map fst (redb_scan sha db ns pre)) \<and>
    set (redb_scan sha db ns pre) =
      {(key, store_value_new sha v) | key v. as_entries (redb_abs db) (ns, key) = Some v \<and> prefix pre key}"
proof -
  note r = rs.scan_refines [OF assms(2,3), of sha _ pre, unfolded redb_storage_def, simplified]
  note j = jss.scan_refines [OF assms(1,3), of _ _ _ pre, unfolded json_storage_def, simplified]
  have "bt_ok (json_scan head ns pre)" "bt_ok (redb_scan sha db ns pre)" using r j by (simp_all add: bt_ok_def)
  from bt_set_ext [OF this] r j assms(4) show ?thesis by simp
qed



end
