(* ===== verification/Receipts.thy ===== *)
theory Receipts
  imports Store_Snapshot
begin

text \<open>
  Prepared transactions and the receipt keys (\<^verbatim>\<open>src/src/storage/receipt.rs\<close>). Every transaction
  of the metadata store writes, besides the caller's operations, a permanent marker of its
  id in the internal namespace, which the caller's operations may not touch. The marker makes
  an id unusable for a second transaction even after its receipt has been forgotten. The keys
  of the reference index (head, edges and eligibility anchor of a receipt) live in the same
  namespace; the index itself is in \<open>Receipt_Index\<close>. Allocation failures are not modelled.
\<close>

section \<open>Keys\<close>

definition INTERNAL_NAMESPACE :: ustr where
  "INTERNAL_NAMESPACE = lit ''radiata.woooo.tech/metadata/receipt-internal-v1''"
definition USED_ID_TAG :: "byte list" where "USED_ID_TAG = 1 # as_bytes (lit ''used-id'') @ [0]"
definition ACTIVE_MARKER_VALUE :: "byte list" where "ACTIVE_MARKER_VALUE = []"
definition FORGOTTEN_MARKER_VALUE :: "byte list" where
  "FORGOTTEN_MARKER_VALUE = 1 # as_bytes (lit ''forgotten'') @ [0]"
definition REFERENCE_HEAD_TAG :: "byte list" where
  "REFERENCE_HEAD_TAG = 2 # as_bytes (lit ''reference-head'') @ [0]"
definition REFERENCE_EDGE_TAG :: "byte list" where
  "REFERENCE_EDGE_TAG = 3 # as_bytes (lit ''reference-edge'') @ [0]"
definition ELIGIBILITY_ANCHOR_TAG :: "byte list" where
  "ELIGIBILITY_ANCHOR_TAG = 4 # as_bytes (lit ''eligibility-anchor'') @ [0]"
definition EDGE_DELIMITER :: byte where "EDGE_DELIMITER = 0"

definition internal_namespace :: "(ustr \<Rightarrow> bool) \<Rightarrow> store_namespace result" where
  "internal_namespace dns = tag_parse dns INTERNAL_NAMESPACE"

definition tagged_transaction_key :: "byte list \<Rightarrow> transaction_id \<Rightarrow> store_key" where
  "tagged_transaction_key tag t = tag @ as_bytes t"

definition used_id_key :: "transaction_id \<Rightarrow> store_key" where
  "used_id_key t = tagged_transaction_key USED_ID_TAG t"

definition reference_head_key :: "transaction_id \<Rightarrow> store_key" where
  "reference_head_key t = tagged_transaction_key REFERENCE_HEAD_TAG t"

definition eligibility_anchor_key :: "transaction_id \<Rightarrow> store_key" where
  "eligibility_anchor_key t = tagged_transaction_key ELIGIBILITY_ANCHOR_TAG t"

definition reference_edge_prefix :: "transaction_id \<Rightarrow> byte list result" where
  "reference_edge_prefix t =
     (let transaction = as_bytes t
      in if length transaction < 2 ^ 16
         then Ok (REFERENCE_EDGE_TAG @ to_be_bytes_u16 (word_of_nat (length transaction)) @ transaction @ [EDGE_DELIMITER])
         else Err (resource_exhausted ''receipt reference key''))"

definition reference_edge_key :: "transaction_id \<Rightarrow> digest \<Rightarrow> store_key result" where
  "reference_edge_key t token = and_then (reference_edge_prefix t) (\<lambda>prefix. Ok (prefix @ token))"

section \<open>Prepared transactions\<close>

fun operation_uses_reserved_namespace :: "store_operation \<Rightarrow> bool" where
  "operation_uses_reserved_namespace (Check ns key e) = (tag_value ns = INTERNAL_NAMESPACE)"
| "operation_uses_reserved_namespace (Put ns key e v) = (tag_value ns = INTERNAL_NAMESPACE)"
| "operation_uses_reserved_namespace (Delete ns key d) = (tag_value ns = INTERNAL_NAMESPACE)"
| "operation_uses_reserved_namespace (ForgetReceipt t d) = True"

definition marker_value :: "(byte list \<Rightarrow> digest) \<Rightarrow> byte list \<Rightarrow> store_value" where
  "marker_value sha bytes = store_value_new sha bytes"

definition prepare_internal_transaction ::
  "(byte list \<Rightarrow> digest) \<Rightarrow> (ustr \<Rightarrow> bool) \<Rightarrow> transaction_id \<Rightarrow> store_revision \<Rightarrow> store_operation list \<Rightarrow>
   store_transaction result" where
  "prepare_internal_transaction sha dns t base ops =
     and_then (internal_namespace dns) (\<lambda>ns.
       store_transaction_new sha t base
         (ops @ [Put ns (used_id_key t) Absent (marker_value sha ACTIVE_MARKER_VALUE)]))"

definition prepare_transaction ::
  "(byte list \<Rightarrow> digest) \<Rightarrow> (ustr \<Rightarrow> bool) \<Rightarrow> transaction_id \<Rightarrow> store_revision \<Rightarrow> store_operation list \<Rightarrow>
   store_transaction result" where
  "prepare_transaction sha dns t base caller_ops =
     (if list_ex operation_uses_reserved_namespace caller_ops
      then Err (invalid_input ''metadata storage reserved namespace'')
      else prepare_internal_transaction sha dns t base caller_ops)"

lemma store_value_new_simps [simp]:
  "sv_value (store_value_new sha b) = b" "sv_digest (store_value_new sha b) = digest_store_value sha b"
  by (simp_all add: store_value_new_def)

section \<open>The internal namespace\<close>

definition internal_ns :: store_namespace where
  "internal_ns = builtin_tag ''metadata'' ''receipt-internal-v1''"

abbreviation marker_put :: "(byte list \<Rightarrow> digest) \<Rightarrow> transaction_id \<Rightarrow> store_operation" where
  "marker_put sha t \<equiv> Put internal_ns (used_id_key t) Absent (marker_value sha ACTIVE_MARKER_VALUE)"

lemma internal_namespace_Ok: "dns BUILTIN_DOMAIN \<Longrightarrow> internal_namespace dns = Ok internal_ns"
  using builtin_text_parse [of dns "''metadata''" "''receipt-internal-v1''"]
  by (simp add: internal_ns_def internal_namespace_def INTERNAL_NAMESPACE_def name_component_defs CATEGORY_CRYPTO_def)

lemma internal_ns_ok: "namespace_ok internal_ns"
  unfolding internal_ns_def by (rule namespace_ok_make_tag) (simp_all add: BUILTIN_DOMAIN_def LENGTH_BOUND_def)

lemma internal_ns_value: "tag_value internal_ns = INTERNAL_NAMESPACE"
  by (simp add: internal_ns_def INTERNAL_NAMESPACE_def BUILTIN_DOMAIN_def)

lemma prepare_internal_Ok:
  assumes "dns BUILTIN_DOMAIN" "prepare_internal_transaction sha dns t base ops = Ok tx"
  shows "st_id tx = t" "st_base_revision tx = base" "st_operations tx = ops @ [marker_put sha t]"
    "st_operation_digest tx = digest_store_operations sha base (ops @ [marker_put sha t])"
    "distinct (map operation_identity_of (ops @ [marker_put sha t]))"
  using assms by (auto simp: prepare_internal_transaction_def internal_namespace_Ok store_transaction_new_Ok)

lemma prepare_Ok:
  assumes "prepare_transaction sha dns t base ops = Ok tx"
  shows "prepare_internal_transaction sha dns t base ops = Ok tx" "\<not> list_ex operation_uses_reserved_namespace ops"
  using assms by (auto simp: prepare_transaction_def split: if_split_asm)

lemma prepared_ok:
  assumes "dns BUILTIN_DOMAIN" "prepare_internal_transaction sha dns t base ops = Ok tx" "is_ascii t"
    and "list_all (operation_ok sha) ops" "\<And>bytes. length (sha bytes) = 32"
  shows "transaction_ok sha tx"
  using prepare_internal_Ok [OF assms(1,2)] assms(3-) internal_ns_ok
  by (simp add: transaction_ok_def digest_store_operations_def marker_value_def store_value_new_def)

lemma used_id_key_inj: "is_ascii t \<Longrightarrow> is_ascii u \<Longrightarrow> used_id_key t = used_id_key u \<longleftrightarrow> t = u"
  using as_bytes_inj [of t u] by (auto simp: used_id_key_def tagged_transaction_key_def)

text \<open>The receipts a batch leaves alone.\<close>

lemma abs_apply_receipts:
  "ReceiptId t \<notin> set (map operation_identity_of ops) \<Longrightarrow>
   as_receipts (fold abs_apply ops st) t = as_receipts st t"
proof (induction ops arbitrary: st)
  case (Cons op ops)
  then show ?case by (cases op) auto
qed simp

lemma reserved_identity:
  assumes "\<not> list_ex operation_uses_reserved_namespace ops"
  shows "KeyId internal_ns key \<notin> set (map operation_identity_of ops)" "ReceiptId t \<notin> set (map operation_identity_of ops)"
proof -
  have "operation_identity_of op \<noteq> KeyId internal_ns key \<and> operation_identity_of op \<noteq> ReceiptId t" if "op \<in> set ops" for op
    using assms that internal_ns_value by (cases op) (auto simp: list_ex_iff)
  then show "KeyId internal_ns key \<notin> set (map operation_identity_of ops)" "ReceiptId t \<notin> set (map operation_identity_of ops)"
    by fastforce+
qed

section \<open>Committing a prepared transaction\<close>

context snapshot_backend
begin

text \<open>A prepared batch through the commit machine: either nothing changes, or the snapshot it
  was prepared on was current, its id was unused, and the whole batch is applied.\<close>

lemma prepared_batch:
  assumes "inv snap" "inv s" "later sha (abs snap) (abs s)" "dns BUILTIN_DOMAIN"
    and "prepare_internal_transaction sha dns t base ops = Ok tx" "transaction_ok sha tx"
    and "so_revision so snap = Ok base"
    and "store_commit (so_commit so) (s, state) tx = ((s', state'), r)"
  shows "inv s' \<and> (abs s' = abs s \<or>
      state = Ready \<and> abs snap = abs s \<and> abs s' = abs_commit (abs s) tx \<and> as_generation (abs s) \<noteq> - 1 \<and>
      as_receipts (abs s) t = None \<and> as_entries (abs s) (internal_ns, used_id_key t) = None \<and>
      list_all (abs_condition sha (abs s)) ops)"
proof (cases state)
  case Ready
  with assms(8) have sc: "store_commit (so_commit so) (s, Ready) tx = ((s', state'), r)" by simp
  then obtain a where c: "so_commit so s tx = (s', a)"
    by (auto simp: store_commit_def begin_commit_def split: prod.splits)
  have i: "inv s'" by (rule commit_inv [OF assms(2,6) c])
  note p = prepare_internal_Ok [OF assms(4,5)]
  have base: "st_base_revision tx = to_be_bytes_u64 (as_generation (abs snap))"
    using assms(7) revision_refines [OF assms(1)] p(2) by simp
  from commit_effect [OF assms(2,6) c] show ?thesis
  proof
    assume "abs s' = abs s"
    with i show ?thesis by simp
  next
    assume e: "as_receipts (abs s) (st_id tx) = None \<and> abs_admissible sha (abs s) tx \<and> abs s' = abs_commit (abs s) tx"
    then have "to_be_bytes_u64 (as_generation (abs snap)) = to_be_bytes_u64 (as_generation (abs s))"
      using base by (simp add: abs_admissible_def)
    then have "as_generation (abs snap) = as_generation (abs s)" by (rule to_be_bytes_u64_inj)
    then have cur: "abs s = abs snap" using later_generation [OF assms(3)] by simp
    have cond: "list_all (abs_condition sha (abs s)) ops"
      "abs_expectation sha (as_entries (abs s) (internal_ns, used_id_key t)) Absent"
      using e p(3) by (simp_all add: abs_admissible_def)
    then have "as_entries (abs s) (internal_ns, used_id_key t) = None"
      by (cases "as_entries (abs s) (internal_ns, used_id_key t)") simp_all
    moreover have "as_generation (abs s) \<noteq> - 1 \<or> abs s' = abs s"
      using commit_refines [OF assms(2,6) c] by (auto simp: atomic_step_def commit_spec_def split: option.splits if_split_asm)
    ultimately show ?thesis using e i Ready cur cond p(1) by auto
  qed
next
  case (Frozen p b)
  with assms(2,8) show ?thesis by (simp add: store_commit_def begin_commit_def)
qed

text \<open>A commit with a fresh id is answered \<open>Committed\<close> only when it takes effect, and a conflict or
  a clean failure leaves the store unchanged.\<close>

lemma commit_answer:
  assumes "inv s" "transaction_ok sha tx" "as_receipts (abs s) (st_id tx) = None"
    and "store_commit (so_commit so) (s, state) tx = ((s', state'), r)"
  shows "case r of
      Inr (Committed receipt) \<Rightarrow> abs s' \<noteq> abs s
    | Inr (UnknownOutcome _ _) \<Rightarrow> True
    | Inr _ \<Rightarrow> abs s' = abs s
    | Inl e \<Rightarrow> clean_failure sha inv abs (so_commit so) e \<longrightarrow> abs s' = abs s"
proof (cases state)
  case Ready
  with assms(4) have "store_commit (so_commit so) (s, Ready) tx = ((s', state'), r)" by simp
  from store_commit_outcome [OF assms(1,2) this] assms(3) show ?thesis
    by (auto split: sum.splits commit_outcome.splits)
next
  case (Frozen p b)
  with assms(4) show ?thesis by (auto simp: store_commit_def begin_commit_def)
qed

text \<open>The effect of a caller's batch outside the internal namespace.\<close>

lemma caller_batch:
  assumes "dns BUILTIN_DOMAIN" "prepare_transaction sha dns t base ops = Ok tx"
  shows "ns \<noteq> internal_ns \<Longrightarrow> as_entries (abs_commit st tx) (ns, key) = as_entries (fold abs_apply ops st) (ns, key)"
    and "u \<noteq> t \<Longrightarrow> as_receipts (abs_commit st tx) u = as_receipts st u"
    and "key \<noteq> used_id_key t \<Longrightarrow> as_entries (abs_commit st tx) (internal_ns, key) = as_entries st (internal_ns, key)"
    and "as_entries (abs_commit st tx) (internal_ns, used_id_key t) = Some ACTIVE_MARKER_VALUE"
proof -
  note p = prepare_internal_Ok [OF assms(1) prepare_Ok(1) [OF assms(2)]]
  note r = reserved_identity [OF prepare_Ok(2) [OF assms(2)]]
  show "ns \<noteq> internal_ns \<Longrightarrow> as_entries (abs_commit st tx) (ns, key) = as_entries (fold abs_apply ops st) (ns, key)"
    by (simp add: abs_commit_def p(3) Let_def)
  show "u \<noteq> t \<Longrightarrow> as_receipts (abs_commit st tx) u = as_receipts st u"
    using abs_apply_receipts [OF r(2)] by (simp add: abs_commit_def p(1,3) Let_def)
  show "key \<noteq> used_id_key t \<Longrightarrow> as_entries (abs_commit st tx) (internal_ns, key) = as_entries st (internal_ns, key)"
    using abs_apply_untouched [OF r(1)] by (simp add: abs_commit_def p(3) Let_def)
  show "as_entries (abs_commit st tx) (internal_ns, used_id_key t) = Some ACTIVE_MARKER_VALUE"
    by (simp add: abs_commit_def p(3) Let_def marker_value_def store_value_new_def)
qed

text \<open>A caller's single write: exactly its key and the marker of its id change.\<close>

lemma caller_write:
  assumes "inv snap" "inv s" "later sha (abs snap) (abs s)" "dns BUILTIN_DOMAIN"
    and "prepare_transaction sha dns t base [op] = Ok tx" "transaction_ok sha tx" "op_effect op = Some (ns, key, v)"
    and "so_revision so snap = Ok base" "store_commit (so_commit so) (s, state) tx = ((s', state'), r)"
  shows "inv s' \<and> (abs s' = abs s \<or>
      abs snap = abs s \<and> as_generation (abs s) \<noteq> - 1 \<and> abs s' = abs_commit (abs s) tx \<and>
      as_entries (abs s') =
        (as_entries (abs s))((ns, key) := v, (internal_ns, used_id_key t) := Some ACTIVE_MARKER_VALUE))"
proof -
  note b = prepared_batch [OF assms(1-4) prepare_Ok(1) [OF assms(5)] assms(6,8,9)]
  have "as_entries (abs_commit st tx) =
      (as_entries st)((ns, key) := v, (internal_ns, used_id_key t) := Some ACTIVE_MARKER_VALUE)" for st
    using assms(7) prepare_internal_Ok(3) [OF assms(4) prepare_Ok(1) [OF assms(5)]]
    by (cases op) (auto simp: abs_commit_def marker_value_def store_value_new_def)
  with b show ?thesis by auto
qed

end

text \<open>Over redb without engine faults a prepared batch whose conditions hold takes effect.\<close>

lemma redb_internal_lands:
  assumes "redb_inv s" "dns BUILTIN_DOMAIN" "\<And>bytes. length (sha bytes) = 32" "is_ascii t" "as_receipts (redb_abs s) t = None"
    and "as_entries (redb_abs s) (internal_ns, used_id_key t) = None" "list_all (operation_ok sha) ops"
    and "distinct (map operation_identity_of (ops @ [marker_put sha t]))" "list_all (abs_condition sha (redb_abs s)) ops"
    and "as_generation (redb_abs s) \<noteq> - 1"
  obtains tx s' where "prepare_internal_transaction sha dns t (to_be_bytes_u64 (as_generation (redb_abs s))) ops = Ok tx"
    "store_commit (so_commit (redb_storage sha no_faults)) (s, Ready) tx = ((s', Ready), Ok (Committed (abs_receipt (redb_abs s) tx)))"
    "redb_inv s'" "redb_abs s' = abs_commit (redb_abs s) tx" "st_id tx = t" "st_operations tx = ops @ [marker_put sha t]"
proof -
  obtain tx where tx: "prepare_internal_transaction sha dns t (to_be_bytes_u64 (as_generation (redb_abs s))) ops = Ok tx"
    using assms(8) by (auto simp: prepare_internal_transaction_def internal_namespace_Ok [of dns, OF assms(2)] store_transaction_new_Ok)
  note p = prepare_internal_Ok [OF assms(2) tx]
  have ok: "transaction_ok sha tx" by (rule prepared_ok [OF assms(2) tx assms(4,7,3)])
  have adm: "abs_admissible sha (redb_abs s) tx"
    using assms(6,9) p(2-4) by (simp add: abs_admissible_def computed_operation_digest_def)
  obtain s' where c: "redb_commit sha no_faults s tx = (s', Ok (Committed (abs_receipt (redb_abs s) tx)))"
    "redb_inv s'" "redb_abs s' = abs_commit (redb_abs s) tx"
    using redb_no_fault_lands [OF assms(1) ok assms(10) _ adm] assms(5) p(1) by metis
  have "store_commit (so_commit (redb_storage sha no_faults)) (s, Ready) tx = ((s', Ready), Ok (Committed (abs_receipt (redb_abs s) tx)))"
    using c(1) by (simp add: redb_storage_def machine_defs)
  from that [OF tx this] c p show ?thesis by simp
qed

text \<open>An endless supply of transaction ids: from index \<open>i\<close> on each is new to the store and no
  index repeats another.\<close>

definition fresh_supply :: "abs_store \<Rightarrow> (nat \<Rightarrow> transaction_id result) \<Rightarrow> nat \<Rightarrow> bool" where
  "fresh_supply st tids i \<longleftrightarrow> (\<forall>j\<ge>i. \<exists>t. tids j = Ok t \<and> is_ascii t \<and> as_receipts st t = None \<and>
     as_entries st (internal_ns, used_id_key t) = None \<and> (\<forall>k. tids k = Ok t \<longrightarrow> k = j))"

lemma supplied_batch_lands:
  assumes "redb_inv s" "dns BUILTIN_DOMAIN" "\<And>bytes. length (sha bytes) = 32" "fresh_supply (redb_abs s) tids i"
    and "list_all (operation_ok sha) ops" "\<not> list_ex operation_uses_reserved_namespace ops"
    and "distinct (map operation_identity_of ops)" "list_all (abs_condition sha (redb_abs s)) ops"
    and "as_generation (redb_abs s) \<noteq> - 1"
  obtains t tx receipt s' where "tids i = Ok t" "prepare_transaction sha dns t (to_be_bytes_u64 (as_generation (redb_abs s))) ops = Ok tx"
    "store_commit (so_commit (redb_storage sha no_faults)) (s, Ready) tx = ((s', Ready), Ok (Committed receipt))"
    "redb_inv s'" "as_generation (redb_abs s') = as_generation (redb_abs s) + 1" "fresh_supply (redb_abs s') tids (i + 1)"
    "\<And>ns key. ns \<noteq> internal_ns \<Longrightarrow> as_entries (redb_abs s') (ns, key) = as_entries (fold abs_apply ops (redb_abs s)) (ns, key)"
proof -
  obtain t where t: "tids i = Ok t" "is_ascii t" "as_receipts (redb_abs s) t = None" "as_entries (redb_abs s) (internal_ns, used_id_key t) = None"
    "\<And>k. tids k = Ok t \<Longrightarrow> k = i" using assms(4) unfolding fresh_supply_def by blast
  have d: "distinct (map operation_identity_of (ops @ [marker_put sha t]))"
    using assms(7) reserved_identity(1) [OF assms(6), of "used_id_key t"] by simp
  obtain tx s' where l: "prepare_internal_transaction sha dns t (to_be_bytes_u64 (as_generation (redb_abs s))) ops = Ok tx"
    "store_commit (so_commit (redb_storage sha no_faults)) (s, Ready) tx = ((s', Ready), Ok (Committed (abs_receipt (redb_abs s) tx)))"
    "redb_inv s'" "redb_abs s' = abs_commit (redb_abs s) tx" "st_id tx = t" "st_operations tx = ops @ [marker_put sha t]"
    by (rule redb_internal_lands [where dns = dns and sha = sha, OF assms(1-3) t(2-4) assms(5) d assms(8,9)])
  have p: "prepare_transaction sha dns t (to_be_bytes_u64 (as_generation (redb_abs s))) ops = Ok tx"
    using l(1) assms(6) by (simp add: prepare_transaction_def)
  note cb = rs.caller_batch [where dns = dns, OF assms(2) p]
  have fresh: "fresh_supply (redb_abs s') tids (i + 1)"
    unfolding fresh_supply_def
  proof (intro allI impI)
    fix j assume j: "i + 1 \<le> j"
    then obtain u where u: "tids j = Ok u" "is_ascii u" "as_receipts (redb_abs s) u = None"
      "as_entries (redb_abs s) (internal_ns, used_id_key u) = None" "\<forall>k. tids k = Ok u \<longrightarrow> k = j"
      using assms(4) unfolding fresh_supply_def by (meson add_leD1)
    have "u \<noteq> t" using u(5) t(1) j by auto
    then have k: "used_id_key u \<noteq> used_id_key t" using used_id_key_inj [OF u(2) t(2)] by simp
    have r: "as_receipts (redb_abs s') u = None" "as_entries (redb_abs s') (internal_ns, used_id_key u) = None"
      unfolding l(4) cb(2) [OF \<open>u \<noteq> t\<close>] cb(3) [OF k] by (rule u(3), rule u(4))
    show "\<exists>t. tids j = Ok t \<and> is_ascii t \<and> as_receipts (redb_abs s') t = None \<and>
        as_entries (redb_abs s') (internal_ns, used_id_key t) = None \<and> (\<forall>k. tids k = Ok t \<longrightarrow> k = j)"
      by (intro exI [of _ u] conjI u(1,2,5) r)
  qed
  show ?thesis
  proof (rule that [OF t(1) p l(2,3) _ fresh])
    show "as_generation (redb_abs s') = as_generation (redb_abs s) + 1" by (simp add: l(4))
    show "as_entries (redb_abs s') (ns, key) = as_entries (fold abs_apply ops (redb_abs s)) (ns, key)" if "ns \<noteq> internal_ns" for ns key
      unfolding l(4) by (rule cb(1) [OF that])
  qed
qed

end
