(* ===== verification/Signatures.thy ===== *)
theory Signatures
  imports Relay_Prelude
begin

text \<open>
  Domain-separated signatures over canonical bodies (\<^verbatim>\<open>src/src/identity/signature.rs\<close>) and
  role-separated credential proofs (\<^verbatim>\<open>src/src/protocol/credential.rs\<close>). SHA-256, strict
  Ed25519 verification, HKDF-SHA256 and HMAC-SHA256 are arguments.
\<close>

definition body_digest :: "(byte list \<Rightarrow> digest) \<Rightarrow> byte list \<Rightarrow> digest" where
  "body_digest sha canonical_body = sha canonical_body"

definition signature_message :: "(byte list \<Rightarrow> digest) \<Rightarrow> byte list \<Rightarrow> byte list \<Rightarrow> byte list" where
  "signature_message sha domain canonical_body = domain @ body_digest sha canonical_body"

text \<open>\<open>ed25519 key message signature\<close> is strict verification.\<close>

definition verify_strict ::
  "(byte list \<Rightarrow> digest) \<Rightarrow> (byte list \<Rightarrow> byte list \<Rightarrow> byte list \<Rightarrow> bool) \<Rightarrow> byte list \<Rightarrow> byte list \<Rightarrow> byte list \<Rightarrow> byte list \<Rightarrow>
   string \<Rightarrow> unit result" where
  "verify_strict sha ed25519 domain canonical_body public_key signature ctx =
     (if ed25519 public_key (signature_message sha domain canonical_body) signature then Ok ()
      else Err (authentication_failed ctx))"

section \<open>Credential proofs\<close>

definition RESPONDER_KEY_INFO :: "byte list" where
  "RESPONDER_KEY_INFO = as_bytes (lit ''radiata.woooo.tech/crypto/bootstrap-v1-responder'')"
definition INITIATOR_KEY_INFO :: "byte list" where
  "INITIATOR_KEY_INFO = as_bytes (lit ''radiata.woooo.tech/crypto/bootstrap-v1-initiator'')"
definition PROOF_LEN :: nat where "PROOF_LEN = 32"

datatype proof_role = ResponderRole | InitiatorRole

fun proof_info :: "proof_role \<Rightarrow> byte list" where
  "proof_info ResponderRole = RESPONDER_KEY_INFO"
| "proof_info InitiatorRole = INITIATOR_KEY_INFO"

record proof_provider =
  pp_hkdf :: "byte list \<Rightarrow> byte list \<Rightarrow> byte list \<Rightarrow> byte list option"
  pp_hmac :: "byte list \<Rightarrow> byte list \<Rightarrow> byte list option"

definition role_key :: "proof_provider \<Rightarrow> byte list \<Rightarrow> byte list \<Rightarrow> byte list \<Rightarrow> byte list result" where
  "role_key pp channel_binding secret info =
     ok_or (pp_hkdf pp channel_binding secret info) (internal ''credential proof kdf'')"

definition proof_mac :: "proof_provider \<Rightarrow> byte list \<Rightarrow> digest \<Rightarrow> byte list result" where
  "proof_mac pp key transcript_digest = ok_or (pp_hmac pp key transcript_digest) (internal ''credential proof mac'')"

definition derive_proof ::
  "proof_provider \<Rightarrow> proof_role \<Rightarrow> byte list \<Rightarrow> byte list \<Rightarrow> digest \<Rightarrow> byte list result" where
  "derive_proof pp role channel_binding secret transcript_digest =
     and_then (role_key pp channel_binding secret (proof_info role)) (\<lambda>key. proof_mac pp key transcript_digest)"

definition verify_proof ::
  "proof_provider \<Rightarrow> proof_role \<Rightarrow> byte list \<Rightarrow> byte list \<Rightarrow> digest \<Rightarrow> byte list \<Rightarrow> bool result" where
  "verify_proof pp role channel_binding secret transcript_digest expected =
     and_then (role_key pp channel_binding secret (proof_info role)) (\<lambda>key.
     and_then (proof_mac pp key transcript_digest) (\<lambda>mac. Ok (mac = expected)))"

lemma verify_proof_iff:
  "verify_proof pp role cb secret d p = Ok True \<longleftrightarrow> derive_proof pp role cb secret d = Ok p"
  by (auto simp: verify_proof_def derive_proof_def and_then_Ok_iff)

end
