(* ===== verification/Resource_Record.thy ===== *)
theory Resource_Record
  imports Labels Identifiers Signatures
begin

text \<open>
  Signed multiwriter resource records (\<^verbatim>\<open>src/src/resource/mod.rs\<close>, over the signatures of \<open>Signatures\<close>): names, reserved and custom labels,
  the canonical body and record, sealing, decoding with the digest check, verification and
  the tuple order. The canonical CBOR encoders and the strict decoder, SHA-256, the
  host name grammar and Ed25519 verification are the fields of \<open>record_codec\<close>.
\<close>

definition RESOURCE_RECORD_SCHEMA :: ustr where
  "RESOURCE_RECORD_SCHEMA = lit ''radiata.woooo.tech/schemas/resource-record-v1''"
definition RESOURCE_RECORD_V1_DOMAIN :: "byte list" where
  "RESOURCE_RECORD_V1_DOMAIN = as_bytes (lit ''radiata.woooo.tech/crypto/resource-record-v1'')"
definition RECORD_VERSION :: u16 where "RECORD_VERSION = 1"

definition resource_name_parse :: "(ustr \<Rightarrow> bool) \<Rightarrow> ustr \<Rightarrow> qualified_tag result" where
  "resource_name_parse dns value =
     and_then (tag_parse dns value) (\<lambda>tag.
       if tag_category tag \<noteq> lit ''resources'' then Err (invalid_input ''resource name'') else Ok tag)"

definition resource_uri_parse :: "ustr \<Rightarrow> ustr result" where
  "resource_uri_parse value =
     (if value = [] \<or> str_len value > LABEL_VALUE_MAX_BYTES
      then Err (invalid_input ''resource uri'') else Ok value)"

record resource_labels =
  rl_type :: label_value
  rl_uri :: ustr
  rl_custom :: label_set

definition resource_labels_new :: "label_value \<Rightarrow> ustr \<Rightarrow> resource_labels" where
  "resource_labels_new resource_type uri = \<lparr>rl_type = resource_type, rl_uri = uri, rl_custom = label_set_new\<rparr>"

definition resource_labels_custom ::
  "resource_labels \<Rightarrow> label_key \<Rightarrow> label_value \<Rightarrow> resource_labels result" where
  "resource_labels_custom labels key value =
     and_then (label_set_insert (rl_custom labels) key value) (\<lambda>custom. Ok (labels\<lparr>rl_custom := custom\<rparr>))"

section \<open>Records\<close>

text \<open>The wire record extends the signed body by its digest and signature.\<close>

record resource_body =
  rb_schema :: ustr
  rb_version :: u16
  rb_cluster :: ustr
  rb_name :: ustr
  rb_type :: ustr
  rb_uri :: ustr
  rb_labels :: "(ustr \<times> ustr) list"
  rb_timestamp :: u64
  rb_writer :: ustr
  rb_rank :: u64
  rb_removed :: bool

record resource_wire = resource_body +
  rw_digest :: "byte list"
  rw_signature :: "byte list"

record resource_record =
  rr_cluster :: ustr
  rr_name :: qualified_tag
  rr_type :: label_value
  rr_uri :: ustr
  rr_labels :: label_set
  rr_timestamp :: u64
  rr_writer :: ustr
  rr_rank :: u64
  rr_removed :: bool
  rr_digest :: digest
  rr_signature :: "byte list"

record record_codec =
  rc_dns :: "ustr \<Rightarrow> bool"
  rc_sha :: "byte list \<Rightarrow> digest"
  rc_encode_body :: "resource_body \<Rightarrow> byte list result"
  rc_encode :: "resource_wire \<Rightarrow> byte list result"
  rc_decode :: "byte list \<Rightarrow> resource_wire result"
  rc_ed25519 :: "byte list \<Rightarrow> byte list \<Rightarrow> byte list \<Rightarrow> bool"

definition label_entries :: "label_set \<Rightarrow> (ustr \<times> ustr) list" where
  "label_entries s = map (\<lambda>(key, value). (tag_value key, value)) (ls_entries s)"

definition encode_signed_body ::
  "record_codec \<Rightarrow> ustr \<Rightarrow> qualified_tag \<Rightarrow> label_value \<Rightarrow> ustr \<Rightarrow> label_set \<Rightarrow> u64 \<Rightarrow> ustr \<Rightarrow> u64 \<Rightarrow> bool \<Rightarrow> byte list result" where
  "encode_signed_body c cluster name resource_type uri labels timestamp writer rank removed =
     rc_encode_body c
       \<lparr>rb_schema = RESOURCE_RECORD_SCHEMA, rb_version = RECORD_VERSION, rb_cluster = cluster,
        rb_name = tag_value name, rb_type = resource_type, rb_uri = uri, rb_labels = label_entries labels,
        rb_timestamp = timestamp, rb_writer = writer, rb_rank = rank, rb_removed = removed\<rparr>"

definition seal_prepared ::
  "record_codec \<Rightarrow> byte list \<Rightarrow> ustr \<Rightarrow> qualified_tag \<Rightarrow> label_value \<Rightarrow> ustr \<Rightarrow> label_set \<Rightarrow> u64 \<Rightarrow> ustr \<Rightarrow> u64 \<Rightarrow> bool \<Rightarrow>
   byte list \<Rightarrow> resource_record" where
  "seal_prepared c body cluster name resource_type uri labels timestamp writer rank removed signature =
     \<lparr>rr_cluster = cluster, rr_name = name, rr_type = resource_type, rr_uri = uri, rr_labels = labels,
      rr_timestamp = timestamp, rr_writer = writer, rr_rank = rank, rr_removed = removed,
      rr_digest = body_digest (rc_sha c) body, rr_signature = signature\<rparr>"

definition record_seal ::
  "record_codec \<Rightarrow> ustr \<Rightarrow> qualified_tag \<Rightarrow> label_value \<Rightarrow> ustr \<Rightarrow> label_set \<Rightarrow> u64 \<Rightarrow> ustr \<Rightarrow> u64 \<Rightarrow> bool \<Rightarrow>
   byte list \<Rightarrow> resource_record result" where
  "record_seal c cluster name resource_type uri labels timestamp writer rank removed signature =
     and_then (encode_signed_body c cluster name resource_type uri labels timestamp writer rank removed) (\<lambda>body.
       Ok (seal_prepared c body cluster name resource_type uri labels timestamp writer rank removed signature))"

text \<open>Signing goes through the key provider, which may fail.\<close>

definition sign_with_provider ::
  "record_codec \<Rightarrow> (byte list \<Rightarrow> byte list result) \<Rightarrow> ustr \<Rightarrow> qualified_tag \<Rightarrow> label_value \<Rightarrow> ustr \<Rightarrow> label_set \<Rightarrow>
   u64 \<Rightarrow> ustr \<Rightarrow> u64 \<Rightarrow> bool \<Rightarrow> resource_record result" where
  "sign_with_provider c sign cluster name resource_type uri labels timestamp writer rank removed =
     and_then (encode_signed_body c cluster name resource_type uri labels timestamp writer rank removed) (\<lambda>body.
     and_then (sign (signature_message (rc_sha c) RESOURCE_RECORD_V1_DOMAIN body)) (\<lambda>signature.
       Ok (seal_prepared c body cluster name resource_type uri labels timestamp writer rank removed signature)))"

definition signed_body :: "record_codec \<Rightarrow> resource_record \<Rightarrow> byte list result" where
  "signed_body c r =
     encode_signed_body c (rr_cluster r) (rr_name r) (rr_type r) (rr_uri r) (rr_labels r) (rr_timestamp r)
       (rr_writer r) (rr_rank r) (rr_removed r)"

definition record_wire :: "resource_record \<Rightarrow> resource_wire" where
  "record_wire r =
     \<lparr>rb_schema = RESOURCE_RECORD_SCHEMA, rb_version = RECORD_VERSION, rb_cluster = rr_cluster r,
      rb_name = tag_value (rr_name r), rb_type = rr_type r, rb_uri = rr_uri r,
      rb_labels = label_entries (rr_labels r), rb_timestamp = rr_timestamp r, rb_writer = rr_writer r,
      rb_rank = rr_rank r, rb_removed = rr_removed r, rw_digest = rr_digest r, rw_signature = rr_signature r\<rparr>"

definition record_encode :: "record_codec \<Rightarrow> resource_record \<Rightarrow> byte list result" where
  "record_encode c r = rc_encode c (record_wire r)"

primrec decode_labels :: "record_codec \<Rightarrow> (ustr \<times> ustr) list \<Rightarrow> label_set \<Rightarrow> label_set result" where
  "decode_labels c [] labels = Ok labels"
| "decode_labels c (e # es) labels =
     and_then (label_key_parse (rc_dns c) (fst e)) (\<lambda>key.
     and_then (label_value_parse (snd e)) (\<lambda>value.
     and_then (label_set_insert labels key value) (\<lambda>labels'.
       decode_labels c es labels')))"

definition record_decode :: "record_codec \<Rightarrow> byte list \<Rightarrow> resource_record result" where
  "record_decode c bytes =
     and_then (rc_decode c bytes) (\<lambda>w.
     if rb_schema w \<noteq> RESOURCE_RECORD_SCHEMA \<or> rb_version w \<noteq> RECORD_VERSION
     then Err (invalid_input ''resource record schema'')
     else
     and_then (id_parse ClusterId (rb_cluster w)) (\<lambda>cluster.
     and_then (resource_name_parse (rc_dns c) (rb_name w)) (\<lambda>name.
     and_then (label_value_parse (rb_type w)) (\<lambda>resource_type.
     and_then (resource_uri_parse (rb_uri w)) (\<lambda>uri.
     and_then (decode_labels c (rb_labels w) label_set_new) (\<lambda>labels.
     and_then (id_parse NodeId (rb_writer w)) (\<lambda>writer.
     and_then (guard_or (length (rw_digest w) = 32) (invalid_input ''resource record digest'')) (\<lambda>_.
     and_then (guard_or (length (rw_signature w) = 64) (invalid_input ''resource record signature'')) (\<lambda>_.
     let r = \<lparr>rr_cluster = cluster, rr_name = name, rr_type = resource_type, rr_uri = uri, rr_labels = labels,
              rr_timestamp = rb_timestamp w, rr_writer = writer, rr_rank = rb_rank w, rr_removed = rb_removed w,
              rr_digest = rw_digest w, rr_signature = rw_signature w\<rparr>
     in and_then (signed_body c r) (\<lambda>body.
        if body_digest (rc_sha c) body \<noteq> rr_digest r then Err (invalid_input ''resource record digest'')
        else Ok r))))))))))"

definition record_verify :: "record_codec \<Rightarrow> resource_record \<Rightarrow> byte list \<Rightarrow> unit result" where
  "record_verify c r writer_key =
     and_then (signed_body c r) (\<lambda>body.
       verify_strict (rc_sha c) (rc_ed25519 c) RESOURCE_RECORD_V1_DOMAIN body writer_key (rr_signature r) ''resource record signature'')"

text \<open>The probe record of the write check has the widest timestamp and rank.\<close>

definition check_write_shape :: "record_codec \<Rightarrow> qualified_tag \<Rightarrow> resource_labels \<Rightarrow> unit result" where
  "check_write_shape c name labels =
     and_then (id_parse ClusterId (lit ''cluster_000000000000000000001'')) (\<lambda>cluster.
     and_then (id_parse NodeId (lit ''node_000000000000000000001'')) (\<lambda>writer.
     and_then (record_seal c cluster name (rl_type labels) (rl_uri labels) (rl_custom labels) (- 1) writer (- 1) True
        (replicate 64 0)) (\<lambda>probe.
     and_then (record_encode c probe) (\<lambda>_. Ok ()))))"

section \<open>The tuple order\<close>

datatype ordering = Less | Equal | Greater

definition cmp :: "'a::linorder \<Rightarrow> 'a \<Rightarrow> ordering" where
  "cmp a b = (if a < b then Less else if a = b then Equal else Greater)"

definition then_with :: "ordering \<Rightarrow> ordering \<Rightarrow> ordering" where
  "then_with first second = (case first of Equal \<Rightarrow> second | _ \<Rightarrow> first)"

definition tuple_order :: "resource_record \<Rightarrow> resource_record \<Rightarrow> ordering" where
  "tuple_order a b =
     then_with (then_with (then_with (cmp (rr_timestamp a) (rr_timestamp b)) (cmp (rr_writer a) (rr_writer b)))
       (cmp (rr_rank a) (rr_rank b))) (cmp (rr_digest a) (rr_digest b))"

definition wins_over :: "resource_record \<Rightarrow> resource_record \<Rightarrow> bool" where
  "wins_over a b = (tuple_order a b = Greater)"

record resource_version =
  rv_timestamp :: u64
  rv_writer :: ustr
  rv_removal :: bool
  rv_digest :: digest

definition version_of :: "resource_record \<Rightarrow> resource_version" where
  "version_of r = \<lparr>rv_timestamp = rr_timestamp r, rv_writer = rr_writer r, rv_removal = rr_removed r,
     rv_digest = rr_digest r\<rparr>"

definition version_matches :: "resource_version \<Rightarrow> resource_record \<Rightarrow> bool" where
  "version_matches v r =
     (rv_timestamp v = rr_timestamp r \<and> rv_writer v = rr_writer r \<and> rv_removal v = rr_removed r \<and>
      rv_digest v = rr_digest r)"

definition tuple_key :: "resource_record \<Rightarrow> u64 \<times> ustr \<times> u64 \<times> digest" where
  "tuple_key r = (rr_timestamp r, rr_writer r, rr_rank r, rr_digest r)"

lemma tuple_order_key: "tuple_order a b = cmp (tuple_key a) (tuple_key b)"
  by (auto simp: tuple_order_def cmp_def then_with_def tuple_key_def less_prod_def)

lemma wins_over_key: "wins_over a b \<longleftrightarrow> tuple_key b < tuple_key a"
  by (auto simp: wins_over_def tuple_order_key cmp_def)

section \<open>Decoding inverts encoding\<close>

text \<open>A record as the constructors make it: parsed identifiers, name and labels, bounded
  values, and the digest of its own body.\<close>

definition record_ok :: "record_codec \<Rightarrow> resource_record \<Rightarrow> bool" where
  "record_ok c r \<longleftrightarrow>
     id_parse ClusterId (rr_cluster r) = Ok (rr_cluster r) \<and>
     (\<exists>s. resource_name_parse (rc_dns c) s = Ok (rr_name r)) \<and>
     label_value_parse (rr_type r) = Ok (rr_type r) \<and> resource_uri_parse (rr_uri r) = Ok (rr_uri r) \<and>
     label_set_ok (rr_labels r) \<and>
     (\<forall>e\<in>set (ls_entries (rr_labels r)). (\<exists>s. label_key_parse (rc_dns c) s = Ok (fst e)) \<and>
        label_value_parse (snd e) = Ok (snd e)) \<and>
     id_parse NodeId (rr_writer r) = Ok (rr_writer r) \<and>
     length (rr_digest r) = 32 \<and> length (rr_signature r) = 64 \<and>
     (\<exists>body. signed_body c r = Ok body \<and> body_digest (rc_sha c) body = rr_digest r)"

text \<open>What the record layer relies on in the codec: the strict decoder inverts the encoder, and
  host names are case-insensitive.\<close>

definition codec_ok :: "record_codec \<Rightarrow> bool" where
  "codec_ok c \<longleftrightarrow>
     (\<forall>w bytes. rc_encode c w = Ok bytes \<longrightarrow> rc_decode c bytes = Ok w) \<and>
     (\<forall>h. rc_dns c (to_ascii_lowercase h) = rc_dns c h)"

lemma category_reparse:
  assumes "category_parse k ctx dns s = Ok t" "k \<noteq> CATEGORY_CRYPTO" "\<And>h. dns (to_ascii_lowercase h) = dns h"
  shows "category_parse k ctx dns (tag_value t) = Ok t"
proof -
  have s: "tag_parse dns s = Ok t" "tag_category t = k"
    using assms(1) by (auto simp: category_parse_def and_then_Ok_iff split: if_split_asm)
  with tag_reparse [OF s(1) assms(3)] assms(2) show ?thesis
    by (simp add: category_parse_def reserved_tag_def)
qed

lemma resource_name_category: "resource_name_parse dns = category_parse (lit ''resources'') ''resource name'' dns"
  by (simp add: resource_name_parse_def category_parse_def fun_eq_iff)

lemma decode_labels_entries:
  assumes "codec_ok c" "bt_ok (pre @ es)" "length (pre @ es) \<le> LABEL_SET_MAX_ENTRIES"
    and "\<forall>e\<in>set es. (\<exists>s. label_key_parse (rc_dns c) s = Ok (fst e)) \<and> label_value_parse (snd e) = Ok (snd e)"
  shows "decode_labels c (map (\<lambda>(key, value). (tag_value key, value)) es) \<lparr>ls_entries = pre\<rparr> = Ok \<lparr>ls_entries = pre @ es\<rparr>"
  using assms
proof (induction es arbitrary: pre)
  case (Cons e es)
  have dns: "\<And>h. rc_dns c (to_ascii_lowercase h) = rc_dns c h" using Cons.prems(1) by (simp add: codec_ok_def)
  have k: "label_key_parse (rc_dns c) (tag_value (fst e)) = Ok (fst e)"
    using Cons.prems(4) dns category_reparse [of "lit ''labels''" "''label key''" "rc_dns c"]
    by (auto simp: label_key_parse_def CATEGORY_CRYPTO_def)
  have "bt_ok (pre @ [e])" using Cons.prems(2) by (auto simp: bt_ok_def sorted_wrt_append)
  then have "label_set_insert \<lparr>ls_entries = pre\<rparr> (fst e) (snd e) = Ok \<lparr>ls_entries = pre @ [e]\<rparr>"
    using Cons.prems(3) by (intro label_set_insert_last) simp_all
  moreover have "decode_labels c (map (\<lambda>(key, value). (tag_value key, value)) es) \<lparr>ls_entries = pre @ [e]\<rparr> =
      Ok \<lparr>ls_entries = (pre @ [e]) @ es\<rparr>"
    using Cons.prems by (intro Cons.IH) simp_all
  ultimately show ?case using k Cons.prems(4) by (cases e) simp
qed simp

lemma record_decode_encode:
  assumes "codec_ok c" "record_ok c r" "record_encode c r = Ok bytes"
  shows "record_decode c bytes = Ok r"
proof -
  have dns: "\<And>h. rc_dns c (to_ascii_lowercase h) = rc_dns c h" using assms(1) by (simp add: codec_ok_def)
  have w: "rc_decode c bytes = Ok (record_wire r)"
    using assms(1,3) by (simp add: codec_ok_def record_encode_def)
  have n: "resource_name_parse (rc_dns c) (tag_value (rr_name r)) = Ok (rr_name r)"
    using assms(2) dns category_reparse [of "lit ''resources''" "''resource name''" "rc_dns c"]
    unfolding record_ok_def resource_name_category by (auto simp: CATEGORY_CRYPTO_def)
  have l: "decode_labels c (label_entries (rr_labels r)) label_set_new = Ok (rr_labels r)"
    using decode_labels_entries [OF assms(1), of "[]" "ls_entries (rr_labels r)"] assms(2)
    by (cases "rr_labels r") (simp add: record_ok_def label_set_ok_def label_entries_def label_set_new_def)
  obtain body where b: "signed_body c r = Ok body" "body_digest (rc_sha c) body = rr_digest r"
    using assms(2) by (auto simp: record_ok_def)
  have eta: "\<lparr>rr_cluster = rr_cluster r, rr_name = rr_name r, rr_type = rr_type r, rr_uri = rr_uri r,
      rr_labels = rr_labels r, rr_timestamp = rr_timestamp r, rr_writer = rr_writer r, rr_rank = rr_rank r,
      rr_removed = rr_removed r, rr_digest = rr_digest r, rr_signature = rr_signature r\<rparr> = r"
    by simp
  show ?thesis using assms(2) b n l
    by (simp add: record_decode_def w record_wire_def record_ok_def Let_def eta)
qed

lemma seal_ok_digest:
  "record_seal c cl n t u ls ts wr rk rm sg = Ok r \<Longrightarrow>
   \<exists>body. signed_body c r = Ok body \<and> body_digest (rc_sha c) body = rr_digest r"
  by (auto simp: record_seal_def and_then_Ok_iff seal_prepared_def signed_body_def)

section \<open>A sample record\<close>

definition sample_record :: resource_record where
  "sample_record =
     \<lparr>rr_cluster = lit ''cluster_000000000000000000001'', rr_name = make_tag (lit ''e.org'') (lit ''resources'') (lit ''x''),
      rr_type = lit ''document'', rr_uri = lit ''u:x'', rr_labels = label_set_new, rr_timestamp = 1,
      rr_writer = lit ''node_000000000000000000001'', rr_rank = 0, rr_removed = True,
      rr_digest = replicate 32 0, rr_signature = replicate 64 0\<rparr>"

definition sample_record_codec :: record_codec where
  "sample_record_codec =
     \<lparr>rc_dns = (\<lambda>_. True), rc_sha = (\<lambda>_. replicate 32 0), rc_encode_body = (\<lambda>_. Ok [0]),
      rc_encode = (\<lambda>w. if w = record_wire sample_record then Ok [1] else Err (invalid_input ''cbor'')),
      rc_decode = (\<lambda>bytes. if bytes = [1] then Ok (record_wire sample_record) else Err (invalid_input ''cbor'')),
      rc_ed25519 = (\<lambda>_ _ _. True)\<rparr>"

lemma sample_record_codec_simps [simp]:
  "rc_dns sample_record_codec h" "rc_sha sample_record_codec bs = replicate 32 0" "rc_encode_body sample_record_codec b = Ok [0]"
  "record_encode sample_record_codec sample_record = Ok [1]"
  by (simp_all add: sample_record_codec_def record_encode_def)

lemma sample_codec_ok: "codec_ok sample_record_codec"
  by (simp add: codec_ok_def sample_record_codec_def)

lemma sample_record_ok: "record_ok sample_record_codec sample_record"
proof -
  have "resource_name_parse (rc_dns sample_record_codec) (lit ''e.org/resources/x'') = Ok (rr_name sample_record)"
    by (simp add: resource_name_parse_def tag_parse_def validate_tag_def str_len_ascii MIN_TAG_LEN_def MAX_TAG_LEN_def
        valid_dns_hostname_def name_component_defs BUILTIN_DOMAIN_def make_tag_def tag_category_def to_ascii_lowercase_def
        sample_record_def sample_record_codec_def)
  then show ?thesis
    by (auto simp: record_ok_def signed_body_def encode_signed_body_def body_digest_def)
      (simp_all add: sample_record_def id_parse_def validate_id_def is_base62_def RANDOM_SUFFIX_LEN_def label_set_new_def label_set_ok_def
        label_value_parse_def resource_uri_parse_def str_len_ascii LABEL_VALUE_MAX_BYTES_def is_lower_def is_upper_def is_digit_def)
qed

text \<open>C28: a record signed through a key provider survives storage and the wire: from parsed
  parts, with a provider whose signatures verify under the writer's key, the encoded record
  decodes to the same record, digest check included, and verifies.\<close>

theorem signed_record_roundtrip:
  assumes "codec_ok c" and "\<forall>bytes. length (rc_sha c bytes) = 32"
    and "id_parse ClusterId cluster = Ok cluster" "resource_name_parse (rc_dns c) text = Ok name"
    and "label_value_parse resource_type = Ok resource_type" "resource_uri_parse uri = Ok uri" "id_parse NodeId writer = Ok writer"
    and "label_set_ok labels" "\<forall>e\<in>set (ls_entries labels). (\<exists>s. label_key_parse (rc_dns c) s = Ok (fst e)) \<and>
        label_value_parse (snd e) = Ok (snd e)"
    and "\<forall>message signature. sign message = Ok signature \<longrightarrow> length signature = 64 \<and> rc_ed25519 c key message signature"
    and "sign_with_provider c sign cluster name resource_type uri labels timestamp writer rank removed = Ok r"
    and "record_encode c r = Ok bytes"
  shows "record_decode c bytes = Ok r \<and> record_verify c r key = Ok ()"
proof -
  obtain body signature where b: "encode_signed_body c cluster name resource_type uri labels timestamp writer rank removed = Ok body"
    "sign (signature_message (rc_sha c) RESOURCE_RECORD_V1_DOMAIN body) = Ok signature"
    "r = seal_prepared c body cluster name resource_type uri labels timestamp writer rank removed signature"
    using assms(11) by (auto simp: sign_with_provider_def and_then_Ok_iff)
  have body: "signed_body c r = Ok body" "rr_signature r = signature" "rr_digest r = body_digest (rc_sha c) body"
    using b(1) by (simp_all add: b(3) signed_body_def seal_prepared_def)
  have sig: "length signature = 64" "rc_ed25519 c key (signature_message (rc_sha c) RESOURCE_RECORD_V1_DOMAIN body) signature"
    using assms(10) b(2) by blast+
  have fields: "rr_cluster r = cluster" "rr_name r = name" "rr_type r = resource_type" "rr_uri r = uri" "rr_labels r = labels"
    "rr_writer r = writer" by (simp_all add: b(3) seal_prepared_def)
  have name: "\<exists>s. resource_name_parse (rc_dns c) s = Ok name" using assms(4) by blast
  have digest: "length (body_digest (rc_sha c) body) = 32" using assms(2) by (simp add: body_digest_def)
  have "record_ok c r" unfolding record_ok_def fields body sig(1)
    using assms(3,5-9) name digest by (simp only: simp_thms sum.inject sig(1) body_digest_def)
  from record_decode_encode [OF assms(1) this assms(12)] body sig(2) show ?thesis
    by (simp add: record_verify_def verify_strict_def)
qed

theorem signed_record_roundtrip_witness:
  "record_decode sample_record_codec [1] = Ok sample_record \<and> record_verify sample_record_codec sample_record [] = Ok ()"
proof -
  let ?c = sample_record_codec and ?r = sample_record
  have l: "\<forall>bytes. length (rc_sha ?c bytes) = 32" by (simp add: sample_record_codec_def)
  have ok: "id_parse ClusterId (rr_cluster ?r) = Ok (rr_cluster ?r)" "label_value_parse (rr_type ?r) = Ok (rr_type ?r)"
    "resource_uri_parse (rr_uri ?r) = Ok (rr_uri ?r)" "id_parse NodeId (rr_writer ?r) = Ok (rr_writer ?r)" "label_set_ok (rr_labels ?r)"
    "\<forall>e\<in>set (ls_entries (rr_labels ?r)). (\<exists>s. label_key_parse (rc_dns ?c) s = Ok (fst e)) \<and> label_value_parse (snd e) = Ok (snd e)"
    and "\<exists>s. resource_name_parse (rc_dns ?c) s = Ok (rr_name ?r)"
    using sample_record_ok unfolding record_ok_def by blast+
  then obtain n0 where name: "resource_name_parse (rc_dns ?c) n0 = Ok (rr_name ?r)" by blast
  have s: "\<forall>message signature. (\<lambda>_. Ok (replicate 64 0) :: byte list result) message = Ok signature \<longrightarrow>
      length signature = 64 \<and> rc_ed25519 ?c [] message signature"
    by (simp add: sample_record_codec_def)
  have sign: "sign_with_provider ?c (\<lambda>_. Ok (replicate 64 0)) (rr_cluster ?r) (rr_name ?r) (rr_type ?r) (rr_uri ?r) (rr_labels ?r)
      (rr_timestamp ?r) (rr_writer ?r) (rr_rank ?r) (rr_removed ?r) = Ok ?r"
    by (simp add: sign_with_provider_def encode_signed_body_def seal_prepared_def body_digest_def sample_record_codec_def)
      (simp add: sample_record_def)
  show ?thesis
    by (rule signed_record_roundtrip [OF sample_codec_ok l ok(1) name ok(2-6) s sign]) simp
qed

end
