(* ===== verification/Resource_Store.thy ===== *)
theory Resource_Store
  imports Receipts Resource_Record
begin

text \<open>
  Conditional resource commits (\<^verbatim>\<open>src/src/resource/store.rs\<close>) and removal retention
  (\<^verbatim>\<open>src/src/resource/retention.rs\<close>) over any storage backend. Every operation reads one
  snapshot and commits against the current state, so a concurrent writer may have moved
  the store in between; a purely sequential call has equal states. \<open>tid\<close> is the outcome of
  generating the transaction id.
\<close>

section \<open>Conditional commits\<close>

definition RESOURCE_RECORD_NAMESPACE :: ustr where
  "RESOURCE_RECORD_NAMESPACE = lit ''radiata.woooo.tech/metadata/resource-record-v1''"
definition CATEGORY_METADATA :: ustr where "CATEGORY_METADATA = lit ''metadata''"

definition metadata_namespace :: "(ustr \<Rightarrow> bool) \<Rightarrow> ustr \<Rightarrow> store_namespace result" where
  "metadata_namespace dns tag_text =
     and_then (tag_parse dns tag_text) (\<lambda>tag.
       if tag_category tag \<noteq> CATEGORY_METADATA then Err (invalid_input ''identity record namespace'')
       else Ok tag)"

definition resource_namespace :: "(ustr \<Rightarrow> bool) \<Rightarrow> store_namespace result" where
  "resource_namespace dns = metadata_namespace dns RESOURCE_RECORD_NAMESPACE"

definition record_key :: "qualified_tag \<Rightarrow> store_key" where
  "record_key name = as_bytes (tag_value name)"

datatype resource_outcome =
    Installed commit_receipt
  | Superseded resource_record
  | Indeterminate transaction_id digest

definition read_record ::
  "record_codec \<Rightarrow> 's storage \<Rightarrow> 's \<Rightarrow> qualified_tag \<Rightarrow> resource_record option result" where
  "read_record c so snap name =
     and_then (resource_namespace (rc_dns c)) (\<lambda>ns.
     and_then (so_get so snap ns (record_key name)) (\<lambda>value.
       case value of
         None \<Rightarrow> Ok None
       | Some v \<Rightarrow> and_then (record_decode c (sv_value v)) (\<lambda>r. Ok (Some r))))"

text \<open>The shared conditional put: the transaction is prepared from the snapshot alone.\<close>

definition prepare_put ::
  "record_codec \<Rightarrow> 's storage \<Rightarrow> 's \<Rightarrow> transaction_id result \<Rightarrow> store_namespace \<Rightarrow> store_key \<Rightarrow> resource_record \<Rightarrow>
   store_transaction result" where
  "prepare_put c so snap tid ns key r =
     and_then (snapshot_expectation (so_get so snap ns key)) (\<lambda>expected.
     and_then tid (\<lambda>t.
     and_then (so_revision so snap) (\<lambda>revision.
     and_then (record_encode c r) (\<lambda>bytes.
       prepare_transaction (rc_sha c) (rc_dns c) t revision
         [Put ns key expected (store_value_new (rc_sha c) bytes)]))))"

definition commit_put ::
  "record_codec \<Rightarrow> 's storage \<Rightarrow> 's \<Rightarrow> 's \<times> commit_state \<Rightarrow> transaction_id result \<Rightarrow> store_namespace \<Rightarrow> store_key \<Rightarrow>
   resource_record \<Rightarrow> string \<Rightarrow> ('s \<times> commit_state) \<times> resource_outcome result" where
  "commit_put c so snap sys tid ns key r ctx =
     (case prepare_put c so snap tid ns key r of
        Inl e \<Rightarrow> (sys, Err e)
      | Inr tx \<Rightarrow>
          (case store_commit (so_commit so) sys tx of
             (sys', Inl e) \<Rightarrow> (sys', Err e)
           | (sys', Inr (Committed receipt)) \<Rightarrow> (sys', Ok (Installed receipt))
           | (sys', Inr ConflictOutcome) \<Rightarrow> (sys', Err (conflict ctx))
           | (sys', Inr Aborted) \<Rightarrow> (sys', Err (conflict ctx))
           | (sys', Inr (UnknownOutcome t d)) \<Rightarrow> (sys', Ok (Indeterminate t d))))"

definition commit_record ::
  "record_codec \<Rightarrow> 's storage \<Rightarrow> 's \<Rightarrow> 's \<times> commit_state \<Rightarrow> transaction_id result \<Rightarrow> resource_record \<Rightarrow>
   ('s \<times> commit_state) \<times> resource_outcome result" where
  "commit_record c so snap sys tid r =
     (case resource_namespace (rc_dns c) of
        Inl e \<Rightarrow> (sys, Err e)
      | Inr ns \<Rightarrow>
          (case so_get so snap ns (record_key (rr_name r)) of
             Inl e \<Rightarrow> (sys, Err e)
           | Inr None \<Rightarrow> commit_put c so snap sys tid ns (record_key (rr_name r)) r ''resource record''
           | Inr (Some v) \<Rightarrow>
               (case record_decode c (sv_value v) of
                  Inl e \<Rightarrow> (sys, Err e)
                | Inr existing \<Rightarrow>
                    if \<not> wins_over r existing then (sys, Ok (Superseded existing))
                    else commit_put c so snap sys tid ns (record_key (rr_name r)) r ''resource record'')))"

definition commit_removal ::
  "record_codec \<Rightarrow> 's storage \<Rightarrow> 's \<Rightarrow> 's \<times> commit_state \<Rightarrow> transaction_id result \<Rightarrow> resource_record \<Rightarrow> resource_record \<Rightarrow>
   ('s \<times> commit_state) \<times> resource_outcome result" where
  "commit_removal c so snap sys tid r expected =
     (case resource_namespace (rc_dns c) of
        Inl e \<Rightarrow> (sys, Err e)
      | Inr ns \<Rightarrow>
          (case so_get so snap ns (record_key (rr_name r)) of
             Inl e \<Rightarrow> (sys, Err e)
           | Inr None \<Rightarrow> (sys, Err (not_found ''resource record''))
           | Inr (Some v) \<Rightarrow>
               (case record_decode c (sv_value v) of
                  Inl e \<Rightarrow> (sys, Err e)
                | Inr existing \<Rightarrow>
                    if existing \<noteq> expected then (sys, Ok (Superseded existing))
                    else if \<not> wins_over r existing then (sys, Err (conflict ''resource removal tuple''))
                    else commit_put c so snap sys tid ns (record_key (rr_name r)) r ''resource removal'')))"

section \<open>Retention\<close>

text \<open>Time in nanoseconds since the epoch.\<close>

definition timestamp_nanos :: "resource_record \<Rightarrow> int" where
  "timestamp_nanos r = int (unat (rr_timestamp r)) * 1000000"

record removal_candidate =
  cd_stamped :: int
  cd_key :: store_key
  cd_digest :: digest

definition delete_exact ::
  "record_codec \<Rightarrow> 's storage \<Rightarrow> 's \<times> commit_state \<Rightarrow> transaction_id result \<Rightarrow> store_revision \<Rightarrow> store_namespace \<Rightarrow>
   store_key \<Rightarrow> digest \<Rightarrow> ('s \<times> commit_state) \<times> bool result" where
  "delete_exact c so sys tid revision ns key d =
     (case and_then tid (\<lambda>t. prepare_transaction (rc_sha c) (rc_dns c) t revision [Delete ns key d]) of
        Inl e \<Rightarrow> (sys, Err e)
      | Inr tx \<Rightarrow>
          (case store_commit (so_commit so) sys tx of
             (sys', Inl e) \<Rightarrow> (sys', Err e)
           | (sys', Inr (Committed _)) \<Rightarrow> (sys', Ok True)
           | (sys', Inr ConflictOutcome) \<Rightarrow> (sys', Ok False)
           | (sys', Inr Aborted) \<Rightarrow> (sys', Ok False)
           | (sys', Inr (UnknownOutcome _ _)) \<Rightarrow> (sys', Ok False)))"

text \<open>The state of one pass: the store, the cleaned count, the fresh removals seen, and the
  heap of the oldest of them. The heap is bounded by the cap; \<open>pop\<close> is its removal of a
  newest candidate and \<open>into_vec\<close> its internal order, which the standard library leaves open. The ids of the deletes come from a supply indexed by their order.\<close>

record 's sweep_state =
  sw_sys :: "'s \<times> commit_state"
  sw_removed :: nat
  sw_fresh :: nat
  sw_heap :: "removal_candidate list"
  sw_used :: nat

definition saturating_succ :: "nat \<Rightarrow> nat" where
  "saturating_succ n = min (n + 1) (2 ^ 64 - 1)"

definition sweep_delete ::
  "record_codec \<Rightarrow> 's storage \<Rightarrow> (nat \<Rightarrow> transaction_id result) \<Rightarrow> store_revision \<Rightarrow> store_namespace \<Rightarrow> store_key \<Rightarrow> digest \<Rightarrow>
   's sweep_state \<Rightarrow> 's sweep_state \<times> unit result" where
  "sweep_delete c so tids revision ns key d st =
     (case delete_exact c so (sw_sys st) (tids (sw_used st)) revision ns key d of
        (sys, Inl e) \<Rightarrow> (st\<lparr>sw_sys := sys, sw_used := sw_used st + 1\<rparr>, Err e)
      | (sys, Inr cleaned) \<Rightarrow>
          (st\<lparr>sw_sys := sys, sw_used := sw_used st + 1,
              sw_removed := (if cleaned then saturating_succ (sw_removed st) else sw_removed st)\<rparr>, Ok ()))"

definition sweep_entry ::
  "record_codec \<Rightarrow> 's storage \<Rightarrow> (nat \<Rightarrow> transaction_id result) \<Rightarrow> (removal_candidate list \<Rightarrow> removal_candidate list) \<Rightarrow>
   store_revision \<Rightarrow> store_namespace \<Rightarrow> int \<Rightarrow> int \<Rightarrow> nat \<Rightarrow> store_key \<times> store_value \<Rightarrow> 's sweep_state \<Rightarrow>
   's sweep_state \<times> unit result" where
  "sweep_entry c so tids pop revision ns now retention cap entry st =
     (case record_decode c (sv_value (snd entry)) of
        Inl e \<Rightarrow> (st, Err e)
      | Inr r \<Rightarrow>
          if \<not> rr_removed r then (st, Ok ())
          else if now \<ge> timestamp_nanos r \<and> now - timestamp_nanos r \<ge> retention
          then sweep_delete c so tids revision ns (fst entry) (sv_digest (snd entry)) st
          else
            (let heap = sw_heap st @ [\<lparr>cd_stamped = timestamp_nanos r, cd_key = fst entry, cd_digest = sv_digest (snd entry)\<rparr>]
             in (st\<lparr>sw_fresh := saturating_succ (sw_fresh st),
                    sw_heap := (if length heap > cap then pop heap else heap)\<rparr>, Ok ())))"

text \<open>\<open>for x in xs { f(x)?; }\<close> over a state.\<close>

primrec for_state :: "('x \<Rightarrow> 't \<Rightarrow> 't \<times> unit result) \<Rightarrow> 'x list \<Rightarrow> 't \<Rightarrow> 't \<times> unit result" where
  "for_state f [] st = (st, Ok ())"
| "for_state f (x # xs) st =
     (case f x st of (st', Inl e) \<Rightarrow> (st', Err e) | (st', Inr _) \<Rightarrow> for_state f xs st')"

lemma for_state_inv:
  assumes "\<And>x st. x \<in> set xs \<Longrightarrow> P st \<Longrightarrow> P (fst (f x st))" "P st"
  shows "P (fst (for_state f xs st))"
  using assms
proof (induction xs arbitrary: st)
  case (Cons x xs)
  have p: "P (fst (f x st))" and IH: "P (fst (for_state f xs (fst (f x st))))"
    using Cons.prems Cons.IH [of "fst (f x st)"] by simp_all
  then show ?case by (cases "f x st") (auto split: sum.split)
qed simp

definition sweep_removed ::
  "record_codec \<Rightarrow> 's storage \<Rightarrow> (nat \<Rightarrow> transaction_id result) \<Rightarrow> (removal_candidate list \<Rightarrow> removal_candidate list) \<Rightarrow>
   (removal_candidate list \<Rightarrow> removal_candidate list) \<Rightarrow> 's \<times> commit_state \<Rightarrow> int \<Rightarrow> int \<Rightarrow> nat \<Rightarrow> ('s \<times> commit_state) \<times> nat result" where
  "sweep_removed c so tids pop into_vec sys now retention cap =
     (case resource_namespace (rc_dns c) of
        Inl e \<Rightarrow> (sys, Err e)
      | Inr ns \<Rightarrow>
      (case so_revision so (fst sys) of
        Inl e \<Rightarrow> (sys, Err e)
      | Inr revision \<Rightarrow>
          (let st0 = \<lparr>sw_sys = sys, sw_removed = 0, sw_fresh = 0, sw_heap = [], sw_used = 0\<rparr>
           in case for_state (sweep_entry c so tids pop revision ns now retention cap) (so_scan so (fst sys) ns []) st0 of
                (st, Inl e) \<Rightarrow> (sw_sys st, Err e)
              | (st, Inr _) \<Rightarrow>
                  (let overflow = min (sw_fresh st - cap) (length (sw_heap st));
                       candidates = take overflow (sort_key cd_stamped (into_vec (sw_heap st)))
                   in case for_state (\<lambda>cd. sweep_delete c so tids revision ns (cd_key cd) (cd_digest cd)) candidates st of
                        (st', Inl e) \<Rightarrow> (sw_sys st', Err e)
                      | (st', Inr _) \<Rightarrow> (sw_sys st', Ok (sw_removed st'))))))"

section \<open>The register over a backend\<close>

definition winner :: "record_codec \<Rightarrow> store_namespace \<Rightarrow> abs_store \<Rightarrow> qualified_tag \<Rightarrow> resource_record option" where
  "winner c ns st name =
     (case as_entries st (ns, record_key name) of
        None \<Rightarrow> None
      | Some bytes \<Rightarrow> (case record_decode c bytes of Inr r \<Rightarrow> Some r | Inl _ \<Rightarrow> None))"

text \<open>A transaction id is fresh when it is well formed and the store has no receipt for it.\<close>

definition fresh_id :: "abs_store \<Rightarrow> transaction_id result \<Rightarrow> bool" where
  "fresh_id st tid \<longleftrightarrow> (\<forall>t. tid = Ok t \<longrightarrow> is_ascii t \<and> as_receipts st t = None)"

definition unique_ids :: "(nat \<Rightarrow> transaction_id result) \<Rightarrow> bool" where
  "unique_ids tids \<longleftrightarrow> (\<forall>i j t. tids i = Ok t \<longrightarrow> tids j = Ok t \<longrightarrow> i = j)"

text \<open>A replica that takes a sequence of records for one name, each with a definite outcome.\<close>

inductive accepts ::
  "record_codec \<Rightarrow> 's storage \<Rightarrow> ('s \<Rightarrow> abs_store) \<Rightarrow> qualified_tag \<Rightarrow> 's \<Rightarrow> resource_record list \<Rightarrow> 's \<Rightarrow> bool"
  for c so abs name s where
  accepts_nil: "accepts c so abs name s [] s"
| accepts_snoc: "accepts c so abs name s rs s1 \<Longrightarrow> record_ok c r \<Longrightarrow> rr_name r = name \<Longrightarrow> fresh_id (abs s1) tid \<Longrightarrow>
    commit_record c so s1 (s1, Ready) tid r = ((s2, state), Ok out) \<Longrightarrow>
    (\<forall>t d. out \<noteq> Indeterminate t d) \<Longrightarrow> accepts c so abs name s (rs @ [r]) s2"

abbreviation resource_ns :: store_namespace where
  "resource_ns \<equiv> builtin_tag ''metadata'' ''resource-record-v1''"

lemma resource_namespace_Ok: "dns BUILTIN_DOMAIN \<Longrightarrow> resource_namespace dns = Ok resource_ns"
  using builtin_text_parse [of dns "''metadata''" "''resource-record-v1''"]
  by (simp add: resource_namespace_def metadata_namespace_def RESOURCE_RECORD_NAMESPACE_def CATEGORY_METADATA_def
      name_component_defs CATEGORY_CRYPTO_def)

lemma resource_ns_internal: "resource_ns \<noteq> internal_ns" "tag_value resource_ns \<noteq> INTERNAL_NAMESPACE"
  by (simp_all add: make_tag_def internal_ns_def INTERNAL_NAMESPACE_def BUILTIN_DOMAIN_def)

lemma resource_ns_ok: "namespace_ok resource_ns"
  by (rule namespace_ok_make_tag) (simp_all add: BUILTIN_DOMAIN_def LENGTH_BOUND_def)

context snapshot_backend
begin

lemma prepare_put_Ok:
  assumes "namespace_ok ns" "rc_sha c = sha" "rc_dns c BUILTIN_DOMAIN" "\<And>bytes. length (sha bytes) = 32"
    and "\<And>t. tid = Ok t \<Longrightarrow> is_ascii t" "prepare_put c so snap tid ns key r = Ok tx"
  obtains e t revision bytes where "transaction_ok sha tx" "tid = Ok t" "st_id tx = t" "so_revision so snap = Ok revision"
    "record_encode c r = Ok bytes"
    "prepare_transaction sha (rc_dns c) t revision [Put ns key e (store_value_new sha bytes)] = Ok tx"
proof -
  from assms(6) obtain e t rev bytes where
    p: "tid = Ok t" "so_revision so snap = Ok rev" "record_encode c r = Ok bytes"
      "prepare_transaction sha (rc_dns c) t rev [Put ns key e (store_value_new sha bytes)] = Ok tx"
    by (auto simp: prepare_put_def and_then_Ok_iff assms(2))
  note pi = prepare_Ok(1) [OF p(4)]
  have "list_all (operation_ok sha) [Put ns key e (store_value_new sha bytes)]"
    using assms(1) by (simp add: store_value_new_def)
  from prepared_ok [OF assms(3) pi assms(5) [OF p(1)] this assms(4)] that p prepare_internal_Ok(1) [OF assms(3) pi]
  show ?thesis by blast
qed

lemma commit_put_effect:
  assumes "inv snap" "inv s" "later sha (abs snap) (abs s)" "namespace_ok ns" "rc_sha c = sha" "rc_dns c BUILTIN_DOMAIN"
    and "\<And>bytes. length (sha bytes) = 32" "fresh_id (abs s) tid"
    and "commit_put c so snap (s, state) tid ns key r ctx = ((s', state'), out)"
  shows "inv s' \<and>
    (abs s' = abs s \<or> (\<exists>bytes t. record_encode c r = Ok bytes \<and> tid = Ok t \<and> abs snap = abs s \<and> later sha (abs s) (abs s') \<and>
      as_entries (abs s') =
        (as_entries (abs s))((ns, key) := Some bytes, (internal_ns, used_id_key t) := Some ACTIVE_MARKER_VALUE))) \<and>
    (case out of
       Inr (Installed receipt) \<Rightarrow> abs s' \<noteq> abs s
     | Inr (Superseded _) \<Rightarrow> False
     | Inr (Indeterminate _ _) \<Rightarrow> True
     | Inl e \<Rightarrow> clean_failure sha inv abs (so_commit so) e \<longrightarrow> abs s' = abs s)"
proof (cases "prepare_put c so snap tid ns key r")
  case (Inl e)
  with assms(2,9) show ?thesis by (auto simp: commit_put_def)
next
  case (Inr tx)
  obtain e t revision bytes where p: "transaction_ok sha tx" "tid = Ok t" "st_id tx = t" "so_revision so snap = Ok revision"
    "record_encode c r = Ok bytes"
    "prepare_transaction sha (rc_dns c) t revision [Put ns key e (store_value_new sha bytes)] = Ok tx"
    by (rule prepare_put_Ok [OF assms(4-7) _ Inr]) (use assms(8) in \<open>simp add: fresh_id_def\<close>)
  obtain sys a where sc: "store_commit (so_commit so) (s, state) tx = (sys, a)"
    by (cases "store_commit (so_commit so) (s, state) tx")
  have sys: "sys = (s', state')" and out: "out = (case a of Inl e \<Rightarrow> Err e | Inr (Committed receipt) \<Rightarrow> Ok (Installed receipt)
      | Inr ConflictOutcome \<Rightarrow> Err (conflict ctx) | Inr Aborted \<Rightarrow> Err (conflict ctx)
      | Inr (UnknownOutcome t d) \<Rightarrow> Ok (Indeterminate t d))"
    using assms(9) Inr sc by (auto simp: commit_put_def split: sum.split_asm commit_outcome.split_asm)
  note sc = sc [unfolded sys]
  have fresh: "as_receipts (abs s) (st_id tx) = None" using assms(8) p(2,3) by (simp add: fresh_id_def)
  have eff: "op_effect (Put ns key e (store_value_new sha bytes)) = Some (ns, key, Some bytes)"
    by (simp add: store_value_new_def)
  note w = caller_write [OF assms(1-3) _ p(6,1) eff p(4) sc, OF assms(6)]
  have lat: "later sha (abs s) (abs_commit (abs s) tx)" if "as_generation (abs s) \<noteq> - 1"
    using later_commit [OF later_refl that] .
  have "case out of Inr (Installed receipt) \<Rightarrow> abs s' \<noteq> abs s | Inr (Superseded _) \<Rightarrow> False
     | Inr (Indeterminate _ _) \<Rightarrow> True | Inl e \<Rightarrow> clean_failure sha inv abs (so_commit so) e \<longrightarrow> abs s' = abs s"
    using commit_answer [OF assms(2) p(1) fresh sc] by (simp add: out split: sum.splits commit_outcome.splits)
  with w p(2,5) lat show ?thesis by metis
qed

text \<open>The effect of a put: the register keeps its winner, or the snapshot was current, the
  record beats the winner and replaces it; apart from the marker of the transaction id nothing else changes.\<close>

lemma commit_record_effect:
  assumes "inv snap" "inv s" "later sha (abs snap) (abs s)" "resource_namespace (rc_dns c) = Ok ns" "namespace_ok ns"
    and "ns \<noteq> internal_ns" "rc_sha c = sha" "rc_dns c BUILTIN_DOMAIN" "\<And>bytes. length (sha bytes) = 32" "fresh_id (abs s) tid" "codec_ok c" "record_ok c r"
    and "commit_record c so snap (s, state) tid r = ((s', state'), out)"
  shows "inv s' \<and>
    (abs s' = abs s \<or>
      winner c ns (abs s') (rr_name r) = Some r \<and> later sha (abs s) (abs s') \<and>
      (\<forall>old. winner c ns (abs s) (rr_name r) = Some old \<longrightarrow> wins_over r old) \<and>
      (\<exists>t bytes. tid = Ok t \<and> as_entries (abs s') =
        (as_entries (abs s))((ns, record_key (rr_name r)) := Some bytes, (internal_ns, used_id_key t) := Some ACTIVE_MARKER_VALUE))) \<and>
    (case out of
       Inr (Installed receipt) \<Rightarrow> winner c ns (abs s') (rr_name r) = Some r
     | Inr (Superseded e) \<Rightarrow> abs s' = abs s \<and> winner c ns (abs snap) (rr_name r) = Some e \<and> \<not> wins_over r e
     | Inr (Indeterminate _ _) \<Rightarrow> True
     | Inl e \<Rightarrow> clean_failure sha inv abs (so_commit so) e \<longrightarrow> abs s' = abs s)"
proof -
  let ?key = "record_key (rr_name r)"
  have get: "so_get so snap ns ?key = Ok (map_option (store_value_new sha) (as_entries (abs snap) (ns, ?key)))"
    by (rule get_refines [OF assms(1,5)])
  consider (err) e where "s' = s" "out = Err e"
    | (sup) e where "s' = s" "out = Ok (Superseded e)" "winner c ns (abs snap) (rr_name r) = Some e" "\<not> wins_over r e"
    | (put) "commit_put c so snap (s, state) tid ns ?key r ''resource record'' = ((s', state'), out)"
        "\<forall>old. winner c ns (abs snap) (rr_name r) = Some old \<longrightarrow> wins_over r old"
    using assms(13) by (cases "as_entries (abs snap) (ns, ?key)")
      (auto simp: commit_record_def assms(4) get winner_def store_value_new_def split: sum.split_asm if_split_asm)
  then show ?thesis
  proof cases
    case put
    note e = commit_put_effect [OF assms(1-3,5,7-10) put(1)]
    have upd: "winner c ns (abs s') (rr_name r) = Some r \<and> later sha (abs s) (abs s') \<and>
      (\<forall>old. winner c ns (abs s) (rr_name r) = Some old \<longrightarrow> wins_over r old) \<and>
      (\<exists>t bytes. tid = Ok t \<and> as_entries (abs s') =
        (as_entries (abs s))((ns, ?key) := Some bytes, (internal_ns, used_id_key t) := Some ACTIVE_MARKER_VALUE))" if ne: "abs s' \<noteq> abs s"
    proof -
      from e ne obtain bytes t where b: "record_encode c r = Ok bytes" "tid = Ok t" "abs snap = abs s" "later sha (abs s) (abs s')"
        "as_entries (abs s') = (as_entries (abs s))((ns, ?key) := Some bytes, (internal_ns, used_id_key t) := Some ACTIVE_MARKER_VALUE)"
        by blast
      have "winner c ns (abs s') (rr_name r) = Some r"
        using record_decode_encode [OF assms(11,12) b(1)] assms(6) by (simp add: winner_def b(5))
      with put(2) b show ?thesis by (metis (no_types))
    qed
    show ?thesis using e upd by (cases out) (auto split: resource_outcome.splits)
  qed (use assms(2) in auto)
qed

lemma accepts_max:
  assumes "accepts c so abs name s rs s'" "inv s" "resource_namespace (rc_dns c) = Ok ns" "namespace_ok ns" "ns \<noteq> internal_ns"
    and "rc_sha c = sha" "rc_dns c BUILTIN_DOMAIN"
    and "\<And>bytes. length (sha bytes) = 32" "codec_ok c" "winner c ns (abs s) name = None"
  shows "inv s' \<and>
    (rs = [] \<longrightarrow> winner c ns (abs s') name = None) \<and>
    (rs \<noteq> [] \<longrightarrow> (\<exists>w\<in>set rs. winner c ns (abs s') name = Some w \<and> tuple_key w = Max (tuple_key ` set rs)))"
  using assms(1)
proof (induction rule: accepts.induct)
  case (accepts_snoc rs s1 r tid s2 state out)
  note IH = accepts_snoc.IH
  have i: "inv s1" using IH by simp
  note e = commit_record_effect [OF i i later_refl assms(3-8) accepts_snoc.hyps(4) assms(9) accepts_snoc.hyps(2,5)]
  have name: "rr_name r = name" by (rule accepts_snoc.hyps(3))
  let ?K = "tuple_key ` set rs"
  have mx: "Max (insert (tuple_key r) ?K) = max (tuple_key r) (Max ?K)" if "rs \<noteq> []"
    using that by (simp add: Max_insert)
  show ?case
  proof (cases out)
    case (Installed receipt)
    then have w: "winner c ns (abs s2) name = Some r" using e name by simp
    have "tuple_key r = Max (insert (tuple_key r) ?K)"
    proof (cases "rs = []")
      case False
      then obtain w' where w': "winner c ns (abs s1) name = Some w'" "tuple_key w' = Max ?K" using IH by blast
      then have "abs s2 = abs s1 \<Longrightarrow> w' = r" using w by simp
      then have "tuple_key w' \<le> tuple_key r" using e w'(1) name wins_over_key [of r w'] by fastforce
      with w'(2) mx [OF False] show ?thesis by (simp add: max_absorb1)
    qed simp
    with w e show ?thesis by auto
  next
    case (Superseded x)
    then have x: "winner c ns (abs s1) name = Some x" "\<not> wins_over r x" "abs s2 = abs s1" using e name by simp_all
    then have ne: "rs \<noteq> []" using IH by auto
    then obtain w' where w': "w' \<in> set rs" "winner c ns (abs s1) name = Some w'" "tuple_key w' = Max ?K" using IH by blast
    then have "tuple_key r \<le> Max ?K" using x by (simp add: wins_over_key not_less)
    with w' x mx [OF ne] e show ?thesis by (auto simp: max_def)
  next
    case (Indeterminate t d)
    with accepts_snoc.hyps(6) show ?thesis by blast
  qed
qed (simp add: assms)

text \<open>The effect of one delete of a pass.\<close>

lemma delete_exact_effect:
  assumes "inv snap" "inv s" "later sha (abs snap) (abs s)" "namespace_ok ns" "rc_sha c = sha" "rc_dns c BUILTIN_DOMAIN"
    and "\<And>bytes. length (sha bytes) = 32" "fresh_id (abs s) tid" "so_revision so snap = Ok revision"
    and "delete_exact c so (s, state) tid revision ns key d = ((s', state'), r)"
  shows "inv s' \<and> (r = Ok True \<longrightarrow> abs s' \<noteq> abs s) \<and>
    (abs s' = abs s \<or> abs snap = abs s \<and> (\<exists>t. tid = Ok t \<and> later sha (abs s) (abs s') \<and>
      as_entries (abs s') = (as_entries (abs s))((ns, key) := None, (internal_ns, used_id_key t) := Some ACTIVE_MARKER_VALUE) \<and>
      (\<forall>u. u \<noteq> t \<longrightarrow> as_receipts (abs s') u = as_receipts (abs s) u)))"
proof (cases "and_then tid (\<lambda>t. prepare_transaction sha (rc_dns c) t revision [Delete ns key d])")
  case (Inl e)
  with assms(2,5,10) show ?thesis by (auto simp: delete_exact_def)
next
  case (Inr tx)
  then obtain t where t: "tid = Ok t" "prepare_transaction sha (rc_dns c) t revision [Delete ns key d] = Ok tx"
    by (auto simp: and_then_Ok_iff)
  note pi = prepare_Ok(1) [OF t(2)] and tx = prepare_internal_Ok [OF assms(6) prepare_Ok(1) [OF t(2)]]
  have ok: "transaction_ok sha tx"
    by (rule prepared_ok [OF assms(6) pi]) (use assms(4,7,8) t(1) in \<open>simp_all add: fresh_id_def\<close>)
  obtain sys a where sc: "store_commit (so_commit so) (s, state) tx = (sys, a)"
    by (cases "store_commit (so_commit so) (s, state) tx")
  have sys: "sys = (s', state')" and rt: "r = Ok True \<Longrightarrow> \<exists>receipt. a = Ok (Committed receipt)"
    using assms(5,10) Inr sc by (auto simp: delete_exact_def split: sum.split_asm commit_outcome.split_asm)
  note sc = sc [unfolded sys]
  have fresh: "as_receipts (abs s) (st_id tx) = None" using assms(8) t(1) tx(1) by (simp add: fresh_id_def)
  note w = caller_write [OF assms(1-3) _ t(2) ok op_effect.simps(2) assms(9) sc, OF assms(6)]
  have "abs s' \<noteq> abs s" if "r = Ok True"
    using rt [OF that] commit_answer [OF assms(2) ok fresh sc] by auto
  moreover have "later sha (abs s) (abs_commit (abs s) tx)" if "as_generation (abs s) \<noteq> - 1"
    using later_commit [OF later_refl that] .
  ultimately show ?thesis using w t(1) caller_batch(2) [OF _ t(2), of _ "abs s", OF assms(6)] by metis
qed

text \<open>The invariant of a pass from \<open>s0\<close>: at most one delete took effect, on a key of \<open>D\<close>.\<close>

definition sweep_inv :: "'s \<Rightarrow> store_namespace \<Rightarrow> store_key set \<Rightarrow> (nat \<Rightarrow> transaction_id result) \<Rightarrow> 's sweep_state \<Rightarrow> bool" where
  "sweep_inv s0 ns D tids st \<longleftrightarrow>
     inv (fst (sw_sys st)) \<and> later sha (abs s0) (abs (fst (sw_sys st))) \<and>
     (\<forall>i\<ge>sw_used st. fresh_id (abs (fst (sw_sys st))) (tids i)) \<and> cd_key ` set (sw_heap st) \<subseteq> D \<and>
     (abs (fst (sw_sys st)) = abs s0 \<and> sw_removed st = 0 \<or>
      abs (fst (sw_sys st)) \<noteq> abs s0 \<and> sw_removed st \<le> 1 \<and>
      (\<exists>key\<in>D. \<exists>t. as_entries (abs (fst (sw_sys st))) =
        (as_entries (abs s0))((ns, key) := None, (internal_ns, used_id_key t) := Some ACTIVE_MARKER_VALUE)))"

lemma sweep_delete_inv:
  assumes "sweep_inv s0 ns D tids st" "inv s0" "namespace_ok ns" "rc_sha c = sha" "rc_dns c BUILTIN_DOMAIN" "\<And>bytes. length (sha bytes) = 32"
    and "unique_ids tids" "so_revision so s0 = Ok revision" "key \<in> D"
  shows "sweep_inv s0 ns D tids (fst (sweep_delete c so tids revision ns key d st))"
proof -
  obtain s state where sys: "sw_sys st = (s, state)" by (cases "sw_sys st")
  obtain s' state' r where de: "delete_exact c so (s, state) (tids (sw_used st)) revision ns key d = ((s', state'), r)"
    by (metis surj_pair)
  have i: "inv s" "later sha (abs s0) (abs s)" "\<And>i. i \<ge> sw_used st \<Longrightarrow> fresh_id (abs s) (tids i)" "cd_key ` set (sw_heap st) \<subseteq> D"
    using assms(1) sys by (simp_all add: sweep_inv_def)
  note e = delete_exact_effect [OF assms(2) i(1,2) assms(3-6) i(3) [OF order_refl] assms(8) de]
  let ?n = "if r = Ok True then saturating_succ (sw_removed st) else sw_removed st"
  have f: "fst (sweep_delete c so tids revision ns key d st) =
      st\<lparr>sw_sys := (s', state'), sw_used := sw_used st + 1, sw_removed := ?n\<rparr>"
    using de sys by (cases st) (auto simp: sweep_delete_def split: sum.splits)
  show ?thesis
  proof (cases "abs s' = abs s")
    case True
    then have "r \<noteq> Ok True" using e by blast
    with True assms(1) e show ?thesis unfolding f sweep_inv_def by (simp add: sys)
  next
    case False
    with e obtain t where tx: "abs s0 = abs s" "tids (sw_used st) = Ok t" "later sha (abs s) (abs s')"
      "as_entries (abs s') = (as_entries (abs s))((ns, key) := None, (internal_ns, used_id_key t) := Some ACTIVE_MARKER_VALUE)"
      "\<forall>u. u \<noteq> t \<longrightarrow> as_receipts (abs s') u = as_receipts (abs s) u" by blast
    have z: "sw_removed st = 0" using assms(1) tx(1) sys by (auto simp: sweep_inv_def)
    have "fresh_id (abs s') (tids j)" if "j \<ge> sw_used st + 1" for j
    proof -
      have "fresh_id (abs s) (tids j)" using i(3) that by simp
      moreover have "tids j \<noteq> Ok t" using assms(7) tx(2) that by (fastforce simp: unique_ids_def)
      ultimately show ?thesis using tx(5) by (auto simp: fresh_id_def)
    qed
    moreover have "\<exists>key\<in>D. \<exists>t. as_entries (abs s') =
        (as_entries (abs s0))((ns, key) := None, (internal_ns, used_id_key t) := Some ACTIVE_MARKER_VALUE)"
      using assms(9) tx(1,4) by metis
    ultimately show ?thesis using e tx(1,3) i(4) z False
      unfolding f sweep_inv_def by (simp add: saturating_succ_def)
  qed
qed

lemma sweep_entry_inv:
  assumes "sweep_inv s0 ns D tids st" "inv s0" "namespace_ok ns" "rc_sha c = sha" "rc_dns c BUILTIN_DOMAIN" "\<And>bytes. length (sha bytes) = 32"
    and "unique_ids tids" "so_revision so s0 = Ok revision"
    and "\<And>r. record_decode c (sv_value (snd entry)) = Ok r \<Longrightarrow> rr_removed r \<Longrightarrow> fst entry \<in> D" "\<And>h. set (pop h) \<subseteq> set h"
  shows "sweep_inv s0 ns D tids (fst (sweep_entry c so tids pop revision ns now retention cap entry st))"
proof (cases "record_decode c (sv_value (snd entry))")
  case (Inl e)
  with assms(1) show ?thesis by (simp add: sweep_entry_def)
next
  case (Inr r)
  show ?thesis
  proof (cases "rr_removed r")
    case True
    then have D: "fst entry \<in> D" using assms(9) Inr by blast
    note del = sweep_delete_inv [OF assms(1-4) _ _ _ assms(8) D, of "sv_digest (snd entry)", OF assms(5-7)]
    let ?h = "sw_heap st @ [\<lparr>cd_stamped = timestamp_nanos r, cd_key = fst entry, cd_digest = sv_digest (snd entry)\<rparr>]"
    have h: "cd_key ` set ?h \<subseteq> D" using assms(1) D by (auto simp: sweep_inv_def)
    have pop: "cd_key ` set (pop ?h) \<subseteq> D" by (rule order_trans [OF image_mono [OF assms(10)] h])
    have "cd_key ` set (if length ?h > cap then pop ?h else ?h) \<subseteq> D"
      using h pop by (cases "length ?h > cap") (simp_all only: if_True if_False simp_thms)
    then have "sweep_inv s0 ns D tids
        (st\<lparr>sw_fresh := saturating_succ (sw_fresh st), sw_heap := (if length ?h > cap then pop ?h else ?h)\<rparr>)"
      using assms(1) by (simp add: sweep_inv_def)
    with del True show ?thesis by (simp add: sweep_entry_def Inr Let_def)
  qed (use assms(1) in \<open>simp add: sweep_entry_def Inr\<close>)
qed

text \<open>Every delete of a pass names the revision of the one snapshot, so a second delete of the
  same pass conflicts.\<close>

lemma sweep_removed_effect:
  assumes "inv s" "resource_namespace (rc_dns c) = Ok ns" "namespace_ok ns"
    and "rc_sha c = sha" "rc_dns c BUILTIN_DOMAIN" "\<And>bytes. length (sha bytes) = 32"
    and "\<And>h. set (pop h) \<subseteq> set h" "\<And>h. set (into_vec h) \<subseteq> set h" "\<And>i. fresh_id (abs s) (tids i)"
    and "unique_ids tids"
    and "sweep_removed c so tids pop into_vec (s, state) now retention cap = ((s', state'), res)"
  shows "inv s' \<and> (\<forall>n. res = Ok n \<longrightarrow> n \<le> 1) \<and>
    (abs s' = abs s \<or>
     (\<exists>key bytes r t. as_entries (abs s) (ns, key) = Some bytes \<and> record_decode c bytes = Ok r \<and> rr_removed r \<and>
        as_entries (abs s') =
          (as_entries (abs s))((ns, key) := None, (internal_ns, used_id_key t) := Some ACTIVE_MARKER_VALUE)))"
proof -
  define D where "D = {key. \<exists>bytes r. as_entries (abs s) (ns, key) = Some bytes \<and> record_decode c bytes = Ok r \<and> rr_removed r}"
  obtain revision where rev: "so_revision so s = Ok revision" using revision_refines [OF assms(1)] by blast
  let ?st0 = "\<lparr>sw_sys = (s, state), sw_removed = 0, sw_fresh = 0, sw_heap = [], sw_used = 0\<rparr>"
  define st1 r1 where "st1 = fst (for_state (sweep_entry c so tids pop revision ns now retention cap) (so_scan so s ns []) ?st0)"
    and "r1 = snd (for_state (sweep_entry c so tids pop revision ns now retention cap) (so_scan so s ns []) ?st0)"
  have i0: "sweep_inv s ns D tids ?st0" using assms(1,9) by (simp add: sweep_inv_def later_refl)
  have scan: "fst e \<in> D" if e: "e \<in> set (so_scan so s ns [])" "record_decode c (sv_value (snd e)) = Ok r" "rr_removed r" for e r
    using that scan_refines [OF assms(1,3), of "[]"] by (auto simp: D_def store_value_new_def)
  have i1: "sweep_inv s ns D tids st1" unfolding st1_def
  proof (rule for_state_inv [where P = "sweep_inv s ns D tids", OF _ i0])
    fix e st
    assume e: "e \<in> set (so_scan so s ns [])" and i: "sweep_inv s ns D tids st"
    show "sweep_inv s ns D tids (fst (sweep_entry c so tids pop revision ns now retention cap e st))"
      by (rule sweep_entry_inv [OF i assms(1,3-6) assms(10) rev scan [OF e] assms(7)])
  qed
  define cs where "cs = take (min (sw_fresh st1 - cap) (length (sw_heap st1))) (sort_key cd_stamped (into_vec (sw_heap st1)))"
  have heap: "cd_key ` set (sw_heap st1) \<subseteq> D" using i1 by (simp add: sweep_inv_def)
  have cs: "cd_key cd \<in> D" if cd: "cd \<in> set cs" for cd
  proof -
    have "cd \<in> set (sw_heap st1)" using in_set_takeD [OF cd [unfolded cs_def]] assms(8) by auto
    with heap show ?thesis by blast
  qed
  define st2 r2 where "st2 = fst (for_state (\<lambda>cd. sweep_delete c so tids revision ns (cd_key cd) (cd_digest cd)) cs st1)"
    and "r2 = snd (for_state (\<lambda>cd. sweep_delete c so tids revision ns (cd_key cd) (cd_digest cd)) cs st1)"
  have i2: "sweep_inv s ns D tids st2" unfolding st2_def
    by (rule for_state_inv [where P = "sweep_inv s ns D tids", OF _ i1]) (rule sweep_delete_inv [OF _ assms(1,3-6) assms(10) rev cs])
  have "\<exists>st. sweep_inv s ns D tids st \<and> (s', state') = sw_sys st \<and> (\<forall>n. res = Ok n \<longrightarrow> n = sw_removed st)"
    using assms(11) i1 i2 unfolding st2_def cs_def st1_def
    by (auto simp: sweep_removed_def assms(2) rev Let_def split: sum.split_asm prod.split_asm intro: exI)
  then obtain st where st: "sweep_inv s ns D tids st" "sw_sys st = (s', state')" "\<And>n. res = Ok n \<Longrightarrow> n = sw_removed st"
    by auto
  then have "inv s'" "sw_removed st \<le> 1"
    "abs s' = abs s \<or> (\<exists>key\<in>D. \<exists>t. as_entries (abs s') =
        (as_entries (abs s))((ns, key) := None, (internal_ns, used_id_key t) := Some ACTIVE_MARKER_VALUE))"
    by (auto simp: sweep_inv_def)
  with st(3) show ?thesis unfolding D_def by blast
qed

end

section \<open>A sample put\<close>

lemma sample_record_sha [simp]: "rc_sha sample_record_codec = sample_sha"
  by (simp add: sample_sha_def fun_eq_iff)

definition sample_put :: store_transaction where
  "sample_put =
     (let ops = [Put resource_ns (record_key (rr_name sample_record)) Absent (store_value_new sample_sha [1]),
         marker_put sample_sha (lit ''txn_1'')]
      in \<lparr>st_id = lit ''txn_1'', st_operation_digest = digest_store_operations sample_sha (to_be_bytes_u64 0) ops,
          st_base_revision = to_be_bytes_u64 0, st_operations = ops\<rparr>)"

lemma sample_prepare:
  assumes "so_get so s resource_ns (record_key (rr_name sample_record)) = Ok None" "so_revision so s = Ok (to_be_bytes_u64 0)"
  shows "prepare_put sample_record_codec so s (Ok (lit ''txn_1'')) resource_ns (record_key (rr_name sample_record)) sample_record =
    Ok sample_put"
proof -
  have "prepare_internal_transaction sample_sha (rc_dns sample_record_codec) (lit ''txn_1'') (to_be_bytes_u64 0)
      [Put resource_ns (record_key (rr_name sample_record)) Absent (store_value_new sample_sha [1])] = Ok sample_put"
    using internal_namespace_Ok [of "rc_dns sample_record_codec"] resource_ns_internal(1)
    unfolding prepare_internal_transaction_def by (simp add: store_transaction_new_Ok sample_put_def Let_def)
  then show ?thesis using assms resource_ns_internal(2)
    by (simp add: prepare_put_def snapshot_expectation_def prepare_transaction_def)
qed

lemma sample_commit:
  assumes "so_get so s resource_ns (record_key (rr_name sample_record)) = Ok None" "so_revision so s = Ok (to_be_bytes_u64 0)"
    and "so_commit so s sample_put = (s', Ok (Committed receipt))" "cr_transaction receipt = st_id sample_put" "cr_operation_digest receipt = st_operation_digest sample_put"
  shows "commit_record sample_record_codec so s (s, Ready) (Ok (lit ''txn_1'')) sample_record = ((s', Ready), Ok (Installed receipt))"
  using assms sample_prepare [OF assms(1,2)] resource_namespace_Ok [of "rc_dns sample_record_codec"]
  by (simp add: commit_record_def commit_put_def machine_defs)

lemma sample_empty:
  "as_entries (redb_abs empty_db) k = None" "as_entries (json_abs empty_head) k = None"
  "as_receipts (json_abs empty_head) t = None" "as_generation (redb_abs empty_db) = 0"
  by (cases k, simp_all add: redb_abs_def redb_tables_abs_def empty_db_def redb_initialize_def json_abs_def table_abs_def
      empty_head_def current_generation_def decode_revision_def)

lemma sample_redb_put:
  "\<exists>db' receipt. commit_record sample_record_codec (redb_storage sample_sha no_faults) empty_db (empty_db, Ready)
      (Ok (lit ''txn_1'')) sample_record = ((db', Ready), Ok (Installed receipt))"
proof -
  have "\<exists>db' receipt. redb_commit sample_sha no_faults empty_db sample_put = (db', Ok (Committed receipt)) \<and>
      cr_transaction receipt = st_id sample_put \<and> cr_operation_digest receipt = st_operation_digest sample_put"
    by (simp add: redb_commit_def faulted_def no_faults_def empty_db_def redb_initialize_def read_receipt_def
        current_generation_def decode_revision_def sample_put_def computed_operation_digest_def checked_add_def Let_def)
  then obtain db' receipt where "redb_commit sample_sha no_faults empty_db sample_put = (db', Ok (Committed receipt))"
      "cr_transaction receipt = st_id sample_put" "cr_operation_digest receipt = st_operation_digest sample_put" by blast
  then show ?thesis
    using sample_commit [of "redb_storage sample_sha no_faults" empty_db db' receipt]
      rs.get_refines [OF empty_db_inv resource_ns_ok, of sample_sha no_faults]
      rs.revision_refines [OF empty_db_inv, of sample_sha no_faults]
    by (auto simp: sample_empty redb_storage_def)
qed

lemma sample_json_put:
  "\<exists>head' receipt. commit_record sample_record_codec (json_storage sample_sha sample_codec sample_config good_io) empty_head
      (empty_head, Ready) (Ok (lit ''txn_1'')) sample_record = ((head', Ready), Ok (Installed receipt))"
proof -
  have "\<exists>head' receipt. json_commit sample_sha sample_codec sample_config good_io empty_head sample_put = (head', Ok (Committed receipt)) \<and>
      cr_transaction receipt = st_id sample_put \<and> cr_operation_digest receipt = st_operation_digest sample_put"
    by (simp add: json_commit_def empty_head_def good_io_def sample_put_def sample_config_def sample_codec_def
      document_build_def body_length_def computed_operation_digest_def checked_add_def Let_def)
  then show ?thesis using sample_commit [of "json_storage sample_sha sample_codec sample_config good_io" empty_head]
    by (auto simp: json_storage_def json_snapshot_get_def json_snapshot_revision_def empty_head_def)
qed

section \<open>Properties\<close>

text \<open>C3: a resource put through the metadata store over redb, decided on a snapshot that other
  writers may have overtaken, moves the register only upwards: either the contents stay as
  they are, or the record is the new winner, beats the winner it replaces, and the only other
  change is the marker of the transaction id. \<open>Installed\<close> is answered only for the new winner, \<open>Superseded\<close> only with a winner the
  record does not beat, and an error leaves the store unchanged unless the engine's own commit
  failed after its write became durable, where the put is in the store and answered as failed.\<close>

theorem register_commit_safe:
  assumes "redb_inv snap" "redb_inv db" "later (rc_sha c) (redb_abs snap) (redb_abs db)" "rc_dns c BUILTIN_DOMAIN"
    and "\<forall>bytes. length (rc_sha c bytes) = 32" "fresh_id (redb_abs db) tid" "codec_ok c" "record_ok c r"
    and "commit_record c (redb_storage (rc_sha c) io) snap (db, state) tid r = ((db', state'), out)"
  shows "redb_inv db' \<and>
    (redb_abs db' = redb_abs db \<or>
      winner c resource_ns (redb_abs db') (rr_name r) = Some r \<and>
      (\<forall>old. winner c resource_ns (redb_abs db) (rr_name r) = Some old \<longrightarrow> wins_over r old) \<and>
      (\<exists>t bytes. tid = Ok t \<and> as_entries (redb_abs db') = (as_entries (redb_abs db))
        ((resource_ns, record_key (rr_name r)) := Some bytes, (internal_ns, used_id_key t) := Some ACTIVE_MARKER_VALUE))) \<and>
    (case out of
       Inr (Installed receipt) \<Rightarrow> winner c resource_ns (redb_abs db') (rr_name r) = Some r
     | Inr (Superseded e) \<Rightarrow> redb_abs db' = redb_abs db \<and>
         winner c resource_ns (redb_abs snap) (rr_name r) = Some e \<and> \<not> wins_over r e
     | Inr (Indeterminate _ _) \<Rightarrow> True
     | Inl e \<Rightarrow> (\<forall>f. rio_commit io \<noteq> Some (f, True)) \<longrightarrow> redb_abs db' = redb_abs db)"
proof -
  have len: "length (rc_sha c bytes) = 32" for bytes using assms(5) by blast
  have "clean_failure (rc_sha c) redb_inv redb_abs (so_commit (redb_storage (rc_sha c) io)) e"
    if "\<forall>f. rio_commit io \<noteq> Some (f, True)" for e
    using redb_clean_failure [OF that] by (simp add: redb_storage_def)
  then show ?thesis
    using rs.commit_record_effect [OF assms(1-3) resource_namespace_Ok [of "rc_dns c", OF assms(4)] resource_ns_ok
      resource_ns_internal(1) refl assms(4) len assms(6-9)]
    by (cases out) (auto split: resource_outcome.splits)
qed

theorem register_commit_safe_witness:
  "\<exists>db' receipt. commit_record sample_record_codec (redb_storage sample_sha no_faults) empty_db (empty_db, Ready)
      (Ok (lit ''txn_1'')) sample_record = ((db', Ready), Ok (Installed receipt)) \<and>
    winner sample_record_codec resource_ns (redb_abs db') (rr_name sample_record) = Some sample_record"
proof -
  obtain db' receipt where c: "commit_record sample_record_codec (redb_storage (rc_sha sample_record_codec) no_faults) empty_db
      (empty_db, Ready) (Ok (lit ''txn_1'')) sample_record = ((db', Ready), Ok (Installed receipt))"
    using sample_redb_put by auto
  have f: "fresh_id (redb_abs empty_db) (Ok (lit ''txn_1''))" by (simp add: fresh_id_def empty_db_receipts)
  have l: "\<forall>bytes. length (rc_sha sample_record_codec bytes) = 32" by (simp add: sample_sha_def)
  from register_commit_safe [OF empty_db_inv empty_db_inv later_refl _ l f sample_codec_ok sample_record_ok c] c
  show ?thesis by auto
qed

text \<open>C12: replicas converge. Two replicas, one over redb and one over the JSON store, start
  without the resource and take the same set of records in any order and any number of
  times, each with a definite outcome; their winners then carry the same tuple, the greatest
  one delivered.\<close>

theorem replicas_converge:
  assumes "accepts c (redb_storage (rc_sha c) rio) redb_abs name db rs1 db'"
    and "accepts c (json_storage (rc_sha c) codec cfg jio) json_abs name head rs2 head'"
    and "redb_inv db" "json_inv (rc_sha c) head" "rc_dns c BUILTIN_DOMAIN" "\<forall>bytes. length (rc_sha c bytes) = 32" "codec_ok c"
    and "winner c resource_ns (redb_abs db) name = None" "winner c resource_ns (json_abs head) name = None"
    and "set rs1 = set rs2" "rs1 \<noteq> []"
  shows "\<exists>w\<in>set rs1. \<exists>w'\<in>set rs1. winner c resource_ns (redb_abs db') name = Some w \<and>
    winner c resource_ns (json_abs head') name = Some w' \<and>
    tuple_key w = Max (tuple_key ` set rs1) \<and> tuple_key w' = tuple_key w"
proof -
  have len: "length (rc_sha c bytes) = 32" for bytes using assms(6) by blast
  note ns = resource_namespace_Ok [of "rc_dns c", OF assms(5)] resource_ns_ok resource_ns_internal(1) refl assms(5)
  have "rs2 \<noteq> []" using assms(10,11) by auto
  with rs.accepts_max [OF assms(1,3) ns len assms(7,8)] jss.accepts_max [OF assms(2,4) ns len assms(7,9)] assms(10,11)
  show ?thesis by fastforce
qed

theorem replicas_converge_witness:
  "\<exists>db' head'.
    accepts sample_record_codec (redb_storage sample_sha no_faults) redb_abs (rr_name sample_record) empty_db [sample_record] db' \<and>
    accepts sample_record_codec (json_storage sample_sha sample_codec sample_config good_io) json_abs (rr_name sample_record)
      empty_head [sample_record] head' \<and>
    winner sample_record_codec resource_ns (redb_abs db') (rr_name sample_record) = Some sample_record \<and>
    winner sample_record_codec resource_ns (json_abs head') (rr_name sample_record) = Some sample_record"
proof -
  let ?c = sample_record_codec and ?n = "rr_name sample_record"
  obtain db' r1 where p1: "commit_record ?c (redb_storage sample_sha no_faults) empty_db (empty_db, Ready)
      (Ok (lit ''txn_1'')) sample_record = ((db', Ready), Ok (Installed r1))" using sample_redb_put by blast
  obtain head' r2 where p2: "commit_record ?c (json_storage sample_sha sample_codec sample_config good_io) empty_head
      (empty_head, Ready) (Ok (lit ''txn_1'')) sample_record = ((head', Ready), Ok (Installed r2))"
    using sample_json_put by blast
  have "accepts ?c (redb_storage sample_sha no_faults) redb_abs ?n empty_db ([] @ [sample_record]) db'"
    by (rule accepts_snoc [OF accepts_nil sample_record_ok refl _ p1]) (simp_all add: fresh_id_def empty_db_receipts)
  then have a1: "accepts ?c (redb_storage (rc_sha ?c) no_faults) redb_abs ?n empty_db [sample_record] db'" by simp
  have "accepts ?c (json_storage sample_sha sample_codec sample_config good_io) json_abs ?n empty_head ([] @ [sample_record]) head'"
    by (rule accepts_snoc [OF accepts_nil sample_record_ok refl _ p2]) (simp_all add: fresh_id_def sample_empty)
  then have a2: "accepts ?c (json_storage (rc_sha ?c) sample_codec sample_config good_io) json_abs ?n empty_head [sample_record] head'"
    by simp
  have l: "\<forall>bytes. length (rc_sha ?c bytes) = 32" by (simp add: sample_sha_def)
  from replicas_converge [OF a1 a2 empty_db_inv _ _ l sample_codec_ok] a1 a2
  show ?thesis by (auto simp: winner_def sample_empty empty_head_inv)
qed

text \<open>C40: one retention pass cleans at most one record, whatever the cap and however many
  removals have expired: every delete of the pass names the revision of its one snapshot, and
  the first effective one moves the store past it. What it cleans is a removal; live records
  and, apart from the marker of the delete's id, every other key stay.\<close>

theorem sweep_removes_at_most_one:
  assumes "redb_inv db" "rc_dns c BUILTIN_DOMAIN" "\<forall>bytes. length (rc_sha c bytes) = 32"
    and "\<forall>h. set (pop h) \<subseteq> set h" "\<forall>h. set (into_vec h) \<subseteq> set h"
    and "\<forall>i. fresh_id (redb_abs db) (tids i)" "unique_ids tids"
    and "sweep_removed c (redb_storage (rc_sha c) io) tids pop into_vec (db, state) now retention cap = ((db', state'), res)"
  shows "(\<forall>n. res = Ok n \<longrightarrow> n \<le> 1) \<and>
    (redb_abs db' = redb_abs db \<or>
     (\<exists>key bytes r t. as_entries (redb_abs db) (resource_ns, key) = Some bytes \<and> record_decode c bytes = Ok r \<and>
        rr_removed r \<and> as_entries (redb_abs db') =
          (as_entries (redb_abs db))((resource_ns, key) := None, (internal_ns, used_id_key t) := Some ACTIVE_MARKER_VALUE)))"
proof -
  have h: "length (rc_sha c bytes) = 32" "set (pop hp) \<subseteq> set hp" "set (into_vec hp) \<subseteq> set hp" "fresh_id (redb_abs db) (tids i)"
    for bytes hp i using assms(3-6) by blast+
  show ?thesis
    using rs.sweep_removed_effect [OF assms(1) resource_namespace_Ok [of "rc_dns c", OF assms(2)] resource_ns_ok refl assms(2) h assms(7,8)] by blast
qed

definition two_removals :: redb_database where
  "two_removals = empty_db\<lparr>rd_entries := [(composite_key resource_ns [1], [1]), (composite_key resource_ns [2], [1])]\<rparr>"

theorem sweep_removes_at_most_one_witness:
  "\<exists>db' state' res. sweep_removed sample_record_codec (redb_storage sample_sha no_faults)
      (\<lambda>i. Ok (lit ''txn_'' @ replicate i 48)) (\<lambda>h. []) (\<lambda>h. h) (two_removals, Ready) 2000000 1 8 = ((db', state'), res) \<and>
    (\<forall>n. res = Ok n \<longrightarrow> n \<le> 1)"
proof -
  let ?t = "\<lambda>i. Ok (lit ''txn_'' @ replicate i 48) :: transaction_id result"
  have u: "unique_ids ?t" unfolding unique_ids_def by (auto dest: arg_cong [where f = length])
  have inv: "redb_inv two_removals" using empty_db_inv by (simp add: redb_inv_def two_removals_def bt_ok_def composite_key_def BUILTIN_DOMAIN_def)
  have rec: "as_receipts (redb_abs two_removals) t = None" for t
    by (simp add: redb_abs_def redb_tables_abs_def two_removals_def empty_db_def redb_initialize_def read_receipt_def)
  then have f: "\<forall>i. fresh_id (redb_abs two_removals) (?t i)" by (simp add: fresh_id_def is_ascii_def list_all_iff)
  have l: "\<forall>bytes. length (rc_sha sample_record_codec bytes) = 32" by (simp add: sample_sha_def)
  obtain db' state' res where s: "sweep_removed sample_record_codec (redb_storage (rc_sha sample_record_codec) no_faults)
      ?t (\<lambda>h. []) (\<lambda>h. h) (two_removals, Ready) 2000000 1 8 = ((db', state'), res)" by (metis surj_pair)
  from sweep_removes_at_most_one [OF inv _ l _ _ f u s] s show ?thesis by auto
qed

end
