(* ===== verification/Feature_Registry.thy ===== *)
theory Feature_Registry
  imports Qualified_Tags
begin

text \<open>
  Feature definitions and the closed feature registry (\<^verbatim>\<open>src/src/protocol/feature.rs\<close>).
  A definition's digest is SHA-256 over its canonical CBOR record: the encoder
  \<open>enc\<close> (the bounded \<^verbatim>\<open>encode_canonical\<close> over the external \<^verbatim>\<open>minicbor\<close> crate, which may fail) and the
  hash \<open>sha\<close> are parameters of every definition that computes a digest; \<open>dns\<close> is the host
  name grammar of the tag parser.
\<close>

section \<open>Limits\<close>

datatype limit_width = U16 | U32 | U64

fun limit_width_wire :: "limit_width \<Rightarrow> u64" where
  "limit_width_wire U16 = 16"
| "limit_width_wire U32 = 32"
| "limit_width_wire U64 = 64"

fun limit_width_maximum :: "limit_width \<Rightarrow> u64" where
  "limit_width_maximum U16 = 65535"
| "limit_width_maximum U32 = 4294967295"
| "limit_width_maximum U64 = - 1"

datatype limit_unit = Bytes | Count

fun limit_unit_wire :: "limit_unit \<Rightarrow> u64" where
  "limit_unit_wire Bytes = 0"
| "limit_unit_wire Count = 1"

record limit_range =
  lr_floor :: u64
  lr_ceiling :: u64
  lr_default :: u64

definition limit_range_new :: "u64 \<Rightarrow> u64 \<Rightarrow> u64 \<Rightarrow> limit_range result" where
  "limit_range_new floor ceiling dflt =
     (if floor > ceiling \<or> dflt < floor \<or> dflt > ceiling
      then Err (invalid_input ''limit definition range'')
      else Ok \<lparr>lr_floor = floor, lr_ceiling = ceiling, lr_default = dflt\<rparr>)"

definition limit_range_contains :: "limit_range \<Rightarrow> u64 \<Rightarrow> bool" where
  "limit_range_contains r value = (value \<ge> lr_floor r \<and> value \<le> lr_ceiling r)"

record limit_definition =
  ld_tag :: qualified_tag
  ld_width :: limit_width
  ld_unit :: limit_unit
  ld_range :: limit_range
  ld_owner :: qualified_tag
  ld_mandatory :: bool

definition limit_definition_new ::
  "qualified_tag \<Rightarrow> limit_width \<Rightarrow> limit_unit \<Rightarrow> limit_range \<Rightarrow> qualified_tag \<Rightarrow> bool \<Rightarrow> limit_definition result" where
  "limit_definition_new tag width un rng owner mandatory =
     (if tag_category tag \<noteq> CATEGORY_LIMITS
      then Err (invalid_input ''limit definition category'')
      else if lr_ceiling rng > limit_width_maximum width
      then Err (invalid_input ''limit definition width'')
      else Ok \<lparr>ld_tag = tag, ld_width = width, ld_unit = un, ld_range = rng,
               ld_owner = owner, ld_mandatory = mandatory\<rparr>)"

definition limit_default :: "limit_definition \<Rightarrow> u64" where
  "limit_default l = lr_default (ld_range l)"

definition limit_contains :: "limit_definition \<Rightarrow> u64 \<Rightarrow> bool" where
  "limit_contains l value = limit_range_contains (ld_range l) value"

text \<open>The canonical record of a limit, an array of eight fields.\<close>

record limit_wire =
  lw_tag :: ustr
  lw_width :: u64
  lw_unit :: u64
  lw_floor :: u64
  lw_ceiling :: u64
  lw_default :: u64
  lw_owner :: ustr
  lw_mandatory :: bool

definition limit_definition_wire :: "limit_definition \<Rightarrow> limit_wire" where
  "limit_definition_wire l =
     \<lparr>lw_tag = tag_value (ld_tag l), lw_width = limit_width_wire (ld_width l),
      lw_unit = limit_unit_wire (ld_unit l), lw_floor = lr_floor (ld_range l),
      lw_ceiling = lr_ceiling (ld_range l), lw_default = lr_default (ld_range l),
      lw_owner = tag_value (ld_owner l), lw_mandatory = ld_mandatory l\<rparr>"

section \<open>Definitions\<close>

record feature_definition =
  fd_tag :: qualified_tag
  fd_fingerprint :: digest
  fd_dependencies :: "qualified_tag list"
  fd_conflicts :: "qualified_tag list"
  fd_protocols :: "qualified_tag list"
  fd_limits :: "limit_definition list"
  fd_test_owner :: ustr

definition feature_unchecked :: "qualified_tag \<Rightarrow> digest \<Rightarrow> ustr \<Rightarrow> feature_definition" where
  "feature_unchecked tag fingerprint test_owner =
     \<lparr>fd_tag = tag, fd_fingerprint = fingerprint, fd_dependencies = [], fd_conflicts = [],
      fd_protocols = [], fd_limits = [], fd_test_owner = test_owner\<rparr>"

definition feature_new :: "qualified_tag \<Rightarrow> digest \<Rightarrow> feature_definition result" where
  "feature_new tag fingerprint =
     (if tag_domain tag = BUILTIN_DOMAIN
      then Err (invalid_input ''feature definition reserved namespace'')
      else Ok (feature_unchecked tag fingerprint []))"

definition feature_dependency :: "feature_definition \<Rightarrow> qualified_tag \<Rightarrow> feature_definition result" where
  "feature_dependency d tag =
     (if tag = fd_tag d then Err (invalid_input ''feature dependency self'')
      else if tag \<in> set (fd_dependencies d) then Err (invalid_input ''feature dependency duplicate'')
      else Ok (d\<lparr>fd_dependencies := fd_dependencies d @ [tag]\<rparr>))"

definition feature_conflict :: "feature_definition \<Rightarrow> qualified_tag \<Rightarrow> feature_definition result" where
  "feature_conflict d tag =
     (if tag = fd_tag d then Err (invalid_input ''feature conflict self'')
      else if tag \<in> set (fd_conflicts d) then Err (invalid_input ''feature conflict duplicate'')
      else Ok (d\<lparr>fd_conflicts := fd_conflicts d @ [tag]\<rparr>))"

definition feature_protocol :: "feature_definition \<Rightarrow> qualified_tag \<Rightarrow> feature_definition result" where
  "feature_protocol d tag =
     (if tag \<in> set (fd_protocols d) then Err (invalid_input ''feature protocol duplicate'')
      else Ok (d\<lparr>fd_protocols := fd_protocols d @ [tag]\<rparr>))"

definition feature_limit :: "feature_definition \<Rightarrow> limit_definition \<Rightarrow> feature_definition result" where
  "feature_limit d l =
     (if ld_owner l \<noteq> fd_tag d then Err (invalid_input ''feature limit owner'')
      else if list_ex (\<lambda>existing. ld_tag existing = ld_tag l) (fd_limits d)
      then Err (invalid_input ''feature limit duplicate'')
      else Ok (d\<lparr>fd_limits := fd_limits d @ [l]\<rparr>))"

record definition_wire =
  dw_tag :: ustr
  dw_fingerprint :: digest
  dw_dependencies :: "ustr list"
  dw_conflicts :: "ustr list"
  dw_protocols :: "ustr list"
  dw_limits :: "limit_wire list"
  dw_test_owner :: ustr

definition feature_wire :: "feature_definition \<Rightarrow> definition_wire" where
  "feature_wire d =
     \<lparr>dw_tag = tag_value (fd_tag d), dw_fingerprint = fd_fingerprint d,
      dw_dependencies = sort (map tag_value (fd_dependencies d)),
      dw_conflicts = sort (map tag_value (fd_conflicts d)),
      dw_protocols = sort (map tag_value (fd_protocols d)),
      dw_limits = sort_key lw_tag (map limit_definition_wire (fd_limits d)),
      dw_test_owner = fd_test_owner d\<rparr>"

text \<open>The two external functions behind a definition digest: the bounded canonical encoder
  and SHA-256.\<close>

record digest_provider =
  dp_encode :: "definition_wire \<Rightarrow> byte list result"
  dp_sha256 :: "byte list \<Rightarrow> digest"

definition definition_digest :: "digest_provider \<Rightarrow> feature_definition \<Rightarrow> digest result" where
  "definition_digest dp d =
     and_then (dp_encode dp (feature_wire d)) (\<lambda>bytes. Ok (dp_sha256 dp bytes))"

section \<open>The built-in definitions\<close>

definition AUTH_ED25519_SESSION :: ustr where
  "AUTH_ED25519_SESSION = lit ''radiata.woooo.tech/features/auth-ed25519-session''"
definition SESSION_CORE :: ustr where
  "SESSION_CORE = lit ''radiata.woooo.tech/features/session-core''"
definition DATA_MESSAGES :: ustr where
  "DATA_MESSAGES = lit ''radiata.woooo.tech/features/data-messages''"
definition DIRECT_REQUEST :: ustr where
  "DIRECT_REQUEST = lit ''radiata.woooo.tech/features/direct-request''"
definition ROUTED_DELIVERY :: ustr where
  "ROUTED_DELIVERY = lit ''radiata.woooo.tech/features/routed-delivery''"
definition DATA_BODY_BYTES_LIMIT :: ustr where
  "DATA_BODY_BYTES_LIMIT = lit ''radiata.woooo.tech/limits/data-body-bytes''"
definition IN_FLIGHT_REQUESTS_LIMIT :: ustr where
  "IN_FLIGHT_REQUESTS_LIMIT = lit ''radiata.woooo.tech/limits/in-flight-requests''"
definition DIRECT_REQUEST_PROTOCOL :: ustr where
  "DIRECT_REQUEST_PROTOCOL = lit ''radiata.woooo.tech/protocols/direct-request''"
definition FINGERPRINT_SEED_PREFIX :: ustr where
  "FINGERPRINT_SEED_PREFIX = lit ''radiata.woooo.tech/crypto/feature-fingerprint-v1/''"
definition BUILTIN_TEST_OWNER :: ustr where
  "BUILTIN_TEST_OWNER = lit ''VERIFY-G03-01''"

definition DATA_BODY_FLOOR :: u64 where "DATA_BODY_FLOOR = 64 * 1024"
definition DATA_BODY_DEFAULT :: u64 where "DATA_BODY_DEFAULT = 1024 * 1024"
definition DATA_BODY_CEILING :: u64 where "DATA_BODY_CEILING = 8 * 1024 * 1024"
definition IN_FLIGHT_FLOOR :: u64 where "IN_FLIGHT_FLOOR = 1"
definition IN_FLIGHT_DEFAULT :: u64 where "IN_FLIGHT_DEFAULT = 256"
definition IN_FLIGHT_CEILING :: u64 where "IN_FLIGHT_CEILING = 1024"

definition builtin_fingerprint :: "digest_provider \<Rightarrow> qualified_tag \<Rightarrow> digest" where
  "builtin_fingerprint dp tag = dp_sha256 dp (as_bytes (FINGERPRINT_SEED_PREFIX @ tag_value tag))"

definition builtin :: "(ustr \<Rightarrow> bool) \<Rightarrow> digest_provider \<Rightarrow> ustr \<Rightarrow> feature_definition result" where
  "builtin dns dp text =
     and_then (feature_tag_parse dns text) (\<lambda>tag.
       Ok (feature_unchecked tag (builtin_fingerprint dp tag) BUILTIN_TEST_OWNER))"

definition builtin_definitions ::
  "(ustr \<Rightarrow> bool) \<Rightarrow> digest_provider \<Rightarrow> feature_definition list result" where
  "builtin_definitions dns dp =
     and_then (builtin dns dp AUTH_ED25519_SESSION) (\<lambda>auth.
     and_then (builtin dns dp SESSION_CORE) (\<lambda>session0.
     and_then (feature_tag_parse dns AUTH_ED25519_SESSION) (\<lambda>auth_tag.
     and_then (feature_dependency session0 auth_tag) (\<lambda>session.
     and_then (builtin dns dp DATA_MESSAGES) (\<lambda>data0.
     and_then (feature_tag_parse dns SESSION_CORE) (\<lambda>session_tag.
     and_then (feature_dependency data0 session_tag) (\<lambda>data1.
     and_then (tag_parse dns DATA_BODY_BYTES_LIMIT) (\<lambda>body_tag.
     and_then (limit_range_new DATA_BODY_FLOOR DATA_BODY_CEILING DATA_BODY_DEFAULT) (\<lambda>body_range.
     and_then (feature_tag_parse dns DATA_MESSAGES) (\<lambda>data_tag.
     and_then (limit_definition_new body_tag U32 Bytes body_range data_tag True) (\<lambda>body_limit.
     and_then (feature_limit data1 body_limit) (\<lambda>data.
     and_then (builtin dns dp DIRECT_REQUEST) (\<lambda>direct0.
     and_then (feature_dependency direct0 data_tag) (\<lambda>direct1.
     and_then (tag_parse dns IN_FLIGHT_REQUESTS_LIMIT) (\<lambda>flight_tag.
     and_then (limit_range_new IN_FLIGHT_FLOOR IN_FLIGHT_CEILING IN_FLIGHT_DEFAULT) (\<lambda>flight_range.
     and_then (feature_tag_parse dns DIRECT_REQUEST) (\<lambda>direct_tag.
     and_then (limit_definition_new flight_tag U16 Count flight_range direct_tag True) (\<lambda>flight_limit.
     and_then (feature_limit direct1 flight_limit) (\<lambda>direct2.
     and_then (protocol_tag_parse dns DIRECT_REQUEST_PROTOCOL) (\<lambda>proto_tag.
     and_then (feature_protocol direct2 proto_tag) (\<lambda>direct.
     and_then (builtin dns dp ROUTED_DELIVERY) (\<lambda>routed0.
     and_then (feature_dependency routed0 data_tag) (\<lambda>routed.
       Ok [auth, session, data, direct, routed])))))))))))))))))))))))"

definition required_session_features :: "(ustr \<Rightarrow> bool) \<Rightarrow> qualified_tag list result" where
  "required_session_features dns =
     and_then (feature_tag_parse dns AUTH_ED25519_SESSION) (\<lambda>auth.
     and_then (feature_tag_parse dns SESSION_CORE) (\<lambda>session. Ok [auth, session]))"

section \<open>Building a registry\<close>

type_synonym feature_map = "(qualified_tag, feature_definition) btree"

primrec insert_definitions :: "feature_definition list \<Rightarrow> feature_map \<Rightarrow> feature_map result" where
  "insert_definitions [] m = Ok m"
| "insert_definitions (d # ds) m =
     (if bt_get m (fd_tag d) \<noteq> None
      then Err (invalid_input ''feature registry duplicate label'')
      else insert_definitions ds (bt_insert (fd_tag d) d m))"

primrec reserved_candidate ::
  "digest_provider \<Rightarrow> feature_definition \<Rightarrow> digest \<Rightarrow> feature_definition list \<Rightarrow> unit result" where
  "reserved_candidate dp d actual [] = Err (invalid_input ''feature registry reserved namespace'')"
| "reserved_candidate dp d actual (c # cs) =
     (if fd_tag c = fd_tag d
      then and_then (definition_digest dp c) (\<lambda>h.
        if h = actual then Ok () else reserved_candidate dp d actual cs)
      else reserved_candidate dp d actual cs)"

definition check_reserved_namespace ::
  "digest_provider \<Rightarrow> feature_definition list \<Rightarrow> feature_definition \<Rightarrow> unit result" where
  "check_reserved_namespace dp builtins d =
     (if tag_domain (fd_tag d) \<noteq> BUILTIN_DOMAIN then Ok ()
      else and_then (definition_digest dp d) (\<lambda>actual. reserved_candidate dp d actual builtins))"

text \<open>\<open>for x in xs { f(x)?; }\<close>\<close>

primrec for_each :: "('a \<Rightarrow> 'e + unit) \<Rightarrow> 'a list \<Rightarrow> 'e + unit" where
  "for_each f [] = Ok ()"
| "for_each f (x # xs) = and_then (f x) (\<lambda>_. for_each f xs)"

text \<open>
  The recursive dependency visit. Both callers of \<^verbatim>\<open>visit\<close> are loops that visit a list of
  tags in order and stop at the first error, so the recursion is over such a list: the list
  of one tag is a single call.
\<close>

datatype mark = Visiting | Done

function visit_all ::
  "feature_map \<Rightarrow> qualified_tag list \<Rightarrow> (qualified_tag, mark) btree \<Rightarrow> (qualified_tag, mark) btree result" where
  "visit_all defs [] marks = Ok marks"
| "visit_all defs (tag # tags) marks =
     (case bt_get marks tag of
        Some Done \<Rightarrow> visit_all defs tags marks
      | Some Visiting \<Rightarrow> Err (invalid_input ''feature registry dependency cycle'')
      | None \<Rightarrow>
          (case bt_get defs tag of
             None \<Rightarrow> Err (invalid_input ''feature registry missing dependency'')
           | Some d \<Rightarrow>
               (case visit_all defs (fd_dependencies d) (bt_insert tag Visiting marks) of
                  Inl e \<Rightarrow> Inl e
                | Inr marks' \<Rightarrow> visit_all defs tags (bt_insert tag Done marks'))))"
  by pat_completeness auto

lemma visit_all_keeps_marks:
  "visit_all_dom (defs, tags, marks) \<Longrightarrow> visit_all defs tags marks = Ok marks' \<Longrightarrow>
   dom (bt_get marks) \<subseteq> dom (bt_get marks')"
proof (induction arbitrary: marks' rule: visit_all.pinduct)
  case (1 defs marks)
  then show ?case by (simp add: visit_all.psimps)
next
  case (2 defs tag tags marks)
  note eq = visit_all.psimps(2) [OF 2(1)]
  show ?case
  proof (cases "bt_get marks tag")
    case None
    with "2.prems" eq obtain d m where d: "bt_get defs tag = Some d"
      and m: "visit_all defs (fd_dependencies d) (bt_insert tag Visiting marks) = Ok m"
      and r: "visit_all defs tags (bt_insert tag Done m) = Ok marks'"
      by (auto split: option.split_asm sum.split_asm)
    have "dom (bt_get (bt_insert tag Visiting marks)) \<subseteq> dom (bt_get m)"
      using "2.IH" None d m by blast
    moreover have "dom (bt_get (bt_insert tag Done m)) \<subseteq> dom (bt_get marks')"
      using "2.IH" None d m r by blast
    ultimately show ?thesis by (auto simp: subset_iff domIff bt_get_insert split: if_splits)
  next
    case (Some k)
    with 2 eq show ?thesis by (cases k) auto
  qed
qed

definition unmarked :: "feature_map \<Rightarrow> (qualified_tag, mark) btree \<Rightarrow> nat" where
  "unmarked defs marks = card (dom (bt_get defs) - dom (bt_get marks))"

lemma unmarked_mono: "dom (bt_get m) \<subseteq> dom (bt_get m') \<Longrightarrow> unmarked defs m' \<le> unmarked defs m"
  unfolding unmarked_def by (rule card_mono) (auto simp: finite_dom_map_of)

lemma unmarked_less:
  assumes "bt_get defs tag = Some d" "bt_get m tag = None" "insert tag (dom (bt_get m)) \<subseteq> dom (bt_get m')"
  shows "unmarked defs m' < unmarked defs m"
  unfolding unmarked_def using assms by (intro psubset_card_mono) (auto simp: finite_dom_map_of)

termination visit_all
proof (relation "measures [\<lambda>(defs, tags, marks). unmarked defs marks, \<lambda>(defs, tags, marks). length tags]",
    goal_cases)
  case (2 defs tag tags marks d)
  then have "unmarked defs (bt_insert tag Visiting marks) < unmarked defs marks"
    by (intro unmarked_less) (auto simp: bt_get_insert)
  then show ?case by simp
next
  case (3 defs tag tags marks d marks')
  then have "dom (bt_get (bt_insert tag Visiting marks)) \<subseteq> dom (bt_get marks')"
    by (intro visit_all_keeps_marks) auto
  then have "unmarked defs (bt_insert tag Done marks') < unmarked defs marks"
    using 3 by (intro unmarked_less) (auto simp: bt_get_insert subset_iff domIff split: if_splits)
  then show ?case by simp
qed simp_all

definition check_dependencies :: "feature_map \<Rightarrow> unit result" where
  "check_dependencies defs = and_then (visit_all defs (map fst defs) []) (\<lambda>_. Ok ())"

definition check_conflict :: "feature_map \<Rightarrow> feature_definition \<Rightarrow> qualified_tag \<Rightarrow> unit result" where
  "check_conflict defs d c =
     (if c = fd_tag d then Err (invalid_input ''feature registry self conflict'')
      else case bt_get defs c of
          None \<Rightarrow> Err (invalid_input ''feature registry asymmetric conflict'')
        | Some other \<Rightarrow>
            if fd_tag d \<notin> set (fd_conflicts other)
            then Err (invalid_input ''feature registry asymmetric conflict'')
            else Ok ())"

definition check_conflicts :: "feature_map \<Rightarrow> unit result" where
  "check_conflicts defs =
     for_each (\<lambda>d. for_each (check_conflict defs d) (fd_conflicts d)) (map snd defs)"

primrec claim_tags ::
  "string \<Rightarrow> qualified_tag list \<Rightarrow> (qualified_tag, unit) btree \<Rightarrow> (qualified_tag, unit) btree result" where
  "claim_tags ctx [] owned = Ok owned"
| "claim_tags ctx (t # ts) owned =
     (if bt_get owned t \<noteq> None then Err (invalid_input ctx)
      else claim_tags ctx ts (bt_insert t () owned))"

primrec claim_definitions ::
  "feature_definition list \<Rightarrow> (qualified_tag, unit) btree \<Rightarrow> (qualified_tag, unit) btree \<Rightarrow> unit result" where
  "claim_definitions [] limits protocols = Ok ()"
| "claim_definitions (d # ds) limits protocols =
     and_then (claim_tags ''feature registry duplicate limit owner'' (map ld_tag (fd_limits d)) limits) (\<lambda>limits'.
     and_then (claim_tags ''feature registry duplicate protocol owner'' (fd_protocols d) protocols) (\<lambda>protocols'.
       claim_definitions ds limits' protocols'))"

definition check_unique_ownership :: "feature_map \<Rightarrow> unit result" where
  "check_unique_ownership defs = claim_definitions (map snd defs) [] []"

record feature_registry =
  fr_definitions :: feature_map

definition registry_build ::
  "(ustr \<Rightarrow> bool) \<Rightarrow> digest_provider \<Rightarrow> feature_definition list \<Rightarrow> feature_registry result" where
  "registry_build dns dp ds =
     and_then (insert_definitions ds []) (\<lambda>m.
     and_then (builtin_definitions dns dp) (\<lambda>builtins.
     and_then (for_each (check_reserved_namespace dp builtins) (map snd m)) (\<lambda>_.
     and_then (check_dependencies m) (\<lambda>_.
     and_then (check_conflicts m) (\<lambda>_.
     and_then (check_unique_ownership m) (\<lambda>_.
       Ok \<lparr>fr_definitions = m\<rparr>))))))"

definition registry_builtin :: "(ustr \<Rightarrow> bool) \<Rightarrow> digest_provider \<Rightarrow> feature_registry result" where
  "registry_builtin dns dp = and_then (builtin_definitions dns dp) (registry_build dns dp)"

definition registry_get :: "feature_registry \<Rightarrow> qualified_tag \<Rightarrow> feature_definition option" where
  "registry_get r tag = bt_get (fr_definitions r) tag"

definition registry_iter :: "feature_registry \<Rightarrow> (qualified_tag \<times> feature_definition) list" where
  "registry_iter r = fr_definitions r"

section \<open>The dependency check\<close>

definition depends_on :: "feature_map \<Rightarrow> (qualified_tag \<times> qualified_tag) set" where
  "depends_on defs = {(a, b). \<exists>d. bt_get defs a = Some d \<and> b \<in> set (fd_dependencies d)}"

definition marked :: "mark \<Rightarrow> (qualified_tag, mark) btree \<Rightarrow> qualified_tag set" where
  "marked k m = {t. bt_get m t = Some k}"

text \<open>A grounded tag is registered and so are all its transitive dependencies, along paths
  that end.\<close>

inductive grounded :: "feature_map \<Rightarrow> qualified_tag \<Rightarrow> bool" for defs where
  groundedI: "bt_get defs t = Some d \<Longrightarrow> (\<And>b. b \<in> set (fd_dependencies d) \<Longrightarrow> grounded defs b) \<Longrightarrow> grounded defs t"

lemma grounded_no_cycle: "grounded defs t \<Longrightarrow> (t, t) \<notin> (depends_on defs)\<^sup>+"
proof (induction rule: grounded.induct)
  case (groundedI t d)
  show ?case
  proof
    assume "(t, t) \<in> (depends_on defs)\<^sup>+"
    then obtain b where b: "(t, b) \<in> depends_on defs" "(b, t) \<in> (depends_on defs)\<^sup>*"
      by (meson tranclD)
    then have "(b, b) \<in> (depends_on defs)\<^sup>+" by (meson rtrancl_into_trancl1)
    with b(1) groundedI show False by (auto simp: depends_on_def)
  qed
qed

lemma visit_all_ConsE:
  assumes "visit_all defs (tag # tags) marks = Ok marks'"
  obtains (seen) "bt_get marks tag = Some Done" "visit_all defs tags marks = Ok marks'"
  | (fresh) d m where "bt_get marks tag = None" "bt_get defs tag = Some d"
      "visit_all defs (fd_dependencies d) (bt_insert tag Visiting marks) = Ok m"
      "visit_all defs tags (bt_insert tag Done m) = Ok marks'"
  using assms by (auto split: option.split_asm sum.split_asm mark.split_asm)

lemma marked_insert: "marked k (bt_insert t k' m) = (if k = k' then insert t (marked k m) else marked k m - {t})"
  by (auto simp: marked_def bt_get_insert)

lemma visit_all_sound:
  "visit_all defs tags marks = Ok marks' \<Longrightarrow> (\<forall>t\<in>marked Done marks. grounded defs t) \<Longrightarrow>
   marked Visiting marks' = marked Visiting marks \<and> marked Done marks \<subseteq> marked Done marks' \<and>
   set tags \<subseteq> marked Done marks' \<and> (\<forall>t\<in>marked Done marks'. grounded defs t)"
proof (induction defs tags marks arbitrary: marks' rule: visit_all.induct)
  case (2 defs tag tags marks)
  from "2.prems"(1) show ?case
  proof (cases rule: visit_all_ConsE)
    case seen
    have "tag \<in> marked Done marks" using seen(1) by (simp add: marked_def)
    with "2.IH"(3) [OF seen(1) refl seen(2) "2.prems"(2)] show ?thesis by (simp add: subset_iff)
  next
    case (fresh d m)
    have t: "tag \<notin> marked Visiting marks" "tag \<notin> marked Done marks"
      using fresh(1) by (auto simp: marked_def)
    have in1: "marked Visiting m = insert tag (marked Visiting marks)"
      "marked Done marks \<subseteq> marked Done m" "set (fd_dependencies d) \<subseteq> marked Done m"
      "\<forall>t\<in>marked Done m. grounded defs t"
      using "2.IH"(1) [OF fresh(1-3)] "2.prems"(2) t by (auto simp: marked_insert)
    then have "grounded defs tag" using fresh(2) by (blast intro: groundedI)
    with in1 have "\<forall>t\<in>marked Done (bt_insert tag Done m). grounded defs t"
      by (simp add: marked_insert)
    from "2.IH"(2) [OF fresh this] in1 t show ?thesis by (auto simp: marked_insert)
  qed
qed simp

lemma visit_all_complete:
  assumes "visit_all defs tags marks = Err e"
    and "\<forall>t\<in>set tags. bt_get defs t \<noteq> None"
    and "\<forall>a b. (a, b) \<in> depends_on defs \<longrightarrow> bt_get defs b \<noteq> None"
    and "\<forall>v\<in>marked Visiting marks. \<forall>t\<in>set tags. (v, t) \<in> (depends_on defs)\<^sup>+"
    and "\<forall>t\<in>marked Done marks. grounded defs t"
  shows "\<exists>t. (t, t) \<in> (depends_on defs)\<^sup>+"
  using assms
proof (induction defs tags marks rule: visit_all.induct)
  case (2 defs tag tags marks)
  note prems = "2.prems"
  consider (v) "bt_get marks tag = Some Visiting" | (d) "bt_get marks tag = Some Done"
    | (n) "bt_get marks tag = None"
    by (cases "bt_get marks tag"; cases "the (bt_get marks tag)") auto
  then show ?case
  proof cases
    case v
    then have "tag \<in> marked Visiting marks" by (simp add: marked_def)
    with prems(4) show ?thesis by auto
  next
    case d
    have "visit_all defs tags marks = Err e" using d prems(1) by simp
    with d prems show ?thesis by (intro "2.IH"(3)) auto
  next
    case n
    from prems(2) obtain d where d: "bt_get defs tag = Some d" by auto
    have dep: "(tag, b) \<in> depends_on defs" if "b \<in> set (fd_dependencies d)" for b
      using that d by (auto simp: depends_on_def)
    show ?thesis
    proof (cases "visit_all defs (fd_dependencies d) (bt_insert tag Visiting marks)")
      case (Inl e')
      with prems(1) n d have "e' = e" by simp
      with Inl n d dep prems(3-5) prems(4) show ?thesis
        by (intro "2.IH"(1)) (auto simp: marked_insert intro: trancl_into_trancl)
    next
      case (Inr m)
      have "marked Visiting m = insert tag (marked Visiting marks)" "\<forall>t\<in>marked Done m. grounded defs t"
        "set (fd_dependencies d) \<subseteq> marked Done m"
        using visit_all_sound [OF Inr] prems(5) by (auto simp: marked_insert)
      moreover have "grounded defs tag" using calculation(2,3) d by (blast intro: groundedI)
      moreover have "visit_all defs tags (bt_insert tag Done m) = Err e"
        using prems(1) n d Inr by simp
      ultimately show ?thesis using n d Inr prems(2-4)
        by (intro "2.IH"(2)) (auto simp: marked_insert)
    qed
  qed
qed simp

lemma check_dependencies_Ok:
  "check_dependencies defs = Ok u \<longleftrightarrow>
     acyclic (depends_on defs) \<and> (\<forall>a b. (a, b) \<in> depends_on defs \<longrightarrow> bt_get defs b \<noteq> None)"
proof
  assume "check_dependencies defs = Ok u"
  then obtain m where "visit_all defs (map fst defs) [] = Ok m"
    by (auto simp: check_dependencies_def and_then_Ok_iff)
  then have gr: "grounded defs t" if "t \<in> fst ` set defs" for t
    using visit_all_sound [of defs "map fst defs" "[]" m] that by (auto simp: marked_def)
  have reg: "t \<in> fst ` set defs" if "bt_get defs t = Some d" for t d
    using that by (force dest: map_of_SomeD)
  have "(t, t) \<notin> (depends_on defs)\<^sup>+" for t
  proof
    assume c: "(t, t) \<in> (depends_on defs)\<^sup>+"
    then obtain b where "(t, b) \<in> depends_on defs" by (meson tranclD)
    then have "grounded defs t" using gr reg by (auto simp: depends_on_def)
    with c show False using grounded_no_cycle by blast
  qed
  moreover have "bt_get defs b \<noteq> None" if "(a, b) \<in> depends_on defs" for a b
  proof -
    from that obtain d where d: "bt_get defs a = Some d" "b \<in> set (fd_dependencies d)"
      by (auto simp: depends_on_def)
    from gr [OF reg [OF d(1)]] d have "grounded defs b" by (auto elim: grounded.cases)
    then show ?thesis by (auto elim: grounded.cases)
  qed
  ultimately show "acyclic (depends_on defs) \<and> (\<forall>a b. (a, b) \<in> depends_on defs \<longrightarrow> bt_get defs b \<noteq> None)"
    by (auto simp: acyclic_def)
next
  assume a: "acyclic (depends_on defs) \<and> (\<forall>a b. (a, b) \<in> depends_on defs \<longrightarrow> bt_get defs b \<noteq> None)"
  show "check_dependencies defs = Ok u"
  proof (cases "visit_all defs (map fst defs) []")
    case (Inl e)
    have "\<forall>t\<in>set (map fst defs). bt_get defs t \<noteq> None" by (simp add: map_of_eq_None_iff)
    with a visit_all_complete [OF Inl] show ?thesis by (auto simp: acyclic_def marked_def)
  qed (simp add: check_dependencies_def)
qed

section \<open>What a built registry guarantees\<close>

lemma for_each_Ok: "for_each f xs = Ok u \<longleftrightarrow> (\<forall>x\<in>set xs. f x = Ok ())"
  by (induction xs) (auto simp: and_then_Ok_iff)

lemma insert_definitions_Ok:
  "insert_definitions ds m = Ok m' \<Longrightarrow> bt_ok m \<Longrightarrow>
   bt_ok m' \<and> distinct (map fd_tag ds) \<and> fd_tag ` set ds \<inter> dom (bt_get m) = {} \<and>
   (\<forall>t d. bt_get m' t = Some d \<longleftrightarrow> bt_get m t = Some d \<or> d \<in> set ds \<and> fd_tag d = t)"
proof (induction ds arbitrary: m)
  case (Cons d ds)
  then have n: "bt_get m (fd_tag d) = None"
    and r: "insert_definitions ds (bt_insert (fd_tag d) d m) = Ok m'"
    by (auto split: if_split_asm)
  note IH = Cons.IH [OF r bt_insert_ok [OF Cons.prems(2)]]
  then have "bt_get (bt_insert (fd_tag d) d m) (fd_tag x) = None" if "x \<in> set ds" for x
    using that by (auto simp only: disjoint_iff domIff image_iff)
  then have f: "\<forall>x\<in>set ds. fd_tag x \<noteq> fd_tag d \<and> bt_get m (fd_tag x) = None"
    by (metis bt_get_insert option.distinct(1))
  then have "fd_tag d \<notin> fd_tag ` set ds" by auto
  with IH n f show ?case by (auto simp: bt_get_insert domIff split: if_splits)
qed simp

lemma insert_definitions_total:
  "distinct (map fd_tag ds) \<Longrightarrow> fd_tag ` set ds \<inter> dom (bt_get m) = {} \<Longrightarrow> is_ok (insert_definitions ds m)"
proof (induction ds arbitrary: m)
  case (Cons d ds)
  have "is_ok (insert_definitions ds (bt_insert (fd_tag d) d m))"
    using Cons.prems by (intro Cons.IH) (auto simp: bt_get_insert disjoint_iff domIff split: if_splits)
  then show ?case using Cons.prems by auto
qed simp

lemma reserved_candidate_Ok:
  "reserved_candidate dp d h cs = Ok u \<Longrightarrow>
   \<exists>c\<in>set cs. fd_tag c = fd_tag d \<and> definition_digest dp c = Ok h"
  by (induction cs) (auto simp: and_then_Ok_iff split: if_split_asm)

lemma check_reserved_Ok:
  "check_reserved_namespace dp bs d = Ok u \<Longrightarrow> tag_domain (fd_tag d) = BUILTIN_DOMAIN \<Longrightarrow>
   \<exists>c\<in>set bs. fd_tag c = fd_tag d \<and> definition_digest dp c = definition_digest dp d"
  by (auto simp: check_reserved_namespace_def and_then_Ok_iff dest!: reserved_candidate_Ok)

lemma check_conflict_Ok:
  "check_conflict defs d c = Ok u \<longleftrightarrow>
   c \<noteq> fd_tag d \<and> (\<exists>e. bt_get defs c = Some e \<and> fd_tag d \<in> set (fd_conflicts e))"
  by (auto simp: check_conflict_def split: option.split)

lemma claim_tags_Ok:
  "claim_tags ctx ts m = Ok m' \<longleftrightarrow>
   distinct ts \<and> set ts \<inter> dom (bt_get m) = {} \<and> m' = fold (\<lambda>t. bt_insert t ()) ts m"
  by (induction ts arbitrary: m) (auto simp: bt_get_insert split: if_splits)

lemma dom_claimed: "dom (bt_get (fold (\<lambda>t. bt_insert t ()) ts m)) = set ts \<union> dom (bt_get m)"
  by (induction ts arbitrary: m) (auto simp: bt_get_insert split: if_splits)

lemma claim_definitions_Ok:
  "claim_definitions ds l p = Ok () \<longleftrightarrow>
   distinct (concat (map (map ld_tag \<circ> fd_limits) ds)) \<and> distinct (concat (map fd_protocols ds)) \<and>
   (\<Union>d\<in>set ds. ld_tag ` set (fd_limits d)) \<inter> dom (bt_get l) = {} \<and>
   (\<Union>d\<in>set ds. set (fd_protocols d)) \<inter> dom (bt_get p) = {}"
proof (induction ds arbitrary: l p)
  case (Cons d ds)
  show ?case
    by (simp add: and_then_Ok_iff claim_tags_Ok Cons.IH dom_claimed Int_Un_distrib Int_Un_distrib2
        Int_commute) argo
qed simp

text \<open>The invariant of a registry: it is an ordered map from each definition's own tag, its
  dependency graph is closed and acyclic, conflicts are irreflexive and symmetric, and every
  limit and protocol tag has one owner.\<close>

definition registry_ok :: "feature_map \<Rightarrow> bool" where
  "registry_ok m \<longleftrightarrow>
     bt_ok m \<and> (\<forall>t d. bt_get m t = Some d \<longrightarrow> fd_tag d = t) \<and>
     acyclic (depends_on m) \<and> (\<forall>a b. (a, b) \<in> depends_on m \<longrightarrow> bt_get m b \<noteq> None) \<and>
     (\<forall>t d c. bt_get m t = Some d \<longrightarrow> c \<in> set (fd_conflicts d) \<longrightarrow>
        c \<noteq> t \<and> (\<exists>e. bt_get m c = Some e \<and> t \<in> set (fd_conflicts e))) \<and>
     distinct (concat (map (map ld_tag \<circ> fd_limits) (map snd m))) \<and>
     distinct (concat (map fd_protocols (map snd m)))"

lemma registry_build_Ok:
  assumes "registry_build dns dp ds = Ok r"
  shows "registry_ok (fr_definitions r)"
    "registry_get r t = Some d \<longleftrightarrow> d \<in> set ds \<and> fd_tag d = t" "distinct (map fd_tag ds)"
    "\<exists>bs. builtin_definitions dns dp = Ok bs \<and> (\<forall>d\<in>set ds. tag_domain (fd_tag d) = BUILTIN_DOMAIN \<longrightarrow>
       (\<exists>c\<in>set bs. fd_tag c = fd_tag d \<and> definition_digest dp c = definition_digest dp d))"
proof -
  from assms obtain m bs where m: "insert_definitions ds [] = Ok m"
    and bs: "builtin_definitions dns dp = Ok bs"
    and res: "\<forall>d\<in>set (map snd m). check_reserved_namespace dp bs d = Ok ()"
    and dep: "check_dependencies m = Ok ()" and con: "check_conflicts m = Ok ()"
    and own: "check_unique_ownership m = Ok ()" and r: "r = \<lparr>fr_definitions = m\<rparr>"
    by (auto simp: registry_build_def and_then_Ok_iff for_each_Ok)
  have i: "bt_ok m" "distinct (map fd_tag ds)" "\<And>t d. bt_get m t = Some d \<longleftrightarrow> d \<in> set ds \<and> fd_tag d = t"
    using insert_definitions_Ok [OF m] by auto
  have "(t, d) \<in> set m \<longleftrightarrow> d \<in> set ds \<and> fd_tag d = t" for t d
    using i(3) bt_get_iff [OF i(1)] by simp
  then have mem: "snd ` set m = set ds" by (simp add: set_eq_iff image_iff Bex_def)
  have con': "\<forall>d\<in>set ds. \<forall>c\<in>set (fd_conflicts d). check_conflict m d c = Ok ()"
    using con unfolding check_conflicts_def for_each_Ok set_map mem .
  have "c \<noteq> t \<and> (\<exists>e. bt_get m c = Some e \<and> t \<in> set (fd_conflicts e))"
    if "bt_get m t = Some d" "c \<in> set (fd_conflicts d)" for t d c
    using con' that i(3) by (auto simp: check_conflict_Ok)
  then show "registry_ok (fr_definitions r)"
    using i(1,3) dep own by (simp add: registry_ok_def r check_dependencies_Ok check_unique_ownership_def
        claim_definitions_Ok)
  show "registry_get r t = Some d \<longleftrightarrow> d \<in> set ds \<and> fd_tag d = t"
    by (simp add: registry_get_def r i(3))
  show "distinct (map fd_tag ds)" by (rule i(2))
  have "\<exists>c\<in>set bs. fd_tag c = fd_tag d \<and> definition_digest dp c = definition_digest dp d"
    if "d \<in> set ds" "tag_domain (fd_tag d) = BUILTIN_DOMAIN" for d
    using that res [unfolded set_map mem] check_reserved_Ok by blast
  with bs show "\<exists>bs. builtin_definitions dns dp = Ok bs \<and> (\<forall>d\<in>set ds. tag_domain (fd_tag d) = BUILTIN_DOMAIN \<longrightarrow>
       (\<exists>c\<in>set bs. fd_tag c = fd_tag d \<and> definition_digest dp c = definition_digest dp d))"
    by blast
qed

section \<open>The built-in registry\<close>

lemma builtin_parses:
  assumes "dns BUILTIN_DOMAIN"
  shows "feature_tag_parse dns AUTH_ED25519_SESSION = Ok (builtin_tag ''features'' ''auth-ed25519-session'')"
    "feature_tag_parse dns SESSION_CORE = Ok (builtin_tag ''features'' ''session-core'')"
    "feature_tag_parse dns DATA_MESSAGES = Ok (builtin_tag ''features'' ''data-messages'')"
    "feature_tag_parse dns DIRECT_REQUEST = Ok (builtin_tag ''features'' ''direct-request'')"
    "feature_tag_parse dns ROUTED_DELIVERY = Ok (builtin_tag ''features'' ''routed-delivery'')"
    "tag_parse dns DATA_BODY_BYTES_LIMIT = Ok (builtin_tag ''limits'' ''data-body-bytes'')"
    "tag_parse dns IN_FLIGHT_REQUESTS_LIMIT = Ok (builtin_tag ''limits'' ''in-flight-requests'')"
    "protocol_tag_parse dns DIRECT_REQUEST_PROTOCOL = Ok (builtin_tag ''protocols'' ''direct-request'')"
proof -
  note p = builtin_text_parse [of dns, OF assms]
  note sides = name_component_defs CATEGORY_CRYPTO_def
  show "feature_tag_parse dns AUTH_ED25519_SESSION = Ok (builtin_tag ''features'' ''auth-ed25519-session'')"
    using p [of "''features''" "''auth-ed25519-session''"]
    by (simp add: feature_tag_parse_def category_parse_def AUTH_ED25519_SESSION_def sides)
  show "feature_tag_parse dns SESSION_CORE = Ok (builtin_tag ''features'' ''session-core'')"
    using p [of "''features''" "''session-core''"]
    by (simp add: feature_tag_parse_def category_parse_def SESSION_CORE_def sides)
  show "feature_tag_parse dns DATA_MESSAGES = Ok (builtin_tag ''features'' ''data-messages'')"
    using p [of "''features''" "''data-messages''"]
    by (simp add: feature_tag_parse_def category_parse_def DATA_MESSAGES_def sides)
  show "feature_tag_parse dns DIRECT_REQUEST = Ok (builtin_tag ''features'' ''direct-request'')"
    using p [of "''features''" "''direct-request''"]
    by (simp add: feature_tag_parse_def category_parse_def DIRECT_REQUEST_def sides)
  show "feature_tag_parse dns ROUTED_DELIVERY = Ok (builtin_tag ''features'' ''routed-delivery'')"
    using p [of "''features''" "''routed-delivery''"]
    by (simp add: feature_tag_parse_def category_parse_def ROUTED_DELIVERY_def sides)
  show "tag_parse dns DATA_BODY_BYTES_LIMIT = Ok (builtin_tag ''limits'' ''data-body-bytes'')"
    using p [of "''limits''" "''data-body-bytes''"] by (simp add: DATA_BODY_BYTES_LIMIT_def sides)
  show "tag_parse dns IN_FLIGHT_REQUESTS_LIMIT = Ok (builtin_tag ''limits'' ''in-flight-requests'')"
    using p [of "''limits''" "''in-flight-requests''"] by (simp add: IN_FLIGHT_REQUESTS_LIMIT_def sides)
  show "protocol_tag_parse dns DIRECT_REQUEST_PROTOCOL = Ok (builtin_tag ''protocols'' ''direct-request'')"
    using p [of "''protocols''" "''direct-request''"]
    by (simp add: protocol_tag_parse_def category_parse_def DIRECT_REQUEST_PROTOCOL_def sides)
qed

text \<open>The five built-in definitions written out.\<close>

definition builtin_entry ::
  "digest_provider \<Rightarrow> string \<Rightarrow> string list \<Rightarrow> qualified_tag list \<Rightarrow> limit_definition list \<Rightarrow> feature_definition" where
  "builtin_entry dp name deps protos lims =
     \<lparr>fd_tag = builtin_tag ''features'' name,
      fd_fingerprint = builtin_fingerprint dp (builtin_tag ''features'' name),
      fd_dependencies = map (builtin_tag ''features'') deps, fd_conflicts = [], fd_protocols = protos,
      fd_limits = lims, fd_test_owner = BUILTIN_TEST_OWNER\<rparr>"

definition body_limit :: limit_definition where
  "body_limit = \<lparr>ld_tag = builtin_tag ''limits'' ''data-body-bytes'', ld_width = U32, ld_unit = Bytes,
     ld_range = \<lparr>lr_floor = DATA_BODY_FLOOR, lr_ceiling = DATA_BODY_CEILING, lr_default = DATA_BODY_DEFAULT\<rparr>,
     ld_owner = builtin_tag ''features'' ''data-messages'', ld_mandatory = True\<rparr>"

definition flight_limit :: limit_definition where
  "flight_limit = \<lparr>ld_tag = builtin_tag ''limits'' ''in-flight-requests'', ld_width = U16, ld_unit = Count,
     ld_range = \<lparr>lr_floor = IN_FLIGHT_FLOOR, lr_ceiling = IN_FLIGHT_CEILING, lr_default = IN_FLIGHT_DEFAULT\<rparr>,
     ld_owner = builtin_tag ''features'' ''direct-request'', ld_mandatory = True\<rparr>"

lemma builtin_definitions_eq:
  assumes "dns BUILTIN_DOMAIN"
  shows "builtin_definitions dns dp = Ok
    [builtin_entry dp ''auth-ed25519-session'' [] [] [],
     builtin_entry dp ''session-core'' [''auth-ed25519-session''] [] [],
     builtin_entry dp ''data-messages'' [''session-core''] [] [body_limit],
     builtin_entry dp ''direct-request'' [''data-messages''] [builtin_tag ''protocols'' ''direct-request''] [flight_limit],
     builtin_entry dp ''routed-delivery'' [''data-messages''] [] []]"
  by (simp add: builtin_definitions_def builtin_def builtin_parses [of dns, OF assms] feature_unchecked_def
      feature_dependency_def feature_limit_def feature_protocol_def limit_range_new_def limit_definition_new_def
      DATA_BODY_FLOOR_def DATA_BODY_CEILING_def DATA_BODY_DEFAULT_def IN_FLIGHT_FLOOR_def IN_FLIGHT_CEILING_def
      IN_FLIGHT_DEFAULT_def CATEGORY_LIMITS_def builtin_entry_def body_limit_def flight_limit_def)

lemma registry_builtin_Ok:
  assumes "dns BUILTIN_DOMAIN" "\<And>w. is_ok (dp_encode dp w)"
  shows "\<exists>r. registry_builtin dns dp = Ok r"
proof -
  have dig: "\<exists>h. definition_digest dp d = Ok h" for d
    using assms(2) [of "feature_wire d"] by (auto simp: definition_digest_def is_ok_iff)
  define auth where "auth = builtin_entry dp ''auth-ed25519-session'' [] [] []"
  define session where "session = builtin_entry dp ''session-core'' [''auth-ed25519-session''] [] []"
  define data where "data = builtin_entry dp ''data-messages'' [''session-core''] [] [body_limit]"
  define direct where "direct = builtin_entry dp ''direct-request'' [''data-messages'']
    [builtin_tag ''protocols'' ''direct-request''] [flight_limit]"
  define routed where "routed = builtin_entry dp ''routed-delivery'' [''data-messages''] [] []"
  note defs = auth_def session_def data_def direct_def routed_def builtin_entry_def
  have b: "builtin_definitions dns dp = Ok [auth, session, data, direct, routed]"
    by (simp add: builtin_definitions_eq [of dns, OF assms(1)] auth_def session_def data_def direct_def routed_def)
  have p: "fd_dependencies auth = []" "fd_dependencies session = [fd_tag auth]"
    "fd_dependencies data = [fd_tag session]" "fd_dependencies direct = [fd_tag data]"
    "fd_dependencies routed = [fd_tag data]"
    by (simp_all add: defs)
  have ord: "fd_tag auth < fd_tag data" "fd_tag auth < fd_tag direct" "fd_tag auth < fd_tag routed"
    "fd_tag auth < fd_tag session" "fd_tag data < fd_tag direct" "fd_tag data < fd_tag routed"
    "fd_tag data < fd_tag session" "fd_tag direct < fd_tag routed" "fd_tag direct < fd_tag session"
    "fd_tag routed < fd_tag session"
    by (simp_all add: defs)
  note cmp = ord ord [THEN less_imp_not_eq] ord [THEN less_imp_not_eq2] ord [THEN less_not_sym]
  let ?m = "[(fd_tag auth, auth), (fd_tag data, data), (fd_tag direct, direct), (fd_tag routed, routed), (fd_tag session, session)]"
  have m: "insert_definitions [auth, session, data, direct, routed] [] = Ok ?m"
    by (simp add: cmp)
  obtain ha hs hd hi hr where h: "definition_digest dp auth = Ok ha" "definition_digest dp session = Ok hs"
    "definition_digest dp data = Ok hd" "definition_digest dp direct = Ok hi" "definition_digest dp routed = Ok hr"
    using dig by metis
  have r: "for_each (check_reserved_namespace dp [auth, session, data, direct, routed]) (map snd ?m) = Ok ()"
    by (simp add: check_reserved_namespace_def h cmp)
  have d: "check_dependencies ?m = Ok ()"
    by (simp add: check_dependencies_def p cmp)
  have c: "check_conflicts ?m = Ok ()"
    by (simp add: check_conflicts_def defs)
  have o: "check_unique_ownership ?m = Ok ()"
    by (simp add: check_unique_ownership_def defs body_limit_def flight_limit_def)
  show ?thesis by (simp add: registry_builtin_def registry_build_def b m r d c o del: insert_definitions.simps list.map)
qed


section \<open>Properties\<close>

lemma visit_all_errors:
  "visit_all defs tags marks = Err e \<Longrightarrow>
   e = invalid_input ''feature registry dependency cycle'' \<or>
   e = invalid_input ''feature registry missing dependency''"
  by (induction defs tags marks rule: visit_all.induct)
    (auto split: option.split_asm mark.split_asm sum.split_asm)

text \<open>C25: the depth-first dependency check terminates on every map of definitions, cyclic ones
  included, accepts exactly those whose dependency graph is acyclic and refers only to
  registered labels, and rejects every other one with the cycle or the missing-dependency
  error.\<close>

theorem check_dependencies_exact:
  "(check_dependencies defs = Ok () \<longleftrightarrow>
      acyclic (depends_on defs) \<and> Range (depends_on defs) \<subseteq> dom (bt_get defs)) \<and>
   check_dependencies defs \<in>
     {Ok (), Err (invalid_input ''feature registry dependency cycle''),
      Err (invalid_input ''feature registry missing dependency'')}"
proof (intro conjI)
  show "check_dependencies defs = Ok () \<longleftrightarrow>
      acyclic (depends_on defs) \<and> Range (depends_on defs) \<subseteq> dom (bt_get defs)"
    unfolding check_dependencies_Ok by (auto simp: Range_iff)
  show "check_dependencies defs \<in>
     {Ok (), Err (invalid_input ''feature registry dependency cycle''),
      Err (invalid_input ''feature registry missing dependency'')}"
    using visit_all_errors [of defs "map fst defs" "[]"]
    by (auto simp: check_dependencies_def and_then_def split: sum.split)
qed

text \<open>C26: an accepted registry holds exactly the given definitions under their own labels, in
  label order; its dependency graph is closed and acyclic, conflicts are irreflexive and
  symmetric, every limit and every protocol handler has one owner, and a definition in the
  built-in domain has the digest of the built-in definition of the same label.\<close>

theorem registry_build_valid:
  assumes "registry_build dns dp ds = Ok r"
  shows "registry_ok (fr_definitions r) \<and>
    (\<forall>t d. registry_get r t = Some d \<longleftrightarrow> d \<in> set ds \<and> fd_tag d = t) \<and>
    (\<exists>bs. builtin_definitions dns dp = Ok bs \<and>
      (\<forall>d\<in>set ds. tag_domain (fd_tag d) = BUILTIN_DOMAIN \<longrightarrow>
        (\<exists>c\<in>set bs. fd_tag c = fd_tag d \<and> definition_digest dp c = definition_digest dp d)))"
  using registry_build_Ok [OF assms] by blast

definition sample_provider :: digest_provider where
  "sample_provider = \<lparr>dp_encode = (\<lambda>w. Ok (as_bytes (dw_tag w))), dp_sha256 = (\<lambda>bytes. take 32 (drop 28 bytes @ replicate 32 0))\<rparr>"

theorem registry_build_valid_witness:
  "\<exists>ds r. builtin_definitions (\<lambda>_. True) sample_provider = Ok ds \<and>
     registry_build (\<lambda>_. True) sample_provider ds = Ok r \<and> registry_ok (fr_definitions r) \<and>
     registry_get r (builtin_tag ''features'' ''session-core'') \<noteq> None"
proof -
  obtain r where r: "registry_builtin (\<lambda>_. True) sample_provider = Ok r"
    using registry_builtin_Ok [of "\<lambda>_. True" sample_provider] by (auto simp: sample_provider_def)
  then obtain ds where ds: "builtin_definitions (\<lambda>_. True) sample_provider = Ok ds"
    "registry_build (\<lambda>_. True) sample_provider ds = Ok r"
    by (auto simp: registry_builtin_def and_then_Ok_iff)
  define e where "e = builtin_entry sample_provider ''session-core'' [''auth-ed25519-session''] [] []"
  have "e \<in> set ds" using ds(1) by (auto simp: builtin_definitions_eq e_def)
  moreover have "fd_tag e = builtin_tag ''features'' ''session-core''"
    by (simp add: e_def builtin_entry_def)
  ultimately have "registry_get r (builtin_tag ''features'' ''session-core'') = Some e"
    using registry_build_valid [OF ds(2)] by blast
  moreover have "registry_ok (fr_definitions r)" using registry_build_valid [OF ds(2)] by blast
  ultimately show ?thesis using ds by blast
qed

end
