(* ===== verification/Canonical_Cbor.thy ===== *)
theory Canonical_Cbor
  imports Relay_Prelude
begin

unbundle bit_operations_syntax

text \<open>
  Deterministic CBOR (\<^verbatim>\<open>src/src/protocol/cbor.rs\<close>): the bounded writer, the canonical form
  check with its explicit stack of open containers, and the encoding and decoding entry
  points. The decoder of the minicbor crate (item type at a position, and the position after
  an item or a header) is the record \<open>minicbor\<close>; \<open>minicbor_ok\<close> states the documented behaviour
  the check relies on, on shortest-form headers only. The encoding and decoding of a Rust
  type by the crate are arguments of the entry points. Allocation does not fail.
\<close>

section \<open>Limits and the bounded writer\<close>

record cbor_limits =
  cl_max_depth :: nat
  cl_max_collection_items :: nat
  cl_max_body_len :: nat

definition CborLimits :: "nat \<Rightarrow> nat \<Rightarrow> nat \<Rightarrow> cbor_limits" where
  "CborLimits depth items body = \<lparr>cl_max_depth = depth, cl_max_collection_items = items, cl_max_body_len = body\<rparr>"

definition ADR0002_BODY_BYTES :: nat where "ADR0002_BODY_BYTES = 65536"

definition CONTROL_CBOR_LIMITS :: cbor_limits where
  "CONTROL_CBOR_LIMITS = CborLimits 16 1024 ADR0002_BODY_BYTES"

record limited_writer =
  lw_bytes :: "byte list"
  lw_position :: nat

definition limited_writer_new :: "nat \<Rightarrow> limited_writer" where
  "limited_writer_new limit = \<lparr>lw_bytes = replicate limit 0, lw_position = 0\<rparr>"

definition into_bytes :: "limited_writer \<Rightarrow> byte list" where
  "into_bytes w = take (lw_position w) (lw_bytes w)"

definition write_all :: "limited_writer \<Rightarrow> byte list \<Rightarrow> limited_writer option" where
  "write_all w buffer =
     (let finish = lw_position w + length buffer
      in if finish > length (lw_bytes w) then None
         else Some \<lparr>lw_bytes = take (lw_position w) (lw_bytes w) @ buffer @ drop finish (lw_bytes w), lw_position = finish\<rparr>)"

text \<open>The crate writes a value as a sequence of buffers and stops at the first failing write.\<close>

primrec write_chunks :: "limited_writer \<Rightarrow> byte list list \<Rightarrow> limited_writer option" where
  "write_chunks w [] = Some w"
| "write_chunks w (c # cs) = (case write_all w c of None \<Rightarrow> None | Some w' \<Rightarrow> write_chunks w' cs)"

section \<open>Headers\<close>

definition read_array :: "nat \<Rightarrow> byte list \<Rightarrow> nat \<Rightarrow> byte list result" where
  "read_array n bytes start =
     (if start + 1 + n \<le> length bytes then Ok (take n (drop (start + 1) bytes))
      else Err (invalid_input ''CBOR header''))"

definition canonical_argument :: "byte list \<Rightarrow> nat \<Rightarrow> (nat \<times> nat) result" where
  "canonical_argument bytes start =
     (if start \<ge> length bytes then Err (invalid_input ''CBOR header'')
      else
        let additional = unat (bytes ! start AND 31)
        in and_then
             (if additional \<le> 23 then Ok (additional, 1)
              else if additional = 24 then and_then (read_array 1 bytes start) (\<lambda>a. Ok (from_be a, 2))
              else if additional = 25 then and_then (read_array 2 bytes start) (\<lambda>a. Ok (from_be a, 3))
              else if additional = 26 then and_then (read_array 4 bytes start) (\<lambda>a. Ok (from_be a, 5))
              else if additional = 27 then and_then (read_array 8 bytes start) (\<lambda>a. Ok (from_be a, 9))
              else Err (invalid_input ''CBOR indefinite length''))
             (\<lambda>(value, header_len).
                let canonical_len = (if value < 24 then 1 else if value < 2 ^ 8 then 2 else if value < 2 ^ 16 then 3
                                     else if value < 2 ^ 32 then 5 else 9)
                in if header_len \<noteq> canonical_len then Err (invalid_input ''CBOR non-shortest argument'')
                   else Ok (value, header_len)))"

definition validate_sized_item :: "nat \<Rightarrow> nat \<Rightarrow> nat \<Rightarrow> nat \<Rightarrow> unit result" where
  "validate_sized_item start finish header_len value_len =
     (if finish < start \<or> finish - start \<noteq> header_len + value_len then Err (invalid_input ''CBOR item length'') else Ok ())"

definition validate_container_depth :: "nat \<Rightarrow> cbor_limits \<Rightarrow> unit result" where
  "validate_container_depth depth limits =
     (if depth \<ge> cl_max_depth limits then Err (invalid_input ''CBOR nesting depth'') else Ok ())"

section \<open>The container stack\<close>

datatype container_frame =
    ArrayFrame nat
  | MapFrame nat bool "nat option" "(nat \<times> nat) option"

text \<open>\<open>bytes.get(start..end)\<close>\<close>

definition byte_range :: "byte list \<Rightarrow> nat \<Rightarrow> nat \<Rightarrow> byte list option" where
  "byte_range bytes start finish =
     (if start \<le> finish \<and> finish \<le> length bytes then Some (drop start (take finish bytes)) else None)"

text \<open>One completed item closes every container it fills; the top of the stack comes first.\<close>

fun complete_item :: "nat \<Rightarrow> byte list \<Rightarrow> container_frame list \<Rightarrow> (container_frame list \<times> bool) result" where
  "complete_item position bytes [] = Ok ([], True)"
| "complete_item position bytes (ArrayFrame remaining # stack) =
     (if remaining = 0 then Err (invalid_input ''CBOR array state'')
      else if remaining - 1 = 0 then complete_item position bytes stack
      else Ok (ArrayFrame (remaining - 1) # stack, False))"
| "complete_item position bytes (MapFrame remaining True key_start previous_key # stack) =
     and_then (ok_or key_start (invalid_input ''CBOR map key state'')) (\<lambda>start.
     and_then (ok_or (byte_range bytes start position) (invalid_input ''CBOR map key'')) (\<lambda>key.
     and_then (case previous_key of
                 None \<Rightarrow> Ok ()
               | Some (previous_start, previous_end) \<Rightarrow>
                   and_then (ok_or (byte_range bytes previous_start previous_end) (invalid_input ''CBOR map key'')) (\<lambda>previous.
                     if previous \<ge> key then Err (invalid_input ''CBOR map key order'') else Ok ())) (\<lambda>_.
       Ok (MapFrame remaining False None (Some (start, position)) # stack, False))))"
| "complete_item position bytes (MapFrame remaining False key_start previous_key # stack) =
     (if remaining = 0 then Err (invalid_input ''CBOR map state'')
      else if remaining - 1 = 0 then complete_item position bytes stack
      else Ok (MapFrame (remaining - 1) True key_start previous_key # stack, False))"

definition mark_key :: "nat \<Rightarrow> container_frame list \<Rightarrow> container_frame list" where
  "mark_key position stack =
     (case stack of
        MapFrame remaining True None previous_key # rest \<Rightarrow> MapFrame remaining True (Some position) previous_key # rest
      | _ \<Rightarrow> stack)"

section \<open>The canonical form check\<close>

datatype cbor_type =
    TU8 | TU16 | TU32 | TU64 | TI8 | TI16 | TI32 | TI64 | TInt
  | TBytes | TString | TArray | TMap | TBool | TNull
  | TUndefined | TF16 | TF32 | TF64 | TSimple | TBytesIndef | TStringIndef | TArrayIndef | TMapIndef | TTag | TBreak
  | TUnknown byte

definition integer_type :: "cbor_type \<Rightarrow> bool" where
  "integer_type t \<longleftrightarrow> t \<in> {TU8, TU16, TU32, TU64, TI8, TI16, TI32, TI64, TInt}"

text \<open>The decoder of the crate: each operation takes the input and the position, and returns
  the position after what it read.\<close>

record minicbor =
  mc_datatype :: "byte list \<Rightarrow> nat \<Rightarrow> cbor_type option"
  mc_skip :: "byte list \<Rightarrow> nat \<Rightarrow> nat option"
  mc_bytes :: "byte list \<Rightarrow> nat \<Rightarrow> nat option"
  mc_str :: "byte list \<Rightarrow> nat \<Rightarrow> nat option"
  mc_array :: "byte list \<Rightarrow> nat \<Rightarrow> (nat option \<times> nat) option"
  mc_map :: "byte list \<Rightarrow> nat \<Rightarrow> (nat option \<times> nat) option"
  mc_bool :: "byte list \<Rightarrow> nat \<Rightarrow> nat option"
  mc_null :: "byte list \<Rightarrow> nat \<Rightarrow> nat option"

text \<open>One item header: the new position, and the frame of a container it opens.\<close>

definition item_step ::
  "minicbor \<Rightarrow> byte list \<Rightarrow> cbor_limits \<Rightarrow> nat \<Rightarrow> nat \<Rightarrow> (nat \<times> container_frame option) result" where
  "item_step mc bytes limits depth start =
     and_then (ok_or (mc_datatype mc bytes start) (invalid_input ''CBOR type'')) (\<lambda>data_type.
     if integer_type data_type then
       and_then (canonical_argument bytes start) (\<lambda>(_, header_len).
       and_then (ok_or (mc_skip mc bytes start) (invalid_input ''CBOR integer'')) (\<lambda>position.
         if position < start \<or> position - start \<noteq> header_len then Err (invalid_input ''CBOR integer'')
         else Ok (position, None)))
     else case data_type of
       TBytes \<Rightarrow>
         and_then (canonical_argument bytes start) (\<lambda>(len, header_len).
         and_then (ok_or (mc_bytes mc bytes start) (invalid_input ''CBOR bytes'')) (\<lambda>position.
         and_then (validate_sized_item start position header_len len) (\<lambda>_. Ok (position, None))))
     | TString \<Rightarrow>
         and_then (canonical_argument bytes start) (\<lambda>(len, header_len).
         and_then (ok_or (mc_str mc bytes start) (invalid_input ''CBOR string'')) (\<lambda>position.
         and_then (validate_sized_item start position header_len len) (\<lambda>_. Ok (position, None))))
     | TArray \<Rightarrow>
         and_then (validate_container_depth depth limits) (\<lambda>_.
         and_then (canonical_argument bytes start) (\<lambda>(len, _).
         and_then (ok_or (mc_array mc bytes start) (invalid_input ''CBOR array'')) (\<lambda>(decoded, position).
         and_then (ok_or decoded (invalid_input ''CBOR indefinite array'')) (\<lambda>decoded_length.
           if decoded_length \<noteq> len \<or> len > cl_max_collection_items limits then Err (invalid_input ''CBOR array length'')
           else Ok (position, Some (ArrayFrame len))))))
     | TMap \<Rightarrow>
         and_then (validate_container_depth depth limits) (\<lambda>_.
         and_then (canonical_argument bytes start) (\<lambda>(len, _).
         and_then (ok_or (mc_map mc bytes start) (invalid_input ''CBOR map'')) (\<lambda>(decoded, position).
         and_then (ok_or decoded (invalid_input ''CBOR indefinite map'')) (\<lambda>decoded_length.
           if decoded_length \<noteq> len \<or> len > cl_max_collection_items limits then Err (invalid_input ''CBOR map length'')
           else Ok (position, Some (MapFrame len True None None))))))
     | TBool \<Rightarrow> and_then (ok_or (mc_bool mc bytes start) (invalid_input ''CBOR bool'')) (\<lambda>position. Ok (position, None))
     | TNull \<Rightarrow> and_then (ok_or (mc_null mc bytes start) (invalid_input ''CBOR null'')) (\<lambda>position. Ok (position, None))
     | _ \<Rightarrow> Err (invalid_input ''CBOR unsupported type''))"

definition frame_empty :: "container_frame \<Rightarrow> bool" where
  "frame_empty frame = (case frame of ArrayFrame remaining \<Rightarrow> remaining = 0 | MapFrame remaining _ _ _ \<Rightarrow> remaining = 0)"

text \<open>The loop ends only as far as the crate's decoder advances: \<open>None\<close> is a loop that does
  not return.\<close>

partial_function (option) validate_loop ::
  "minicbor \<Rightarrow> byte list \<Rightarrow> cbor_limits \<Rightarrow> nat \<Rightarrow> container_frame list \<Rightarrow> nat result option" where
  "validate_loop mc bytes limits position stack =
     (let stack1 = mark_key position stack
      in case item_step mc bytes limits (length stack1) position of
           Inl e \<Rightarrow> Some (Err e)
         | Inr (position', container) \<Rightarrow>
             (case container of
                Some frame \<Rightarrow>
                  if \<not> frame_empty frame then validate_loop mc bytes limits position' (frame # stack1)
                  else (case complete_item position' bytes stack1 of
                          Inl e \<Rightarrow> Some (Err e)
                        | Inr (stack2, finished) \<Rightarrow>
                            if finished then Some (Ok position') else validate_loop mc bytes limits position' stack2)
              | None \<Rightarrow>
                  (case complete_item position' bytes stack1 of
                     Inl e \<Rightarrow> Some (Err e)
                   | Inr (stack2, finished) \<Rightarrow>
                       if finished then Some (Ok position') else validate_loop mc bytes limits position' stack2)))"

definition validate_item :: "minicbor \<Rightarrow> byte list \<Rightarrow> cbor_limits \<Rightarrow> nat result option" where
  "validate_item mc bytes limits = validate_loop mc bytes limits 0 []"

definition validate_canonical :: "minicbor \<Rightarrow> byte list \<Rightarrow> cbor_limits \<Rightarrow> unit result option" where
  "validate_canonical mc bytes limits =
     (if cl_max_depth limits = 0 \<or> cl_max_collection_items limits = 0 \<or> cl_max_body_len limits = 0 \<or>
         bytes = [] \<or> length bytes > cl_max_body_len limits
      then Some (Err (invalid_input ''CBOR limits''))
      else case validate_item mc bytes limits of
             None \<Rightarrow> None
           | Some (Inl e) \<Rightarrow> Some (Err e)
           | Some (Inr position) \<Rightarrow>
               Some (if position \<noteq> length bytes then Err (invalid_input ''CBOR trailing data'') else Ok ()))"

section \<open>Encoding and decoding\<close>

text \<open>\<open>raw\<close> is the crate's encoding of the Rust type, as the buffers it writes; \<open>dec\<close> is its
  decoding, a value and the position after it.\<close>

definition encode_canonical ::
  "minicbor \<Rightarrow> ('a \<Rightarrow> byte list list) \<Rightarrow> cbor_limits \<Rightarrow> 'a \<Rightarrow> byte list result option" where
  "encode_canonical mc raw limits value =
     (case write_chunks (limited_writer_new (cl_max_body_len limits)) (raw value) of
        None \<Rightarrow> Some (Err (invalid_input ''CBOR encode''))
      | Some writer \<Rightarrow>
          (case validate_canonical mc (into_bytes writer) limits of
             None \<Rightarrow> None
           | Some (Inl e) \<Rightarrow> Some (Err e)
           | Some (Inr _) \<Rightarrow> Some (Ok (into_bytes writer))))"

definition decode_canonical ::
  "minicbor \<Rightarrow> (byte list \<Rightarrow> ('a \<times> nat) option) \<Rightarrow> cbor_limits \<Rightarrow> byte list \<Rightarrow> 'a result option" where
  "decode_canonical mc dec limits bytes =
     (case validate_canonical mc bytes limits of
        None \<Rightarrow> None
      | Some (Inl e) \<Rightarrow> Some (Err e)
      | Some (Inr _) \<Rightarrow>
          Some (and_then (ok_or (dec bytes) (invalid_input ''CBOR decode'')) (\<lambda>(value, position).
            if position \<noteq> length bytes then Err (invalid_input ''CBOR trailing data'') else Ok value)))"

datatype strict_decode_failure = DecodeFailure error | NonCanonicalFailure

definition decode_canonical_strict_or ::
  "minicbor \<Rightarrow> ('a \<Rightarrow> byte list list) \<Rightarrow> (byte list \<Rightarrow> ('a \<times> nat) option) \<Rightarrow> cbor_limits \<Rightarrow> byte list \<Rightarrow>
   (strict_decode_failure + 'a) option" where
  "decode_canonical_strict_or mc raw dec limits bytes =
     (case decode_canonical mc dec limits bytes of
        None \<Rightarrow> None
      | Some (Inl e) \<Rightarrow> Some (Err (DecodeFailure e))
      | Some (Inr value) \<Rightarrow>
          (case encode_canonical mc raw limits value of
             None \<Rightarrow> None
           | Some (Inl e) \<Rightarrow> Some (Err (DecodeFailure e))
           | Some (Inr encoded) \<Rightarrow> Some (if encoded \<noteq> bytes then Err NonCanonicalFailure else Ok value)))"

definition decode_canonical_strict ::
  "minicbor \<Rightarrow> ('a \<Rightarrow> byte list list) \<Rightarrow> (byte list \<Rightarrow> ('a \<times> nat) option) \<Rightarrow> cbor_limits \<Rightarrow> string \<Rightarrow> byte list \<Rightarrow>
   'a result option" where
  "decode_canonical_strict mc raw dec limits canonical_context bytes =
     map_option (\<lambda>r. map_err r (\<lambda>failure. case failure of
         DecodeFailure e \<Rightarrow> e
       | NonCanonicalFailure \<Rightarrow> invalid_input canonical_context))
       (decode_canonical_strict_or mc raw dec limits bytes)"

text \<open>The two entry points of one wire type, as its users see them. The check returns on every
  input (\<open>canonical_codec_ok\<close> below), so the results are total.\<close>

record 'a wire_codec =
  wc_encode :: "'a \<Rightarrow> byte list result"
  wc_decode :: "byte list \<Rightarrow> strict_decode_failure + 'a"

definition canonical_codec ::
  "minicbor \<Rightarrow> ('a \<Rightarrow> byte list list) \<Rightarrow> (byte list \<Rightarrow> ('a \<times> nat) option) \<Rightarrow> cbor_limits \<Rightarrow> 'a wire_codec" where
  "canonical_codec mc raw dec limits =
     \<lparr>wc_encode = (\<lambda>v. the (encode_canonical mc raw limits v)),
      wc_decode = (\<lambda>bytes. the (decode_canonical_strict_or mc raw dec limits bytes))\<rparr>"

text \<open>Decoding yields a value exactly for the bytes its encoding produces.\<close>

definition wire_codec_ok :: "'a wire_codec \<Rightarrow> bool" where
  "wire_codec_ok wc \<longleftrightarrow> (\<forall>v bytes. wc_decode wc bytes = Ok v \<longleftrightarrow> wc_encode wc v = Ok bytes)"

section \<open>Canonical values\<close>

text \<open>The reference: values of the supported types and their shortest-form encoding.\<close>

datatype cbor =
    CUint nat | CNint nat | CBytes "byte list" | CText "byte list" | CArray "cbor list" | CMap "(cbor \<times> cbor) list"
  | CBool bool | CNull

definition initial_byte :: "nat \<Rightarrow> nat \<Rightarrow> byte" where
  "initial_byte m a = word_of_nat (32 * m + a)"

definition cbor_head :: "nat \<Rightarrow> nat \<Rightarrow> byte list" where
  "cbor_head m n =
     (if n < 24 then [initial_byte m n]
      else if n < 2 ^ 8 then initial_byte m 24 # be_bytes 1 n
      else if n < 2 ^ 16 then initial_byte m 25 # be_bytes 2 n
      else if n < 2 ^ 32 then initial_byte m 26 # be_bytes 4 n
      else initial_byte m 27 # be_bytes 8 n)"

fun cbor_enc :: "cbor \<Rightarrow> byte list" where
  "cbor_enc (CUint n) = cbor_head 0 n"
| "cbor_enc (CNint n) = cbor_head 1 n"
| "cbor_enc (CBytes bs) = cbor_head 2 (length bs) @ bs"
| "cbor_enc (CText bs) = cbor_head 3 (length bs) @ bs"
| "cbor_enc (CArray vs) = cbor_head 4 (length vs) @ concat (map cbor_enc vs)"
| "cbor_enc (CMap kvs) = cbor_head 5 (length kvs) @ concat (map (\<lambda>kv. cbor_enc (fst kv) @ cbor_enc (snd kv)) kvs)"
| "cbor_enc (CBool b) = [if b then 245 else 244]"
| "cbor_enc CNull = [246]"

text \<open>A value inside the limits at a nesting depth, with map keys in strictly ascending order of
  their encodings.\<close>

fun cbor_ok :: "(byte list \<Rightarrow> bool) \<Rightarrow> cbor_limits \<Rightarrow> nat \<Rightarrow> cbor \<Rightarrow> bool" where
  "cbor_ok utf8 limits d (CUint n) = (n < 2 ^ 64)"
| "cbor_ok utf8 limits d (CNint n) = (n < 2 ^ 64)"
| "cbor_ok utf8 limits d (CBytes bs) = (length bs < 2 ^ 64)"
| "cbor_ok utf8 limits d (CText bs) = (length bs < 2 ^ 64 \<and> utf8 bs)"
| "cbor_ok utf8 limits d (CArray vs) =
     (d < cl_max_depth limits \<and> length vs \<le> cl_max_collection_items limits \<and> length vs < 2 ^ 64 \<and>
      (\<forall>v\<in>set vs. cbor_ok utf8 limits (d + 1) v))"
| "cbor_ok utf8 limits d (CMap kvs) =
     (d < cl_max_depth limits \<and> length kvs \<le> cl_max_collection_items limits \<and> length kvs < 2 ^ 64 \<and>
      sorted_wrt (<) (map (cbor_enc \<circ> fst) kvs) \<and>
      (\<forall>kv\<in>set kvs. cbor_ok utf8 limits (d + 1) (fst kv) \<and> cbor_ok utf8 limits (d + 1) (snd kv)))"
| "cbor_ok utf8 limits d (CBool b) = True"
| "cbor_ok utf8 limits d CNull = True"

text \<open>What the check relies on in the crate's decoder, on headers in shortest form.\<close>

definition type_byte :: "cbor_type \<Rightarrow> byte \<Rightarrow> bool" where
  "type_byte t b \<longleftrightarrow>
     (if integer_type t then unat b div 32 \<le> 1
      else case t of TBytes \<Rightarrow> unat b div 32 = 2 | TString \<Rightarrow> unat b div 32 = 3 | TArray \<Rightarrow> unat b div 32 = 4
        | TMap \<Rightarrow> unat b div 32 = 5 | TBool \<Rightarrow> b = 244 \<or> b = 245 | TNull \<Rightarrow> b = 246 | _ \<Rightarrow> True)"

definition minicbor_ok :: "(byte list \<Rightarrow> bool) \<Rightarrow> minicbor \<Rightarrow> bool" where
  "minicbor_ok utf8 mc \<longleftrightarrow>
     (\<forall>bytes p t. mc_datatype mc bytes p = Some t \<longrightarrow> p < length bytes \<and> type_byte t (bytes ! p)) \<and>
     (\<forall>bytes p m n rest. drop p bytes = cbor_head m n @ rest \<longrightarrow> n < 2 ^ 64 \<longrightarrow>
        (m \<le> 1 \<longrightarrow> (\<exists>t. mc_datatype mc bytes p = Some t \<and> integer_type t) \<and>
           mc_skip mc bytes p = Some (p + length (cbor_head m n))) \<and>
        (m = 2 \<longrightarrow> mc_datatype mc bytes p = Some TBytes \<and>
           mc_bytes mc bytes p = (if n \<le> length rest then Some (p + length (cbor_head m n) + n) else None)) \<and>
        (m = 3 \<longrightarrow> mc_datatype mc bytes p = Some TString \<and>
           mc_str mc bytes p =
             (if n \<le> length rest \<and> utf8 (take n rest) then Some (p + length (cbor_head m n) + n) else None)) \<and>
        (m = 4 \<longrightarrow> mc_datatype mc bytes p = Some TArray \<and> mc_array mc bytes p = Some (Some n, p + length (cbor_head m n))) \<and>
        (m = 5 \<longrightarrow> mc_datatype mc bytes p = Some TMap \<and> mc_map mc bytes p = Some (Some n, p + length (cbor_head m n)))) \<and>
     (\<forall>bytes p. p < length bytes \<longrightarrow>
        (bytes ! p = 244 \<or> bytes ! p = 245 \<longrightarrow> mc_datatype mc bytes p = Some TBool \<and> mc_bool mc bytes p = Some (p + 1)) \<and>
        (bytes ! p = 246 \<longrightarrow> mc_datatype mc bytes p = Some TNull \<and> mc_null mc bytes p = Some (p + 1)))"

section \<open>Headers are exactly the shortest forms\<close>

lemma cbor_head_nonempty [simp]: "cbor_head m n \<noteq> []"
  by (simp add: cbor_head_def)

lemma unat_initial_byte: "m < 8 \<Longrightarrow> a < 32 \<Longrightarrow> unat (initial_byte m a) = 32 * m + a"
  unfolding initial_byte_def by (subst unat_of_nat) simp

lemma initial_byte_unat: "initial_byte (unat b div 32) (unat b mod 32) = b"
  by (simp add: initial_byte_def)

lemma unat_and_31: "unat (b AND 31 :: byte) = unat b mod 32"
proof -
  have "b AND 31 = take_bit 5 b" by (simp add: take_bit_eq_mask mask_eq_exp_minus_1)
  then have "unat (b AND 31) = take_bit 5 (unat b)" by (simp only: unsigned_take_bit_eq)
  then show ?thesis by (simp only: take_bit_eq_mod) simp
qed

lemma from_be_be_bytes_small: "n < 256 ^ k \<Longrightarrow> from_be (be_bytes k n) = n"
  by (simp add: from_be_be_bytes)

lemma from_be_single: "from_be [b] = unat b"
  using from_be_snoc [of "[]" b] by simp

lemma argument_of_head:
  assumes "drop p bytes = cbor_head m n @ rest" "m < 8" "n < 2 ^ 64"
  shows "canonical_argument bytes p = Ok (n, length (cbor_head m n))"
proof -
  have p: "p < length bytes" using assms(1) by (metis cbor_head_nonempty drop_eq_Nil2 append_is_Nil_conv not_less)
  have len: "length bytes = p + length (cbor_head m n) + length rest"
    using arg_cong [OF assms(1), of length] p by simp
  have hd: "bytes ! p = hd (cbor_head m n)" using assms(1) p by (metis cbor_head_nonempty hd_append2 hd_drop_conv_nth)
  have tl: "drop (p + 1) bytes = tl (cbor_head m n) @ rest"
    using assms(1) by (metis cbor_head_nonempty drop_Suc tl_append2 tl_drop Suc_eq_plus1)
  note b = unat_and_31 unat_initial_byte [OF assms(2)]
  consider "n < 24" | "24 \<le> n" "n < 2 ^ 8" | "2 ^ 8 \<le> n" "n < 2 ^ 16" | "2 ^ 16 \<le> n" "n < 2 ^ 32" | "2 ^ 32 \<le> n"
    by linarith
  then show ?thesis
    using p len hd tl assms(3)
    by cases (simp_all add: canonical_argument_def cbor_head_def b read_array_def from_be_be_bytes_small from_be_single unat_of_nat)
qed

lemma head_of_argument:
  assumes "canonical_argument bytes p = Ok (n, l)"
  shows "p < length bytes \<and> n < 2 ^ 64 \<and> l = length (cbor_head (unat (bytes ! p) div 32) n) \<and>
    (\<exists>rest. drop p bytes = cbor_head (unat (bytes ! p) div 32) n @ rest)"
proof -
  let ?b = "bytes ! p" let ?m = "unat (bytes ! p) div 32" let ?a = "unat (bytes ! p) mod 32"
  have p: "p < length bytes" using assms by (auto simp: canonical_argument_def split: if_split_asm)
  have d: "drop p bytes = initial_byte ?m ?a # drop (p + 1) bytes"
    using p by (simp add: Cons_nth_drop_Suc initial_byte_unat)
  have multi: "p < length bytes \<and> n < 2 ^ 64 \<and> l = length (cbor_head ?m n) \<and> (\<exists>rest. drop p bytes = cbor_head ?m n @ rest)"
    if a: "?a = a" and r: "read_array k bytes p = Ok xs" "n = from_be xs" "l = k + 1" "256 ^ k \<le> (2 :: nat) ^ 64"
      and h: "cbor_head ?m n = initial_byte ?m a # be_bytes k n" for a k xs
  proof -
    have xs: "xs = take k (drop (p + 1) bytes)" "length xs = k" using r(1) by (auto simp: read_array_def split: if_split_asm)
    have "be_bytes k n = xs" using be_bytes_from_be [OF xs(2)] r(2) by simp
    moreover have "n < 256 ^ k" using from_be_less [of xs] xs(2) r(2) by simp
    moreover have "drop (p + 1) bytes = xs @ drop k (drop (p + 1) bytes)" unfolding xs(1) by (rule append_take_drop_id [symmetric])
    ultimately have "drop p bytes = cbor_head ?m n @ drop k (drop (p + 1) bytes)" "length (cbor_head ?m n) = k + 1" "n < 2 ^ 64"
      using d h a xs(2) r(4) by simp_all
    then show ?thesis using p r(3) by metis
  qed
  consider "?a \<le> 23" | "?a = 24" | "?a = 25" | "?a = 26" | "?a = 27" | "?a > 27" by linarith
  then show ?thesis
  proof cases
    case 1
    then have "n = ?a" "l = 1" using assms p by (simp_all add: canonical_argument_def unat_and_31 split: if_split_asm)
    then show ?thesis using 1 p d by (simp add: cbor_head_def)
  next
    case 2
    then obtain xs where xs: "read_array 1 bytes p = Ok xs" "n = from_be xs" "l = 1 + 1" "24 \<le> n" "n < 2 ^ 8"
      using assms p by (auto simp: canonical_argument_def unat_and_31 and_then_Ok_iff Let_def split: if_split_asm)
    show ?thesis by (rule multi [OF 2 xs(1-3)]) (use xs(4,5) in \<open>simp_all add: cbor_head_def\<close>)
  next
    case 3
    then obtain xs where xs: "read_array 2 bytes p = Ok xs" "n = from_be xs" "l = 2 + 1" "2 ^ 8 \<le> n" "n < 2 ^ 16"
      using assms p by (auto simp: canonical_argument_def unat_and_31 and_then_Ok_iff Let_def split: if_split_asm)
    show ?thesis by (rule multi [OF 3 xs(1-3)]) (use xs(4,5) in \<open>simp_all add: cbor_head_def\<close>)
  next
    case 4
    then obtain xs where xs: "read_array 4 bytes p = Ok xs" "n = from_be xs" "l = 4 + 1" "2 ^ 16 \<le> n" "n < 2 ^ 32"
      using assms p by (auto simp: canonical_argument_def unat_and_31 and_then_Ok_iff Let_def split: if_split_asm)
    show ?thesis by (rule multi [OF 4 xs(1-3)]) (use xs(4,5) in \<open>simp_all add: cbor_head_def\<close>)
  next
    case 5
    then obtain xs where xs: "read_array 8 bytes p = Ok xs" "n = from_be xs" "l = 8 + 1" "2 ^ 32 \<le> n"
      using assms p by (auto simp: canonical_argument_def unat_and_31 and_then_Ok_iff Let_def split: if_split_asm)
    show ?thesis by (rule multi [OF 5 xs(1-3)]) (use xs(4) in \<open>simp_all add: cbor_head_def\<close>)
  next
    case 6
    then show ?thesis using assms p by (simp add: canonical_argument_def unat_and_31)
  qed
qed

section \<open>Items\<close>

abbreviation found_at :: "byte list \<Rightarrow> nat \<Rightarrow> byte list \<Rightarrow> bool" where
  "found_at bytes p xs \<equiv> \<exists>rest. drop p bytes = xs @ rest"

lemma found_at_split:
  "found_at bytes p (xs @ ys) \<longleftrightarrow> found_at bytes p xs \<and> found_at bytes (p + length xs) ys"
proof
  assume "found_at bytes p (xs @ ys)"
  then obtain rest where r: "drop p bytes = xs @ ys @ rest" by auto
  then have "drop (p + length xs) bytes = ys @ rest"
    by (metis add.commute append_eq_conv_conj drop_drop)
  with r show "found_at bytes p xs \<and> found_at bytes (p + length xs) ys" by blast
next
  assume "found_at bytes p xs \<and> found_at bytes (p + length xs) ys"
  then obtain r1 r2 where r: "drop p bytes = xs @ r1" "drop (p + length xs) bytes = ys @ r2" by blast
  then have "r1 = ys @ r2" by (metis add.commute append_eq_conv_conj drop_drop)
  with r(1) show "found_at bytes p (xs @ ys)" by simp
qed

lemma found_at_length: "found_at bytes p xs \<Longrightarrow> xs \<noteq> [] \<Longrightarrow> p + length xs \<le> length bytes"
  by (metis append_Nil2 drop_eq_Nil2 diff_is_0_eq le_add_diff_inverse2 length_append length_drop
      Nat.add_0_right add.commute add_leD1 le_diff_conv2 nat_le_linear not_less zero_le append_is_Nil_conv le_add1)

lemma found_at_range: "found_at bytes p xs \<Longrightarrow> xs \<noteq> [] \<Longrightarrow> byte_range bytes p (p + length xs) = Some xs"
proof -
  assume f: "found_at bytes p xs" "xs \<noteq> []"
  then obtain rest where "drop p bytes = xs @ rest" by blast
  then have "drop p (take (p + length xs) bytes) = xs" by (simp add: drop_take)
  with found_at_length [OF f] show ?thesis by (simp add: byte_range_def)
qed

lemma cbor_enc_nonempty [simp]: "cbor_enc v \<noteq> []"
  by (cases v) simp_all

fun leaf :: "cbor \<Rightarrow> bool" where
  "leaf (CArray _) = False" | "leaf (CMap _) = False" | "leaf _ = True"

lemma minicbor_head:
  assumes "minicbor_ok utf8 mc" "drop p bytes = cbor_head m n @ rest" "n < 2 ^ 64"
  shows "m \<le> 1 \<Longrightarrow> \<exists>t. mc_datatype mc bytes p = Some t \<and> integer_type t"
    "m \<le> 1 \<Longrightarrow> mc_skip mc bytes p = Some (p + length (cbor_head m n))"
    "m = 2 \<Longrightarrow> mc_datatype mc bytes p = Some TBytes"
    "m = 2 \<Longrightarrow> mc_bytes mc bytes p = (if n \<le> length rest then Some (p + length (cbor_head m n) + n) else None)"
    "m = 3 \<Longrightarrow> mc_datatype mc bytes p = Some TString"
    "m = 3 \<Longrightarrow> mc_str mc bytes p =
       (if n \<le> length rest \<and> utf8 (take n rest) then Some (p + length (cbor_head m n) + n) else None)"
    "m = 4 \<Longrightarrow> mc_datatype mc bytes p = Some TArray"
    "m = 4 \<Longrightarrow> mc_array mc bytes p = Some (Some n, p + length (cbor_head m n))"
    "m = 5 \<Longrightarrow> mc_datatype mc bytes p = Some TMap"
    "m = 5 \<Longrightarrow> mc_map mc bytes p = Some (Some n, p + length (cbor_head m n))"
  using assms(1) [unfolded minicbor_ok_def, THEN conjunct2, THEN conjunct1, THEN spec, THEN spec, THEN spec, THEN spec, THEN spec, THEN mp, OF assms(2), THEN mp, OF assms(3)] by simp_all

lemma minicbor_simple:
  assumes "minicbor_ok utf8 mc" "p < length bytes"
  shows "bytes ! p = 244 \<or> bytes ! p = 245 \<Longrightarrow> mc_datatype mc bytes p = Some TBool \<and> mc_bool mc bytes p = Some (p + 1)"
    "bytes ! p = 246 \<Longrightarrow> mc_datatype mc bytes p = Some TNull \<and> mc_null mc bytes p = Some (p + 1)"
  using assms(1) [unfolded minicbor_ok_def, THEN conjunct2, THEN conjunct2, rule_format, OF assms(2)] by blast+

lemma minicbor_type:
  assumes "minicbor_ok utf8 mc" "mc_datatype mc bytes p = Some t"
  shows "p < length bytes \<and> type_byte t (bytes ! p)"
  using assms(1) [unfolded minicbor_ok_def, THEN conjunct1, THEN spec, THEN spec, THEN spec, THEN mp, OF assms(2)] .

lemmas container_types [simp] = integer_type_def [of TBytes, simplified] integer_type_def [of TString, simplified]
  integer_type_def [of TArray, simplified] integer_type_def [of TMap, simplified] integer_type_def [of TBool, simplified]
  integer_type_def [of TNull, simplified]

lemma item_step_int:
  assumes "minicbor_ok utf8 mc" "found_at bytes p (cbor_head m n)" "m \<le> 1" "n < 2 ^ 64"
  shows "item_step mc bytes limits d p = Ok (p + length (cbor_head m n), None)"
proof -
  from assms(2) obtain rest where r: "drop p bytes = cbor_head m n @ rest" by blast
  note h = minicbor_head [OF assms(1) r assms(4)] and a = argument_of_head [OF r _ assms(4)]
  show ?thesis using h(1,2) a assms(3) by (auto simp: item_step_def)
qed

lemma item_step_sized:
  assumes "minicbor_ok utf8 mc" "found_at bytes p (cbor_head m (length bs) @ bs)" "length bs < 2 ^ 64"
    and "m = 2 \<or> m = 3 \<and> utf8 bs"
  shows "item_step mc bytes limits d p = Ok (p + length (cbor_head m (length bs) @ bs), None)"
proof -
  from assms(2) obtain rest where r: "drop p bytes = cbor_head m (length bs) @ bs @ rest" by auto
  note h = minicbor_head [OF assms(1) r assms(3)] and a = argument_of_head [OF r _ assms(3)]
  show ?thesis using h(3-6) a assms(4) by (auto simp: item_step_def validate_sized_item_def)
qed

lemma item_step_open:
  assumes "minicbor_ok utf8 mc" "d < cl_max_depth limits" "n \<le> cl_max_collection_items limits" "n < 2 ^ 64"
  shows "found_at bytes p (cbor_head 4 n) \<Longrightarrow>
      item_step mc bytes limits d p = Ok (p + length (cbor_head 4 n), Some (ArrayFrame n))"
    and "found_at bytes p (cbor_head 5 n) \<Longrightarrow>
      item_step mc bytes limits d p = Ok (p + length (cbor_head 5 n), Some (MapFrame n True None None))"
proof -
  assume "found_at bytes p (cbor_head 4 n)"
  then obtain rest where r: "drop p bytes = cbor_head 4 n @ rest" by blast
  note h = minicbor_head [OF assms(1) r assms(4)] and a = argument_of_head [OF r _ assms(4)]
  show "item_step mc bytes limits d p = Ok (p + length (cbor_head 4 n), Some (ArrayFrame n))"
    using h(7,8) a assms(2,3) by (simp add: item_step_def validate_container_depth_def)
next
  assume "found_at bytes p (cbor_head 5 n)"
  then obtain rest where r: "drop p bytes = cbor_head 5 n @ rest" by blast
  note h = minicbor_head [OF assms(1) r assms(4)] and a = argument_of_head [OF r _ assms(4)]
  show "item_step mc bytes limits d p = Ok (p + length (cbor_head 5 n), Some (MapFrame n True None None))"
    using h(9,10) a assms(2,3) by (simp add: item_step_def validate_container_depth_def)
qed

lemma item_step_leaf:
  assumes "minicbor_ok utf8 mc" "leaf v" "cbor_ok utf8 limits d v" "found_at bytes p (cbor_enc v)"
  shows "item_step mc bytes limits d p = Ok (p + length (cbor_enc v), None)"
proof -
  have simple: "bytes ! p = b \<and> p < length bytes" if f: "found_at bytes p [b]" for b
  proof -
    from f obtain rest where r: "drop p bytes = b # rest" by auto
    then have p: "p < length bytes" by (metis drop_eq_Nil2 list.distinct(1) not_less)
    with r show ?thesis using hd_drop_conv_nth [OF p] by simp
  qed
  show ?thesis
  proof (cases v)
    case (CBool b)
    then have "bytes ! p = (if b then 245 else 244) \<and> p < length bytes" using simple assms(4) by simp
    then show ?thesis using minicbor_simple(1) [OF assms(1), of p bytes] CBool by (simp add: item_step_def split: if_split_asm)
  next
    case CNull
    then have "bytes ! p = 246 \<and> p < length bytes" using simple assms(4) by simp
    then show ?thesis using minicbor_simple(2) [OF assms(1), of p bytes] CNull by (simp add: item_step_def)
  next
    case (CBytes bs)
    then show ?thesis using item_step_sized [OF assms(1), where bytes = bytes and p = p and m = 2 and bs = bs] assms(3,4) by simp
  next
    case (CText bs)
    then show ?thesis using item_step_sized [OF assms(1), where bytes = bytes and p = p and m = 3 and bs = bs] assms(3,4) by simp
  qed (use assms item_step_int [OF assms(1)] in simp_all)
qed

text \<open>Every accepted header is a leaf or opens a container inside the limits.\<close>

lemma item_step_sound:
  assumes "minicbor_ok utf8 mc" "item_step mc bytes limits d p = Ok (q, c)"
  shows "(\<exists>v. leaf v \<and> cbor_ok utf8 limits d v \<and> found_at bytes p (cbor_enc v) \<and> c = None \<and> q = p + length (cbor_enc v)) \<or>
    (\<exists>m n f. found_at bytes p (cbor_head m n) \<and> q = p + length (cbor_head m n) \<and> d < cl_max_depth limits \<and>
       n \<le> cl_max_collection_items limits \<and> n < 2 ^ 64 \<and> c = Some f \<and>
       (m = 4 \<and> f = ArrayFrame n \<or> m = 5 \<and> f = MapFrame n True None None))" (is "?leaf \<or> ?open")
proof -
  obtain t where t: "mc_datatype mc bytes p = Some t" using assms(2) by (auto simp: item_step_def and_then_Ok_iff)
  note b = minicbor_type [OF assms(1) t]
  let ?m = "unat (bytes ! p) div 32"
  have head: "\<exists>rest. drop p bytes = cbor_head ?m n @ rest \<and> n < 2 ^ 64" if "canonical_argument bytes p = Ok (n, l)" for n l
    using head_of_argument [OF that] by blast
  have single: "drop p bytes = [bytes ! p] @ drop (p + 1) bytes" using b by (simp add: Cons_nth_drop_Suc)
  show ?thesis
  proof (cases "integer_type t")
    case True
    then obtain n l where a: "canonical_argument bytes p = Ok (n, l)" "mc_skip mc bytes p = Some q" "c = None"
      using assms(2) t by (auto simp: item_step_def and_then_Ok_iff split: if_split_asm)
    from head [OF a(1)] obtain rest where r: "drop p bytes = cbor_head ?m n @ rest" "n < 2 ^ 64" by blast
    have m: "?m = 0 \<or> ?m = 1" using b True by (simp add: type_byte_def) linarith
    then have "q = p + length (cbor_head ?m n)" using minicbor_head(2) [OF assms(1) r] a(2) by auto
    then show ?thesis using m r a(3) by (intro disjI1 exI [of _ "if ?m = 0 then CUint n else CNint n"]) auto
  next
    case False
    note step = assms(2) [unfolded item_step_def t ok_or_simps and_then_simps if_not_P [OF False]]
    show ?thesis
    proof (cases t)
      case TBytes
      then obtain n l where a: "canonical_argument bytes p = Ok (n, l)" "mc_bytes mc bytes p = Some q" "c = None"
        using step by (auto simp: and_then_Ok_iff)
      from head [OF a(1)] obtain rest where r: "drop p bytes = cbor_head ?m n @ rest" "n < 2 ^ 64" by blast
      have m: "?m = 2" using b TBytes by (simp add: type_byte_def)
      note h = minicbor_head(4) [OF assms(1) r [unfolded m], simplified, unfolded a(2)]
      then have q: "n \<le> length rest" "q = p + length (cbor_head 2 n) + n" by (simp_all split: if_split_asm)
      moreover have "\<exists>suf. rest = take n rest @ suf" by (metis append_take_drop_id)
      ultimately show ?thesis using r [unfolded m] a(3)
        by (intro disjI1 exI [of _ "CBytes (take n rest)"]) (simp add: min_absorb2)
    next
      case TString
      then obtain n l where a: "canonical_argument bytes p = Ok (n, l)" "mc_str mc bytes p = Some q" "c = None"
        using step by (auto simp: and_then_Ok_iff)
      from head [OF a(1)] obtain rest where r: "drop p bytes = cbor_head ?m n @ rest" "n < 2 ^ 64" by blast
      have m: "?m = 3" using b TString by (simp add: type_byte_def)
      note h = minicbor_head(6) [OF assms(1) r [unfolded m], simplified, unfolded a(2)]
      then have q: "n \<le> length rest" "utf8 (take n rest)" "q = p + length (cbor_head 3 n) + n" by (simp_all split: if_split_asm)
      moreover have "\<exists>suf. rest = take n rest @ suf" by (metis append_take_drop_id)
      ultimately show ?thesis using r [unfolded m] a(3)
        by (intro disjI1 exI [of _ "CText (take n rest)"]) (simp add: min_absorb2)
    next
      case TArray
      then obtain n l dl where a: "canonical_argument bytes p = Ok (n, l)" "mc_array mc bytes p = Some (Some dl, q)"
        "c = Some (ArrayFrame n)" "n \<le> cl_max_collection_items limits" "d < cl_max_depth limits"
        using step by (auto simp: and_then_Ok_iff validate_container_depth_def split: if_split_asm)
      from head [OF a(1)] obtain rest where r: "drop p bytes = cbor_head ?m n @ rest" "n < 2 ^ 64" by blast
      have m: "?m = 4" using b TArray by (simp add: type_byte_def)
      have "q = p + length (cbor_head 4 n)" using minicbor_head(8) [OF assms(1) r [unfolded m]] a(2) by simp
      then have "?open" using r [unfolded m] a by blast
      then show ?thesis ..
    next
      case TMap
      then obtain n l dl where a: "canonical_argument bytes p = Ok (n, l)" "mc_map mc bytes p = Some (Some dl, q)"
        "c = Some (MapFrame n True None None)" "n \<le> cl_max_collection_items limits" "d < cl_max_depth limits"
        using step by (auto simp: and_then_Ok_iff validate_container_depth_def split: if_split_asm)
      from head [OF a(1)] obtain rest where r: "drop p bytes = cbor_head ?m n @ rest" "n < 2 ^ 64" by blast
      have m: "?m = 5" using b TMap by (simp add: type_byte_def)
      have "q = p + length (cbor_head 5 n)" using minicbor_head(10) [OF assms(1) r [unfolded m]] a(2) by simp
      then have "?open" using r [unfolded m] a by blast
      then show ?thesis ..
    next
      case TBool
      then have bb: "bytes ! p = 244 \<or> bytes ! p = 245" using b by (simp add: type_byte_def)
      then have "q = p + 1" "c = None" using minicbor_simple(1) [OF assms(1)] b step TBool by auto
      then show ?thesis using bb single by (intro disjI1 exI [of _ "CBool (bytes ! p = 245)"]) auto
    next
      case TNull
      then have bb: "bytes ! p = 246" using b by (simp add: type_byte_def)
      then have "q = p + 1" "c = None" using minicbor_simple(2) [OF assms(1)] b step TNull by auto
      then show ?thesis using bb single by (intro disjI1 exI [of _ CNull]) auto
    qed (use step in simp_all)
  qed
qed

section \<open>The loop accepts exactly the canonical values\<close>

text \<open>What the loop does once an item is complete.\<close>

definition after_item ::
  "minicbor \<Rightarrow> byte list \<Rightarrow> cbor_limits \<Rightarrow> nat \<Rightarrow> container_frame list \<Rightarrow> nat result option" where
  "after_item mc bytes limits q stack =
     (case complete_item q bytes stack of
        Inl e \<Rightarrow> Some (Err e)
      | Inr (stack', finished) \<Rightarrow> if finished then Some (Ok q) else validate_loop mc bytes limits q stack')"

lemma validate_loop_step:
  "validate_loop mc bytes limits p stack =
     (case item_step mc bytes limits (length stack) p of
        Inl e \<Rightarrow> Some (Err e)
      | Inr (q, None) \<Rightarrow> after_item mc bytes limits q (mark_key p stack)
      | Inr (q, Some frame) \<Rightarrow>
          if frame_empty frame then after_item mc bytes limits q (mark_key p stack)
          else validate_loop mc bytes limits q (frame # mark_key p stack))"
proof -
  have "length (mark_key p stack) = length stack" by (auto simp: mark_key_def split: list.split container_frame.split bool.split option.split)
  then show ?thesis
    by (subst validate_loop.simps) (auto simp: Let_def after_item_def split: sum.split option.split prod.split)
qed

lemma mark_key_simps [simp]:
  "mark_key p (ArrayFrame n # stack) = ArrayFrame n # stack"
  "mark_key p (MapFrame n True None prev # stack) = MapFrame n True (Some p) prev # stack"
  "mark_key p (MapFrame n False ks prev # stack) = MapFrame n False ks prev # stack"
  "mark_key p [] = []"
  by (simp_all add: mark_key_def)

lemma after_array:
  "after_item mc bytes limits q (ArrayFrame (Suc n) # stack) =
     (if n = 0 then after_item mc bytes limits q stack else validate_loop mc bytes limits q (ArrayFrame n # stack))"
  by (simp add: after_item_def)

lemma after_value:
  "after_item mc bytes limits q (MapFrame (Suc n) False ks prev # stack) =
     (if n = 0 then after_item mc bytes limits q stack else validate_loop mc bytes limits q (MapFrame n True ks prev # stack))"
  by (simp add: after_item_def)

lemma after_key:
  assumes "byte_range bytes p q = Some key"
    and "case prev of None \<Rightarrow> True | Some (a, b) \<Rightarrow> (\<exists>previous. byte_range bytes a b = Some previous \<and> previous < key)"
  shows "after_item mc bytes limits q (MapFrame n True (Some p) prev # stack) =
     validate_loop mc bytes limits q (MapFrame n False None (Some (p, q)) # stack)"
  using assms by (cases prev) (auto simp: after_item_def not_le)

definition accepts_item ::
  "(byte list \<Rightarrow> bool) \<Rightarrow> minicbor \<Rightarrow> byte list \<Rightarrow> cbor_limits \<Rightarrow> cbor \<Rightarrow> bool" where
  "accepts_item utf8 mc bytes limits v \<longleftrightarrow>
     (\<forall>p stack. cbor_ok utf8 limits (length stack) v \<longrightarrow> found_at bytes p (cbor_enc v) \<longrightarrow>
        validate_loop mc bytes limits p stack = after_item mc bytes limits (p + length (cbor_enc v)) (mark_key p stack))"

lemma array_complete:
  assumes "\<forall>v\<in>set vs. accepts_item utf8 mc bytes limits v" "vs \<noteq> []"
    and "\<forall>v\<in>set vs. cbor_ok utf8 limits (length stack + 1) v" "found_at bytes p (concat (map cbor_enc vs))"
  shows "validate_loop mc bytes limits p (ArrayFrame (length vs) # stack) =
    after_item mc bytes limits (p + length (concat (map cbor_enc vs))) stack"
  using assms
proof (induction vs arbitrary: p)
  case (Cons v vs)
  have f: "found_at bytes p (cbor_enc v)" "found_at bytes (p + length (cbor_enc v)) (concat (map cbor_enc vs))"
    using Cons.prems(4) by (simp_all only: list.map concat.simps found_at_split)
  have "validate_loop mc bytes limits p (ArrayFrame (length (v # vs)) # stack) =
      after_item mc bytes limits (p + length (cbor_enc v)) (ArrayFrame (Suc (length vs)) # stack)"
    using Cons.prems(1,3) f(1) by (simp add: accepts_item_def)
  also have "\<dots> = after_item mc bytes limits (p + length (cbor_enc v) + length (concat (map cbor_enc vs))) stack"
    using Cons.IH [of "p + length (cbor_enc v)"] Cons.prems f(2) by (cases vs) (simp_all add: after_array)
  finally show ?case by (simp add: add.assoc)
qed simp

definition previous_below :: "byte list \<Rightarrow> (nat \<times> nat) option \<Rightarrow> byte list \<Rightarrow> bool" where
  "previous_below bytes prev key \<longleftrightarrow>
     (case prev of None \<Rightarrow> True | Some (a, b) \<Rightarrow> (\<exists>previous. byte_range bytes a b = Some previous \<and> previous < key))"

abbreviation entry_enc :: "cbor \<times> cbor \<Rightarrow> byte list" where
  "entry_enc kv \<equiv> cbor_enc (fst kv) @ cbor_enc (snd kv)"

lemma entry_complete:
  assumes "accepts_item utf8 mc bytes limits k" "accepts_item utf8 mc bytes limits v"
    and "cbor_ok utf8 limits (length stack + 1) k" "cbor_ok utf8 limits (length stack + 1) v"
    and "found_at bytes p (cbor_enc k @ cbor_enc v)" "previous_below bytes prev (cbor_enc k)"
  shows "validate_loop mc bytes limits p (MapFrame n True None prev # stack) =
    after_item mc bytes limits (p + length (cbor_enc k @ cbor_enc v))
      (MapFrame n False None (Some (p, p + length (cbor_enc k))) # stack)"
proof -
  let ?q = "p + length (cbor_enc k)"
  have f: "found_at bytes p (cbor_enc k)" "found_at bytes ?q (cbor_enc v)"
    using assms(5) by (simp_all only: found_at_split)
  have "validate_loop mc bytes limits p (MapFrame n True None prev # stack) =
      after_item mc bytes limits ?q (MapFrame n True (Some p) prev # stack)"
    using assms(1,3) f(1) by (simp add: accepts_item_def)
  also have "\<dots> = validate_loop mc bytes limits ?q (MapFrame n False None (Some (p, ?q)) # stack)"
    by (rule after_key [OF found_at_range [OF f(1)]]) (use assms(6) in \<open>simp_all add: previous_below_def\<close>)
  also have "\<dots> = after_item mc bytes limits (?q + length (cbor_enc v)) (MapFrame n False None (Some (p, ?q)) # stack)"
    using assms(2,4) f(2) by (simp add: accepts_item_def)
  finally show ?thesis by (simp add: add.assoc)
qed

lemma map_complete:
  assumes "\<forall>kv\<in>set kvs. accepts_item utf8 mc bytes limits (fst kv) \<and> accepts_item utf8 mc bytes limits (snd kv)" "kvs \<noteq> []"
    and "\<forall>kv\<in>set kvs. cbor_ok utf8 limits (length stack + 1) (fst kv) \<and> cbor_ok utf8 limits (length stack + 1) (snd kv)"
    and "sorted_wrt (<) (map (cbor_enc \<circ> fst) kvs)" "previous_below bytes prev (cbor_enc (fst (hd kvs)))"
    and "found_at bytes p (concat (map entry_enc kvs))"
  shows "validate_loop mc bytes limits p (MapFrame (length kvs) True None prev # stack) =
    after_item mc bytes limits (p + length (concat (map entry_enc kvs))) stack"
  using assms
proof (induction kvs arbitrary: p prev)
  case (Cons kv kvs)
  note prems = Cons.prems and IH = Cons.IH
  let ?q = "p + length (entry_enc kv)" and ?k = "p + length (cbor_enc (fst kv))"
  have f: "found_at bytes p (entry_enc kv)" "found_at bytes ?q (concat (map entry_enc kvs))"
    using Cons.prems(6) by (simp_all only: list.map concat.simps found_at_split)
  have key: "byte_range bytes p ?k = Some (cbor_enc (fst kv))"
    using f(1) by (intro found_at_range) (simp_all only: found_at_split cbor_enc_nonempty simp_thms)
  have "validate_loop mc bytes limits p (MapFrame (length (kv # kvs)) True None prev # stack) =
      after_item mc bytes limits ?q (MapFrame (Suc (length kvs)) False None (Some (p, ?k)) # stack)"
    using Cons.prems(1,3,5) f(1) by (simp only: length_Cons, intro entry_complete [of utf8]) simp_all
  also have "\<dots> = after_item mc bytes limits (?q + length (concat (map entry_enc kvs))) stack"
  proof (cases kvs)
    case (Cons kv' kvs')
    have "previous_below bytes (Some (p, ?k)) (cbor_enc (fst (hd kvs)))"
      using key prems(4) Cons by (simp add: previous_below_def)
    then show ?thesis
      using IH [of "Some (p, ?k)" ?q] prems(1-4) f(2) Cons by (simp add: after_value)
  qed (simp add: after_value)
  finally show ?case by (simp add: add.assoc)
qed simp

lemma leaf_complete:
  assumes "minicbor_ok utf8 mc" "leaf v"
  shows "accepts_item utf8 mc bytes limits v"
  unfolding accepts_item_def
proof (intro allI impI)
  fix p and stack :: "container_frame list"
  assume "cbor_ok utf8 limits (length stack) v" "found_at bytes p (cbor_enc v)"
  from item_step_leaf [OF assms this]
  show "validate_loop mc bytes limits p stack = after_item mc bytes limits (p + length (cbor_enc v)) (mark_key p stack)"
    by (simp add: validate_loop_step [of mc bytes limits p stack])
qed

lemma loop_complete:
  assumes "minicbor_ok utf8 mc"
  shows "accepts_item utf8 mc bytes limits v"
proof (induction v rule: cbor_enc.induct)
  case (5 vs)
  show ?case unfolding accepts_item_def
  proof (intro allI impI)
    fix p and stack :: "container_frame list"
    assume ok: "cbor_ok utf8 limits (length stack) (CArray vs)" and f: "found_at bytes p (cbor_enc (CArray vs))"
    let ?q = "p + length (cbor_head 4 (length vs))"
    have g: "found_at bytes p (cbor_head 4 (length vs))" "found_at bytes ?q (concat (map cbor_enc vs))"
      using f by (simp_all only: cbor_enc.simps found_at_split)
    have "item_step mc bytes limits (length stack) p = Ok (?q, Some (ArrayFrame (length vs)))"
      using ok g(1) by (intro item_step_open [OF assms]) simp_all
    moreover have "length (mark_key p stack) = length stack"
      by (auto simp: mark_key_def split: list.split container_frame.split bool.split option.split)
    ultimately show "validate_loop mc bytes limits p stack =
        after_item mc bytes limits (p + length (cbor_enc (CArray vs))) (mark_key p stack)"
      using array_complete [of vs utf8 mc bytes limits "mark_key p stack" ?q] 5 ok g(2)
      by (cases "vs = []") (auto simp: validate_loop_step [of mc bytes limits p stack] frame_empty_def add.assoc)
  qed
next
  case (6 kvs)
  show ?case unfolding accepts_item_def
  proof (intro allI impI)
    fix p and stack :: "container_frame list"
    assume ok: "cbor_ok utf8 limits (length stack) (CMap kvs)" and f: "found_at bytes p (cbor_enc (CMap kvs))"
    let ?q = "p + length (cbor_head 5 (length kvs))"
    have g: "found_at bytes p (cbor_head 5 (length kvs))" "found_at bytes ?q (concat (map entry_enc kvs))"
      using f by (simp_all only: cbor_enc.simps found_at_split)
    have "item_step mc bytes limits (length stack) p = Ok (?q, Some (MapFrame (length kvs) True None None))"
      using ok g(1) by (intro item_step_open [OF assms]) simp_all
    moreover have "length (mark_key p stack) = length stack"
      by (auto simp: mark_key_def split: list.split container_frame.split bool.split option.split)
    ultimately show "validate_loop mc bytes limits p stack =
        after_item mc bytes limits (p + length (cbor_enc (CMap kvs))) (mark_key p stack)"
      using map_complete [of kvs utf8 mc bytes limits "mark_key p stack" None ?q] 6 ok g(2)
      by (cases "kvs = []")
        (auto simp: validate_loop_step [of mc bytes limits p stack] frame_empty_def add.assoc previous_below_def)
  qed
qed (rule leaf_complete [OF assms], simp)+

definition sound_at ::
  "(byte list \<Rightarrow> bool) \<Rightarrow> minicbor \<Rightarrow> byte list \<Rightarrow> cbor_limits \<Rightarrow> nat \<Rightarrow> bool" where
  "sound_at utf8 mc bytes limits p \<longleftrightarrow>
     (\<forall>stack e. validate_loop mc bytes limits p stack = Some (Ok e) \<longrightarrow>
        (\<exists>v. cbor_ok utf8 limits (length stack) v \<and> found_at bytes p (cbor_enc v)))"

lemma sound_item:
  assumes "minicbor_ok utf8 mc" "sound_at utf8 mc bytes limits p" "validate_loop mc bytes limits p stack = Some (Ok e)"
  obtains v where "cbor_ok utf8 limits (length stack) v" "found_at bytes p (cbor_enc v)"
    "after_item mc bytes limits (p + length (cbor_enc v)) (mark_key p stack) = Some (Ok e)"
proof -
  from assms(2,3) obtain v where v: "cbor_ok utf8 limits (length stack) v" "found_at bytes p (cbor_enc v)"
    unfolding sound_at_def by blast
  moreover have "after_item mc bytes limits (p + length (cbor_enc v)) (mark_key p stack) = Some (Ok e)"
    using loop_complete [OF assms(1), of bytes limits v] v assms(3) by (simp add: accepts_item_def)
  ultimately show thesis using that by blast
qed

lemma array_sound:
  assumes mc: "minicbor_ok utf8 mc" and "\<And>p. p0 \<le> p \<Longrightarrow> sound_at utf8 mc bytes limits p"
    and "validate_loop mc bytes limits p (ArrayFrame n # stack) = Some (Ok e)" "n > 0" "p0 \<le> p"
  shows "\<exists>vs. length vs = n \<and> (\<forall>v\<in>set vs. cbor_ok utf8 limits (length stack + 1) v) \<and>
    found_at bytes p (concat (map cbor_enc vs))"
  using assms(3-5)
proof (induction n arbitrary: p)
  case (Suc n)
  obtain v where v: "cbor_ok utf8 limits (length stack + 1) v" "found_at bytes p (cbor_enc v)"
    "after_item mc bytes limits (p + length (cbor_enc v)) (ArrayFrame (Suc n) # stack) = Some (Ok e)"
    using sound_item [OF mc assms(2) Suc.prems(1)] Suc.prems(3) by auto
  show ?case
  proof (cases "n = 0")
    case True
    then show ?thesis using v by (intro exI [of _ "[v]"]) simp
  next
    case False
    then obtain vs where "length vs = n" "\<forall>v\<in>set vs. cbor_ok utf8 limits (length stack + 1) v"
      "found_at bytes (p + length (cbor_enc v)) (concat (map cbor_enc vs))"
      using Suc.IH [of "p + length (cbor_enc v)"] v(3) Suc.prems(3) by (auto simp: after_array)
    then show ?thesis using v(1,2) by (intro exI [of _ "v # vs"]) (simp add: found_at_split del: append_assoc)
  qed
qed simp

lemma key_sound:
  assumes "after_item mc bytes limits q (MapFrame n True (Some p) prev # stack) = Some (Ok e)"
    and "byte_range bytes p q = Some key"
  shows "previous_below bytes prev key \<and>
    validate_loop mc bytes limits q (MapFrame n False None (Some (p, q)) # stack) = Some (Ok e)"
  using assms
  by (auto simp: after_item_def previous_below_def not_le ok_or_def split: option.splits if_split_asm prod.splits sum.split_asm)

lemma map_sound:
  assumes mc: "minicbor_ok utf8 mc" and "\<And>p. p0 \<le> p \<Longrightarrow> sound_at utf8 mc bytes limits p"
    and "validate_loop mc bytes limits p (MapFrame n True None prev # stack) = Some (Ok e)" "n > 0" "p0 \<le> p"
  shows "\<exists>kvs. length kvs = n \<and>
    (\<forall>kv\<in>set kvs. cbor_ok utf8 limits (length stack + 1) (fst kv) \<and> cbor_ok utf8 limits (length stack + 1) (snd kv)) \<and>
    sorted_wrt (<) (map (cbor_enc \<circ> fst) kvs) \<and> previous_below bytes prev (cbor_enc (fst (hd kvs))) \<and>
    found_at bytes p (concat (map entry_enc kvs))"
  using assms(3-5)
proof (induction n arbitrary: p prev)
  case (Suc n)
  obtain k where k: "cbor_ok utf8 limits (length stack + 1) k" "found_at bytes p (cbor_enc k)"
    "after_item mc bytes limits (p + length (cbor_enc k)) (MapFrame (Suc n) True (Some p) prev # stack) = Some (Ok e)"
    using sound_item [OF mc assms(2) Suc.prems(1)] Suc.prems(3) by auto
  let ?q = "p + length (cbor_enc k)"
  have r: "byte_range bytes p ?q = Some (cbor_enc k)" using k(2) by (rule found_at_range) simp
  note key = key_sound [OF k(3) r]
  obtain v where v: "cbor_ok utf8 limits (length stack + 1) v" "found_at bytes ?q (cbor_enc v)"
    "after_item mc bytes limits (?q + length (cbor_enc v)) (MapFrame (Suc n) False None (Some (p, ?q)) # stack) = Some (Ok e)"
    using sound_item [OF mc assms(2) conjunct2 [OF key]] Suc.prems(3) by auto
  have kv: "found_at bytes p (entry_enc (k, v))" using k(2) v(2) by (simp add: found_at_split del: append_assoc)
  show ?case
  proof (cases "n = 0")
    case True
    then show ?thesis using k(1) v(1) key kv by (intro exI [of _ "[(k, v)]"]) simp
  next
    case False
    have next_entry: "validate_loop mc bytes limits (p + length (entry_enc (k, v))) (MapFrame n True None (Some (p, ?q)) # stack) = Some (Ok e)"
      using v(3) False by (simp add: after_value add.assoc)
    have "p0 \<le> p + length (entry_enc (k, v))" using Suc.prems(3) by simp
    with Suc.IH [OF next_entry] False obtain kvs where kvs: "length kvs = n" "sorted_wrt (<) (map (cbor_enc \<circ> fst) kvs)"
      "\<forall>kv\<in>set kvs. cbor_ok utf8 limits (length stack + 1) (fst kv) \<and> cbor_ok utf8 limits (length stack + 1) (snd kv)"
      "previous_below bytes (Some (p, ?q)) (cbor_enc (fst (hd kvs)))"
      "found_at bytes (p + length (entry_enc (k, v))) (concat (map entry_enc kvs))"
      by blast
    have "cbor_enc k < cbor_enc (fst (hd kvs))" using kvs(4) r by (simp add: previous_below_def)
    then have "sorted_wrt (<) (map (cbor_enc \<circ> fst) ((k, v) # kvs))"
      using kvs(1,2) False by (cases kvs) (auto intro: less_trans)
    moreover have "found_at bytes p (concat (map entry_enc ((k, v) # kvs)))"
      using kv kvs(5) by (simp only: list.map concat.simps found_at_split)
    ultimately show ?thesis using kvs(1,3) k(1) v(1) key by (intro exI [of _ "(k, v) # kvs"]) (simp add: comp_def)
  qed
qed simp

lemma loop_sound:
  assumes mc: "minicbor_ok utf8 mc"
  shows "sound_at utf8 mc bytes limits p"
proof (induction "length bytes - p" arbitrary: p rule: less_induct)
  case less
  show ?case unfolding sound_at_def
  proof (intro allI impI)
    fix stack e
    assume l: "validate_loop mc bytes limits p stack = Some (Ok e)"
    then obtain q c where st: "item_step mc bytes limits (length stack) p = Ok (q, c)"
      by (cases "item_step mc bytes limits (length stack) p") (auto simp: validate_loop_step [of mc bytes limits p stack])
    have len: "length (mark_key p stack) = length stack"
      by (auto simp: mark_key_def split: list.split container_frame.split bool.split option.split)
    consider v where "cbor_ok utf8 limits (length stack) v" "found_at bytes p (cbor_enc v)"
      | m n f where "found_at bytes p (cbor_head m n)" "q = p + length (cbor_head m n)" "length stack < cl_max_depth limits"
          "n \<le> cl_max_collection_items limits" "n < 2 ^ 64" "c = Some f"
          "m = 4 \<and> f = ArrayFrame n \<or> m = 5 \<and> f = MapFrame n True None None"
      using item_step_sound [OF mc st] by blast
    then show "\<exists>v. cbor_ok utf8 limits (length stack) v \<and> found_at bytes p (cbor_enc v)"
    proof cases
      case (2 m n f)
      have pl: "p < q" "q \<le> length bytes" using found_at_length [OF 2(1)] 2(2) by simp_all
      have IH: "sound_at utf8 mc bytes limits p'" if "q \<le> p'" for p' using less that pl by simp
      have loop: "n > 0 \<Longrightarrow> validate_loop mc bytes limits q (f # mark_key p stack) = Some (Ok e)"
        using l 2(6,7) by (auto simp: validate_loop_step [of mc bytes limits p stack] st frame_empty_def)
      from 2(7) show ?thesis
      proof
        assume f: "m = 4 \<and> f = ArrayFrame n"
        obtain vs where "length vs = n" "\<forall>v\<in>set vs. cbor_ok utf8 limits (length stack + 1) v"
          "found_at bytes q (concat (map cbor_enc vs))"
          using array_sound [OF mc IH loop [unfolded conjunct2 [OF f]] _ order_refl] len by (cases "n = 0") auto
        then show ?thesis using 2 f by (intro exI [of _ "CArray vs"]) (simp add: found_at_split del: append_assoc)
      next
        assume f: "m = 5 \<and> f = MapFrame n True None None"
        obtain kvs where "length kvs = n" "sorted_wrt (<) (map (cbor_enc \<circ> fst) kvs)"
          "\<forall>kv\<in>set kvs. cbor_ok utf8 limits (length stack + 1) (fst kv) \<and> cbor_ok utf8 limits (length stack + 1) (snd kv)"
          "found_at bytes q (concat (map entry_enc kvs))"
          using map_sound [OF mc IH loop [unfolded conjunct2 [OF f]] _ order_refl] len by (cases "n = 0") auto
        then show ?thesis using 2 f by (intro exI [of _ "CMap kvs"]) (simp add: found_at_split comp_def del: append_assoc)
      qed
    qed blast
  qed
qed

lemma loop_total:
  assumes mc: "minicbor_ok utf8 mc"
  shows "validate_loop mc bytes limits p stack \<noteq> None"
proof (induction "length bytes - p" arbitrary: p stack rule: less_induct)
  case less
  show ?case
  proof (cases "item_step mc bytes limits (length stack) p")
    case (Inr qc)
    obtain q c where qc: "qc = (q, c)" by (cases qc)
    have "\<exists>xs. xs \<noteq> [] \<and> found_at bytes p xs \<and> q = p + length xs"
      using item_step_sound [OF mc Inr [unfolded qc]] cbor_head_nonempty cbor_enc_nonempty by blast
    then have "p < q" "q \<le> length bytes" using found_at_length by auto
    then have IH: "validate_loop mc bytes limits q st \<noteq> None" for st using less by simp
    have "after_item mc bytes limits q st \<noteq> None" for st
      using IH by (auto simp: after_item_def split: sum.split prod.split)
    then show ?thesis using IH Inr by (auto simp: validate_loop_step [of mc bytes limits p stack] qc split: option.split)
  qed (simp add: validate_loop_step [of mc bytes limits p stack])
qed

section \<open>The entry points\<close>

lemma validate_canonical_iff:
  assumes mc: "minicbor_ok utf8 mc"
  shows "validate_canonical mc bytes limits \<noteq> None"
    and "validate_canonical mc bytes limits = Some (Ok ()) \<longleftrightarrow>
      cl_max_depth limits \<noteq> 0 \<and> cl_max_collection_items limits \<noteq> 0 \<and> length bytes \<le> cl_max_body_len limits \<and>
      (\<exists>v. cbor_ok utf8 limits 0 v \<and> bytes = cbor_enc v)"
proof -
  show t: "validate_canonical mc bytes limits \<noteq> None"
    using loop_total [OF mc, of bytes limits 0 "[]"]
    by (auto simp: validate_canonical_def validate_item_def split: sum.split)
  have sound: "\<exists>v. cbor_ok utf8 limits 0 v \<and> bytes = cbor_enc v"
    if l: "validate_loop mc bytes limits 0 [] = Some (Ok (length bytes))"
  proof -
    obtain v where v: "cbor_ok utf8 limits 0 v" "found_at bytes 0 (cbor_enc v)"
      "after_item mc bytes limits (length (cbor_enc v)) [] = Some (Ok (length bytes))"
      using sound_item [OF mc loop_sound [OF mc] l] by auto
    then have "length (cbor_enc v) = length bytes" by (simp add: after_item_def)
    then show ?thesis using v(1,2) by auto
  qed
  have complete: "validate_loop mc bytes limits 0 [] = Some (Ok (length bytes))"
    if v: "cbor_ok utf8 limits 0 v" "bytes = cbor_enc v" for v
    using loop_complete [OF mc, of bytes limits v] v by (simp add: accepts_item_def after_item_def)
  show "validate_canonical mc bytes limits = Some (Ok ()) \<longleftrightarrow>
      cl_max_depth limits \<noteq> 0 \<and> cl_max_collection_items limits \<noteq> 0 \<and> length bytes \<le> cl_max_body_len limits \<and>
      (\<exists>v. cbor_ok utf8 limits 0 v \<and> bytes = cbor_enc v)" (is "?l \<longleftrightarrow> ?r")
  proof
    assume ?l
    then show ?r using sound
      by (auto simp: validate_canonical_def validate_item_def split: if_split_asm option.split_asm sum.split_asm)
  next
    assume ?r
    then obtain v where v: "cbor_ok utf8 limits 0 v" "bytes = cbor_enc v" by blast
    then have "bytes \<noteq> []" by simp
    moreover from this have "cl_max_body_len limits \<noteq> 0" using \<open>?r\<close> by (cases "length bytes") auto
    ultimately show ?l using complete [OF v] \<open>?r\<close> by (auto simp: validate_canonical_def validate_item_def)
  qed
qed

lemma write_chunks_iff:
  assumes "lw_position w \<le> length (lw_bytes w)"
  shows "write_chunks w cs = Some w' \<Longrightarrow> into_bytes w' = into_bytes w @ concat cs"
    and "(\<exists>w'. write_chunks w cs = Some w') \<longleftrightarrow> lw_position w + length (concat cs) \<le> length (lw_bytes w)"
proof -
  have step: "into_bytes w' = into_bytes w @ c \<and> lw_position w' = lw_position w + length c \<and> length (lw_bytes w') = length (lw_bytes w)"
    if "write_all w c = Some w'" "lw_position w \<le> length (lw_bytes w)" for w w' c
    using that by (auto simp: write_all_def into_bytes_def Let_def split: if_split_asm)
  have fail: "write_all w c = None \<longleftrightarrow> lw_position w + length c > length (lw_bytes w)" for w c
    by (auto simp: write_all_def Let_def)
  show "write_chunks w cs = Some w' \<Longrightarrow> into_bytes w' = into_bytes w @ concat cs"
    using assms
  proof (induction cs arbitrary: w)
    case (Cons c cs)
    then obtain w1 where w1: "write_all w c = Some w1" "write_chunks w1 cs = Some w'" by (auto split: option.split_asm)
    have "lw_position w1 \<le> length (lw_bytes w1)" using step [OF w1(1) Cons.prems(2)] fail [of w c] w1(1) by auto
    with Cons.IH [OF w1(2)] step [OF w1(1) Cons.prems(2)] show ?case by simp
  qed simp
  show "(\<exists>w'. write_chunks w cs = Some w') \<longleftrightarrow> lw_position w + length (concat cs) \<le> length (lw_bytes w)"
    using assms
  proof (induction cs arbitrary: w)
    case (Cons c cs)
    show ?case
    proof (cases "write_all w c")
      case None
      then show ?thesis using fail [of w c] by simp
    next
      case (Some w1)
      note st = step [OF Some Cons.prems]
      have "lw_position w1 \<le> length (lw_bytes w1)" using st fail [of w c] Some by auto
      from Cons.IH [OF this] st Some show ?thesis by (simp add: add.assoc)
    qed
  qed simp
qed

lemma encode_canonical_iff:
  assumes mc: "minicbor_ok utf8 mc"
  shows "encode_canonical mc raw limits v \<noteq> None"
    and "encode_canonical mc raw limits v = Some (Ok bytes) \<longleftrightarrow>
      bytes = concat (raw v) \<and> validate_canonical mc bytes limits = Some (Ok ())"
proof -
  let ?w = "limited_writer_new (cl_max_body_len limits)"
  have w: "lw_position ?w \<le> length (lw_bytes ?w)" "into_bytes ?w = []" by (simp_all add: limited_writer_new_def into_bytes_def)
  show "encode_canonical mc raw limits v \<noteq> None"
  proof (cases "write_chunks ?w (raw v)")
    case (Some w')
    obtain x where "validate_canonical mc (into_bytes w') limits = Some x" using validate_canonical_iff(1) [OF mc] by blast
    with Some show ?thesis by (cases x) (simp_all add: encode_canonical_def)
  qed (simp add: encode_canonical_def)
  have fits: "\<exists>w'. write_chunks ?w (raw v) = Some w'" if "validate_canonical mc (concat (raw v)) limits = Some (Ok ())"
    using that validate_canonical_iff(2) [OF mc] write_chunks_iff(2) [OF w(1), of "raw v"]
    by (simp add: limited_writer_new_def)
  show "encode_canonical mc raw limits v = Some (Ok bytes) \<longleftrightarrow>
      bytes = concat (raw v) \<and> validate_canonical mc bytes limits = Some (Ok ())"
    using write_chunks_iff(1) [OF w(1), of "raw v"] w(2) fits
    by (auto simp: encode_canonical_def split: option.split_asm option.split sum.split_asm sum.split)
qed

lemma decode_canonical_iff:
  assumes mc: "minicbor_ok utf8 mc"
  shows "decode_canonical mc dec limits bytes = Some (Ok v) \<longleftrightarrow>
    validate_canonical mc bytes limits = Some (Ok ()) \<and> dec bytes = Some (v, length bytes)"
  by (auto simp: decode_canonical_def and_then_Ok_iff split: option.split_asm sum.split_asm if_split_asm)

text \<open>C4: the canonical form check returns on every input and accepts exactly the shortest-form
  encodings of values inside the limits, with map keys in strictly ascending order of their
  encodings and nothing after the value.\<close>

theorem validate_canonical_exact:
  assumes "minicbor_ok utf8 mc"
  shows "\<exists>r. validate_canonical mc bytes limits = Some r \<and>
    (r = Ok () \<longleftrightarrow>
      cl_max_depth limits \<noteq> 0 \<and> cl_max_collection_items limits \<noteq> 0 \<and> length bytes \<le> cl_max_body_len limits \<and>
      (\<exists>v. cbor_ok utf8 limits 0 v \<and> bytes = cbor_enc v))"
  using validate_canonical_iff [OF assms, of bytes limits] by auto

text \<open>A decoder that meets the hypothesis.\<close>

definition sample_minicbor :: minicbor where
  "sample_minicbor =
     (let arg = (\<lambda>bytes p f. case canonical_argument bytes p of Inl _ \<Rightarrow> None | Inr (n, l) \<Rightarrow> f n l) in
      \<lparr>mc_datatype = (\<lambda>bytes p.
         if p \<ge> length bytes then None
         else let m = unat (bytes ! p) div 32 in
           if m \<le> 1 then Some TU64 else if m = 2 then Some TBytes else if m = 3 then Some TString
           else if m = 4 then Some TArray else if m = 5 then Some TMap
           else if bytes ! p = 244 \<or> bytes ! p = 245 then Some TBool
           else if bytes ! p = 246 then Some TNull else Some TUndefined),
       mc_skip = (\<lambda>bytes p. arg bytes p (\<lambda>n l. Some (p + l))),
       mc_bytes = (\<lambda>bytes p. arg bytes p (\<lambda>n l. if p + l + n \<le> length bytes then Some (p + l + n) else None)),
       mc_str = (\<lambda>bytes p. arg bytes p (\<lambda>n l. if p + l + n \<le> length bytes then Some (p + l + n) else None)),
       mc_array = (\<lambda>bytes p. case canonical_argument bytes p of Inl _ \<Rightarrow> None | Inr (n, l) \<Rightarrow> Some (Some n, p + l)),
       mc_map = (\<lambda>bytes p. case canonical_argument bytes p of Inl _ \<Rightarrow> None | Inr (n, l) \<Rightarrow> Some (Some n, p + l)),
       mc_bool = (\<lambda>bytes p. Some (p + 1)), mc_null = (\<lambda>bytes p. Some (p + 1))\<rparr>)"

lemma sample_minicbor_ok: "minicbor_ok (\<lambda>_. True) sample_minicbor"
proof -
  have head: "unat (bytes ! p) div 32 = m \<and> p < length bytes \<and> length bytes = p + length (cbor_head m n) + length rest"
    if d: "drop p bytes = cbor_head m n @ rest" "m < 8" for bytes p m n rest
  proof -
    have p: "p < length bytes" using d(1) by (metis cbor_head_nonempty drop_eq_Nil2 append_is_Nil_conv not_less)
    have "bytes ! p = hd (cbor_head m n)" using d(1) p by (metis cbor_head_nonempty hd_append2 hd_drop_conv_nth)
    moreover have "unat (hd (cbor_head m n)) div 32 = m" using d(2) by (auto simp: cbor_head_def unat_initial_byte)
    moreover have "length bytes - p = length (cbor_head m n) + length rest" using arg_cong [OF d(1), of length] by simp
    ultimately show ?thesis using p by simp
  qed
  have types: "p < length bytes \<and> type_byte t (bytes ! p)" if "mc_datatype sample_minicbor bytes p = Some t" for bytes p t
    using that by (auto simp: sample_minicbor_def type_byte_def integer_type_def Let_def split: if_split_asm)
  have simple: "unat (bytes ! p) div 32 = 7" if "bytes ! p = 244 \<or> bytes ! p = 245 \<or> bytes ! p = 246" for bytes :: "byte list" and p
    using that by auto
  show ?thesis unfolding minicbor_ok_def
  proof (intro conjI)
    show "\<forall>bytes p t. mc_datatype sample_minicbor bytes p = Some t \<longrightarrow> p < length bytes \<and> type_byte t (bytes ! p)"
      using types by blast
    show "\<forall>bytes p. p < length bytes \<longrightarrow>
        (bytes ! p = 244 \<or> bytes ! p = 245 \<longrightarrow>
           mc_datatype sample_minicbor bytes p = Some TBool \<and> mc_bool sample_minicbor bytes p = Some (p + 1)) \<and>
        (bytes ! p = 246 \<longrightarrow> mc_datatype sample_minicbor bytes p = Some TNull \<and> mc_null sample_minicbor bytes p = Some (p + 1))"
      by (auto simp: sample_minicbor_def Let_def)
  next
    have int: "integer_type TU64" by (simp add: integer_type_def)
    show "\<forall>bytes p m n rest. drop p bytes = cbor_head m n @ rest \<longrightarrow> n < 2 ^ 64 \<longrightarrow>
        (m \<le> 1 \<longrightarrow> (\<exists>t. mc_datatype sample_minicbor bytes p = Some t \<and> integer_type t) \<and>
           mc_skip sample_minicbor bytes p = Some (p + length (cbor_head m n))) \<and>
        (m = 2 \<longrightarrow> mc_datatype sample_minicbor bytes p = Some TBytes \<and>
           mc_bytes sample_minicbor bytes p = (if n \<le> length rest then Some (p + length (cbor_head m n) + n) else None)) \<and>
        (m = 3 \<longrightarrow> mc_datatype sample_minicbor bytes p = Some TString \<and>
           mc_str sample_minicbor bytes p =
             (if n \<le> length rest \<and> True then Some (p + length (cbor_head m n) + n) else None)) \<and>
        (m = 4 \<longrightarrow> mc_datatype sample_minicbor bytes p = Some TArray \<and>
           mc_array sample_minicbor bytes p = Some (Some n, p + length (cbor_head m n))) \<and>
        (m = 5 \<longrightarrow> mc_datatype sample_minicbor bytes p = Some TMap \<and>
           mc_map sample_minicbor bytes p = Some (Some n, p + length (cbor_head m n)))"
    proof (intro allI impI)
      fix bytes p m n rest
      assume d: "drop p bytes = cbor_head m n @ rest" "n < 2 ^ 64"
      note a = argument_of_head [OF d(1) _ d(2)] and h = head [OF d(1)]
      show "(m \<le> 1 \<longrightarrow> (\<exists>t. mc_datatype sample_minicbor bytes p = Some t \<and> integer_type t) \<and>
           mc_skip sample_minicbor bytes p = Some (p + length (cbor_head m n))) \<and>
        (m = 2 \<longrightarrow> mc_datatype sample_minicbor bytes p = Some TBytes \<and>
           mc_bytes sample_minicbor bytes p = (if n \<le> length rest then Some (p + length (cbor_head m n) + n) else None)) \<and>
        (m = 3 \<longrightarrow> mc_datatype sample_minicbor bytes p = Some TString \<and>
           mc_str sample_minicbor bytes p =
             (if n \<le> length rest \<and> True then Some (p + length (cbor_head m n) + n) else None)) \<and>
        (m = 4 \<longrightarrow> mc_datatype sample_minicbor bytes p = Some TArray \<and>
           mc_array sample_minicbor bytes p = Some (Some n, p + length (cbor_head m n))) \<and>
        (m = 5 \<longrightarrow> mc_datatype sample_minicbor bytes p = Some TMap \<and>
           mc_map sample_minicbor bytes p = Some (Some n, p + length (cbor_head m n)))"
        using a h int by (intro conjI impI) (simp_all add: sample_minicbor_def Let_def)
    qed
  qed
qed

theorem validate_canonical_exact_witness:
  "validate_canonical sample_minicbor [0xA1, 0x61, 0x61, 0x82, 0x01, 0xF5] CONTROL_CBOR_LIMITS = Some (Ok ())"
proof -
  let ?v = "CMap [(CText [0x61], CArray [CUint 1, CBool True])]"
  have "cbor_enc ?v = [0xA1, 0x61, 0x61, 0x82, 0x01, 0xF5]" by (simp add: cbor_head_def initial_byte_def)
  moreover have "cbor_ok (\<lambda>_. True) CONTROL_CBOR_LIMITS 0 ?v"
    by (simp add: CONTROL_CBOR_LIMITS_def CborLimits_def ADR0002_BODY_BYTES_def)
  ultimately have v: "\<exists>v. cbor_ok (\<lambda>_. True) CONTROL_CBOR_LIMITS 0 v \<and> [0xA1, 0x61, 0x61, 0x82, 0x01, 0xF5] = cbor_enc v"
    by (intro exI [of _ ?v]) (simp only: simp_thms)
  have l: "cl_max_depth CONTROL_CBOR_LIMITS \<noteq> 0" "cl_max_collection_items CONTROL_CBOR_LIMITS \<noteq> 0"
    "length [0xA1 :: byte, 0x61, 0x61, 0x82, 0x01, 0xF5] \<le> cl_max_body_len CONTROL_CBOR_LIMITS"
    by (simp_all add: CONTROL_CBOR_LIMITS_def CborLimits_def ADR0002_BODY_BYTES_def)
  from validate_canonical_exact [OF sample_minicbor_ok, of "[0xA1, 0x61, 0x61, 0x82, 0x01, 0xF5]" CONTROL_CBOR_LIMITS]
  show ?thesis using v l by (simp only: simp_thms not_False_eq_True) blast
qed

lemma strict_or_exact:
  assumes "minicbor_ok utf8 mc" and "\<forall>v. dec (concat (raw v)) = Some (v, length (concat (raw v)))"
  shows "\<exists>r. decode_canonical_strict_or mc raw dec limits bytes = Some r \<and>
    (\<forall>v. r = Ok v \<longleftrightarrow> encode_canonical mc raw limits v = Some (Ok bytes))"
proof -
  have d: "decode_canonical mc dec limits bytes \<noteq> None"
  proof -
    obtain x where "validate_canonical mc bytes limits = Some x" using validate_canonical_iff(1) [OF assms(1)] by blast
    then show ?thesis by (cases x) (simp_all add: decode_canonical_def)
  qed
  then obtain r where r: "decode_canonical_strict_or mc raw dec limits bytes = Some r"
  proof -
    obtain x where x: "decode_canonical mc dec limits bytes = Some x" using d by blast
    show thesis
    proof (cases x)
      case (Inr v)
      obtain y where "encode_canonical mc raw limits v = Some y" using encode_canonical_iff(1) [OF assms(1), of raw limits v] by (metis not_None_eq)
      with x Inr that show thesis by (cases y) (simp_all add: decode_canonical_strict_or_def)
    qed (use x that in \<open>simp add: decode_canonical_strict_or_def\<close>)
  qed
  have "r = Ok v \<longleftrightarrow> encode_canonical mc raw limits v = Some (Ok bytes)" for v
  proof
    assume "r = Ok v"
    then show "encode_canonical mc raw limits v = Some (Ok bytes)"
      using r by (auto simp: decode_canonical_strict_or_def split: option.split_asm sum.split_asm if_split_asm)
  next
    assume e: "encode_canonical mc raw limits v = Some (Ok bytes)"
    then have "decode_canonical mc dec limits bytes = Some (Ok v)"
      using assms(2) by (auto simp: encode_canonical_iff [OF assms(1)] decode_canonical_iff [OF assms(1)])
    with e r show "r = Ok v" by (simp add: decode_canonical_strict_or_def)
  qed
  then show ?thesis using r by blast
qed

lemma canonical_codec_ok:
  assumes "minicbor_ok utf8 mc" and "\<forall>v. dec (concat (raw v)) = Some (v, length (concat (raw v)))"
  shows "wire_codec_ok (canonical_codec mc raw dec limits)"
  unfolding wire_codec_ok_def
proof (intro allI)
  fix v bytes
  obtain e where e: "encode_canonical mc raw limits v = Some e"
    using encode_canonical_iff(1) [OF assms(1), of raw limits v] by (metis not_None_eq)
  from strict_or_exact [OF assms, of limits bytes] e
  show "wc_decode (canonical_codec mc raw dec limits) bytes = Ok v \<longleftrightarrow>
      wc_encode (canonical_codec mc raw dec limits) v = Ok bytes"
    by (auto simp: canonical_codec_def)
qed

text \<open>C17: strict decoding inverts encoding exactly: it returns on every input, and yields a value
  exactly for the bytes encoding that value produces, so every accepted message has one form.
  The crate's derived decoder is assumed to read back what its encoder wrote.\<close>

theorem decode_canonical_strict_exact:
  assumes "minicbor_ok utf8 mc" and "\<forall>v. dec (concat (raw v)) = Some (v, length (concat (raw v)))"
  shows "\<exists>r. decode_canonical_strict mc raw dec limits ctx bytes = Some r \<and>
    (\<forall>v. r = Ok v \<longleftrightarrow> encode_canonical mc raw limits v = Some (Ok bytes))"
  using strict_or_exact [OF assms, of limits bytes] by (auto simp: decode_canonical_strict_def)

theorem decode_canonical_strict_exact_witness:
  "\<exists>r. decode_canonical_strict sample_minicbor (\<lambda>b :: bool. [[if b then 245 else 244]])
      (\<lambda>bytes. Some (bytes = [245], 1)) CONTROL_CBOR_LIMITS ''flag'' [245] = Some r \<and> r = Ok True"
proof -
  let ?raw = "\<lambda>b :: bool. [[if b then 245 else 244 :: byte]]" and ?dec = "\<lambda>bytes :: byte list. Some (bytes = [245], 1 :: nat)"
  have law: "\<forall>v. ?dec (concat (?raw v)) = Some (v, length (concat (?raw v)))" by simp
  have "validate_canonical sample_minicbor [245] CONTROL_CBOR_LIMITS = Some (Ok ())"
    unfolding validate_canonical_iff(2) [OF sample_minicbor_ok]
    by (auto simp: CONTROL_CBOR_LIMITS_def CborLimits_def ADR0002_BODY_BYTES_def intro: exI [of _ "CBool True"])
  then have "encode_canonical sample_minicbor ?raw CONTROL_CBOR_LIMITS True = Some (Ok [245])"
    by (simp add: encode_canonical_iff [OF sample_minicbor_ok])
  with decode_canonical_strict_exact [OF sample_minicbor_ok law, of CONTROL_CBOR_LIMITS "''flag''" "[245]"]
  show ?thesis by auto
qed

end
