(* ===== verification/Feature_Offer.thy ===== *)
theory Feature_Offer
  imports Feature_Registry Canonical_Cbor "HOL-Library.Multiset"
begin

text \<open>
  Canonical feature offers (\<^verbatim>\<open>src/src/protocol/offer.rs\<close>): construction, wire form, decoding
  with its ordering and capacity checks, validation of the mandatory limits against the local
  registry, and the offer a node makes from its registry. The canonical CBOR encoder and
  the strict decoder of the wire record are parameters, instantiated with those of
  \<open>Canonical_Cbor\<close> where a property follows a message through both.
\<close>

definition MAX_SUPPORTED_LABELS :: nat where "MAX_SUPPORTED_LABELS = 128"
definition MAX_REQUIRED_LABELS :: nat where "MAX_REQUIRED_LABELS = 128"
definition MAX_NEGOTIATED_LIMITS :: nat where "MAX_NEGOTIATED_LIMITS = 128"

fun ensure_unique_sorted :: "('a \<Rightarrow> ustr) \<Rightarrow> string \<Rightarrow> 'a list \<Rightarrow> unit result" where
  "ensure_unique_sorted key ctx (a # b # rest) =
     (if key a = key b then Err (invalid_input ctx) else ensure_unique_sorted key ctx (b # rest))"
| "ensure_unique_sorted key ctx _ = Ok ()"

text \<open>\<open>previous >= Some(current)\<close> with the derived order on options: nothing precedes
  everything.\<close>

definition not_before :: "ustr option \<Rightarrow> ustr \<Rightarrow> bool" where
  "not_before previous current = (case previous of None \<Rightarrow> False | Some p \<Rightarrow> p \<ge> current)"

primrec map_ordered_loop ::
  "('e \<Rightarrow> ustr) \<Rightarrow> string \<Rightarrow> ('e \<Rightarrow> 'a result) \<Rightarrow> 'e list \<Rightarrow> ustr option \<Rightarrow> 'a list \<Rightarrow> 'a list result" where
  "map_ordered_loop key ctx f [] previous out = Ok out"
| "map_ordered_loop key ctx f (entry # entries) previous out =
     (if not_before previous (key entry) then Err (invalid_input ctx)
      else and_then (f entry) (\<lambda>x.
        map_ordered_loop key ctx f entries (Some (key entry)) (out @ [x])))"

definition map_ordered ::
  "('e \<Rightarrow> ustr) \<Rightarrow> string \<Rightarrow> ('e \<Rightarrow> 'a result) \<Rightarrow> 'e list \<Rightarrow> 'a list result" where
  "map_ordered key ctx f entries = map_ordered_loop key ctx f entries None []"

record feature_offer =
  fo_supported :: "(qualified_tag \<times> digest) list"
  fo_required :: "qualified_tag list"
  fo_limits :: "(qualified_tag \<times> u64) list"

definition check_capacity :: "nat \<Rightarrow> nat \<Rightarrow> nat \<Rightarrow> unit result" where
  "check_capacity supported required limits =
     (if supported > MAX_SUPPORTED_LABELS then Err (invalid_input ''feature offer supported capacity'')
      else if required > MAX_REQUIRED_LABELS then Err (invalid_input ''feature offer required capacity'')
      else if limits > MAX_NEGOTIATED_LIMITS then Err (invalid_input ''feature offer limits capacity'')
      else Ok ())"

definition check_required :: "(qualified_tag \<times> digest) list \<Rightarrow> qualified_tag \<Rightarrow> unit result" where
  "check_required supported tag =
     (if \<not> list_ex (\<lambda>(candidate, _). candidate = tag) supported
      then Err (invalid_input ''feature offer required unsupported'') else Ok ())"

definition offer_new ::
  "(qualified_tag \<times> digest) list \<Rightarrow> qualified_tag list \<Rightarrow> (qualified_tag \<times> u64) list \<Rightarrow> feature_offer result" where
  "offer_new supported0 required0 limits0 =
     and_then (check_capacity (length supported0) (length required0) (length limits0)) (\<lambda>_.
       let supported = sort_key (tag_value \<circ> fst) supported0;
           required = sort_key tag_value required0;
           limits = sort_key (tag_value \<circ> fst) limits0
       in and_then (ensure_unique_sorted (tag_value \<circ> fst) ''feature offer supported duplicate'' supported) (\<lambda>_.
          and_then (ensure_unique_sorted tag_value ''feature offer required duplicate'' required) (\<lambda>_.
          and_then (ensure_unique_sorted (tag_value \<circ> fst) ''feature offer limits duplicate'' limits) (\<lambda>_.
          and_then (for_each (\<lambda>(tag, _).
            if tag_category tag \<noteq> CATEGORY_LIMITS
            then Err (invalid_input ''feature offer limit category'') else Ok ()) limits) (\<lambda>_.
          and_then (for_each (check_required supported) required) (\<lambda>_.
            Ok \<lparr>fo_supported = supported, fo_required = required, fo_limits = limits\<rparr>))))))"

definition supported_digest :: "feature_offer \<Rightarrow> qualified_tag \<Rightarrow> digest option" where
  "supported_digest o' tag = map_option snd (find (\<lambda>(candidate, _). candidate = tag) (fo_supported o'))"

definition limit_value :: "feature_offer \<Rightarrow> qualified_tag \<Rightarrow> u64 option" where
  "limit_value o' tag = map_option snd (find (\<lambda>(candidate, _). candidate = tag) (fo_limits o'))"

definition expected_limits :: "feature_registry \<Rightarrow> feature_offer \<Rightarrow> (qualified_tag, limit_definition) btree" where
  "expected_limits registry o' =
     fold (\<lambda>(tag, _) expected.
       case registry_get registry tag of
         None \<Rightarrow> expected
       | Some d \<Rightarrow> fold (\<lambda>l expected.
           if ld_mandatory l then bt_insert (ld_tag l) l expected else expected) (fd_limits d) expected)
       (fo_supported o') []"

definition validate_limits :: "feature_registry \<Rightarrow> feature_offer \<Rightarrow> unit result" where
  "validate_limits registry o' =
     (let expected = expected_limits registry o'
      in if length (fo_limits o') \<noteq> length expected
         then Err (invalid_input ''feature offer mandatory limits'')
         else for_each (\<lambda>(tag, value).
           case bt_get expected tag of
             None \<Rightarrow> Err (invalid_input ''feature offer unknown limit'')
           | Some d \<Rightarrow> if \<not> limit_contains d value
               then Err (invalid_input ''feature offer limit range'') else Ok ()) (fo_limits o'))"

section \<open>Wire form\<close>

record supported_entry =
  se_label :: ustr
  se_digest :: "byte list"

record limit_entry =
  le_tag :: ustr
  le_value :: u64

record offer_wire_record =
  ow_supported :: "supported_entry list"
  ow_required :: "ustr list"
  ow_limits :: "limit_entry list"

definition offer_wire :: "feature_offer \<Rightarrow> offer_wire_record" where
  "offer_wire o' =
     \<lparr>ow_supported = map (\<lambda>(tag, h). \<lparr>se_label = tag_value tag, se_digest = h\<rparr>) (fo_supported o'),
      ow_required = map tag_value (fo_required o'),
      ow_limits = map (\<lambda>(tag, v). \<lparr>le_tag = tag_value tag, le_value = v\<rparr>) (fo_limits o')\<rparr>"

text \<open>The array form the derived encoder writes.\<close>

definition offer_item :: "offer_wire_record \<Rightarrow> cbor" where
  "offer_item w = CArray
     [CArray (map (\<lambda>e. CArray [CText (as_bytes (se_label e)), CBytes (se_digest e)]) (ow_supported w)),
      CArray (map (\<lambda>label. CText (as_bytes label)) (ow_required w)),
      CArray (map (\<lambda>e. CArray [CText (as_bytes (le_tag e)), CUint (unat (le_value e))]) (ow_limits w))]"

definition supported_from_wire :: "(ustr \<Rightarrow> bool) \<Rightarrow> supported_entry \<Rightarrow> (qualified_tag \<times> digest) result" where
  "supported_from_wire dns entry =
     (if length (se_digest entry) \<noteq> 32 then Err (invalid_input ''feature offer digest'')
      else and_then (feature_tag_parse dns (se_label entry)) (\<lambda>tag. Ok (tag, se_digest entry)))"

definition limit_from_wire :: "(ustr \<Rightarrow> bool) \<Rightarrow> limit_entry \<Rightarrow> (qualified_tag \<times> u64) result" where
  "limit_from_wire dns entry =
     and_then (tag_parse dns (le_tag entry)) (\<lambda>tag.
       if tag_category tag \<noteq> CATEGORY_LIMITS then Err (invalid_input ''feature offer limit category'')
       else Ok (tag, le_value entry))"

definition offer_from_wire :: "(ustr \<Rightarrow> bool) \<Rightarrow> offer_wire_record \<Rightarrow> feature_offer result" where
  "offer_from_wire dns w =
     and_then (check_capacity (length (ow_supported w)) (length (ow_required w)) (length (ow_limits w))) (\<lambda>_.
     and_then (map_ordered se_label ''feature offer supported ordering'' (supported_from_wire dns) (ow_supported w)) (\<lambda>supported.
     and_then (map_ordered (\<lambda>label. label) ''feature offer required ordering'' (feature_tag_parse dns) (ow_required w)) (\<lambda>required.
     and_then (map_ordered le_tag ''feature offer limits ordering'' (limit_from_wire dns) (ow_limits w)) (\<lambda>limits.
     and_then (for_each (check_required supported) required) (\<lambda>_.
       Ok \<lparr>fo_supported = supported, fo_required = required, fo_limits = limits\<rparr>)))))"

definition offer_encode :: "(offer_wire_record \<Rightarrow> byte list result) \<Rightarrow> feature_offer \<Rightarrow> byte list result" where
  "offer_encode enc o' = enc (offer_wire o')"

definition offer_decode ::
  "(ustr \<Rightarrow> bool) \<Rightarrow> (byte list \<Rightarrow> offer_wire_record result) \<Rightarrow> feature_registry \<Rightarrow> byte list \<Rightarrow> feature_offer result" where
  "offer_decode dns dec registry bytes =
     and_then (dec bytes) (\<lambda>w.
     and_then (offer_from_wire dns w) (\<lambda>o'.
     and_then (validate_limits registry o') (\<lambda>_. Ok o')))"

section \<open>The offer of a node\<close>

primrec offer_entries ::
  "digest_provider \<Rightarrow> (qualified_tag \<times> feature_definition) list \<Rightarrow> (qualified_tag \<times> digest) list \<Rightarrow>
   (qualified_tag \<times> u64) list \<Rightarrow> ((qualified_tag \<times> digest) list \<times> (qualified_tag \<times> u64) list) result" where
  "offer_entries dp [] supported limits = Ok (supported, limits)"
| "offer_entries dp (e # es) supported limits =
     and_then (definition_digest dp (snd e)) (\<lambda>h.
       offer_entries dp es (supported @ [(fst e, h)])
         (limits @ map (\<lambda>l. (ld_tag l, limit_default l)) (filter ld_mandatory (fd_limits (snd e)))))"

definition node_offer ::
  "(ustr \<Rightarrow> bool) \<Rightarrow> digest_provider \<Rightarrow> feature_registry \<Rightarrow> qualified_tag list \<Rightarrow> feature_offer result" where
  "node_offer dns dp registry caller_required =
     and_then (offer_entries dp (registry_iter registry) [] []) (\<lambda>(supported, limits).
     and_then (required_session_features dns) (\<lambda>session.
       let required = fold bs_insert session (bs_of_list caller_required)
       in and_then (for_each (\<lambda>tag.
            if \<not> list_ex (\<lambda>(candidate, _). candidate = tag) supported
            then Err (invalid_input ''required feature'') else Ok ()) required) (\<lambda>_.
          offer_new supported required limits)))"

section \<open>Canonical offers\<close>

lemma find_key: "map_option snd (find (\<lambda>(candidate, _). candidate = t) xs) = map_of xs t"
  by (induction xs) auto

lemma supported_digest_eq: "supported_digest o' t = map_of (fo_supported o') t"
  by (simp add: supported_digest_def find_key)

lemma limit_value_eq: "limit_value o' t = map_of (fo_limits o') t"
  by (simp add: limit_value_def find_key)

lemma list_ex_key [simp]: "list_ex (\<lambda>(candidate, _). candidate = t) xs \<longleftrightarrow> t \<in> fst ` set xs"
  by (induction xs) auto

lemma ensure_unique_sorted_Ok:
  "sorted (map key xs) \<Longrightarrow> ensure_unique_sorted key ctx xs = Ok () \<longleftrightarrow> sorted_wrt (<) (map key xs)"
  by (induction key ctx xs rule: ensure_unique_sorted.induct) auto

lemma map_ordered_loop_Ok:
  "map_ordered_loop key ctx f es previous out = Ok xs \<longleftrightarrow>
   sorted_wrt (<) (map key es) \<and> (\<forall>e\<in>set es. \<not> not_before previous (key e)) \<and>
   (\<exists>ys. xs = out @ ys \<and> list_all2 (\<lambda>e y. f e = Ok y) es ys)"
proof (induction es arbitrary: previous out)
  case (Cons e es)
  have nb: "\<not> not_before (Some (key e)) k \<longleftrightarrow> key e < k" for k by (auto simp: not_before_def)
  have tr: "\<not> not_before previous (key e) \<Longrightarrow> key e < k \<Longrightarrow> \<not> not_before previous k" for k
    by (auto simp: not_before_def split: option.splits)
  show ?case
    by (auto simp: and_then_Ok_iff Cons.IH nb list_all2_Cons1) (use tr in blast)
qed auto

lemma map_ordered_Ok:
  "map_ordered key ctx f es = Ok xs \<longleftrightarrow>
   sorted_wrt (<) (map key es) \<and> list_all2 (\<lambda>e y. f e = Ok y) es xs"
  by (simp add: map_ordered_def map_ordered_loop_Ok not_before_def)

text \<open>The invariant of an offer: every collection strictly sorted by label text and within
  its capacity, only limit tags as limits, and every required label supported.\<close>

definition offer_ok :: "feature_offer \<Rightarrow> bool" where
  "offer_ok o' \<longleftrightarrow>
     sorted_wrt (<) (map (tag_value \<circ> fst) (fo_supported o')) \<and>
     sorted_wrt (<) (map tag_value (fo_required o')) \<and>
     sorted_wrt (<) (map (tag_value \<circ> fst) (fo_limits o')) \<and>
     length (fo_supported o') \<le> MAX_SUPPORTED_LABELS \<and> length (fo_required o') \<le> MAX_REQUIRED_LABELS \<and>
     length (fo_limits o') \<le> MAX_NEGOTIATED_LIMITS \<and>
     (\<forall>e\<in>set (fo_limits o'). tag_category (fst e) = CATEGORY_LIMITS) \<and>
     set (fo_required o') \<subseteq> fst ` set (fo_supported o')"

lemma check_capacity_Ok:
  "check_capacity a b c = Ok u \<longleftrightarrow>
   a \<le> MAX_SUPPORTED_LABELS \<and> b \<le> MAX_REQUIRED_LABELS \<and> c \<le> MAX_NEGOTIATED_LIMITS"
  by (auto simp: check_capacity_def)

lemma check_required_Ok: "check_required s t = Ok u \<longleftrightarrow> t \<in> fst ` set s"
  by (simp add: check_required_def)

lemma sorted_sort_key_comp: "sorted (map key (sort_key key xs))"
  by (rule sorted_sort_key)

lemma offer_new_Ok:
  "offer_new s r l = Ok o' \<longleftrightarrow>
   o' = \<lparr>fo_supported = sort_key (tag_value \<circ> fst) s, fo_required = sort_key tag_value r,
         fo_limits = sort_key (tag_value \<circ> fst) l\<rparr> \<and> offer_ok o'"
  by (auto simp: offer_new_def Let_def and_then_Ok_iff check_capacity_Ok for_each_Ok check_required_Ok
      ensure_unique_sorted_Ok offer_ok_def split_beta)

text \<open>A label is parsed when it is the result of parsing some text; only such labels occur in
  offers, since the label types have no other constructor.\<close>

definition parsed_feature :: "(ustr \<Rightarrow> bool) \<Rightarrow> qualified_tag \<Rightarrow> bool" where
  "parsed_feature dns t \<longleftrightarrow> (\<exists>s. feature_tag_parse dns s = Ok t)"

definition parsed_tag :: "(ustr \<Rightarrow> bool) \<Rightarrow> qualified_tag \<Rightarrow> bool" where
  "parsed_tag dns t \<longleftrightarrow> (\<exists>s. tag_parse dns s = Ok t)"

lemma feature_reparse:
  assumes "parsed_feature dns t" "\<And>h. dns (to_ascii_lowercase h) = dns h"
  shows "feature_tag_parse dns (tag_value t) = Ok t"
proof -
  obtain s where s: "tag_parse dns s = Ok t" "tag_category t = lit ''features''"
    using assms(1) by (auto simp: parsed_feature_def feature_tag_parse_def category_parse_def and_then_Ok_iff
        split: if_split_asm)
  have "\<not> reserved_tag t" by (simp add: reserved_tag_def s(2) CATEGORY_CRYPTO_def)
  with tag_reparse [OF s(1) assms(2)] s(2) show ?thesis
    by (simp add: feature_tag_parse_def category_parse_def)
qed

lemma limit_reparse:
  assumes "parsed_tag dns t" "tag_category t = CATEGORY_LIMITS" "\<And>h. dns (to_ascii_lowercase h) = dns h"
  shows "tag_parse dns (tag_value t) = Ok t"
  using assms tag_reparse [of dns _ t]
  by (auto simp: parsed_tag_def reserved_tag_def CATEGORY_CRYPTO_def CATEGORY_LIMITS_def)

text \<open>The tags and digests of an offer are values of their types.\<close>

definition offer_typed :: "(ustr \<Rightarrow> bool) \<Rightarrow> feature_offer \<Rightarrow> bool" where
  "offer_typed dns o' \<longleftrightarrow>
     (\<forall>e\<in>set (fo_supported o'). parsed_feature dns (fst e) \<and> length (snd e) = 32) \<and>
     (\<forall>t\<in>set (fo_required o'). parsed_feature dns t) \<and>
     (\<forall>e\<in>set (fo_limits o'). parsed_tag dns (fst e))"

lemma offer_from_wire_roundtrip:
  assumes "offer_ok o'" "offer_typed dns o'" "\<And>h. dns (to_ascii_lowercase h) = dns h"
  shows "offer_from_wire dns (offer_wire o') = Ok o'"
proof -
  have s: "map_ordered se_label ctx (supported_from_wire dns) (ow_supported (offer_wire o')) = Ok (fo_supported o')" for ctx
    using assms feature_reparse [of dns]
    by (auto simp: map_ordered_Ok offer_wire_def offer_ok_def offer_typed_def comp_def split_beta
        list_all2_map1 supported_from_wire_def list.rel_refl_strong intro!: list.rel_refl_strong)
  have r: "map_ordered (\<lambda>label. label) ctx (feature_tag_parse dns) (ow_required (offer_wire o')) = Ok (fo_required o')" for ctx
    using assms feature_reparse [of dns]
    by (auto simp: map_ordered_Ok offer_wire_def offer_ok_def offer_typed_def comp_def
        list_all2_map1 intro!: list.rel_refl_strong)
  have lim: "limit_from_wire dns \<lparr>le_tag = tag_value (fst e), le_value = snd e\<rparr> = Ok e"
    if "e \<in> set (fo_limits o')" for e
    using limit_reparse [of dns "fst e"] assms that by (simp add: limit_from_wire_def offer_ok_def offer_typed_def)
  have l: "map_ordered le_tag ctx (limit_from_wire dns) (ow_limits (offer_wire o')) = Ok (fo_limits o')" for ctx
    using assms(1) lim by (auto simp: map_ordered_Ok offer_wire_def offer_ok_def comp_def split_beta
        list_all2_map1 intro!: list.rel_refl_strong)
  have c: "check_capacity (length (ow_supported (offer_wire o'))) (length (ow_required (offer_wire o')))
      (length (ow_limits (offer_wire o'))) = Ok ()"
    using assms(1) by (simp add: check_capacity_Ok offer_ok_def offer_wire_def)
  have q: "for_each (check_required (fo_supported o')) (fo_required o') = Ok ()"
    using assms(1) by (auto simp: for_each_Ok check_required_Ok offer_ok_def)
  show ?thesis by (simp add: offer_from_wire_def s r l c q)
qed

section \<open>What a node offers\<close>

definition mandatory_limits :: "feature_registry \<Rightarrow> qualified_tag \<Rightarrow> limit_definition list" where
  "mandatory_limits registry t =
     (case registry_get registry t of None \<Rightarrow> [] | Some d \<Rightarrow> filter ld_mandatory (fd_limits d))"

lemma expected_limits_eq:
  "expected_limits registry o' =
   fold (\<lambda>(k, v). bt_insert k v)
     (map (\<lambda>l. (ld_tag l, l)) (concat (map (mandatory_limits registry \<circ> fst) (fo_supported o')))) []"
proof -
  have inner: "fold (\<lambda>l m. if ld_mandatory l then bt_insert (ld_tag l) l m else m) ls m =
      fold (\<lambda>(k, v). bt_insert k v) (map (\<lambda>l. (ld_tag l, l)) (filter ld_mandatory ls)) m" for ls m
    by (induction ls arbitrary: m) auto
  have "fold (\<lambda>(tag, _) expected. case registry_get registry tag of None \<Rightarrow> expected
       | Some d \<Rightarrow> fold (\<lambda>l expected.
           if ld_mandatory l then bt_insert (ld_tag l) l expected else expected) (fd_limits d) expected) es m =
    fold (\<lambda>(k, v). bt_insert k v)
     (map (\<lambda>l. (ld_tag l, l)) (concat (map (mandatory_limits registry \<circ> fst) es))) m" for es m
    by (induction es arbitrary: m) (auto simp: inner mandatory_limits_def split: option.split)
  then show ?thesis by (simp add: expected_limits_def)
qed

definition digest_entry :: "digest_provider \<Rightarrow> qualified_tag \<times> feature_definition \<Rightarrow> qualified_tag \<times> digest \<Rightarrow> bool" where
  "digest_entry dp e p \<longleftrightarrow> fst p = fst e \<and> definition_digest dp (snd e) = Ok (snd p)"

lemma offer_entries_Ok:
  "offer_entries dp es s l = Ok (s', l') \<longleftrightarrow>
   (\<exists>ps. list_all2 (digest_entry dp) es ps \<and> s' = s @ ps) \<and>
     l' = l @ map (\<lambda>l. (ld_tag l, limit_default l)) (concat (map (filter ld_mandatory \<circ> fd_limits \<circ> snd) es))"
proof (induction es arbitrary: s l)
  case (Cons e es)
  have "digest_entry dp e p \<longleftrightarrow> (\<exists>h. p = (fst e, h) \<and> definition_digest dp (snd e) = Ok h)" for p
    by (cases p) (auto simp: digest_entry_def)
  then show ?case by (auto simp: and_then_Ok_iff Cons.IH list_all2_Cons1)
qed auto

lemma distinct_concat_filter:
  "distinct (concat (map (map f \<circ> g) xs)) \<Longrightarrow> distinct (concat (map (map f \<circ> (filter P \<circ> g)) xs))"
proof (induction xs)
  case (Cons x xs)
  let ?A = "map f (g x)" and ?B = "concat (map (map f \<circ> g) xs)"
  let ?A' = "map f (filter P (g x))" and ?B' = "concat (map (map f \<circ> (filter P \<circ> g)) xs)"
  have d: "distinct ?A" "distinct ?B" "set ?A \<inter> set ?B = {}"
    using Cons.prems unfolding list.map concat.simps comp_apply distinct_append by blast+
  have "set ?A' \<subseteq> set ?A" "set ?B' \<subseteq> set ?B" by auto
  with d(3) have "set ?A' \<inter> set ?B' = {}" by blast
  with d Cons.IH show ?case
    unfolding list.map concat.simps comp_apply distinct_append by (simp only: distinct_map_filter)
qed simp

lemma registry_sorted_values:
  "bt_ok (m :: (qualified_tag, 'v) btree) \<Longrightarrow> sorted (map (tag_value \<circ> fst) m)"
proof (induction m)
  case (Cons e m)
  have "tag_value (fst e) \<le> tag_value (fst x)" if "x \<in> set m" for x
    using Cons.prems that by (cases e; cases x)
      (force simp: bt_ok_Cons less_qualified_tag_def tag_fields_def less_prod_def)
  with Cons show ?case by (cases e) (auto simp: bt_ok_Cons)
qed simp

lemma node_offer_Ok:
  assumes "node_offer dns dp r caller = Ok o'" "bt_ok (fr_definitions r)"
  shows "offer_ok o'" "list_all2 (digest_entry dp) (fr_definitions r) (fo_supported o')"
    "mset (fo_limits o') = mset (map (\<lambda>l. (ld_tag l, limit_default l))
       (concat (map (filter ld_mandatory \<circ> fd_limits \<circ> snd) (fr_definitions r))))"
    "\<exists>session. required_session_features dns = Ok session \<and> set (fo_required o') = set caller \<union> set session"
proof -
  from assms(1) obtain s l session where e: "offer_entries dp (fr_definitions r) [] [] = Ok (s, l)"
    and session: "required_session_features dns = Ok session"
    and new: "offer_new s (fold bs_insert session (bs_of_list caller)) l = Ok o'"
    by (auto simp: node_offer_def and_then_Ok_iff Let_def registry_iter_def)
  from e have s: "list_all2 (digest_entry dp) (fr_definitions r) s"
    and l: "l = map (\<lambda>l. (ld_tag l, limit_default l)) (concat (map (filter ld_mandatory \<circ> fd_limits \<circ> snd) (fr_definitions r)))"
    by (auto simp: offer_entries_Ok)
  note o = new [unfolded offer_new_Ok]
  show "offer_ok o'" using o by blast
  have "map (tag_value \<circ> fst) s = map (tag_value \<circ> fst) (fr_definitions r)"
    using s by (induction rule: list_all2_induct) (auto simp: digest_entry_def)
  then have "sort_key (tag_value \<circ> fst) s = s"
    using registry_sorted_values [OF assms(2)] by (simp add: sort_key_id_if_sorted)
  with o have "fo_supported o' = s" by simp
  with s show "list_all2 (digest_entry dp) (fr_definitions r) (fo_supported o')" by simp
  have "fo_limits o' = sort_key (tag_value \<circ> fst) l" using o by simp
  then show "mset (fo_limits o') = mset (map (\<lambda>l. (ld_tag l, limit_default l))
       (concat (map (filter ld_mandatory \<circ> fd_limits \<circ> snd) (fr_definitions r))))"
    unfolding l by simp
  have "set (fold bs_insert session (bs_of_list caller)) = set caller \<union> set session"
    using bs_of_list_aux [of "bs_of_list caller" session] by auto
  moreover have "fo_required o' = sort_key tag_value (fold bs_insert session (bs_of_list caller))"
    using o by simp
  ultimately show "\<exists>session. required_session_features dns = Ok session \<and>
      set (fo_required o') = set caller \<union> set session"
    using session by simp
qed

lemma list_all2_set2: "list_all2 P xs ys \<Longrightarrow> y \<in> set ys \<Longrightarrow> \<exists>x\<in>set xs. P x y"
  by (induction rule: list_all2_induct) auto

lemma list_all2_digest_keys: "list_all2 (digest_entry dp) es ps \<Longrightarrow> map fst ps = map fst es"
  by (induction rule: list_all2_induct) (auto simp: digest_entry_def)

lemma mandatory_of_offer:
  assumes "bt_ok (fr_definitions r)" "map fst (fo_supported o') = map fst (fr_definitions r)"
  shows "concat (map (mandatory_limits r \<circ> fst) (fo_supported o')) =
    concat (map (filter ld_mandatory \<circ> fd_limits \<circ> snd) (fr_definitions r))"
proof -
  have "map (mandatory_limits r \<circ> fst) (fo_supported o') = map (mandatory_limits r \<circ> fst) (fr_definitions r)"
    using assms(2) by (metis map_map)
  also have "\<dots> = map (filter ld_mandatory \<circ> fd_limits \<circ> snd) (fr_definitions r)"
  proof (rule map_cong [OF refl])
    fix e assume "e \<in> set (fr_definitions r)"
    then have "bt_get (fr_definitions r) (fst e) = Some (snd e)"
      using bt_get_iff [OF assms(1)] by simp
    then show "(mandatory_limits r \<circ> fst) e = (filter ld_mandatory \<circ> fd_limits \<circ> snd) e"
      by (simp add: mandatory_limits_def registry_get_def)
  qed
  finally show ?thesis by simp
qed

lemma validate_limits_Ok:
  assumes "distinct (map ld_tag ls)" "ls = concat (map (mandatory_limits r \<circ> fst) (fo_supported o'))"
  shows "validate_limits r o' = Ok () \<longleftrightarrow> length (fo_limits o') = length ls \<and>
    (\<forall>e\<in>set (fo_limits o'). \<exists>l\<in>set ls. ld_tag l = fst e \<and> limit_contains l (snd e))"
proof -
  let ?kvs = "map (\<lambda>l. (ld_tag l, l)) ls"
  have d: "distinct (map fst ?kvs)" using assms(1) by (simp add: comp_def)
  have exp: "expected_limits r o' = fold (\<lambda>(k, v). bt_insert k v) ?kvs []"
    by (simp add: expected_limits_eq assms(2))
  have len: "length (expected_limits r o') = length ls"
    unfolding exp using bt_fold_insert_length [OF d] by simp
  have get: "bt_get (expected_limits r o') t = Some l \<longleftrightarrow> l \<in> set ls \<and> ld_tag l = t" for t l
    unfolding exp bt_fold_insert_get [OF d]
    using map_of_eq_Some_iff [OF d, of t l] by (auto split: option.split)
  have entry: "(case bt_get (expected_limits r o') t of
        None \<Rightarrow> Err (invalid_input ''feature offer unknown limit'')
      | Some d \<Rightarrow> if \<not> limit_contains d v then Err (invalid_input ''feature offer limit range'') else Ok ()) = Ok () \<longleftrightarrow>
      (\<exists>l\<in>set ls. ld_tag l = t \<and> limit_contains l v)" for t v
  proof (cases "bt_get (expected_limits r o') t")
    case None
    then show ?thesis using get [of t] by auto
  next
    case (Some l)
    then have "l \<in> set ls" "ld_tag l = t" using get [of t l] by simp_all
    moreover have "l' = l" if "l' \<in> set ls" "ld_tag l' = t" for l'
      using that Some get [of t l'] by simp
    ultimately have "(\<exists>l\<in>set ls. ld_tag l = t \<and> limit_contains l v) \<longleftrightarrow> limit_contains l v" by blast
    with Some show ?thesis by simp
  qed
  show ?thesis by (simp add: validate_limits_def Let_def len for_each_Ok split_beta entry)
qed

lemma node_offer_limits:
  assumes "node_offer dns dp r caller = Ok o'" "registry_ok (fr_definitions r)"
    and "\<forall>t d l. registry_get r t = Some d \<longrightarrow> l \<in> set (fd_limits d) \<longrightarrow> limit_contains l (limit_default l)"
  shows "validate_limits r o' = Ok ()"
proof -
  have ok: "bt_ok (fr_definitions r)" using assms(2) by (simp add: registry_ok_def)
  note o = node_offer_Ok [OF assms(1) ok]
  define ls where "ls = concat (map (filter ld_mandatory \<circ> fd_limits \<circ> snd) (fr_definitions r))"
  have ls: "ls = concat (map (mandatory_limits r \<circ> fst) (fo_supported o'))"
    using mandatory_of_offer [OF ok list_all2_digest_keys [OF o(2)]] by (simp add: ls_def)
  have "distinct (concat (map (map ld_tag \<circ> (fd_limits \<circ> snd)) (fr_definitions r)))"
    using assms(2) by (simp add: registry_ok_def comp_def)
  from distinct_concat_filter [OF this, of ld_mandatory] have d: "distinct (map ld_tag ls)"
    by (simp add: ls_def map_concat comp_def)
  have m: "mset (fo_limits o') = mset (map (\<lambda>l. (ld_tag l, limit_default l)) ls)"
    using o(3) by (simp add: ls_def)
  have set: "set (fo_limits o') = (\<lambda>l. (ld_tag l, limit_default l)) ` set ls"
    using arg_cong [OF m, of set_mset] by simp
  have len: "length (fo_limits o') = length ls" using arg_cong [OF m, of size] by simp
  have "limit_contains l (limit_default l)" if l: "l \<in> set ls" for l
  proof -
    obtain e where e: "e \<in> set (fr_definitions r)" "l \<in> set (fd_limits (snd e))"
      using l by (auto simp: ls_def)
    then have "registry_get r (fst e) = Some (snd e)"
      using bt_get_iff [OF ok] by (simp add: registry_get_def)
    with e assms(3) show ?thesis by blast
  qed
  with len show ?thesis unfolding validate_limits_Ok [OF d ls] set by auto
qed

section \<open>Properties\<close>

definition sample_registry :: feature_registry where
  "sample_registry = \<lparr>fr_definitions =
     [(builtin_tag ''features'' ''auth-ed25519-session'', builtin_entry sample_provider ''auth-ed25519-session'' [] [] []),
      (builtin_tag ''features'' ''data-messages'', builtin_entry sample_provider ''data-messages'' [''session-core''] [] [body_limit]),
      (builtin_tag ''features'' ''session-core'', builtin_entry sample_provider ''session-core'' [''auth-ed25519-session''] [] [])]\<rparr>"

abbreviation sample_digest :: "string \<Rightarrow> digest" where
  "sample_digest n \<equiv> dp_sha256 sample_provider (as_bytes (tag_value (builtin_tag ''features'' n)))"

definition sample_offer :: feature_offer where
  "sample_offer =
     \<lparr>fo_supported = [(builtin_tag ''features'' ''auth-ed25519-session'', sample_digest ''auth-ed25519-session''),
        (builtin_tag ''features'' ''data-messages'', sample_digest ''data-messages''),
        (builtin_tag ''features'' ''session-core'', sample_digest ''session-core'')],
      fo_required = [builtin_tag ''features'' ''auth-ed25519-session'', builtin_tag ''features'' ''session-core''],
      fo_limits = [(builtin_tag ''limits'' ''data-body-bytes'', DATA_BODY_DEFAULT)]\<rparr>"

lemma make_tag_value_less [simp]:
  "tag_value (make_tag d k n) < tag_value (make_tag d k n') \<longleftrightarrow> n < n'"
  "tag_value (make_tag d k n) \<le> tag_value (make_tag d k n') \<longleftrightarrow> n \<le> n'"
  "tag_value (make_tag d k n) = tag_value (make_tag d k n') \<longleftrightarrow> n = n'"
  using append_less_append [of "d @ slash # k @ [slash]" n n'] append_less_append [of "d @ slash # k @ [slash]" n' n]
  by (simp_all flip: not_less)

lemma sample_offer_new: "offer_new (fo_supported sample_offer) (fo_required sample_offer) (fo_limits sample_offer) = Ok sample_offer"
  by (simp add: sample_offer_def offer_new_def check_capacity_def MAX_SUPPORTED_LABELS_def MAX_REQUIRED_LABELS_def
      MAX_NEGOTIATED_LIMITS_def check_required_def CATEGORY_LIMITS_def del: tag_accessors(4))

lemma sample_node_offer: "node_offer (\<lambda>_. True) sample_provider sample_registry [] = Ok sample_offer"
proof -
  have e: "offer_entries sample_provider (registry_iter sample_registry) [] [] =
      Ok (fo_supported sample_offer, fo_limits sample_offer)"
    by (simp add: registry_iter_def sample_registry_def definition_digest_def sample_provider_def
        feature_wire_def builtin_entry_def sample_offer_def body_limit_def limit_default_def)
  have r: "required_session_features (\<lambda>_. True) = Ok (fo_required sample_offer)"
    by (simp add: required_session_features_def builtin_parses sample_offer_def)
  have f: "fold bs_insert (fo_required sample_offer) (bs_of_list []) = fo_required sample_offer"
    by (simp add: sample_offer_def bs_of_list_def bs_insert_def)
  have c: "for_each (\<lambda>tag. if \<not> list_ex (\<lambda>(candidate, _). candidate = tag) (fo_supported sample_offer)
      then Err (invalid_input ''required feature'') else Ok ()) (fo_required sample_offer) = Ok ()"
    by (simp add: for_each_Ok) (simp add: sample_offer_def)
  show ?thesis by (simp add: node_offer_def e r f c sample_offer_new del: list_ex_key)
qed

lemma sample_registry_ok: "registry_ok (fr_definitions sample_registry)"
proof -
  have "check_dependencies (fr_definitions sample_registry) = Ok ()"
    by (simp add: check_dependencies_def sample_registry_def builtin_entry_def)
  then have d: "acyclic (depends_on (fr_definitions sample_registry))"
    "\<forall>a b. (a, b) \<in> depends_on (fr_definitions sample_registry) \<longrightarrow> bt_get (fr_definitions sample_registry) b \<noteq> None"
    unfolding check_dependencies_Ok by blast+
  have t: "\<forall>t d. bt_get (fr_definitions sample_registry) t = Some d \<longrightarrow> fd_tag d = t \<and> fd_conflicts d = []"
    by (auto simp: sample_registry_def builtin_entry_def split: if_split_asm)
  have "bt_ok (fr_definitions sample_registry)"
    "distinct (concat (map (map ld_tag \<circ> fd_limits) (map snd (fr_definitions sample_registry))))"
    "distinct (concat (map fd_protocols (map snd (fr_definitions sample_registry))))"
    by (simp_all add: sample_registry_def builtin_entry_def bt_ok_def)
  with d t show ?thesis unfolding registry_ok_def by auto
qed

lemma sample_validate: "validate_limits sample_registry sample_offer = Ok ()"
  by (rule node_offer_limits [OF sample_node_offer sample_registry_ok])
    (auto simp: registry_get_def sample_registry_def builtin_entry_def body_limit_def limit_contains_def
      limit_range_contains_def limit_default_def DATA_BODY_FLOOR_def DATA_BODY_CEILING_def DATA_BODY_DEFAULT_def
      split: if_split_asm)

text \<open>A canonical offer survives the wire: encoding and decoding it against a registry
  that accepts its limits gives the same offer back. The encoder and the strict decoder of
  the wire record are inverse on the bytes the encoder produces, and host names are
  case-insensitive.\<close>

lemma offer_decode_roundtrip:
  assumes "offer_new s r l = Ok o'" and "offer_typed dns o'" and "validate_limits registry o' = Ok ()"
    and "\<forall>h. dns (to_ascii_lowercase h) = dns h"
    and "\<forall>w bytes. enc w = Ok bytes \<longrightarrow> dec bytes = Ok w"
    and "offer_encode enc o' = Ok bytes"
  shows "offer_decode dns dec registry bytes = Ok o' \<and> offer_ok o'"
proof -
  have ok: "offer_ok o'" using assms(1) unfolding offer_new_Ok by blast
  have "dec bytes = Ok (offer_wire o')" using assms(5,6) by (simp add: offer_encode_def)
  with offer_from_wire_roundtrip [OF ok assms(2)] assms(3,4) ok show ?thesis
    by (simp add: offer_decode_def)
qed

text \<open>The offer a node makes from its registry is canonical, supports exactly the
  registered labels at their definition digests, requires the caller's labels and the two
  session features, and passes the limit validation every peer with the same registry
  applies.\<close>

lemma node_offer_valid:
  assumes "registry_ok (fr_definitions r)" and "node_offer dns dp r caller = Ok o'"
    and "\<forall>t d l. registry_get r t = Some d \<longrightarrow> l \<in> set (fd_limits d) \<longrightarrow> limit_contains l (limit_default l)"
  shows "offer_ok o' \<and> validate_limits r o' = Ok () \<and>
    map fst (fo_supported o') = map fst (registry_iter r) \<and>
    (\<forall>t h. (t, h) \<in> set (fo_supported o') \<longrightarrow>
       (\<exists>d. registry_get r t = Some d \<and> definition_digest dp d = Ok h)) \<and>
    (\<exists>session. required_session_features dns = Ok session \<and> set (fo_required o') = set caller \<union> set session)"
proof -
  have ok: "bt_ok (fr_definitions r)" using assms(1) by (simp add: registry_ok_def)
  note o = node_offer_Ok [OF assms(2) ok]
  have "\<exists>d. registry_get r t = Some d \<and> definition_digest dp d = Ok h" if th: "(t, h) \<in> set (fo_supported o')" for t h
  proof -
    obtain e where "e \<in> set (fr_definitions r)" "digest_entry dp e (t, h)"
      using list_all2_set2 [OF o(2) th] by blast
    then show ?thesis using bt_get_iff [OF ok, of t "snd e"]
      by (auto simp: digest_entry_def registry_get_def)
  qed
  with o node_offer_limits [OF assms(2,1,3)] list_all2_digest_keys [OF o(2)] show ?thesis
    by (simp add: registry_iter_def)
qed

text \<open>Two spellings of one label, in the order of their texts.\<close>

definition respelled_offer :: "digest \<Rightarrow> digest \<Rightarrow> offer_wire_record" where
  "respelled_offer h1 h2 =
     \<lparr>ow_supported = [\<lparr>se_label = lit ''A.b/features/x'', se_digest = h1\<rparr>,
                      \<lparr>se_label = lit ''a.b/features/x'', se_digest = h2\<rparr>],
      ow_required = [], ow_limits = []\<rparr>"

definition respelled_label :: qualified_tag where
  "respelled_label = make_tag (lit ''a.b'') (lit ''features'') (lit ''x'')"

lemma respelled_offer_from_wire:
  assumes "dns (lit ''A.b'')" "dns (lit ''a.b'')" "length h1 = 32" "length h2 = 32"
  shows "offer_from_wire dns (respelled_offer h1 h2) =
    Ok \<lparr>fo_supported = [(respelled_label, h1), (respelled_label, h2)], fo_required = [], fo_limits = []\<rparr>"
proof -
  have p: "feature_tag_parse dns (lit ''A.b/features/x'') = Ok respelled_label"
    "feature_tag_parse dns (lit ''a.b/features/x'') = Ok respelled_label"
    using assms(1,2)
    by (simp_all add: feature_tag_parse_def category_parse_def tag_parse_def validate_tag_def str_len_ascii
        MIN_TAG_LEN_def MAX_TAG_LEN_def valid_dns_hostname_def name_component_defs make_tag_def
        BUILTIN_DOMAIN_def tag_category_def to_ascii_lowercase_def respelled_label_def)
  show ?thesis
    using assms(3,4) by (simp add: respelled_offer_def offer_from_wire_def check_capacity_def MAX_SUPPORTED_LABELS_def
        map_ordered_def not_before_def supported_from_wire_def p del: lit_Cons)
      (simp add: not_before_def)
qed

text \<open>Its encoding is canonical: an offer is an array of arrays of texts and byte strings, so no
  rule of the canonical form relates the two labels.\<close>

lemma respelled_offer_encodes:
  assumes "minicbor_ok utf8 mc" "\<forall>s. is_ascii s \<longrightarrow> utf8 (as_bytes s)" "length h1 = 32" "length h2 = 32"
    and "concat (raw (respelled_offer h1 h2)) = cbor_enc (offer_item (respelled_offer h1 h2))"
  shows "encode_canonical mc raw CONTROL_CBOR_LIMITS (respelled_offer h1 h2) =
    Some (Ok (cbor_enc (offer_item (respelled_offer h1 h2))))"
proof -
  let ?item = "offer_item (respelled_offer h1 h2)"
  have u: "utf8 (as_bytes (lit ''A.b/features/x''))" "utf8 (as_bytes (lit ''a.b/features/x''))"
    by (rule assms(2) [rule_format], simp add: is_ascii_def)+
  have "cbor_ok utf8 CONTROL_CBOR_LIMITS 0 ?item"
    using assms(3,4) u
    by (simp add: offer_item_def respelled_offer_def CONTROL_CBOR_LIMITS_def CborLimits_def as_bytes_ascii is_ascii_def)
  moreover have "length (cbor_enc ?item) \<le> cl_max_body_len CONTROL_CBOR_LIMITS"
    using assms(3,4)
    by (simp add: offer_item_def respelled_offer_def CONTROL_CBOR_LIMITS_def CborLimits_def ADR0002_BODY_BYTES_def
        cbor_head_def as_bytes_ascii is_ascii_def)
  ultimately show ?thesis
    using assms(5) unfolding encode_canonical_iff(2) [OF assms(1)] validate_canonical_iff(2) [OF assms(1)]
    by (auto simp: CONTROL_CBOR_LIMITS_def CborLimits_def)
qed

text \<open>C39: decoding accepts an offer that names one label twice. The order of an offer is checked
  on the received text, before host names are lowercased, so two spellings of one label are two
  entries. Their offer has a canonical encoding, the strict decoder returns it, and when the
  registry puts no mandatory limit on the label, which holds for every label it does not know,
  the limit validation passes: \<open>decode\<close> succeeds with an offer that supports one label at two
  digests and is not canonical, and the lookup sees only the first. The crate is assumed to
  write and read this one value in its documented array form, and the host name check to accept
  both spellings.\<close>

theorem offer_decode_accepts_duplicate:
  assumes "minicbor_ok utf8 mc" and "\<forall>s. is_ascii s \<longrightarrow> utf8 (as_bytes s)"
    and "concat (raw (respelled_offer h1 h2)) = cbor_enc (offer_item (respelled_offer h1 h2))"
    and "dec (cbor_enc (offer_item (respelled_offer h1 h2))) =
      Some (respelled_offer h1 h2, length (cbor_enc (offer_item (respelled_offer h1 h2))))"
    and "dns (lit ''A.b'')" and "dns (lit ''a.b'')" and "length h1 = 32" and "length h2 = 32"
    and "\<forall>d. registry_get registry respelled_label = Some d \<longrightarrow> filter ld_mandatory (fd_limits d) = []"
  shows "\<exists>bytes o'. encode_canonical mc raw CONTROL_CBOR_LIMITS (respelled_offer h1 h2) = Some (Ok bytes) \<and>
    offer_decode dns (\<lambda>b. the (decode_canonical_strict mc raw dec CONTROL_CBOR_LIMITS ''feature offer canonical form'' b))
      registry bytes = Ok o' \<and>
    fo_supported o' = [(respelled_label, h1), (respelled_label, h2)] \<and>
    supported_digest o' respelled_label = Some h1 \<and> \<not> offer_ok o'"
proof -
  let ?w = "respelled_offer h1 h2" and ?o = "\<lparr>fo_supported = [(respelled_label, h1), (respelled_label, h2)], fo_required = [], fo_limits = []\<rparr>"
  let ?bytes = "cbor_enc (offer_item ?w)"
  have e: "encode_canonical mc raw CONTROL_CBOR_LIMITS ?w = Some (Ok ?bytes)"
    by (rule respelled_offer_encodes [where raw = raw, OF assms(1,2,7,8,3)])
  then have "decode_canonical mc dec CONTROL_CBOR_LIMITS ?bytes = Some (Ok ?w)"
    using assms(4) unfolding encode_canonical_iff(2) [OF assms(1)] decode_canonical_iff [OF assms(1)] by blast
  with e have d: "decode_canonical_strict mc raw dec CONTROL_CBOR_LIMITS ''feature offer canonical form'' ?bytes = Some (Ok ?w)"
    by (simp add: decode_canonical_strict_def decode_canonical_strict_or_def)
  have step: "fold (\<lambda>l expected. if ld_mandatory l then bt_insert (ld_tag l) l expected else expected) ls ex = ex"
    if "filter ld_mandatory ls = []" for ls ex
    using that by (induction ls) (simp_all split: if_split_asm)
  have "expected_limits registry ?o = []"
    using assms(9) by (auto simp: expected_limits_def step split: option.split)
  then have "validate_limits registry ?o = Ok ()" by (simp add: validate_limits_def)
  with d have "offer_decode dns (\<lambda>b. the (decode_canonical_strict mc raw dec CONTROL_CBOR_LIMITS ''feature offer canonical form'' b))
      registry ?bytes = Ok ?o"
    using respelled_offer_from_wire [OF assms(5-8)] by (simp add: offer_decode_def)
  with e show ?thesis by (intro exI [of _ ?bytes] exI [of _ ?o]) (simp add: supported_digest_def offer_ok_def)
qed

theorem offer_decode_accepts_duplicate_witness:
  "\<exists>bytes o'. offer_decode (\<lambda>_. True)
      (\<lambda>b. the (decode_canonical_strict sample_minicbor (\<lambda>w. [cbor_enc (offer_item w)])
        (\<lambda>b. Some (respelled_offer (replicate 32 0) (replicate 32 1), length b)) CONTROL_CBOR_LIMITS
        ''feature offer canonical form'' b)) sample_registry bytes = Ok o' \<and>
    fo_supported o' = [(respelled_label, replicate 32 0), (respelled_label, replicate 32 1)] \<and> \<not> offer_ok o'"
proof -
  have r: "\<forall>d. registry_get sample_registry respelled_label = Some d \<longrightarrow> filter ld_mandatory (fd_limits d) = []"
    by (simp add: registry_get_def sample_registry_def respelled_label_def make_tag_def)
  show ?thesis
    using offer_decode_accepts_duplicate [OF sample_minicbor_ok, where raw = "\<lambda>w. [cbor_enc (offer_item w)]"
        and ?h1.0 = "replicate 32 0" and ?h2.0 = "replicate 32 1" and dns = "\<lambda>_. True" and registry = sample_registry
        and dec = "\<lambda>b. Some (respelled_offer (replicate 32 0) (replicate 32 1), length b)"] r
    by auto
qed

end
