(* ===== verification/Feature_Selection.thy ===== *)
theory Feature_Selection
  imports Feature_Offer
begin

text \<open>
  Exact feature selection (\<^verbatim>\<open>src/src/protocol/selection.rs\<close>): both peers compute the
  effective feature set and limits from the two offers, each with its own registry. The
  canonical CBOR encoder of the selection record is the parameter \<open>enc\<close>.
\<close>

datatype selection_error =
    DigestMismatch ustr
  | ConflictPair ustr ustr
  | MissingRequired ustr
  | UnknownRequired ustr
  | Malformed string

fun selection_error_into :: "selection_error \<Rightarrow> error" where
  "selection_error_into (DigestMismatch _) = authentication_failed ''feature definition digest mismatch''"
| "selection_error_into (ConflictPair _ _) = authentication_failed ''feature selection conflict''"
| "selection_error_into (MissingRequired _) = authentication_failed ''feature selection missing required''"
| "selection_error_into (UnknownRequired _) = authentication_failed ''feature selection unknown required''"
| "selection_error_into (Malformed _) = authentication_failed ''feature selection malformed''"

record selection =
  sel_features :: "qualified_tag list"
  sel_limits :: "(qualified_tag \<times> u64) list"
  sel_bytes :: "byte list"

definition selection_limit :: "selection \<Rightarrow> qualified_tag \<Rightarrow> u64 option" where
  "selection_limit s tag = map_option snd (find (\<lambda>(candidate, _). candidate = tag) (sel_limits s))"

record selection_wire =
  sw_features :: "ustr list"
  sw_limits :: "limit_entry list"

section \<open>The steps of the selection\<close>

definition check_registry_digest ::
  "digest_provider \<Rightarrow> feature_registry \<Rightarrow> qualified_tag \<Rightarrow> digest \<Rightarrow> selection_error + unit" where
  "check_registry_digest dp registry tag h =
     (case registry_get registry tag of
        None \<Rightarrow> Ok ()
      | Some d \<Rightarrow>
          and_then (map_err (definition_digest dp d) (\<lambda>_. Malformed ''selection definition digest'')) (\<lambda>registry_digest.
            if registry_digest \<noteq> h then Err (DigestMismatch (tag_value tag)) else Ok ()))"

primrec common_labels ::
  "digest_provider \<Rightarrow> feature_registry \<Rightarrow> feature_offer \<Rightarrow> (qualified_tag \<times> digest) list \<Rightarrow> qualified_tag list \<Rightarrow>
   selection_error + qualified_tag list" where
  "common_labels dp registry remote [] selected = Ok selected"
| "common_labels dp registry remote (e # es) selected =
     (case supported_digest remote (fst e) of
        None \<Rightarrow> common_labels dp registry remote es selected
      | Some remote_digest \<Rightarrow>
          if remote_digest \<noteq> snd e then Err (DigestMismatch (tag_value (fst e)))
          else and_then (check_registry_digest dp registry (fst e) (snd e)) (\<lambda>_.
            common_labels dp registry remote es (bs_insert (fst e) selected)))"

definition retained :: "feature_registry \<Rightarrow> qualified_tag list \<Rightarrow> qualified_tag \<Rightarrow> bool" where
  "retained registry selected tag =
     (case registry_get registry tag of
        Some d \<Rightarrow> list_all (\<lambda>dependency. dependency \<in> set selected) (fd_dependencies d)
      | None \<Rightarrow> False)"

function dependency_fixpoint :: "feature_registry \<Rightarrow> qualified_tag list \<Rightarrow> qualified_tag list" where
  "dependency_fixpoint registry selected =
     (let kept = filter (retained registry selected) selected
      in if length kept = length selected then selected else dependency_fixpoint registry kept)"
  by pat_completeness auto

termination dependency_fixpoint
proof (relation "measure (length \<circ> snd)", goal_cases)
  case (2 registry selected kept)
  then show ?case by (simp add: le_neq_implies_less)
qed simp

declare dependency_fixpoint.simps [simp del]

definition check_selected_conflict ::
  "qualified_tag list \<Rightarrow> qualified_tag \<Rightarrow> qualified_tag \<Rightarrow> selection_error + unit" where
  "check_selected_conflict selected tag c =
     (if c \<in> set selected
      then if tag_value tag < tag_value c then Err (ConflictPair (tag_value tag) (tag_value c))
           else Err (ConflictPair (tag_value c) (tag_value tag))
      else Ok ())"

definition check_selection_conflicts ::
  "feature_registry \<Rightarrow> qualified_tag list \<Rightarrow> selection_error + unit" where
  "check_selection_conflicts registry selected =
     for_each (\<lambda>tag.
       and_then (ok_or (registry_get registry tag) (Malformed ''selection definition'')) (\<lambda>d.
         for_each (check_selected_conflict selected tag) (fd_conflicts d))) selected"

definition check_selection_required ::
  "feature_registry \<Rightarrow> qualified_tag list \<Rightarrow> qualified_tag list \<Rightarrow> qualified_tag list \<Rightarrow> selection_error + unit" where
  "check_selection_required registry selected local_required remote_required =
     for_each (\<lambda>tag.
       if registry_get registry tag = None then Err (UnknownRequired (tag_value tag))
       else if tag \<notin> set selected then Err (MissingRequired (tag_value tag))
       else Ok ()) (bs_of_list (local_required @ remote_required))"

primrec effective_of ::
  "feature_offer \<Rightarrow> feature_offer \<Rightarrow> limit_definition list \<Rightarrow> (qualified_tag, u64) btree \<Rightarrow>
   selection_error + (qualified_tag, u64) btree" where
  "effective_of local remote [] effective = Ok effective"
| "effective_of local remote (l # ls) effective =
     (if \<not> ld_mandatory l then effective_of local remote ls effective
      else and_then (ok_or (limit_value local (ld_tag l)) (Malformed ''selection local limit'')) (\<lambda>a.
           and_then (ok_or (limit_value remote (ld_tag l)) (Malformed ''selection remote limit'')) (\<lambda>b.
             effective_of local remote ls (bt_insert (ld_tag l) (min a b) effective))))"

primrec effective_limits ::
  "feature_registry \<Rightarrow> feature_offer \<Rightarrow> feature_offer \<Rightarrow> qualified_tag list \<Rightarrow> (qualified_tag, u64) btree \<Rightarrow>
   selection_error + (qualified_tag, u64) btree" where
  "effective_limits registry local remote [] effective = Ok effective"
| "effective_limits registry local remote (tag # tags) effective =
     and_then (ok_or (registry_get registry tag) (Malformed ''selection definition'')) (\<lambda>d.
     and_then (effective_of local remote (fd_limits d) effective) (\<lambda>effective'.
       effective_limits registry local remote tags effective'))"

definition select ::
  "digest_provider \<Rightarrow> (selection_wire \<Rightarrow> byte list result) \<Rightarrow> feature_registry \<Rightarrow> feature_offer \<Rightarrow> feature_offer \<Rightarrow>
   qualified_tag list \<Rightarrow> qualified_tag list \<Rightarrow> selection_error + selection" where
  "select dp enc registry local remote local_required remote_required =
     and_then (common_labels dp registry remote (fo_supported local) []) (\<lambda>common.
       let selected = dependency_fixpoint registry common
       in and_then (check_selection_conflicts registry selected) (\<lambda>_.
          and_then (check_selection_required registry selected local_required remote_required) (\<lambda>_.
          and_then (effective_limits registry local remote selected []) (\<lambda>effective.
          and_then (map_err
              (enc \<lparr>sw_features = map tag_value selected,
                    sw_limits = map (\<lambda>(tag, v). \<lparr>le_tag = tag_value tag, le_value = v\<rparr>) effective\<rparr>)
              (\<lambda>_. Malformed ''selection encode'')) (\<lambda>bytes.
            Ok \<lparr>sel_features = selected, sel_limits = effective, sel_bytes = bytes\<rparr>)))))"

section \<open>The dependency fixed point\<close>

text \<open>A set of labels is closed when each is registered and has its dependencies in the set;
  the core of a set is its greatest closed subset.\<close>

definition closed_labels :: "feature_registry \<Rightarrow> qualified_tag set \<Rightarrow> bool" where
  "closed_labels registry S \<longleftrightarrow>
     (\<forall>t\<in>S. \<exists>d. registry_get registry t = Some d \<and> set (fd_dependencies d) \<subseteq> S)"

definition closed_core :: "feature_registry \<Rightarrow> qualified_tag set \<Rightarrow> qualified_tag set" where
  "closed_core registry C = \<Union>{S. S \<subseteq> C \<and> closed_labels registry S}"

lemma closed_core_closed: "closed_labels registry (closed_core registry C)"
  unfolding closed_labels_def
proof
  fix t assume "t \<in> closed_core registry C"
  then obtain S where S: "t \<in> S" "S \<subseteq> C" "closed_labels registry S"
    by (auto simp: closed_core_def)
  then have "S \<subseteq> closed_core registry C" by (auto simp: closed_core_def)
  with S show "\<exists>d. registry_get registry t = Some d \<and> set (fd_dependencies d) \<subseteq> closed_core registry C"
    unfolding closed_labels_def by blast
qed

lemma closed_core_greatest:
  "closed_core registry C \<subseteq> C" "S \<subseteq> C \<Longrightarrow> closed_labels registry S \<Longrightarrow> S \<subseteq> closed_core registry C"
  unfolding closed_core_def by auto

lemma retained_iff:
  "retained registry sel t \<longleftrightarrow> (\<exists>d. registry_get registry t = Some d \<and> set (fd_dependencies d) \<subseteq> set sel)"
  by (auto simp: retained_def list_all_iff split: option.split)

lemma set_dependency_fixpoint: "set (dependency_fixpoint registry sel) = closed_core registry (set sel)"
proof (induction registry sel rule: dependency_fixpoint.induct)
  case (1 registry sel)
  let ?F = "filter (retained registry sel) sel"
  show ?case
  proof (cases "length ?F = length sel")
    case True
    then have "?F = sel" using sum_length_filter_compl [of "retained registry sel" sel]
      by (simp add: filter_empty_conv filter_id_conv)
    then have "closed_labels registry (set sel)"
      by (auto simp: filter_id_conv retained_iff closed_labels_def)
    then have "closed_core registry (set sel) = set sel"
      by (intro subset_antisym closed_core_greatest) simp_all
    with True show ?thesis by (subst dependency_fixpoint.simps) simp
  next
    case False
    have "S \<subseteq> set ?F" if "S \<subseteq> set sel" "closed_labels registry S" for S
      using that by (fastforce simp: closed_labels_def retained_iff)
    then have "closed_core registry (set ?F) = closed_core registry (set sel)"
      unfolding closed_core_def by (rule_tac arg_cong [where f = Union]) auto
    with 1 False show ?thesis by (subst dependency_fixpoint.simps) simp
  qed
qed

lemma sorted_dependency_fixpoint: "sorted_wrt (<) sel \<Longrightarrow> sorted_wrt (<) (dependency_fixpoint registry sel)"
proof (induction registry sel rule: dependency_fixpoint.induct)
  case (1 registry sel)
  then show ?case by (subst dependency_fixpoint.simps) (simp add: Let_def sorted_wrt_filter)
qed

section \<open>When a selection succeeds\<close>

definition common_set :: "feature_offer \<Rightarrow> feature_offer \<Rightarrow> qualified_tag set" where
  "common_set a b = fst ` set (fo_supported a) \<inter> fst ` set (fo_supported b)"

text \<open>Every entry of the local offer that the remote offer shares has the remote digest and
  the digest of the local registry.\<close>

definition digests_agree ::
  "digest_provider \<Rightarrow> feature_registry \<Rightarrow> feature_offer \<Rightarrow> (qualified_tag \<times> digest) list \<Rightarrow> bool" where
  "digests_agree dp registry remote es \<longleftrightarrow>
     (\<forall>e\<in>set es. \<forall>h. map_of (fo_supported remote) (fst e) = Some h \<longrightarrow>
        h = snd e \<and> (\<forall>d. registry_get registry (fst e) = Some d \<longrightarrow> definition_digest dp d = Ok h))"

lemma check_registry_digest_Ok:
  "check_registry_digest dp registry t h = Ok u \<longleftrightarrow>
   (\<forall>d. registry_get registry t = Some d \<longrightarrow> definition_digest dp d = Ok h)"
  by (auto simp: check_registry_digest_def and_then_Ok_iff split: option.split)

lemma common_labels_Ok:
  "common_labels dp registry remote es selected = Ok sel \<longleftrightarrow>
   digests_agree dp registry remote es \<and>
   sel = fold bs_insert (filter (\<lambda>t. t \<in> fst ` set (fo_supported remote)) (map fst es)) selected"
proof (induction es arbitrary: selected)
  case (Cons e es)
  show ?case
  proof (cases "map_of (fo_supported remote) (fst e)")
    case None
    then have "fst e \<notin> fst ` set (fo_supported remote)" by (simp add: map_of_eq_None_iff)
    with None show ?thesis by (simp add: supported_digest_eq Cons.IH digests_agree_def)
  next
    case (Some h)
    then have "fst e \<in> fst ` set (fo_supported remote)" by (metis map_of_eq_None_iff option.distinct(1))
    with Some show ?thesis
      by (auto simp: supported_digest_eq and_then_Ok_iff check_registry_digest_Ok Cons.IH digests_agree_def)
  qed
qed (auto simp: digests_agree_def)

lemma common_labels_sorted_set:
  assumes "common_labels dp registry remote (fo_supported local) [] = Ok sel"
  shows "sorted_wrt (<) sel" "set sel = common_set local remote"
  using assms bs_of_list_aux [of "[]" "filter (\<lambda>t. t \<in> fst ` set (fo_supported remote)) (map fst (fo_supported local))"]
  by (auto simp: common_labels_Ok common_set_def)

lemma selection_conflicts_Ok:
  "check_selection_conflicts registry sel = Ok () \<longleftrightarrow>
   (\<forall>t\<in>set sel. \<exists>d. registry_get registry t = Some d \<and> set (fd_conflicts d) \<inter> set sel = {})"
proof -
  have "check_selected_conflict sel t c = Ok () \<longleftrightarrow> c \<notin> set sel" for t c
    by (simp add: check_selected_conflict_def)
  then show ?thesis
    by (simp add: check_selection_conflicts_def for_each_Ok and_then_Ok_iff disjoint_iff Ball_def)
qed

lemma selection_required_Ok:
  "check_selection_required registry sel a b = Ok () \<longleftrightarrow>
   (\<forall>t\<in>set a \<union> set b. registry_get registry t \<noteq> None \<and> t \<in> set sel)"
  by (auto simp: check_selection_required_def for_each_Ok)

definition effective_value :: "feature_offer \<Rightarrow> feature_offer \<Rightarrow> qualified_tag \<Rightarrow> u64" where
  "effective_value a b t = min (the (limit_value a t)) (the (limit_value b t))"

lemma effective_of_Ok:
  "effective_of a b ls m = Ok m' \<longleftrightarrow>
   (\<forall>l\<in>set ls. ld_mandatory l \<longrightarrow> limit_value a (ld_tag l) \<noteq> None \<and> limit_value b (ld_tag l) \<noteq> None) \<and>
   m' = fold (\<lambda>t. bt_insert t (effective_value a b t)) (map ld_tag (filter ld_mandatory ls)) m"
proof (induction ls arbitrary: m)
  case (Cons l ls)
  show ?case
    by (cases "limit_value a (ld_tag l)"; cases "limit_value b (ld_tag l)")
      (auto simp: Cons.IH effective_value_def)
qed auto

lemma effective_limits_Ok:
  "effective_limits registry a b ts m = Ok m' \<longleftrightarrow>
   (\<forall>t\<in>set ts. registry_get registry t \<noteq> None) \<and>
   (\<forall>t\<in>set ts. \<forall>l\<in>set (mandatory_limits registry t). limit_value a (ld_tag l) \<noteq> None \<and> limit_value b (ld_tag l) \<noteq> None) \<and>
   m' = fold (\<lambda>t. bt_insert t (effective_value a b t)) (map ld_tag (concat (map (mandatory_limits registry) ts))) m"
proof (induction ts arbitrary: m)
  case (Cons t ts)
  show ?case
    by (cases "registry_get registry t") (auto simp: Cons.IH and_then_Ok_iff effective_of_Ok mandatory_limits_def)
qed auto

lemma fold_insert_fun:
  "bt_ok m \<Longrightarrow> bt_ok (fold (\<lambda>t. bt_insert t (f t)) ts m) \<and>
   bt_get (fold (\<lambda>t. bt_insert t (f t)) ts m) k = (if k \<in> set ts then Some (f k) else bt_get m k)"
  by (induction ts arbitrary: m) (auto simp: bt_insert_ok bt_get_insert)

lemma fold_insert_fun_cong:
  assumes "set ts = set ts'" "\<And>t. t \<in> set ts \<Longrightarrow> f t = g t"
  shows "fold (\<lambda>t. bt_insert t (f t)) ts [] = fold (\<lambda>t. bt_insert t (g t)) ts' []"
  using fold_insert_fun [of "[]"] assms by (intro bt_ext) (auto simp: fun_eq_iff)

definition selection_of ::
  "feature_registry \<Rightarrow> feature_offer \<Rightarrow> feature_offer \<Rightarrow> qualified_tag list \<Rightarrow> byte list \<Rightarrow> selection" where
  "selection_of registry a b F bytes =
     \<lparr>sel_features = F,
      sel_limits = fold (\<lambda>t. bt_insert t (effective_value a b t))
        (map ld_tag (concat (map (mandatory_limits registry) F))) [],
      sel_bytes = bytes\<rparr>"

definition wire_of_selection :: "selection \<Rightarrow> selection_wire" where
  "wire_of_selection s =
     \<lparr>sw_features = map tag_value (sel_features s),
      sw_limits = map (\<lambda>(tag, v). \<lparr>le_tag = tag_value tag, le_value = v\<rparr>) (sel_limits s)\<rparr>"

lemma select_Ok:
  "select dp enc registry a b ra rb = Ok s \<longleftrightarrow>
   (\<exists>F. sorted_wrt (<) F \<and> set F = closed_core registry (common_set a b) \<and>
     digests_agree dp registry b (fo_supported a) \<and>
     (\<forall>t\<in>set F. \<exists>d. registry_get registry t = Some d \<and> set (fd_conflicts d) \<inter> set F = {}) \<and>
     set ra \<union> set rb \<subseteq> set F \<and>
     (\<forall>t\<in>set F. \<forall>l\<in>set (mandatory_limits registry t). limit_value a (ld_tag l) \<noteq> None \<and> limit_value b (ld_tag l) \<noteq> None) \<and>
     s = selection_of registry a b F (sel_bytes s) \<and> enc (wire_of_selection s) = Ok (sel_bytes s))"
  (is "?L \<longleftrightarrow> (\<exists>F. ?R F)")
proof
  assume ?L
  then obtain c where c: "common_labels dp registry b (fo_supported a) [] = Ok c"
    and r: "\<And>F. F = dependency_fixpoint registry c \<Longrightarrow> check_selection_conflicts registry F = Ok () \<and>
      check_selection_required registry F ra rb = Ok () \<and> effective_limits registry a b F [] = Ok (sel_limits s) \<and>
      enc (wire_of_selection s) = Ok (sel_bytes s) \<and> sel_features s = F"
    by (auto simp: select_def and_then_Ok_iff Let_def wire_of_selection_def)
  have "set (dependency_fixpoint registry c) = closed_core registry (common_set a b)"
    using common_labels_sorted_set(2) [OF c] by (simp add: set_dependency_fixpoint)
  moreover have "sorted_wrt (<) (dependency_fixpoint registry c)"
    using common_labels_sorted_set(1) [OF c] by (rule sorted_dependency_fixpoint)
  ultimately have "?R (dependency_fixpoint registry c)"
    using c r [OF refl] unfolding common_labels_Ok selection_conflicts_Ok selection_required_Ok effective_limits_Ok
    by (auto simp: selection_of_def)
  then show "\<exists>F. ?R F" ..
next
  assume "\<exists>F. ?R F"
  then obtain F where F: "?R F" ..
  define c where "c = fold bs_insert (filter (\<lambda>t. t \<in> fst ` set (fo_supported b)) (map fst (fo_supported a))) []"
  have c: "common_labels dp registry b (fo_supported a) [] = Ok c"
    using F by (simp add: common_labels_Ok c_def)
  have e: "dependency_fixpoint registry c = F"
    using F common_labels_sorted_set [OF c]
    by (intro strict_sorted_eqI sorted_dependency_fixpoint) (simp_all add: set_dependency_fixpoint)
  have reg: "registry_get registry t \<noteq> None" if "t \<in> set F" for t using F that by fastforce
  have 1: "check_selection_conflicts registry F = Ok ()" unfolding selection_conflicts_Ok using F by blast
  have 2: "check_selection_required registry F ra rb = Ok ()"
    unfolding selection_required_Ok using F reg by blast
  have lim: "\<forall>t\<in>set F. \<forall>l\<in>set (mandatory_limits registry t). limit_value a (ld_tag l) \<noteq> None \<and> limit_value b (ld_tag l) \<noteq> None"
    and s: "s = selection_of registry a b F (sel_bytes s)" and enc: "enc (wire_of_selection s) = Ok (sel_bytes s)"
    using F by blast+
  have sl: "sel_features s = F" "sel_limits s = fold (\<lambda>t. bt_insert t (effective_value a b t))
        (map ld_tag (concat (map (mandatory_limits registry) F))) []"
    by (subst s, simp add: selection_of_def)+
  have 3: "effective_limits registry a b F [] = Ok (sel_limits s)"
    unfolding effective_limits_Ok sl using lim reg by simp
  have 4: "enc \<lparr>sw_features = map tag_value F, sw_limits = map (\<lambda>(tag, v). \<lparr>le_tag = tag_value tag, le_value = v\<rparr>)
      (sel_limits s)\<rparr> = Ok (sel_bytes s)"
    using enc by (simp add: wire_of_selection_def sl(1))
  show ?L
    by (simp add: select_def c e 1 2 3 4 Let_def) (metis sl(1) selection.surjective unit.exhaust)
qed

section \<open>Agreement of two peers\<close>

text \<open>The labels in a definition are results of the tag parser, the only constructor of the
  label types, so their text determines them.\<close>

definition definition_typed :: "(ustr \<Rightarrow> bool) \<Rightarrow> feature_definition \<Rightarrow> bool" where
  "definition_typed dns d \<longleftrightarrow>
     (\<forall>t\<in>set (fd_dependencies d) \<union> set (fd_conflicts d) \<union> ld_tag ` set (fd_limits d). parsed_tag dns t)"

lemma parsed_tag_value_inj:
  assumes "parsed_tag dns t" "parsed_tag dns u" "tag_value t = tag_value u"
  shows "t = u"
proof -
  have shape: "\<exists>d k n. x = make_tag d k n \<and> slash \<notin> set d \<and> slash \<notin> set k \<and> slash \<notin> set n"
    if "parsed_tag dns x" for x
    using that lowercase_no_slash name_component_no_slash
    by (fastforce simp: parsed_tag_def tag_parse_Ok tag_parts_ok_def)
  obtain d k n d' k' n' where t: "t = make_tag d k n" "slash \<notin> set d" "slash \<notin> set k" "slash \<notin> set n"
    and u: "u = make_tag d' k' n'" "slash \<notin> set d'" "slash \<notin> set k'" "slash \<notin> set n'"
    using shape [OF assms(1)] shape [OF assms(2)] by blast
  have "split_on slash (tag_value t) = [d, k, n]" "split_on slash (tag_value u) = [d', k', n']"
    using t u by (simp_all add: split_on_3)
  with assms(3) t u show ?thesis by simp
qed

lemma parsed_image_eq:
  assumes "\<forall>t\<in>A \<union> B. parsed_tag dns t" "tag_value ` A = tag_value ` B"
  shows "A = B"
  using assms by (metis Un_iff inj_onI inj_on_image_eq_iff parsed_tag_value_inj sup_ge1 sup_ge2)

lemma same_wire_labels:
  assumes "feature_wire d1 = feature_wire d2" "definition_typed dns d1" "definition_typed dns d2"
  shows "set (fd_dependencies d1) = set (fd_dependencies d2)" "set (fd_conflicts d1) = set (fd_conflicts d2)"
    "ld_tag ` {l \<in> set (fd_limits d1). ld_mandatory l} = ld_tag ` {l \<in> set (fd_limits d2). ld_mandatory l}"
proof -
  have w: "sort (map tag_value (fd_dependencies d1)) = sort (map tag_value (fd_dependencies d2))"
    "sort (map tag_value (fd_conflicts d1)) = sort (map tag_value (fd_conflicts d2))"
    "sort_key lw_tag (map limit_definition_wire (fd_limits d1)) = sort_key lw_tag (map limit_definition_wire (fd_limits d2))"
    using assms(1) by (simp_all add: feature_wire_def)
  show "set (fd_dependencies d1) = set (fd_dependencies d2)"
    using arg_cong [OF w(1), of set] assms(2,3)
    by (intro parsed_image_eq [of _ _ dns]) (auto simp: definition_typed_def)
  show "set (fd_conflicts d1) = set (fd_conflicts d2)"
    using arg_cong [OF w(2), of set] assms(2,3)
    by (intro parsed_image_eq [of _ _ dns]) (auto simp: definition_typed_def)
  have im: "limit_definition_wire ` set (fd_limits d1) = limit_definition_wire ` set (fd_limits d2)"
    using arg_cong [OF w(3), of set] by simp
  have tags: "tag_value ` ld_tag ` {l \<in> set ls. ld_mandatory l} =
      lw_tag ` {w \<in> limit_definition_wire ` set ls. lw_mandatory w}" for ls
    by (force simp: limit_definition_wire_def image_iff)
  have "tag_value ` ld_tag ` {l \<in> set (fd_limits d1). ld_mandatory l} =
      tag_value ` ld_tag ` {l \<in> set (fd_limits d2). ld_mandatory l}"
    unfolding tags im ..
  then show "ld_tag ` {l \<in> set (fd_limits d1). ld_mandatory l} = ld_tag ` {l \<in> set (fd_limits d2). ld_mandatory l}"
    using assms(2,3) by (intro parsed_image_eq [of _ _ dns]) (auto simp: definition_typed_def)
qed

text \<open>Two registries agree on a set of labels when both define them with the same
  dependencies, conflicts and mandatory limits.\<close>

definition agree_on :: "feature_registry \<Rightarrow> feature_registry \<Rightarrow> qualified_tag set \<Rightarrow> bool" where
  "agree_on r1 r2 C \<longleftrightarrow>
     (\<forall>t\<in>C. \<exists>d1 d2. registry_get r1 t = Some d1 \<and> registry_get r2 t = Some d2 \<and>
        set (fd_dependencies d1) = set (fd_dependencies d2) \<and> set (fd_conflicts d1) = set (fd_conflicts d2) \<and>
        ld_tag ` set (mandatory_limits r1 t) = ld_tag ` set (mandatory_limits r2 t))"

lemma agree_onE:
  assumes "agree_on r1 r2 C" "t \<in> C"
  obtains d1 d2 where "registry_get r1 t = Some d1" "registry_get r2 t = Some d2"
    "set (fd_dependencies d1) = set (fd_dependencies d2)" "set (fd_conflicts d1) = set (fd_conflicts d2)"
    "ld_tag ` set (mandatory_limits r1 t) = ld_tag ` set (mandatory_limits r2 t)"
  using assms unfolding agree_on_def by blast

lemma agree_on_sym: "agree_on r1 r2 C \<Longrightarrow> agree_on r2 r1 C"
  unfolding agree_on_def by metis

lemma agree_on_closed:
  assumes "agree_on r1 r2 C" "S \<subseteq> C" "closed_labels r1 S"
  shows "closed_labels r2 S"
  unfolding closed_labels_def
proof
  fix t assume t: "t \<in> S"
  then obtain d1 d2 where "registry_get r1 t = Some d1" "registry_get r2 t = Some d2"
    "set (fd_dependencies d1) = set (fd_dependencies d2)"
    using agree_onE [OF assms(1)] assms(2) by (metis subsetD)
  with t assms(3) show "\<exists>d. registry_get r2 t = Some d \<and> set (fd_dependencies d) \<subseteq> S"
    unfolding closed_labels_def by (metis option.inject)
qed

lemma agree_on_core: "agree_on r1 r2 C \<Longrightarrow> closed_core r1 C = closed_core r2 C"
  unfolding closed_core_def
  using agree_on_closed [of r1 r2 C] agree_on_closed [OF agree_on_sym, of r1 r2 C]
  by (intro arg_cong [where f = Union]) blast

lemma common_set_sym: "common_set a b = common_set b a"
  by (auto simp: common_set_def)

lemma effective_value_sym: "effective_value a b = effective_value b a"
  by (simp add: effective_value_def fun_eq_iff min.commute)

lemma selection_of_agree:
  assumes "agree_on r1 r2 (set F)"
  shows "selection_of r1 a b F bytes = selection_of r2 b a F bytes"
proof -
  have "ld_tag ` set (mandatory_limits r1 t) = ld_tag ` set (mandatory_limits r2 t)" if "t \<in> set F" for t
    by (rule agree_onE [OF assms that])
  then have "set (map ld_tag (concat (map (mandatory_limits r1) F))) = set (map ld_tag (concat (map (mandatory_limits r2) F)))"
    by (simp add: image_UN)
  from fold_insert_fun_cong [OF this, of "effective_value a b" "effective_value b a"]
  show ?thesis by (simp add: selection_of_def effective_value_sym)
qed

lemma select_agree_imp:
  assumes agree: "agree_on r1 r2 (common_set a b)" and sel: "select dp enc r1 a b ra rb = Ok s"
    and dig: "digests_agree dp r2 a (fo_supported b)"
  shows "select dp enc r2 b a rb ra = Ok s"
proof -
  from sel obtain F where F: "sorted_wrt (<) F" "set F = closed_core r1 (common_set a b)"
    "\<forall>t\<in>set F. \<exists>d. registry_get r1 t = Some d \<and> set (fd_conflicts d) \<inter> set F = {}" "set ra \<union> set rb \<subseteq> set F"
    "\<forall>t\<in>set F. \<forall>l\<in>set (mandatory_limits r1 t). limit_value a (ld_tag l) \<noteq> None \<and> limit_value b (ld_tag l) \<noteq> None"
    "s = selection_of r1 a b F (sel_bytes s)" "enc (wire_of_selection s) = Ok (sel_bytes s)"
    unfolding select_Ok by blast
  have sub: "set F \<subseteq> common_set a b" using F(2) closed_core_greatest(1) by simp
  with agree have ag: "agree_on r1 r2 (set F)" unfolding agree_on_def by blast
  have "set F = closed_core r2 (common_set b a)"
    using F(2) agree_on_core [OF agree] by (simp add: common_set_sym)
  moreover have "\<forall>t\<in>set F. \<exists>d. registry_get r2 t = Some d \<and> set (fd_conflicts d) \<inter> set F = {}"
  proof
    fix t assume t: "t \<in> set F"
    from agree_onE [OF ag t] show "\<exists>d. registry_get r2 t = Some d \<and> set (fd_conflicts d) \<inter> set F = {}"
      using F(3) t by (metis option.inject)
  qed
  moreover have "\<forall>t\<in>set F. \<forall>l\<in>set (mandatory_limits r2 t). limit_value b (ld_tag l) \<noteq> None \<and> limit_value a (ld_tag l) \<noteq> None"
  proof (intro ballI)
    fix t l assume t: "t \<in> set F" and l: "l \<in> set (mandatory_limits r2 t)"
    then have "ld_tag l \<in> ld_tag ` set (mandatory_limits r1 t)" using agree_onE [OF ag t] by (metis imageI)
    with t F(5) show "limit_value b (ld_tag l) \<noteq> None \<and> limit_value a (ld_tag l) \<noteq> None" by auto
  qed
  moreover have "s = selection_of r2 b a F (sel_bytes s)"
    using F(6) selection_of_agree [OF ag] by simp
  ultimately show ?thesis unfolding select_Ok using F(1,4,7) dig by (intro exI [of _ F]) (simp add: Un_commute)
qed

definition honest_offer :: "digest_provider \<Rightarrow> feature_registry \<Rightarrow> feature_offer \<Rightarrow> bool" where
  "honest_offer dp r o' \<longleftrightarrow> distinct (map fst (fo_supported o')) \<and>
     (\<forall>t h. (t, h) \<in> set (fo_supported o') \<longrightarrow> (\<exists>d. registry_get r t = Some d \<and> definition_digest dp d = Ok h))"

lemma node_offer_honest:
  assumes "node_offer dns dp r caller = Ok o'" "bt_ok (fr_definitions r)"
  shows "honest_offer dp r o'"
  unfolding honest_offer_def
proof (intro conjI allI impI)
  note o = node_offer_Ok [OF assms]
  show "distinct (map fst (fo_supported o'))"
    using list_all2_digest_keys [OF o(2)] bt_ok_distinct [OF assms(2)] by simp
  fix t h assume "(t, h) \<in> set (fo_supported o')"
  from list_all2_set2 [OF o(2) this] obtain e where "e \<in> set (fr_definitions r)" "digest_entry dp e (t, h)"
    by blast
  then show "\<exists>d. registry_get r t = Some d \<and> definition_digest dp d = Ok h"
    using bt_get_iff [OF assms(2), of t "snd e"] by (auto simp: digest_entry_def registry_get_def)
qed

text \<open>The digests of two registries are faithful when equal digests come from equal canonical
  records: no collision of SHA-256 and an injective encoder, on these definitions.\<close>

definition faithful_digests :: "digest_provider \<Rightarrow> feature_registry \<Rightarrow> feature_registry \<Rightarrow> bool" where
  "faithful_digests dp r1 r2 \<longleftrightarrow>
     (\<forall>t1 d1 t2 d2 h. registry_get r1 t1 = Some d1 \<longrightarrow> registry_get r2 t2 = Some d2 \<longrightarrow>
        definition_digest dp d1 = Ok h \<longrightarrow> definition_digest dp d2 = Ok h \<longrightarrow> feature_wire d1 = feature_wire d2)"

lemma faithful_digests_sym: "faithful_digests dp r1 r2 \<Longrightarrow> faithful_digests dp r2 r1"
  unfolding faithful_digests_def by metis

definition registry_typed :: "(ustr \<Rightarrow> bool) \<Rightarrow> feature_registry \<Rightarrow> bool" where
  "registry_typed dns r \<longleftrightarrow> (\<forall>t d. registry_get r t = Some d \<longrightarrow> definition_typed dns d)"

lemma honest_entries:
  assumes "honest_offer dp r1 a" "honest_offer dp r2 b" "digests_agree dp r1 b (fo_supported a)"
    and "(t, h) \<in> set (fo_supported a)" "(t, h') \<in> set (fo_supported b)"
  shows "h' = h"
  using assms unfolding honest_offer_def digests_agree_def by fastforce

lemma honest_agree_on:
  assumes "honest_offer dp r1 a" "honest_offer dp r2 b" "digests_agree dp r1 b (fo_supported a)"
    and "faithful_digests dp r1 r2" "registry_typed dns r1" "registry_typed dns r2"
  shows "agree_on r1 r2 (common_set a b)"
  unfolding agree_on_def
proof
  fix t assume "t \<in> common_set a b"
  then obtain h h' where h: "(t, h) \<in> set (fo_supported a)" "(t, h') \<in> set (fo_supported b)"
    by (auto simp: common_set_def)
  note eq = honest_entries [OF assms(1-3) h]
  obtain d1 d2 where d: "registry_get r1 t = Some d1" "definition_digest dp d1 = Ok h"
    "registry_get r2 t = Some d2" "definition_digest dp d2 = Ok h"
    using assms(1,2) h eq unfolding honest_offer_def by metis
  then have w: "feature_wire d1 = feature_wire d2" using assms(4) unfolding faithful_digests_def by blast
  have ty: "definition_typed dns d1" "definition_typed dns d2"
    using assms(5,6) d unfolding registry_typed_def by blast+
  have "ld_tag ` set (mandatory_limits r1 t) = ld_tag ` set (mandatory_limits r2 t)"
    using same_wire_labels(3) [OF w ty] d by (simp add: mandatory_limits_def)
  with same_wire_labels(1,2) [OF w ty] d(1,3)
  show "\<exists>d1 d2. registry_get r1 t = Some d1 \<and> registry_get r2 t = Some d2 \<and>
      set (fd_dependencies d1) = set (fd_dependencies d2) \<and> set (fd_conflicts d1) = set (fd_conflicts d2) \<and>
      ld_tag ` set (mandatory_limits r1 t) = ld_tag ` set (mandatory_limits r2 t)"
    by blast
qed

lemma honest_select:
  assumes "honest_offer dp r1 a" "honest_offer dp r2 b" "faithful_digests dp r1 r2"
    and "registry_typed dns r1" "registry_typed dns r2" "select dp enc r1 a b ra rb = Ok s"
  shows "select dp enc r2 b a rb ra = Ok s"
proof -
  have dig: "digests_agree dp r1 b (fo_supported a)" using assms(6) unfolding select_Ok by blast
  have "digests_agree dp r2 a (fo_supported b)"
    unfolding digests_agree_def
  proof (intro ballI allI impI)
    fix e h assume e: "e \<in> set (fo_supported b)" and h: "map_of (fo_supported a) (fst e) = Some h"
    have "snd e = h" using honest_entries [OF assms(1,2) dig map_of_SomeD [OF h], of "snd e"] e by simp
    with e assms(2) show "h = snd e \<and> (\<forall>d. registry_get r2 (fst e) = Some d \<longrightarrow> definition_digest dp d = Ok h)"
      unfolding honest_offer_def by (metis option.inject prod.collapse)
  qed
  from select_agree_imp [OF honest_agree_on [OF assms(1,2) dig assms(3-5)] assms(6) this] show ?thesis .
qed

section \<open>Properties\<close>

text \<open>C14: two nodes that each offer what their own registry implements compute the same
  selection: one succeeds exactly when the other does, with identical features, limits and
  selection bytes, whatever their other features are. Equal definition digests stand for
  equal definitions.\<close>

theorem selection_agreement:
  assumes "bt_ok (fr_definitions r1)" and "bt_ok (fr_definitions r2)"
    and "registry_typed dns r1" and "registry_typed dns r2" and "faithful_digests dp r1 r2"
    and "node_offer dns dp r1 caller1 = Ok a" and "node_offer dns dp r2 caller2 = Ok b"
  shows "select dp enc r1 a b ra rb = Ok s \<longleftrightarrow> select dp enc r2 b a rb ra = Ok s"
proof -
  note h = node_offer_honest [OF assms(6,1)] node_offer_honest [OF assms(7,2)]
  show ?thesis
    using honest_select [OF h assms(5,3,4)] honest_select [OF h(2,1) faithful_digests_sym [OF assms(5)] assms(4,3)]
    by blast
qed

definition small_registry :: feature_registry where
  "small_registry = \<lparr>fr_definitions =
     [(builtin_tag ''features'' ''auth-ed25519-session'', builtin_entry sample_provider ''auth-ed25519-session'' [] [] []),
      (builtin_tag ''features'' ''session-core'', builtin_entry sample_provider ''session-core'' [''auth-ed25519-session''] [] [])]\<rparr>"

definition small_offer :: feature_offer where
  "small_offer =
     \<lparr>fo_supported = [(builtin_tag ''features'' ''auth-ed25519-session'', sample_digest ''auth-ed25519-session''),
        (builtin_tag ''features'' ''session-core'', sample_digest ''session-core'')],
      fo_required = [builtin_tag ''features'' ''auth-ed25519-session'', builtin_tag ''features'' ''session-core''],
      fo_limits = []\<rparr>"

lemma small_node_offer: "node_offer (\<lambda>_. True) sample_provider small_registry [] = Ok small_offer"
proof -
  have e: "offer_entries sample_provider (registry_iter small_registry) [] [] =
      Ok (fo_supported small_offer, fo_limits small_offer)"
    by (simp add: registry_iter_def small_registry_def definition_digest_def sample_provider_def
        feature_wire_def builtin_entry_def small_offer_def)
  have r: "required_session_features (\<lambda>_. True) = Ok (fo_required small_offer)"
    by (simp add: required_session_features_def builtin_parses small_offer_def)
  have f: "fold bs_insert (fo_required small_offer) (bs_of_list []) = fo_required small_offer"
    by (simp add: small_offer_def bs_of_list_def bs_insert_def)
  have c: "for_each (\<lambda>tag. if \<not> list_ex (\<lambda>(candidate, _). candidate = tag) (fo_supported small_offer)
      then Err (invalid_input ''required feature'') else Ok ()) (fo_required small_offer) = Ok ()"
    by (simp add: for_each_Ok) (simp add: small_offer_def)
  have n: "offer_new (fo_supported small_offer) (fo_required small_offer) (fo_limits small_offer) = Ok small_offer"
    by (simp add: small_offer_def offer_new_def check_capacity_def MAX_SUPPORTED_LABELS_def MAX_REQUIRED_LABELS_def
      MAX_NEGOTIATED_LIMITS_def check_required_def del: tag_accessors(4))
  show ?thesis by (simp add: node_offer_def e r f c n del: list_ex_key)
qed

lemma sample_typed: "registry_typed (\<lambda>_. True) sample_registry" "registry_typed (\<lambda>_. True) small_registry"
proof -
  have "parsed_tag (\<lambda>_. True) (builtin_tag ''features'' ''auth-ed25519-session'')"
    "parsed_tag (\<lambda>_. True) (builtin_tag ''features'' ''session-core'')"
    "parsed_tag (\<lambda>_. True) (builtin_tag ''limits'' ''data-body-bytes'')"
    unfolding parsed_tag_def using builtin_parses [of "\<lambda>_. True"]
    by (auto simp: feature_tag_parse_def category_parse_def and_then_Ok_iff split: if_split_asm)
  then show "registry_typed (\<lambda>_. True) sample_registry" "registry_typed (\<lambda>_. True) small_registry"
    by (simp_all add: registry_typed_def registry_get_def sample_registry_def small_registry_def builtin_entry_def
        definition_typed_def body_limit_def)
qed

lemma entry_digest:
  "definition_digest sample_provider (builtin_entry dp n deps protos lims) = Ok (take 32 (as_bytes (lit n) @ replicate 32 0))"
  by (simp add: definition_digest_def sample_provider_def feature_wire_def builtin_entry_def BUILTIN_DOMAIN_def)

lemma sample_faithful: "faithful_digests sample_provider sample_registry small_registry"
proof -
  let ?d = "\<lambda>n. take 32 (as_bytes (lit n) @ replicate 32 0)"
  have ne: "?d ''auth-ed25519-session'' \<noteq> ?d ''session-core''" "?d ''data-messages'' \<noteq> ?d ''session-core''"
    "?d ''data-messages'' \<noteq> ?d ''auth-ed25519-session''"
    by (simp_all add: replicate_def numeral_eq_Suc)
  have "d1 = d2"
    if "registry_get sample_registry t1 = Some d1" "registry_get small_registry t2 = Some d2"
      "definition_digest sample_provider d1 = definition_digest sample_provider d2" for t1 t2 d1 d2
    using that ne ne [symmetric] unfolding registry_get_def sample_registry_def small_registry_def
    by (auto simp only: feature_registry.select_convs map_of.simps fst_conv snd_conv fun_upd_apply entry_digest
        sum.inject option.inject option.distinct split: if_split_asm)
  then show ?thesis unfolding faithful_digests_def by metis
qed

lemma sample_select:
  "select sample_provider (\<lambda>_. Ok [7]) sample_registry sample_offer small_offer [] [] =
   Ok \<lparr>sel_features = [builtin_tag ''features'' ''auth-ed25519-session'', builtin_tag ''features'' ''session-core''],
       sel_limits = [], sel_bytes = [7]\<rparr>"
proof -
  let ?F = "[builtin_tag ''features'' ''auth-ed25519-session'', builtin_tag ''features'' ''session-core'']"
  have c: "common_labels sample_provider sample_registry small_offer (fo_supported sample_offer) [] = Ok ?F"
    by (simp add: sample_offer_def small_offer_def supported_digest_eq check_registry_digest_def registry_get_def
        sample_registry_def definition_digest_def sample_provider_def feature_wire_def builtin_entry_def bs_insert_def
        del: tag_accessors(4))
  have f: "dependency_fixpoint sample_registry ?F = ?F"
    by (subst dependency_fixpoint.simps)
      (simp add: retained_def registry_get_def sample_registry_def builtin_entry_def)
  have x: "check_selection_conflicts sample_registry ?F = Ok ()" "effective_limits sample_registry sample_offer small_offer ?F [] = Ok []"
    by (simp_all add: check_selection_conflicts_def registry_get_def sample_registry_def builtin_entry_def)
  show ?thesis by (simp only: select_def c f x and_then_simps Let_def)
      (simp add: check_selection_required_def bs_of_list_def)
qed

theorem selection_agreement_witness:
  "select sample_provider (\<lambda>_. Ok [7]) small_registry small_offer sample_offer [] [] =
   Ok \<lparr>sel_features = [builtin_tag ''features'' ''auth-ed25519-session'', builtin_tag ''features'' ''session-core''],
       sel_limits = [], sel_bytes = [7]\<rparr>"
proof -
  have "bt_ok (fr_definitions sample_registry)" "bt_ok (fr_definitions small_registry)"
    by (simp_all add: sample_registry_def small_registry_def bt_ok_def)
  from selection_agreement [OF this sample_typed sample_faithful sample_node_offer small_node_offer] sample_select
  show ?thesis by blast
qed

text \<open>C10: a successful selection is the greatest set of common labels that is closed under
  dependencies, in label order; it contains no conflicting pair and every label either side
  requires, and each effective limit is the smaller of the two offered values.\<close>

theorem selection_greatest:
  assumes "select dp enc r a b ra rb = Ok s"
  shows "sorted_wrt (<) (sel_features s) \<and> set (sel_features s) \<subseteq> common_set a b \<and>
    closed_labels r (set (sel_features s)) \<and>
    (\<forall>S. S \<subseteq> common_set a b \<longrightarrow> closed_labels r S \<longrightarrow> S \<subseteq> set (sel_features s)) \<and>
    (\<forall>t\<in>set (sel_features s). \<forall>d. registry_get r t = Some d \<longrightarrow> set (fd_conflicts d) \<inter> set (sel_features s) = {}) \<and>
    set ra \<union> set rb \<subseteq> set (sel_features s) \<and>
    (\<forall>k v. selection_limit s k = Some v \<longleftrightarrow>
       (\<exists>t\<in>set (sel_features s). \<exists>l\<in>set (mandatory_limits r t). ld_tag l = k) \<and>
       (\<exists>x y. limit_value a k = Some x \<and> limit_value b k = Some y \<and> v = min x y))"
proof -
  from assms obtain F where F: "sorted_wrt (<) F" "set F = closed_core r (common_set a b)"
    "\<forall>t\<in>set F. \<exists>d. registry_get r t = Some d \<and> set (fd_conflicts d) \<inter> set F = {}" "set ra \<union> set rb \<subseteq> set F"
    "\<forall>t\<in>set F. \<forall>l\<in>set (mandatory_limits r t). limit_value a (ld_tag l) \<noteq> None \<and> limit_value b (ld_tag l) \<noteq> None"
    "s = selection_of r a b F (sel_bytes s)"
    unfolding select_Ok by blast
  have f: "sel_features s = F" by (subst F(6)) (simp add: selection_of_def)
  have l: "selection_limit s k = (if \<exists>t\<in>set F. \<exists>l\<in>set (mandatory_limits r t). ld_tag l = k then Some (effective_value a b k) else None)" for k
    by (subst F(6)) (auto simp: selection_limit_def find_key selection_of_def fold_insert_fun)
  have v: "\<exists>x y. limit_value a k = Some x \<and> limit_value b k = Some y \<and> effective_value a b k = min x y"
    if k: "\<exists>t\<in>set F. \<exists>l\<in>set (mandatory_limits r t). ld_tag l = k" for k
  proof -
    obtain t l where "t \<in> set F" "l \<in> set (mandatory_limits r t)" "ld_tag l = k" using k by blast
    with F(5) obtain x y where "limit_value a k = Some x" "limit_value b k = Some y" by blast
    then show ?thesis by (simp add: effective_value_def)
  qed
  have g: "set F \<subseteq> common_set a b" "closed_labels r (set F)"
    "\<forall>S. S \<subseteq> common_set a b \<longrightarrow> closed_labels r S \<longrightarrow> S \<subseteq> set F"
    using closed_core_greatest closed_core_closed F(2) by simp_all
  have c: "\<forall>t\<in>set F. \<forall>d. registry_get r t = Some d \<longrightarrow> set (fd_conflicts d) \<inter> set F = {}"
    using F(3) by (metis option.inject)
  have "selection_limit s k = Some v \<longleftrightarrow> (\<exists>t\<in>set F. \<exists>l\<in>set (mandatory_limits r t). ld_tag l = k) \<and>
       (\<exists>x y. limit_value a k = Some x \<and> limit_value b k = Some y \<and> v = min x y)" for k v
  proof (cases "\<exists>t\<in>set F. \<exists>l\<in>set (mandatory_limits r t). ld_tag l = k")
    case True
    from v [OF True] show ?thesis using True by (auto simp only: l if_True option.inject)
  next
    case False
    then show ?thesis unfolding l by simp
  qed
  with F(1,4) g c show ?thesis unfolding f by blast
qed

theorem selection_greatest_witness:
  "closed_labels sample_registry {builtin_tag ''features'' ''auth-ed25519-session'', builtin_tag ''features'' ''session-core''} \<and>
   set (fo_required small_offer) \<subseteq> common_set sample_offer small_offer"
  using selection_greatest [OF sample_select] by (simp add: small_offer_def)

end
