(* ===== verification/Handshake.thy ===== *)
theory Handshake
  imports Feature_Selection Identifiers Wire_Prelude Signatures Canonical_Cbor
begin

text \<open>
  The authentication handshake (\<^verbatim>\<open>src/src/protocol/handshake.rs\<close>): one endpoint's state
  machine over canonical messages in strict lockstep, with the transcript both sides sign.
  \<open>handshake_codec\<close> holds the wire codecs of the message types (instances of
  \<open>Canonical_Cbor\<close>), the canonical form check, the header probe of the CBOR decoder, and the
  cryptographic primitives. The caller signs: a proof step takes the finished signature.
\<close>

section \<open>Modes, roles and errors\<close>

datatype role = Initiator | Responder

fun role_text :: "role \<Rightarrow> ustr" where
  "role_text Initiator = lit ''initiator''"
| "role_text Responder = lit ''responder''"

datatype handshake_mode = Join | Member

fun mode_text :: "handshake_mode \<Rightarrow> ustr" where
  "mode_text Join = lit ''join''"
| "mode_text Member = lit ''member''"

datatype handshake_error =
    Terminal | NonCanonical | UnknownField | HsMalformed string | RoleSwapped | Duplicate | OutOfOrder
  | IdentityEqual | UnexpectedCluster | ExpectedKeyConflict | ProofMismatch | Derivation | InvalidSignature
  | SelectionBytesMismatch | HsSelection selection_error | HsState string

fun handshake_error_into :: "handshake_error \<Rightarrow> error" where
  "handshake_error_into Terminal = authentication_failed ''handshake terminal''"
| "handshake_error_into NonCanonical = invalid_input ''handshake non-canonical''"
| "handshake_error_into UnknownField = invalid_input ''handshake unknown field''"
| "handshake_error_into (HsMalformed _) = invalid_input ''handshake malformed''"
| "handshake_error_into RoleSwapped = authentication_failed ''handshake role swapped''"
| "handshake_error_into Duplicate = authentication_failed ''handshake duplicate''"
| "handshake_error_into OutOfOrder = authentication_failed ''handshake out of order''"
| "handshake_error_into IdentityEqual = authentication_failed ''handshake identity equal''"
| "handshake_error_into UnexpectedCluster = authentication_failed ''handshake unexpected cluster''"
| "handshake_error_into ExpectedKeyConflict = authentication_failed ''handshake expected key conflict''"
| "handshake_error_into ProofMismatch = authentication_failed ''handshake proof mismatch''"
| "handshake_error_into Derivation = internal ''handshake proof derivation''"
| "handshake_error_into InvalidSignature = authentication_failed ''handshake session signature''"
| "handshake_error_into SelectionBytesMismatch = authentication_failed ''handshake selection mismatch''"
| "handshake_error_into (HsSelection inner) = selection_error_into inner"
| "handshake_error_into (HsState _) = invalid_input ''handshake state''"

definition mode_parse :: "ustr \<Rightarrow> handshake_error + handshake_mode" where
  "mode_parse value =
     (if value = lit ''join'' then Ok Join else if value = lit ''member'' then Ok Member
      else Err (HsMalformed ''handshake mode''))"

definition PROTOCOL_MAGIC :: ustr where "PROTOCOL_MAGIC = lit ''MRLY''"
definition PROTOCOL_POSITIONS :: nat where "PROTOCOL_POSITIONS = 5"
definition GENERATION_LEN :: nat where "GENERATION_LEN = 16"
definition NONCE_LEN :: nat where "NONCE_LEN = 32"
definition PUBLIC_KEY_LEN :: nat where "PUBLIC_KEY_LEN = 32"
definition SIGNATURE_LEN :: nat where "SIGNATURE_LEN = 64"

definition kind_number :: "handshake_kind \<Rightarrow> u64" where
  "kind_number kind = ucast (handshake_kind_id kind)"

definition SESSION_V1_RESPONDER_DOMAIN :: "byte list" where
  "SESSION_V1_RESPONDER_DOMAIN = as_bytes (lit ''radiata.woooo.tech/crypto/session-v1-responder'')"
definition SESSION_V1_INITIATOR_DOMAIN :: "byte list" where
  "SESSION_V1_INITIATOR_DOMAIN = as_bytes (lit ''radiata.woooo.tech/crypto/session-v1-initiator'')"

section \<open>Messages\<close>

record initiator_hello_wire =
  ih_kind :: u64
  ih_mode :: ustr
  ih_generation :: "byte list option"
  ih_cluster :: ustr
  ih_node_id :: ustr
  ih_public_key :: "byte list"
  ih_nonce :: "byte list"
  ih_offer :: "byte list"

record responder_hello_wire =
  rh_kind :: u64
  rh_cluster :: ustr
  rh_node_id :: ustr
  rh_public_key :: "byte list"
  rh_nonce :: "byte list"
  rh_offer :: "byte list"

record proof_wire =
  pw_kind :: u64
  pw_proof :: "byte list option"
  pw_signature :: "byte list"

record confirmation_wire =
  cw_kind :: u64
  cw_selection :: "byte list"

record grant_delivery_wire =
  gw_kind :: u64
  gw_grant :: "byte list"

record identity_wire =
  iw_node_id :: ustr
  iw_public_key :: "byte list"

record transcript_wire =
  tw_magic :: ustr
  tw_schema :: u64
  tw_mode :: ustr
  tw_generation :: "byte list option"
  tw_roles :: "ustr list"
  tw_cluster :: ustr
  tw_identities :: "identity_wire list"
  tw_nonces :: "byte list list"
  tw_offers :: "byte list list"
  tw_selection :: "byte list"
  tw_channel_binding :: "byte list"

text \<open>\<open>hc_probe\<close> reads the array header and the first integer of a message; \<open>None\<close> is a decoder
  error or an indefinite array.\<close>

record handshake_codec =
  hc_dns :: "ustr \<Rightarrow> bool"
  hc_sha :: "byte list \<Rightarrow> digest"
  hc_ed25519 :: "byte list \<Rightarrow> byte list \<Rightarrow> byte list \<Rightarrow> bool"
  hc_proofs :: proof_provider
  hc_digests :: digest_provider
  hc_canonical :: "byte list \<Rightarrow> bool"
  hc_probe :: "byte list \<Rightarrow> (nat \<times> u64) option"
  hc_initiator_hello :: "initiator_hello_wire wire_codec"
  hc_responder_hello :: "responder_hello_wire wire_codec"
  hc_proof :: "proof_wire wire_codec"
  hc_confirmation :: "confirmation_wire wire_codec"
  hc_grant :: "grant_delivery_wire wire_codec"
  hc_transcript :: "transcript_wire \<Rightarrow> byte list result"
  hc_selection :: "selection_wire \<Rightarrow> byte list result"
  hc_offer_encode :: "offer_wire_record \<Rightarrow> byte list result"
  hc_offer_decode :: "byte list \<Rightarrow> offer_wire_record result"

definition probe :: "handshake_codec \<Rightarrow> byte list \<Rightarrow> handshake_error + (nat \<times> handshake_kind)" where
  "probe c bytes =
     and_then (ok_or (hc_probe c bytes) (HsMalformed ''handshake message'')) (\<lambda>(arity, kind).
     and_then (ok_or (find (\<lambda>handshake. kind_number handshake = kind) handshake_kinds)
         (HsMalformed ''handshake message kind'')) (\<lambda>handshake.
       Ok (arity, handshake)))"

fun position_sender :: "handshake_kind \<Rightarrow> role" where
  "position_sender InitiatorHello = Initiator"
| "position_sender InitiatorProof = Initiator"
| "position_sender _ = Responder"

definition decode_wire :: "'a wire_codec \<Rightarrow> byte list \<Rightarrow> handshake_error + 'a" where
  "decode_wire wc bytes =
     map_err (wc_decode wc bytes) (\<lambda>failure. case failure of
         DecodeFailure _ \<Rightarrow> HsMalformed ''handshake message decode''
       | NonCanonicalFailure \<Rightarrow> NonCanonical)"

definition fixed_bytes :: "nat \<Rightarrow> byte list \<Rightarrow> string \<Rightarrow> handshake_error + byte list" where
  "fixed_bytes n bytes ctx = (if length bytes = n then Ok bytes else Err (HsMalformed ctx))"

definition optional_bytes :: "nat \<Rightarrow> byte list option \<Rightarrow> string \<Rightarrow> handshake_error + byte list option" where
  "optional_bytes n value ctx =
     (case value of None \<Rightarrow> Ok None | Some bytes \<Rightarrow> and_then (fixed_bytes n bytes ctx) (\<lambda>b. Ok (Some b)))"

section \<open>Endpoint state\<close>

record handshake_config =
  hg_mode :: handshake_mode
  hg_role :: role
  hg_cluster :: ustr
  hg_local_id :: ustr
  hg_local_key :: "byte list"
  hg_expected_peer :: "(ustr \<times> byte list) option"
  hg_generation :: "byte list option"
  hg_credential :: "byte list option"
  hg_local_nonce :: "byte list"
  hg_local_offer :: feature_offer
  hg_channel_binding :: "byte list"

record hello_view =
  hv_node_id :: ustr
  hv_public_key :: "byte list"
  hv_nonce :: "byte list"
  hv_offer_bytes :: "byte list"
  hv_offer :: feature_offer

record handshake =
  hs_config :: handshake_config
  hs_registry :: feature_registry
  hs_completed :: nat
  hs_local_view :: hello_view
  hs_peer_hello :: "hello_view option"
  hs_selection :: "selection option"
  hs_transcript :: "byte list option"
  hs_grant_sent :: bool
  hs_grant :: "byte list option"

definition handshake_new ::
  "handshake_codec \<Rightarrow> handshake_config \<Rightarrow> feature_registry \<Rightarrow> handshake_error + handshake" where
  "handshake_new c config registry =
     and_then (case hg_mode config of
         Join \<Rightarrow>
           if hg_generation config = None \<or> hg_credential config = None
           then Err (HsMalformed ''handshake join inputs'') else Ok ()
       | Member \<Rightarrow>
           if hg_generation config \<noteq> None \<or> hg_credential config \<noteq> None \<or> hg_expected_peer config = None
           then Err (HsMalformed ''handshake member inputs'') else Ok ()) (\<lambda>_.
     and_then (map_err (validate_limits registry (hg_local_offer config)) (\<lambda>_. HsMalformed ''handshake local offer'')) (\<lambda>_.
     and_then (map_err (offer_encode (hc_offer_encode c) (hg_local_offer config))
         (\<lambda>_. HsMalformed ''handshake local offer'')) (\<lambda>offer_bytes.
       Ok \<lparr>hs_config = config, hs_registry = registry, hs_completed = 0,
           hs_local_view = \<lparr>hv_node_id = hg_local_id config, hv_public_key = hg_local_key config,
             hv_nonce = hg_local_nonce config, hv_offer_bytes = offer_bytes, hv_offer = hg_local_offer config\<rparr>,
           hs_peer_hello = None, hs_selection = None, hs_transcript = None, hs_grant_sent = False, hs_grant = None\<rparr>)))"

definition is_authenticated :: "handshake \<Rightarrow> bool" where
  "is_authenticated h = (hs_completed h = PROTOCOL_POSITIONS)"

definition transcript_digest :: "handshake_codec \<Rightarrow> handshake \<Rightarrow> digest option" where
  "transcript_digest c h = map_option (body_digest (hc_sha c)) (hs_transcript h)"

definition selected_features :: "handshake \<Rightarrow> qualified_tag list option" where
  "selected_features h = map_option sel_features (hs_selection h)"

definition peer_identity :: "handshake \<Rightarrow> (ustr \<times> byte list) option" where
  "peer_identity h = map_option (\<lambda>hello. (hv_node_id hello, hv_public_key hello)) (hs_peer_hello h)"

definition responder_session_message :: "handshake_codec \<Rightarrow> byte list \<Rightarrow> byte list" where
  "responder_session_message c transcript = signature_message (hc_sha c) SESSION_V1_RESPONDER_DOMAIN transcript"

definition initiator_session_message :: "handshake_codec \<Rightarrow> byte list \<Rightarrow> byte list" where
  "initiator_session_message c transcript = signature_message (hc_sha c) SESSION_V1_INITIATOR_DOMAIN transcript"

section \<open>Sending\<close>

definition begin_send :: "handshake \<Rightarrow> handshake_kind \<Rightarrow> role \<Rightarrow> handshake_error + unit" where
  "begin_send h kind sender =
     (if hg_role (hs_config h) \<noteq> sender then Err (HsState ''handshake send role'')
      else if hs_completed h + 1 \<noteq> handshake_position kind then Err (HsState ''handshake send order'')
      else Ok ())"

definition finish_send :: "'a wire_codec \<Rightarrow> handshake \<Rightarrow> 'a \<Rightarrow> handshake \<times> (handshake_error + byte list)" where
  "finish_send wc h wire =
     (case wc_encode wc wire of
        Inl _ \<Rightarrow> (h, Err (HsMalformed ''handshake encode''))
      | Inr bytes \<Rightarrow> (h\<lparr>hs_completed := hs_completed h + 1\<rparr>, Ok bytes))"

definition initiator_hello :: "handshake_codec \<Rightarrow> handshake \<Rightarrow> handshake \<times> (handshake_error + byte list)" where
  "initiator_hello c h =
     (case begin_send h InitiatorHello Initiator of
        Inl e \<Rightarrow> (h, Err e)
      | Inr _ \<Rightarrow>
          finish_send (hc_initiator_hello c) h
            \<lparr>ih_kind = kind_number InitiatorHello, ih_mode = mode_text (hg_mode (hs_config h)),
             ih_generation = hg_generation (hs_config h), ih_cluster = hg_cluster (hs_config h),
             ih_node_id = hg_local_id (hs_config h), ih_public_key = hg_local_key (hs_config h),
             ih_nonce = hg_local_nonce (hs_config h), ih_offer = hv_offer_bytes (hs_local_view h)\<rparr>)"

definition responder_hello :: "handshake_codec \<Rightarrow> handshake \<Rightarrow> handshake \<times> (handshake_error + byte list)" where
  "responder_hello c h =
     (case begin_send h ResponderHello Responder of
        Inl e \<Rightarrow> (h, Err e)
      | Inr _ \<Rightarrow>
          finish_send (hc_responder_hello c) h
            \<lparr>rh_kind = kind_number ResponderHello, rh_cluster = hg_cluster (hs_config h),
             rh_node_id = hg_local_id (hs_config h), rh_public_key = hg_local_key (hs_config h),
             rh_nonce = hg_local_nonce (hs_config h), rh_offer = hv_offer_bytes (hs_local_view h)\<rparr>)"

definition derive_local_proof :: "handshake_codec \<Rightarrow> handshake \<Rightarrow> proof_role \<Rightarrow> handshake_error + byte list option" where
  "derive_local_proof c h role =
     (case hg_mode (hs_config h) of
        Member \<Rightarrow> Ok None
      | Join \<Rightarrow>
          and_then (ok_or (hg_credential (hs_config h)) (HsState ''handshake credential'')) (\<lambda>secret.
          and_then (ok_or (transcript_digest c h) (HsState ''handshake transcript'')) (\<lambda>digest.
          and_then (map_err (derive_proof (hc_proofs c) role (hg_channel_binding (hs_config h)) secret digest)
              (\<lambda>_. Derivation)) (\<lambda>p. Ok (Some p)))))"

definition send_proof ::
  "handshake_codec \<Rightarrow> handshake_kind \<Rightarrow> role \<Rightarrow> proof_role \<Rightarrow> handshake \<Rightarrow> byte list \<Rightarrow> handshake \<times> (handshake_error + byte list)" where
  "send_proof c kind sender role h signature =
     (case begin_send h kind sender of
        Inl e \<Rightarrow> (h, Err e)
      | Inr _ \<Rightarrow>
          (case derive_local_proof c h role of
             Inl e \<Rightarrow> (h, Err e)
           | Inr p \<Rightarrow> finish_send (hc_proof c) h \<lparr>pw_kind = kind_number kind, pw_proof = p, pw_signature = signature\<rparr>))"

definition responder_proof ::
  "handshake_codec \<Rightarrow> handshake \<Rightarrow> byte list \<Rightarrow> handshake \<times> (handshake_error + byte list)" where
  "responder_proof c = send_proof c ResponderProof Responder ResponderRole"

definition initiator_proof ::
  "handshake_codec \<Rightarrow> handshake \<Rightarrow> byte list \<Rightarrow> handshake \<times> (handshake_error + byte list)" where
  "initiator_proof c = send_proof c InitiatorProof Initiator InitiatorRole"

definition selection_confirmation :: "handshake_codec \<Rightarrow> handshake \<Rightarrow> handshake \<times> (handshake_error + byte list)" where
  "selection_confirmation c h =
     (case begin_send h SelectionConfirmation Responder of
        Inl e \<Rightarrow> (h, Err e)
      | Inr _ \<Rightarrow>
          (case hs_selection h of
             None \<Rightarrow> (h, Err (HsState ''handshake selection''))
           | Some selection \<Rightarrow>
               finish_send (hc_confirmation c) h
                 \<lparr>cw_kind = kind_number SelectionConfirmation, cw_selection = sel_bytes selection\<rparr>))"

definition admission_grant_delivery ::
  "handshake_codec \<Rightarrow> handshake \<Rightarrow> byte list \<Rightarrow> handshake \<times> (handshake_error + byte list)" where
  "admission_grant_delivery c h grant =
     (if hg_role (hs_config h) \<noteq> Responder then (h, Err (HsState ''handshake send role''))
      else if hg_mode (hs_config h) \<noteq> Join then (h, Err (HsState ''handshake grant mode''))
      else if \<not> is_authenticated h then (h, Err (HsState ''handshake grant order''))
      else if hs_grant_sent h then (h, Err (HsState ''handshake grant duplicate''))
      else if grant = [] then (h, Err (HsMalformed ''handshake grant''))
      else case wc_encode (hc_grant c) \<lparr>gw_kind = kind_number AdmissionGrantDelivery, gw_grant = grant\<rparr> of
             Inl _ \<Rightarrow> (h, Err (HsMalformed ''handshake encode''))
           | Inr bytes \<Rightarrow> (h\<lparr>hs_grant_sent := True\<rparr>, Ok bytes))"

section \<open>Receiving\<close>

definition identity_of :: "hello_view \<Rightarrow> identity_wire" where
  "identity_of view = \<lparr>iw_node_id = hv_node_id view, iw_public_key = hv_public_key view\<rparr>"

definition assemble_transcript ::
  "handshake_codec \<Rightarrow> handshake_mode \<Rightarrow> byte list option \<Rightarrow> ustr \<Rightarrow> hello_view \<Rightarrow> hello_view \<Rightarrow> byte list \<Rightarrow> byte list \<Rightarrow>
   handshake_error + byte list" where
  "assemble_transcript c mode generation cluster initiator responder selection channel_binding =
     map_err (hc_transcript c
       \<lparr>tw_magic = PROTOCOL_MAGIC, tw_schema = ucast BASE_SCHEMA_ID, tw_mode = mode_text mode, tw_generation = generation,
        tw_roles = [role_text Initiator, role_text Responder], tw_cluster = cluster,
        tw_identities = [identity_of initiator, identity_of responder],
        tw_nonces = [hv_nonce initiator, hv_nonce responder],
        tw_offers = [hv_offer_bytes initiator, hv_offer_bytes responder],
        tw_selection = selection, tw_channel_binding = channel_binding\<rparr>)
       (\<lambda>_. HsMalformed ''handshake transcript'')"

definition finalize_hellos :: "handshake_codec \<Rightarrow> handshake \<Rightarrow> handshake \<times> (handshake_error + unit)" where
  "finalize_hellos c h =
     (case hs_peer_hello h of
        None \<Rightarrow> (h, Err (HsState ''handshake peer hello''))
      | Some peer \<Rightarrow>
          (case select (hc_digests c) (hc_selection c) (hs_registry h) (hv_offer (hs_local_view h)) (hv_offer peer)
                  (fo_required (hv_offer (hs_local_view h))) (fo_required (hv_offer peer)) of
             Inl e \<Rightarrow> (h, Err (HsSelection e))
           | Inr selection \<Rightarrow>
               (let (initiator, responder) = (case hg_role (hs_config h) of
                      Initiator \<Rightarrow> (hs_local_view h, peer) | Responder \<Rightarrow> (peer, hs_local_view h))
                in case assemble_transcript c (hg_mode (hs_config h)) (hg_generation (hs_config h)) (hg_cluster (hs_config h))
                          initiator responder (sel_bytes selection) (hg_channel_binding (hs_config h)) of
                     Inl e \<Rightarrow> (h, Err e)
                   | Inr transcript \<Rightarrow> (h\<lparr>hs_selection := Some selection, hs_transcript := Some transcript\<rparr>, Ok ()))))"

definition check_peer_hello ::
  "handshake_codec \<Rightarrow> handshake \<Rightarrow> ustr \<Rightarrow> ustr \<Rightarrow> byte list \<Rightarrow> byte list \<Rightarrow> byte list \<Rightarrow> handshake_error + hello_view" where
  "check_peer_hello c h cluster_text node_text key_bytes nonce_bytes offer_bytes =
     and_then (map_err (id_parse ClusterId cluster_text) (\<lambda>_. HsMalformed ''handshake cluster'')) (\<lambda>cluster.
     and_then (map_err (id_parse NodeId node_text) (\<lambda>_. HsMalformed ''handshake node id'')) (\<lambda>node_id.
     and_then (fixed_bytes PUBLIC_KEY_LEN key_bytes ''handshake public key'') (\<lambda>public_key.
     and_then (fixed_bytes NONCE_LEN nonce_bytes ''handshake nonce'') (\<lambda>nonce.
     if cluster \<noteq> hg_cluster (hs_config h) then Err UnexpectedCluster
     else if node_id = hg_local_id (hs_config h) \<or> public_key = hg_local_key (hs_config h) then Err IdentityEqual
     else if (case hg_expected_peer (hs_config h) of
                None \<Rightarrow> False | Some (expected_id, expected_key) \<Rightarrow> expected_id \<noteq> node_id \<or> expected_key \<noteq> public_key)
     then Err ExpectedKeyConflict
     else and_then (map_err (offer_decode (hc_dns c) (hc_offer_decode c) (hs_registry h) offer_bytes)
            (\<lambda>_. HsMalformed ''handshake offer'')) (\<lambda>offer.
       Ok \<lparr>hv_node_id = node_id, hv_public_key = public_key, hv_nonce = nonce, hv_offer_bytes = offer_bytes,
           hv_offer = offer\<rparr>)))))"

definition accept_peer_hello ::
  "handshake_codec \<Rightarrow> handshake \<Rightarrow> ustr \<Rightarrow> ustr \<Rightarrow> byte list \<Rightarrow> byte list \<Rightarrow> byte list \<Rightarrow> handshake \<times> (handshake_error + unit)" where
  "accept_peer_hello c h cluster_text node_text key_bytes nonce_bytes offer_bytes =
     (case check_peer_hello c h cluster_text node_text key_bytes nonce_bytes offer_bytes of
        Inl e \<Rightarrow> (h, Err e)
      | Inr peer \<Rightarrow> finalize_hellos c (h\<lparr>hs_peer_hello := Some peer\<rparr>))"

definition receive_initiator_hello :: "handshake_codec \<Rightarrow> handshake \<Rightarrow> byte list \<Rightarrow> handshake \<times> (handshake_error + unit)" where
  "receive_initiator_hello c h bytes =
     (case decode_wire (hc_initiator_hello c) bytes of
        Inl e \<Rightarrow> (h, Err e)
      | Inr wire \<Rightarrow>
          (case mode_parse (ih_mode wire) of
             Inl e \<Rightarrow> (h, Err e)
           | Inr mode \<Rightarrow>
               if mode \<noteq> hg_mode (hs_config h) then (h, Err (HsMalformed ''handshake mode''))
               else case optional_bytes GENERATION_LEN (ih_generation wire) ''handshake generation'' of
                      Inl e \<Rightarrow> (h, Err e)
                    | Inr generation \<Rightarrow>
                        if (case (hg_mode (hs_config h), generation, hg_generation (hs_config h)) of
                              (Join, Some actual, Some expected) \<Rightarrow> actual = expected
                            | (Member, None, None) \<Rightarrow> True
                            | _ \<Rightarrow> False)
                        then accept_peer_hello c h (ih_cluster wire) (ih_node_id wire) (ih_public_key wire) (ih_nonce wire) (ih_offer wire)
                        else (h, Err (HsMalformed ''handshake generation''))))"

definition receive_responder_hello :: "handshake_codec \<Rightarrow> handshake \<Rightarrow> byte list \<Rightarrow> handshake \<times> (handshake_error + unit)" where
  "receive_responder_hello c h bytes =
     (case decode_wire (hc_responder_hello c) bytes of
        Inl e \<Rightarrow> (h, Err e)
      | Inr wire \<Rightarrow>
          accept_peer_hello c h (rh_cluster wire) (rh_node_id wire) (rh_public_key wire) (rh_nonce wire) (rh_offer wire))"

definition receive_proof ::
  "handshake_codec \<Rightarrow> handshake \<Rightarrow> byte list \<Rightarrow> byte list \<Rightarrow> proof_role \<Rightarrow> handshake_error + unit" where
  "receive_proof c h bytes domain role =
     and_then (decode_wire (hc_proof c) bytes) (\<lambda>wire.
     and_then (optional_bytes PROOF_LEN (pw_proof wire) ''handshake proof'') (\<lambda>p.
     and_then (case (hg_mode (hs_config h), p) of
         (Join, Some actual) \<Rightarrow>
           and_then (ok_or (hg_credential (hs_config h)) (HsState ''handshake credential'')) (\<lambda>secret.
           and_then (ok_or (transcript_digest c h) (HsState ''handshake transcript'')) (\<lambda>digest.
           and_then (map_err (verify_proof (hc_proofs c) role (hg_channel_binding (hs_config h)) secret digest actual)
               (\<lambda>_. Derivation)) (\<lambda>verified.
             if \<not> verified then Err ProofMismatch else Ok ())))
       | (Join, None) \<Rightarrow> Err (HsMalformed ''handshake proof'')
       | (Member, None) \<Rightarrow> Ok ()
       | (Member, Some _) \<Rightarrow> Err (HsMalformed ''handshake proof field'')) (\<lambda>_.
     and_then (fixed_bytes SIGNATURE_LEN (pw_signature wire) ''handshake signature'') (\<lambda>signature.
     and_then (ok_or (hs_peer_hello h) (HsState ''handshake peer hello'')) (\<lambda>peer.
     and_then (ok_or (hs_transcript h) (HsState ''handshake transcript'')) (\<lambda>transcript.
       map_err (verify_strict (hc_sha c) (hc_ed25519 c) domain transcript (hv_public_key peer) signature
           ''handshake session signature'') (\<lambda>_. InvalidSignature)))))))"

definition receive_confirmation :: "handshake_codec \<Rightarrow> handshake \<Rightarrow> byte list \<Rightarrow> handshake_error + unit" where
  "receive_confirmation c h bytes =
     and_then (decode_wire (hc_confirmation c) bytes) (\<lambda>wire.
     and_then (ok_or (hs_selection h) (HsState ''handshake selection'')) (\<lambda>selection.
       if cw_selection wire \<noteq> sel_bytes selection then Err SelectionBytesMismatch else Ok ()))"

definition receive_grant_delivery :: "handshake_codec \<Rightarrow> handshake \<Rightarrow> byte list \<Rightarrow> handshake \<times> (handshake_error + unit)" where
  "receive_grant_delivery c h bytes =
     (if hg_mode (hs_config h) \<noteq> Join then (h, Err (HsMalformed ''handshake grant mode''))
      else if \<not> is_authenticated h then (h, Err OutOfOrder)
      else if hs_grant h \<noteq> None then (h, Err Duplicate)
      else case decode_wire (hc_grant c) bytes of
             Inl e \<Rightarrow> (h, Err e)
           | Inr wire \<Rightarrow>
               if gw_grant wire = [] then (h, Err (HsMalformed ''handshake grant''))
               else (h\<lparr>hs_grant := Some (gw_grant wire)\<rparr>, Ok ()))"

text \<open>A position-1 to 5 message in its turn; the state it leaves is kept on errors too.
  \<open>receive\<close> has taken a grant delivery before, so that branch (unreachable in the code) never runs.\<close>

definition receive_position ::
  "handshake_codec \<Rightarrow> handshake \<Rightarrow> handshake_kind \<Rightarrow> byte list \<Rightarrow> handshake \<times> (handshake_error + unit)" where
  "receive_position c h kind bytes =
     (case kind of
        InitiatorHello \<Rightarrow> receive_initiator_hello c h bytes
      | ResponderHello \<Rightarrow> receive_responder_hello c h bytes
      | ResponderProof \<Rightarrow> (h, receive_proof c h bytes SESSION_V1_RESPONDER_DOMAIN ResponderRole)
      | InitiatorProof \<Rightarrow> (h, receive_proof c h bytes SESSION_V1_INITIATOR_DOMAIN InitiatorRole)
      | SelectionConfirmation \<Rightarrow> (h, receive_confirmation c h bytes)
      | AdmissionGrantDelivery \<Rightarrow> receive_grant_delivery c h bytes)"

definition receive :: "handshake_codec \<Rightarrow> handshake \<Rightarrow> byte list \<Rightarrow> handshake \<times> (handshake_error + unit)" where
  "receive c h bytes =
     (if \<not> hc_canonical c bytes then (h, Err NonCanonical)
      else case probe c bytes of
        Inl e \<Rightarrow> (h, Err e)
      | Inr (arity, kind) \<Rightarrow>
          if arity \<noteq> handshake_arity kind then (h, Err UnknownField)
          else if position_sender kind = hg_role (hs_config h) then (h, Err RoleSwapped)
          else if kind = AdmissionGrantDelivery then receive_grant_delivery c h bytes
          else if hs_completed h \<ge> PROTOCOL_POSITIONS then (h, Err Terminal)
          else if handshake_position kind \<le> hs_completed h then (h, Err Duplicate)
          else if handshake_position kind > hs_completed h + 1 then (h, Err OutOfOrder)
          else case receive_position c h kind bytes of
                 (h', Inl e) \<Rightarrow> (h', Err e)
               | (h', Inr _) \<Rightarrow> (h'\<lparr>hs_completed := hs_completed h' + 1\<rparr>, Ok ()))"

section \<open>Peeking the first message\<close>

record initiator_hello_peek =
  ip_mode :: handshake_mode
  ip_generation :: "byte list option"
  ip_cluster :: ustr
  ip_node_id :: ustr
  ip_public_key :: "byte list"

definition peek_initiator_hello :: "handshake_codec \<Rightarrow> byte list \<Rightarrow> handshake_error + initiator_hello_peek" where
  "peek_initiator_hello c bytes =
     (if \<not> hc_canonical c bytes then Err NonCanonical
      else
        and_then (decode_wire (hc_initiator_hello c) bytes) (\<lambda>wire.
        if ih_kind wire \<noteq> kind_number InitiatorHello then Err (HsMalformed ''handshake message kind'')
        else
        and_then (mode_parse (ih_mode wire)) (\<lambda>mode.
        and_then (optional_bytes GENERATION_LEN (ih_generation wire) ''handshake generation'') (\<lambda>generation.
        and_then (map_err (id_parse ClusterId (ih_cluster wire)) (\<lambda>_. HsMalformed ''handshake cluster'')) (\<lambda>cluster.
        and_then (map_err (id_parse NodeId (ih_node_id wire)) (\<lambda>_. HsMalformed ''handshake node id'')) (\<lambda>node_id.
        and_then (fixed_bytes PUBLIC_KEY_LEN (ih_public_key wire) ''handshake public key'') (\<lambda>public_key.
          Ok \<lparr>ip_mode = mode, ip_generation = generation, ip_cluster = cluster, ip_node_id = node_id,
              ip_public_key = public_key\<rparr>)))))))"

end
