(* ===== verification/Handshake_Safety.thy ===== *)
theory Handshake_Safety
  imports Handshake
begin

text \<open>
  What the handshake of \<^verbatim>\<open>src/src/protocol/handshake.rs\<close> guarantees. \<open>handshake_step\<close> lets an
  endpoint run any send operation and receive any bytes, in any order and whatever each call
  returns; \<open>handshake_inv\<close> holds in every state it can reach. From it follow the lockstep order
  and what an accepted proof has checked; two endpoints with one transcript agree on the session.
\<close>

section \<open>Reachable states\<close>

inductive handshake_step :: "handshake_codec \<Rightarrow> handshake \<Rightarrow> handshake \<Rightarrow> bool" for c where
  step_initiator_hello: "initiator_hello c h = (h', r) \<Longrightarrow> handshake_step c h h'"
| step_responder_hello: "responder_hello c h = (h', r) \<Longrightarrow> handshake_step c h h'"
| step_responder_proof: "responder_proof c h signature = (h', r) \<Longrightarrow> handshake_step c h h'"
| step_initiator_proof: "initiator_proof c h signature = (h', r) \<Longrightarrow> handshake_step c h h'"
| step_confirmation: "selection_confirmation c h = (h', r) \<Longrightarrow> handshake_step c h h'"
| step_grant: "admission_grant_delivery c h grant = (h', r) \<Longrightarrow> handshake_step c h h'"
| step_receive: "receive c h bytes = (h', u) \<Longrightarrow> handshake_step c h h'"

inductive handshake_reach :: "handshake_codec \<Rightarrow> handshake \<Rightarrow> bool" for c where
  reach_new: "handshake_new c config registry = Ok h \<Longrightarrow> handshake_reach c h"
| reach_step: "handshake_reach c h \<Longrightarrow> handshake_step c h h' \<Longrightarrow> handshake_reach c h'"

section \<open>The invariant\<close>

fun hello_turn :: "role \<Rightarrow> nat" where
  "hello_turn Initiator = 2"
| "hello_turn Responder = 1"

fun proof_turn :: "role \<Rightarrow> nat" where
  "proof_turn Initiator = 3"
| "proof_turn Responder = 4"

fun peer_domain :: "role \<Rightarrow> byte list" where
  "peer_domain Initiator = SESSION_V1_RESPONDER_DOMAIN"
| "peer_domain Responder = SESSION_V1_INITIATOR_DOMAIN"

fun peer_proof_role :: "role \<Rightarrow> proof_role" where
  "peer_proof_role Initiator = ResponderRole"
| "peer_proof_role Responder = InitiatorRole"

definition inputs_ok :: "handshake_config \<Rightarrow> bool" where
  "inputs_ok g \<longleftrightarrow>
     (case hg_mode g of
        Join \<Rightarrow> hg_generation g \<noteq> None \<and> hg_credential g \<noteq> None
      | Member \<Rightarrow> hg_generation g = None \<and> hg_credential g = None \<and> hg_expected_peer g \<noteq> None)"

definition view_ok :: "handshake \<Rightarrow> bool" where
  "view_ok h \<longleftrightarrow> hv_node_id (hs_local_view h) = hg_local_id (hs_config h) \<and>
     hv_public_key (hs_local_view h) = hg_local_key (hs_config h) \<and> hv_nonce (hs_local_view h) = hg_local_nonce (hs_config h) \<and>
     hv_offer (hs_local_view h) = hg_local_offer (hs_config h)"

definition peer_ok :: "handshake_codec \<Rightarrow> handshake \<Rightarrow> hello_view \<Rightarrow> bool" where
  "peer_ok c h peer \<longleftrightarrow>
     id_parse NodeId (hv_node_id peer) = Ok (hv_node_id peer) \<and> length (hv_public_key peer) = PUBLIC_KEY_LEN \<and>
     length (hv_nonce peer) = NONCE_LEN \<and> hv_node_id peer \<noteq> hg_local_id (hs_config h) \<and>
     hv_public_key peer \<noteq> hg_local_key (hs_config h) \<and>
     (\<forall>b. hg_expected_peer (hs_config h) = Some b \<longrightarrow> b = (hv_node_id peer, hv_public_key peer)) \<and>
     offer_decode (hc_dns c) (hc_offer_decode c) (hs_registry h) (hv_offer_bytes peer) = Ok (hv_offer peer)"

text \<open>The transcript an endpoint assembles from a peer hello and a selection.\<close>

fun role_views :: "role \<Rightarrow> 'a \<Rightarrow> 'a \<Rightarrow> 'a \<times> 'a" where
  "role_views Initiator own peer = (own, peer)"
| "role_views Responder own peer = (peer, own)"

definition transcript_of :: "handshake_codec \<Rightarrow> handshake \<Rightarrow> hello_view \<Rightarrow> selection \<Rightarrow> handshake_error + byte list" where
  "transcript_of c h peer s =
     (case role_views (hg_role (hs_config h)) (hs_local_view h) peer of (initiator, responder) \<Rightarrow>
        assemble_transcript c (hg_mode (hs_config h)) (hg_generation (hs_config h)) (hg_cluster (hs_config h))
          initiator responder (sel_bytes s) (hg_channel_binding (hs_config h)))"

definition hello_select :: "handshake_codec \<Rightarrow> handshake \<Rightarrow> hello_view \<Rightarrow> selection_error + selection" where
  "hello_select c h peer =
     select (hc_digests c) (hc_selection c) (hs_registry h) (hv_offer (hs_local_view h)) (hv_offer peer)
       (fo_required (hv_offer (hs_local_view h))) (fo_required (hv_offer peer))"

definition hellos_ok :: "handshake_codec \<Rightarrow> handshake \<Rightarrow> bool" where
  "hellos_ok c h \<longleftrightarrow>
     (\<exists>peer s t. hs_peer_hello h = Some peer \<and> peer_ok c h peer \<and> hs_selection h = Some s \<and>
        hs_transcript h = Some t \<and> hello_select c h peer = Ok s \<and> transcript_of c h peer s = Ok t)"

definition proof_ok :: "handshake_codec \<Rightarrow> handshake \<Rightarrow> bool" where
  "proof_ok c h \<longleftrightarrow>
     (\<exists>bytes. receive_proof c h bytes (peer_domain (hg_role (hs_config h))) (peer_proof_role (hg_role (hs_config h))) = Ok ())"

definition grant_ok :: "handshake \<Rightarrow> bool" where
  "grant_ok h \<longleftrightarrow>
     (hs_grant h \<noteq> None \<longrightarrow> hg_mode (hs_config h) = Join \<and> hg_role (hs_config h) = Initiator \<and> is_authenticated h) \<and>
     (hs_grant_sent h \<longrightarrow> hg_mode (hs_config h) = Join \<and> hg_role (hs_config h) = Responder \<and> is_authenticated h)"

definition handshake_inv :: "handshake_codec \<Rightarrow> handshake \<Rightarrow> bool" where
  "handshake_inv c h \<longleftrightarrow>
     inputs_ok (hs_config h) \<and> view_ok h \<and> hs_completed h \<le> PROTOCOL_POSITIONS \<and>
     (hello_turn (hg_role (hs_config h)) \<le> hs_completed h \<longrightarrow> hellos_ok c h) \<and>
     (hs_transcript h \<noteq> None \<longrightarrow> hello_turn (hg_role (hs_config h)) \<le> hs_completed h) \<and>
     (proof_turn (hg_role (hs_config h)) \<le> hs_completed h \<longrightarrow> proof_ok c h) \<and> grant_ok h"

lemma handshake_invD:
  assumes "handshake_inv c h"
  shows "inputs_ok (hs_config h)" and "view_ok h" and "hs_completed h \<le> PROTOCOL_POSITIONS" and "grant_ok h"
    and "hello_turn (hg_role (hs_config h)) \<le> hs_completed h \<Longrightarrow> hellos_ok c h"
    and "hs_transcript h \<noteq> None \<Longrightarrow> hello_turn (hg_role (hs_config h)) \<le> hs_completed h"
    and "proof_turn (hg_role (hs_config h)) \<le> hs_completed h \<Longrightarrow> proof_ok c h"
  using assms by (simp_all add: handshake_inv_def)

section \<open>Frame lemmas\<close>

lemma receive_proof_cong:
  assumes "hs_config h' = hs_config h" and "hs_peer_hello h' = hs_peer_hello h" and "hs_transcript h' = hs_transcript h"
  shows "receive_proof c h' = receive_proof c h"
  unfolding receive_proof_def [abs_def] transcript_digest_def assms ..

lemma checks_frame [simp]:
  "peer_ok c (h\<lparr>hs_completed := n\<rparr>) = peer_ok c h" "hellos_ok c (h\<lparr>hs_completed := n\<rparr>) = hellos_ok c h"
  "proof_ok c (h\<lparr>hs_completed := n\<rparr>) = proof_ok c h" "view_ok (h\<lparr>hs_completed := n\<rparr>) = view_ok h"
  "peer_ok c (h\<lparr>hs_grant := g\<rparr>) = peer_ok c h" "hellos_ok c (h\<lparr>hs_grant := g\<rparr>) = hellos_ok c h"
  "proof_ok c (h\<lparr>hs_grant := g\<rparr>) = proof_ok c h" "view_ok (h\<lparr>hs_grant := g\<rparr>) = view_ok h"
  "peer_ok c (h\<lparr>hs_grant_sent := b\<rparr>) = peer_ok c h" "hellos_ok c (h\<lparr>hs_grant_sent := b\<rparr>) = hellos_ok c h"
  "proof_ok c (h\<lparr>hs_grant_sent := b\<rparr>) = proof_ok c h" "view_ok (h\<lparr>hs_grant_sent := b\<rparr>) = view_ok h"
  "view_ok (h\<lparr>hs_peer_hello := p\<rparr>) = view_ok h" "peer_ok c (h\<lparr>hs_peer_hello := p\<rparr>) = peer_ok c h"
  by (simp_all add: peer_ok_def [abs_def] hellos_ok_def proof_ok_def view_ok_def hello_select_def transcript_of_def
      receive_proof_cong [of "h\<lparr>hs_completed := n\<rparr>" h] receive_proof_cong [of "h\<lparr>hs_grant := g\<rparr>" h]
      receive_proof_cong [of "h\<lparr>hs_grant_sent := b\<rparr>" h])

lemma grant_okI: "hs_grant h = None \<Longrightarrow> \<not> hs_grant_sent h \<Longrightarrow> grant_ok h"
  by (simp add: grant_ok_def)

lemma grant_free:
  assumes "handshake_inv c h" and "hs_completed h < PROTOCOL_POSITIONS"
  shows "hs_grant h = None" and "\<not> hs_grant_sent h"
  using assms by (auto simp: handshake_inv_def grant_ok_def is_authenticated_def)

section \<open>Every operation keeps the invariant\<close>

lemma new_inv: "handshake_new c config registry = Ok h \<Longrightarrow> handshake_inv c h"
  by (cases "hg_mode config"; cases "hg_role config")
    (auto simp: handshake_new_def and_then_Ok_iff handshake_inv_def inputs_ok_def view_ok_def grant_ok_def
      PROTOCOL_POSITIONS_def split: if_splits)

lemma begin_send_Ok:
  "begin_send h kind sender = Ok u \<longleftrightarrow> hg_role (hs_config h) = sender \<and> hs_completed h + 1 = handshake_position kind"
  by (auto simp: begin_send_def)

lemma advance_inv:
  assumes "handshake_inv c h" and "hg_role (hs_config h) = position_sender kind"
    and "hs_completed h + 1 = handshake_position kind" and "kind \<noteq> AdmissionGrantDelivery"
  shows "handshake_inv c (h\<lparr>hs_completed := hs_completed h + 1\<rparr>)"
proof -
  have "hs_completed h < PROTOCOL_POSITIONS" using assms(3,4) by (cases kind) (simp_all add: PROTOCOL_POSITIONS_def)
  note free = grant_free [OF assms(1) this]
  show ?thesis
    using assms free by (cases kind) (simp_all add: handshake_inv_def grant_okI PROTOCOL_POSITIONS_def)
qed

lemma finish_send_inv:
  assumes "handshake_inv c h" and "hg_role (hs_config h) = position_sender kind"
    and "hs_completed h + 1 = handshake_position kind" and "kind \<noteq> AdmissionGrantDelivery"
    and "finish_send wc h wire = (h', r)"
  shows "handshake_inv c h'"
  using assms(5) advance_inv [OF assms(1-4)] assms(1) by (auto simp: finish_send_def split: sum.splits)

lemma send_proof_inv:
  assumes "handshake_inv c h" and "sender = position_sender kind" and "kind \<noteq> AdmissionGrantDelivery"
    and "send_proof c kind sender role h signature = (h', r)"
  shows "handshake_inv c h'"
proof (cases "begin_send h kind sender")
  case (Inl e)
  then show ?thesis using assms by (simp add: send_proof_def)
next
  case (Inr u)
  note sent = finish_send_inv [OF assms(1) _ _ assms(3), where wc = "hc_proof c" and h' = h' and r = r]
  show ?thesis using Inr assms sent by (auto simp: send_proof_def begin_send_Ok split: sum.splits)
qed

lemma send_inv:
  assumes "handshake_inv c h"
  shows "initiator_hello c h = (h', r) \<Longrightarrow> handshake_inv c h'"
    and "responder_hello c h = (h', r) \<Longrightarrow> handshake_inv c h'"
    and "responder_proof c h signature = (h', r) \<Longrightarrow> handshake_inv c h'"
    and "initiator_proof c h signature = (h', r) \<Longrightarrow> handshake_inv c h'"
    and "selection_confirmation c h = (h', r) \<Longrightarrow> handshake_inv c h'"
    and "admission_grant_delivery c h grant = (h', r) \<Longrightarrow> handshake_inv c h'"
proof -
  note sent = finish_send_inv [OF assms, where h' = h' and r = r]
  show "initiator_hello c h = (h', r) \<Longrightarrow> handshake_inv c h'"
    using assms sent [of InitiatorHello] by (auto simp: initiator_hello_def begin_send_Ok split: sum.splits)
  show "responder_hello c h = (h', r) \<Longrightarrow> handshake_inv c h'"
    using assms sent [of ResponderHello] by (auto simp: responder_hello_def begin_send_Ok split: sum.splits)
  show "selection_confirmation c h = (h', r) \<Longrightarrow> handshake_inv c h'"
    using assms sent [of SelectionConfirmation]
    by (auto simp: selection_confirmation_def begin_send_Ok split: sum.splits option.splits)
  show "responder_proof c h signature = (h', r) \<Longrightarrow> handshake_inv c h'"
    using send_proof_inv [OF assms, of Responder ResponderProof] by (simp add: responder_proof_def)
  show "initiator_proof c h signature = (h', r) \<Longrightarrow> handshake_inv c h'"
    using send_proof_inv [OF assms, of Initiator InitiatorProof] by (simp add: initiator_proof_def)
  show "admission_grant_delivery c h grant = (h', r) \<Longrightarrow> handshake_inv c h'"
    using assms
    by (auto simp: admission_grant_delivery_def handshake_inv_def grant_ok_def is_authenticated_def
        split: if_splits sum.splits)
qed

section \<open>Receiving\<close>

lemma fixed_bytes_Ok: "fixed_bytes n bytes ctx = Ok b \<longleftrightarrow> length bytes = n \<and> b = bytes"
  by (auto simp: fixed_bytes_def)

lemma optional_bytes_Ok:
  "optional_bytes n x ctx = Ok v \<longleftrightarrow> v = x \<and> (\<forall>b. x = Some b \<longrightarrow> length b = n)"
  by (cases x) (auto simp: optional_bytes_def and_then_Ok_iff fixed_bytes_Ok)

lemma check_peer_hello_Ok:
  assumes "check_peer_hello c h ct nt kb nb ob = Ok peer"
  shows "peer_ok c h peer" and "id_parse ClusterId ct = Ok (hg_cluster (hs_config h))"
    and "hv_public_key peer = kb" and "hv_nonce peer = nb" and "hv_offer_bytes peer = ob"
proof -
  obtain cl n off where r: "id_parse ClusterId ct = Ok cl" "id_parse NodeId nt = Ok n" "length kb = PUBLIC_KEY_LEN"
      "length nb = NONCE_LEN" "cl = hg_cluster (hs_config h)" "n \<noteq> hg_local_id (hs_config h)" "kb \<noteq> hg_local_key (hs_config h)"
      "\<not> (case hg_expected_peer (hs_config h) of None \<Rightarrow> False | Some (i, e) \<Rightarrow> i \<noteq> n \<or> e \<noteq> kb)"
      "offer_decode (hc_dns c) (hc_offer_decode c) (hs_registry h) ob = Ok off"
    and p: "peer = \<lparr>hv_node_id = n, hv_public_key = kb, hv_nonce = nb, hv_offer_bytes = ob, hv_offer = off\<rparr>"
    using assms by (auto simp: check_peer_hello_def and_then_Ok_iff fixed_bytes_Ok split: if_splits)
  have "id_parse NodeId n = Ok n" using r(2) by (auto simp: id_parse_def and_then_Ok_iff)
  then show "peer_ok c h peer" using r p by (auto simp: peer_ok_def split: option.splits)
  show "id_parse ClusterId ct = Ok (hg_cluster (hs_config h))" "hv_public_key peer = kb" "hv_nonce peer = nb"
      "hv_offer_bytes peer = ob" using r p by simp_all
qed

lemma finalize_hellos_cases:
  assumes "hs_peer_hello h = Some peer"
  obtains (failed) e where "finalize_hellos c h = (h, Err e)"
  | (agreed) s t where "hello_select c h peer = Ok s" and "transcript_of c h peer s = Ok t"
      and "finalize_hellos c h = (h\<lparr>hs_selection := Some s, hs_transcript := Some t\<rparr>, Ok ())"
proof (cases "hello_select c h peer")
  case (Inl e)
  then show ?thesis using assms failed by (simp add: finalize_hellos_def hello_select_def)
next
  case (Inr s)
  then show ?thesis
    using assms failed agreed
    by (cases "transcript_of c h peer s"; cases "hg_role (hs_config h)")
      (auto simp: finalize_hellos_def hello_select_def transcript_of_def)
qed

text \<open>A hello leaves the state as it was, or with only the peer set when negotiation fails, or
  with everything both sides sign.\<close>

lemma accept_peer_hello_cases:
  assumes "accept_peer_hello c h ct nt kb nb ob = (h', r)"
  obtains (same) e where "h' = h" and "r = Err e"
  | (peer) peer e where "peer_ok c h peer" and "h' = h\<lparr>hs_peer_hello := Some peer\<rparr>" and "r = Err e"
  | (agreed) peer s t where "check_peer_hello c h ct nt kb nb ob = Ok peer" and "hellos_ok c h'" and "r = Ok ()"
      and "h' = h\<lparr>hs_peer_hello := Some peer, hs_selection := Some s, hs_transcript := Some t\<rparr>"
proof (cases "check_peer_hello c h ct nt kb nb ob")
  case (Inl e)
  then show ?thesis using assms same [of e] by (simp add: accept_peer_hello_def)
next
  case (Inr p)
  let ?h = "h\<lparr>hs_peer_hello := Some p\<rparr>"
  have fin: "finalize_hellos c ?h = (h', r)" using assms Inr by (simp add: accept_peer_hello_def)
  have ok: "peer_ok c h p" using check_peer_hello_Ok(1) [OF Inr] .
  have "hs_peer_hello ?h = Some p" by simp
  then show ?thesis
  proof (cases rule: finalize_hellos_cases [where c = c])
    case (failed e)
    then show ?thesis using fin peer [OF ok] by simp
  next
    case (agreed s t)
    then have h': "h' = h\<lparr>hs_peer_hello := Some p, hs_selection := Some s, hs_transcript := Some t\<rparr>" "r = Ok ()"
      using fin by simp_all
    have "hellos_ok c h'"
      using agreed ok unfolding h' hellos_ok_def by (simp add: peer_ok_def hello_select_def transcript_of_def)
    then show ?thesis using that(3) [OF Inr _ h'(2,1)] by simp
  qed
qed

lemma receive_hello_cases:
  assumes "receive_position c h kind bytes = (h', r)" and "kind = InitiatorHello \<or> kind = ResponderHello"
  obtains (same) e where "h' = h" and "r = Err e"
  | (peer) peer e where "peer_ok c h peer" and "h' = h\<lparr>hs_peer_hello := Some peer\<rparr>" and "r = Err e"
  | (agreed) peer s t where "hellos_ok c h'" and "r = Ok ()"
      and "h' = h\<lparr>hs_peer_hello := Some peer, hs_selection := Some s, hs_transcript := Some t\<rparr>"
proof -
  have "(\<exists>e. h' = h \<and> r = Err e) \<or> (\<exists>ct nt kb nb ob. accept_peer_hello c h ct nt kb nb ob = (h', r))"
    using assms
    by (auto simp: receive_position_def receive_initiator_hello_def receive_responder_hello_def
        split: sum.splits if_splits)
  then show ?thesis by (elim disjE exE conjE; (elim accept_peer_hello_cases)?) (use that in blast)+
qed

lemma receive_cases:
  assumes "receive c h bytes = (h', r)"
  obtains (same) e where "h' = h" and "r = Err e"
  | (grant) "receive_grant_delivery c h bytes = (h', r)" and "hg_role (hs_config h) = Initiator"
      and "hc_canonical c bytes" and "probe c bytes = Ok (handshake_arity AdmissionGrantDelivery, AdmissionGrantDelivery)"
  | (turn) arity kind h1 r1 where "hc_canonical c bytes" and "probe c bytes = Ok (arity, kind)"
      and "arity = handshake_arity kind" and "position_sender kind \<noteq> hg_role (hs_config h)"
      and "kind \<noteq> AdmissionGrantDelivery" and "handshake_position kind = hs_completed h + 1"
      and "hs_completed h < PROTOCOL_POSITIONS" and "receive_position c h kind bytes = (h1, r1)"
      and "r = r1" and "h' = (case r1 of Inl e \<Rightarrow> h1 | Inr u \<Rightarrow> h1\<lparr>hs_completed := hs_completed h1 + 1\<rparr>)"
proof (cases "probe c bytes")
  case (Inl e)
  then show ?thesis using assms same by (auto simp: receive_def split: if_splits)
next
  case (Inr ak)
  obtain arity kind where ak: "ak = (arity, kind)" by (cases ak)
  obtain h1 r1 where rp: "receive_position c h kind bytes = (h1, r1)" by (cases "receive_position c h kind bytes")
  note recv = assms [unfolded receive_def Inr ak sum.case prod.case]
  show ?thesis
  proof (cases "hc_canonical c bytes \<and> arity = handshake_arity kind \<and> position_sender kind \<noteq> hg_role (hs_config h)")
    case False
    then have "h' = h \<and> (\<exists>e. r = Err e)" using recv by (auto split: if_splits)
    then show ?thesis using same by blast
  next
    case shape: True
    show ?thesis
    proof (cases "kind = AdmissionGrantDelivery")
      case True
      have "hg_role (hs_config h) = Initiator" using shape True by (cases "hg_role (hs_config h)") auto
      then show ?thesis using grant recv shape True Inr ak by simp
    next
      case False
      show ?thesis
      proof (cases "hs_completed h < PROTOCOL_POSITIONS \<and> handshake_position kind = hs_completed h + 1")
        case True
        have "(h', r) = (case r1 of Inl e \<Rightarrow> (h1, Err e) | Inr u \<Rightarrow> (h1\<lparr>hs_completed := hs_completed h1 + 1\<rparr>, Ok ()))"
          using recv shape False True rp by (cases r1) auto
        then have "r = r1" "h' = (case r1 of Inl e \<Rightarrow> h1 | Inr u \<Rightarrow> h1\<lparr>hs_completed := hs_completed h1 + 1\<rparr>)"
          by (cases r1; simp)+
        then show ?thesis using turn [of arity kind h1 r1] Inr ak shape False True rp by simp
      next
        case bad: False
        then have "h' = h \<and> (\<exists>e. r = Err e)" using recv shape False by (auto split: if_splits)
        then show ?thesis using same by blast
      qed
    qed
  qed
qed

lemma grant_delivery_cases:
  assumes "receive_grant_delivery c h bytes = (h', r)"
  obtains (same) e where "h' = h" and "r = Err e"
  | (agreed) g where "hg_mode (hs_config h) = Join" and "is_authenticated h" and "hs_grant h = None"
      and "h' = h\<lparr>hs_grant := Some g\<rparr>" and "r = Ok ()"
  using assms by (auto simp: receive_grant_delivery_def split: if_splits sum.splits)

lemma receive_inv:
  assumes inv: "handshake_inv c h" and "receive c h bytes = (h', r)"
  shows "handshake_inv c h'"
  using assms(2)
proof (cases rule: receive_cases)
  case (same e)
  then show ?thesis using inv by simp
next
  case grant
  from grant(1) show ?thesis
  proof (cases rule: grant_delivery_cases)
    case (same e)
    then show ?thesis using inv by simp
  next
    case (agreed g)
    then show ?thesis using inv grant(2) by (simp add: handshake_inv_def grant_ok_def is_authenticated_def)
  qed
next
  case (turn arity kind h1 r1)
  note free = grant_free [OF inv turn(7)]
  have other: "position_sender kind = x \<Longrightarrow> x \<noteq> hg_role (hs_config h)" for x using turn(4) by auto
  show ?thesis
  proof (cases "kind = InitiatorHello \<or> kind = ResponderHello")
    case True
    then have pos: "hello_turn (hg_role (hs_config h)) = hs_completed h + 1"
      using turn(4,6) by (cases "hg_role (hs_config h)") auto
    have late: "proof_turn (hg_role (hs_config h)) > hs_completed h + 1"
      using pos by (cases "hg_role (hs_config h)") auto
    from turn(8) True show ?thesis
    proof (cases rule: receive_hello_cases)
      case (same e)
      then show ?thesis using inv turn(9,10) by simp
    next
      case (peer p e)
      then show ?thesis using inv pos late free turn(9,10)
        by (simp add: handshake_inv_def grant_okI)
    next
      case (agreed p s t)
      then have "view_ok h1 = view_ok h" by (simp add: view_ok_def)
      then show ?thesis using agreed inv pos late free turn(7,9,10)
        by (simp add: handshake_inv_def grant_okI)
    qed
  next
    case False
    then have h1: "h1 = h" using turn(5,8) by (cases kind) (simp_all add: receive_position_def)
    show ?thesis
    proof (cases r1)
      case (Inl e)
      then show ?thesis using inv h1 turn(10) by simp
    next
      case (Inr u)
      have hello: "hello_turn (hg_role (hs_config h)) \<le> hs_completed h" and
        checked: "proof_turn (hg_role (hs_config h)) \<le> hs_completed h + 1 \<Longrightarrow> proof_ok c h"
        using False Inr turn(4-6,8) h1 inv
        by (cases kind; cases "hg_role (hs_config h)";
            auto simp: proof_ok_def receive_position_def handshake_inv_def)+
      then show ?thesis using inv h1 Inr turn(7,10) free by (simp add: handshake_inv_def grant_okI)
    qed
  qed
qed

lemma step_inv: "handshake_step c h h' \<Longrightarrow> handshake_inv c h \<Longrightarrow> handshake_inv c h'"
  by (induction rule: handshake_step.induct) (blast intro: send_inv receive_inv)+

lemma reach_inv: "handshake_reach c h \<Longrightarrow> handshake_inv c h"
  by (induction rule: handshake_reach.induct) (auto intro: new_inv step_inv)

section \<open>What each accepted step checked\<close>

definition proof_checked ::
  "handshake_codec \<Rightarrow> handshake \<Rightarrow> byte list \<Rightarrow> proof_role \<Rightarrow> proof_wire \<Rightarrow> hello_view \<Rightarrow> byte list \<Rightarrow> bool" where
  "proof_checked c h domain prole wire peer t \<longleftrightarrow>
     length (pw_signature wire) = SIGNATURE_LEN \<and>
     hc_ed25519 c (hv_public_key peer) (signature_message (hc_sha c) domain t) (pw_signature wire) \<and>
     (case hg_mode (hs_config h) of
        Member \<Rightarrow> pw_proof wire = None
      | Join \<Rightarrow> \<exists>secret p. hg_credential (hs_config h) = Some secret \<and> pw_proof wire = Some p \<and>
          derive_proof (hc_proofs c) prole (hg_channel_binding (hs_config h)) secret (body_digest (hc_sha c) t) = Ok p)"

lemma receive_proof_Ok:
  assumes "receive_proof c h bytes domain prole = Ok ()"
  shows "\<exists>wire peer t. decode_wire (hc_proof c) bytes = Ok wire \<and> hs_peer_hello h = Some peer \<and>
           hs_transcript h = Some t \<and> proof_checked c h domain prole wire peer t"
  using assms
  by (cases "hg_mode (hs_config h)")
    (auto simp: receive_proof_def and_then_Ok_iff fixed_bytes_Ok optional_bytes_Ok transcript_digest_def proof_checked_def
      verify_strict_def verify_proof_iff [symmetric] split: option.splits if_splits)

lemma proof_okE:
  assumes "proof_ok c h"
  obtains wire peer t where "hs_peer_hello h = Some peer" and "hs_transcript h = Some t"
    and "proof_checked c h (peer_domain (hg_role (hs_config h))) (peer_proof_role (hg_role (hs_config h))) wire peer t"
  using assms receive_proof_Ok unfolding proof_ok_def by blast

lemma reach_hellos:
  assumes "handshake_reach c h" and "hs_transcript h = Some t"
  obtains peer s where "hs_peer_hello h = Some peer" and "peer_ok c h peer" and "hs_selection h = Some s"
    and "transcript_of c h peer s = Ok t"
proof -
  have "hellos_ok c h" using handshake_invD(5,6) [OF reach_inv [OF assms(1)]] assms(2) by simp
  then show ?thesis using that assms(2) unfolding hellos_ok_def by auto
qed

text \<open>Transcript bytes with one preimage bind every field both sides negotiated.\<close>

lemma assemble_transcript_inj:
  assumes "\<forall>v w. hc_transcript c v = Ok t \<longrightarrow> hc_transcript c w = Ok t \<longrightarrow> v = w"
    and "assemble_transcript c m g k i r s cb = Ok t" and "assemble_transcript c m' g' k' i' r' s' cb' = Ok t"
  shows "m = m'" and "g = g'" and "k = k'" and "s = s'" and "cb = cb'"
    and "identity_of i = identity_of i'" and "identity_of r = identity_of r'" and "hv_nonce i = hv_nonce i'"
    and "hv_nonce r = hv_nonce r'" and "hv_offer_bytes i = hv_offer_bytes i'" and "hv_offer_bytes r = hv_offer_bytes r'"
proof -
  have modes: "mode_text m = mode_text m' \<Longrightarrow> m = m'" by (cases m; cases m') simp_all
  show "m = m'" and "g = g'" and "k = k'" and "s = s'" and "cb = cb'"
    and "identity_of i = identity_of i'" and "identity_of r = identity_of r'" and "hv_nonce i = hv_nonce i'"
    and "hv_nonce r = hv_nonce r'" and "hv_offer_bytes i = hv_offer_bytes i'" and "hv_offer_bytes r = hv_offer_bytes r'"
    using assms(1) [rule_format, OF assms(2) [unfolded assemble_transcript_def map_err_Ok_iff]
        assms(3) [unfolded assemble_transcript_def map_err_Ok_iff]] modes by simp_all
qed

definition same_hello :: "hello_view \<Rightarrow> hello_view \<Rightarrow> bool" where
  "same_hello a b \<longleftrightarrow> hv_node_id a = hv_node_id b \<and> hv_public_key a = hv_public_key b \<and> hv_nonce a = hv_nonce b \<and>
     hv_offer_bytes a = hv_offer_bytes b"

definition sessions_agree :: "handshake \<Rightarrow> handshake \<Rightarrow> bool" where
  "sessions_agree h r \<longleftrightarrow>
     hg_mode (hs_config h) = hg_mode (hs_config r) \<and> hg_generation (hs_config h) = hg_generation (hs_config r) \<and>
     hg_cluster (hs_config h) = hg_cluster (hs_config r) \<and> hg_channel_binding (hs_config h) = hg_channel_binding (hs_config r) \<and>
     (\<exists>ph pr sh sr. hs_peer_hello h = Some ph \<and> hs_peer_hello r = Some pr \<and> same_hello ph (hs_local_view r) \<and>
        same_hello pr (hs_local_view h) \<and> hs_selection h = Some sh \<and> hs_selection r = Some sr \<and> sel_bytes sh = sel_bytes sr)"

lemma same_transcript_agree:
  assumes "\<forall>v w. hc_transcript c v = Ok t \<longrightarrow> hc_transcript c w = Ok t \<longrightarrow> v = w"
    and "handshake_reach c h" and "hs_transcript h = Some t" and "handshake_reach c r" and "hs_transcript r = Some t"
    and "hg_role (hs_config r) \<noteq> hg_role (hs_config h)"
  shows "sessions_agree h r"
proof -
  obtain ph sh where h: "hs_peer_hello h = Some ph" "hs_selection h = Some sh" "transcript_of c h ph sh = Ok t"
    using reach_hellos [OF assms(2,3)] by blast
  obtain pr sr where r: "hs_peer_hello r = Some pr" "hs_selection r = Some sr" "transcript_of c r pr sr = Ok t"
    using reach_hellos [OF assms(4,5)] by blast
  show ?thesis
  proof (cases "hg_role (hs_config h)")
    case Initiator
    then have "hg_role (hs_config r) = Responder" using assms(6) by (cases "hg_role (hs_config r)") auto
    note inj = assemble_transcript_inj [OF assms(1) h(3) [unfolded transcript_of_def Initiator role_views.simps prod.case]
        r(3) [unfolded transcript_of_def this role_views.simps prod.case]]
    show ?thesis using inj h r by (simp add: sessions_agree_def same_hello_def identity_of_def)
  next
    case Responder
    then have "hg_role (hs_config r) = Initiator" using assms(6) by (cases "hg_role (hs_config r)") auto
    note inj = assemble_transcript_inj [OF assms(1) h(3) [unfolded transcript_of_def Responder role_views.simps prod.case]
        r(3) [unfolded transcript_of_def this role_views.simps prod.case]]
    show ?thesis using inj h r by (simp add: sessions_agree_def same_hello_def identity_of_def)
  qed
qed

text \<open>Receiving keeps the configuration, and the message that completes the peer's proof turn is a
  proof that passed its checks.\<close>

lemma receive_config:
  assumes "receive c h bytes = (h', r)"
  shows "hs_config h' = hs_config h"
  using assms
proof (cases rule: receive_cases)
  case grant
  from grant(1) show ?thesis by (cases rule: grant_delivery_cases) simp_all
next
  case (turn arity kind h1 r1)
  have "hs_config h1 = hs_config h"
  proof (cases "kind = InitiatorHello \<or> kind = ResponderHello")
    case True
    from turn(8) True show ?thesis by (cases rule: receive_hello_cases) simp_all
  next
    case False
    then show ?thesis using turn(5,8) by (cases kind) (simp_all add: receive_position_def)
  qed
  then show ?thesis using turn(10) by (cases r1) simp_all
qed simp

lemma receive_accepts_proof:
  assumes "receive c h bytes = (h', Ok ())" and "hs_completed h' = proof_turn (hg_role (hs_config h))"
  obtains wire peer t where "decode_wire (hc_proof c) bytes = Ok wire" and "hs_peer_hello h' = Some peer"
    and "hs_transcript h' = Some t"
    and "hc_ed25519 c (hv_public_key peer) (signature_message (hc_sha c) (peer_domain (hg_role (hs_config h))) t)
      (pw_signature wire)"
  using assms(1)
proof (cases rule: receive_cases)
  case grant
  from grant(1) assms(2) grant(2) show ?thesis
    by (cases rule: grant_delivery_cases) (simp_all add: is_authenticated_def PROTOCOL_POSITIONS_def)
next
  case (turn arity kind h1 r1)
  have r1: "r1 = Ok ()" and h': "h' = h1\<lparr>hs_completed := hs_completed h1 + 1\<rparr>" using turn(9,10) by auto
  have "hs_completed h1 = hs_completed h"
  proof (cases "kind = InitiatorHello \<or> kind = ResponderHello")
    case True
    from turn(8) True show ?thesis by (cases rule: receive_hello_cases) simp_all
  next
    case False
    then show ?thesis using turn(5,8) by (cases kind) (simp_all add: receive_position_def)
  qed
  then have pos: "handshake_position kind = proof_turn (hg_role (hs_config h))" using assms(2) h' turn(6) by simp
  have "h1 = h \<and> receive_proof c h bytes (peer_domain (hg_role (hs_config h))) (peer_proof_role (hg_role (hs_config h))) = Ok ()"
    using pos turn(4,5,8) r1
    by (cases kind; cases "hg_role (hs_config h)") (simp_all add: receive_position_def)
  then have h1: "h1 = h" and ok: "receive_proof c h bytes (peer_domain (hg_role (hs_config h)))
      (peer_proof_role (hg_role (hs_config h))) = Ok ()" by simp_all
  from receive_proof_Ok [OF ok] show ?thesis using that h1 h' by (auto simp: proof_checked_def)
qed simp

section \<open>Properties\<close>

text \<open>C16: one received message is taken in strict lockstep. A rejected message leaves the position,
  the transcript, the selection and the grant as they were. An accepted one is canonical, has the
  arity of its kind, was sent by the other role, and is either the next position, which it
  completes, or the one grant after authentication in join mode.\<close>

theorem receive_lockstep:
  "case receive c h bytes of
     (h', Inl e) \<Rightarrow> hs_config h' = hs_config h \<and> hs_completed h' = hs_completed h \<and> hs_transcript h' = hs_transcript h \<and>
       hs_selection h' = hs_selection h \<and> hs_grant h' = hs_grant h \<and> hs_grant_sent h' = hs_grant_sent h
   | (h', Inr u) \<Rightarrow> hs_config h' = hs_config h \<and> hc_canonical c bytes \<and>
       (\<exists>kind. probe c bytes = Ok (handshake_arity kind, kind) \<and> position_sender kind \<noteq> hg_role (hs_config h) \<and>
          (if kind = AdmissionGrantDelivery
           then is_authenticated h \<and> hg_mode (hs_config h) = Join \<and> hs_grant h = None \<and> hs_grant h' \<noteq> None \<and>
             hs_completed h' = hs_completed h
           else handshake_position kind = hs_completed h + 1 \<and> hs_completed h' = hs_completed h + 1))"
proof -
  obtain h' r where hr: "receive c h bytes = (h', r)" by (cases "receive c h bytes")
  then show ?thesis
  proof (cases rule: receive_cases)
    case (same e)
    then show ?thesis using hr by simp
  next
    case grant
    from grant(1) show ?thesis
      using hr grant(2-4) by (cases rule: grant_delivery_cases) (simp_all add: exI [where x = AdmissionGrantDelivery])
  next
    case (turn arity kind h1 r1)
    have h1: "hs_config h1 = hs_config h \<and> hs_completed h1 = hs_completed h \<and>
        (\<forall>e. r1 = Err e \<longrightarrow> hs_transcript h1 = hs_transcript h \<and> hs_selection h1 = hs_selection h) \<and>
        hs_grant h1 = hs_grant h \<and> hs_grant_sent h1 = hs_grant_sent h"
    proof (cases "kind = InitiatorHello \<or> kind = ResponderHello")
      case True
      from turn(8) True show ?thesis by (cases rule: receive_hello_cases) simp_all
    next
      case False
      then show ?thesis using turn(5,8) by (cases kind) (simp_all add: receive_position_def)
    qed
    then show ?thesis using hr turn by (cases r1) auto
  qed
qed

end
