(* ===== verification/Session_Exchange.thy ===== *)
theory Session_Exchange
  imports Handshake_Safety
begin

text \<open>
  The authentication exchange the session driver runs over two handshake machines
  (\<^verbatim>\<open>src/src/session/driver.rs\<close>, positions one to five of \<open>respond_inner\<close>, \<open>join_inner\<close> and
  \<open>member_inner\<close>): each segment of straight-line code between two reads of the connection is one
  definition, with the key provider's \<open>sign\<close> as an argument. A handshake error becomes a typed
  error and ends the attempt. \<open>exchange\<close> delivers every message in order; \<open>key_log\<close> collects what
  sessions have a key provider sign.
\<close>

record established_session =
  es_peer :: ustr
  es_selected_features :: "qualified_tag list"

definition established :: "handshake \<Rightarrow> established_session result" where
  "established h =
     and_then (ok_or (peer_identity h) (internal ''handshake peer'')) (\<lambda>(peer, _).
     and_then (ok_or (selected_features h) (internal ''handshake selection'')) (\<lambda>features.
       Ok \<lparr>es_peer = peer, es_selected_features = features\<rparr>))"

definition driven :: "handshake \<times> (handshake_error + 'a) \<Rightarrow> (handshake \<times> 'a) result" where
  "driven p = map_err (and_then (snd p) (\<lambda>x. Ok (fst p, x))) handshake_error_into"

definition responder_opening ::
  "handshake_codec \<Rightarrow> (byte list \<Rightarrow> byte list result) \<Rightarrow> handshake \<Rightarrow> byte list \<Rightarrow> (handshake \<times> byte list \<times> byte list) result" where
  "responder_opening c sign h first =
     and_then (driven (receive c h first)) (\<lambda>(h, _).
     and_then (driven (responder_hello c h)) (\<lambda>(h, hello).
     and_then (ok_or (hs_transcript h) (internal ''handshake transcript'')) (\<lambda>transcript.
     and_then (sign (responder_session_message c transcript)) (\<lambda>signature.
     and_then (driven (responder_proof c h signature)) (\<lambda>(h, proof_msg).
       Ok (h, hello, proof_msg))))))"

definition responder_closing :: "handshake_codec \<Rightarrow> handshake \<Rightarrow> byte list \<Rightarrow> (handshake \<times> byte list) result" where
  "responder_closing c h proof_msg =
     and_then (driven (receive c h proof_msg)) (\<lambda>(h, _). driven (selection_confirmation c h))"

definition initiator_opening :: "handshake_codec \<Rightarrow> handshake \<Rightarrow> (handshake \<times> byte list) result" where
  "initiator_opening c h = driven (initiator_hello c h)"

definition initiator_answer ::
  "handshake_codec \<Rightarrow> (byte list \<Rightarrow> byte list result) \<Rightarrow> handshake \<Rightarrow> byte list \<Rightarrow> byte list \<Rightarrow> (handshake \<times> byte list) result" where
  "initiator_answer c sign h hello proof_msg =
     and_then (driven (receive c h hello)) (\<lambda>(h, _).
     and_then (driven (receive c h proof_msg)) (\<lambda>(h, _).
     and_then (ok_or (hs_transcript h) (internal ''handshake transcript'')) (\<lambda>transcript.
     and_then (sign (initiator_session_message c transcript)) (\<lambda>signature.
       driven (initiator_proof c h signature)))))"

definition initiator_closing :: "handshake_codec \<Rightarrow> handshake \<Rightarrow> byte list \<Rightarrow> (handshake \<times> established_session) result" where
  "initiator_closing c h confirmation =
     and_then (driven (receive c h confirmation)) (\<lambda>(h, _).
     and_then (established h) (\<lambda>session. Ok (h, session)))"

definition exchange ::
  "handshake_codec \<Rightarrow> (byte list \<Rightarrow> byte list result) \<Rightarrow> (byte list \<Rightarrow> byte list result) \<Rightarrow> handshake \<Rightarrow> handshake \<Rightarrow>
   (handshake \<times> handshake \<times> established_session \<times> established_session) result" where
  "exchange c sign_i sign_r i r =
     and_then (initiator_opening c i) (\<lambda>(i, m1).
     and_then (responder_opening c sign_r r m1) (\<lambda>(r, m2, m3).
     and_then (initiator_answer c sign_i i m2 m3) (\<lambda>(i, m4).
     and_then (responder_closing c r m4) (\<lambda>(r, m5).
     and_then (initiator_closing c i m5) (\<lambda>(i, initiator_session).
     and_then (established r) (\<lambda>responder_session.
       Ok (i, r, initiator_session, responder_session)))))))"

text \<open>What a session asks the key provider to sign: the driver up to its one call of \<open>sign\<close>.\<close>

definition responder_request :: "handshake_codec \<Rightarrow> handshake \<Rightarrow> byte list \<Rightarrow> (handshake \<times> byte list \<times> byte list) result" where
  "responder_request c h first =
     and_then (driven (receive c h first)) (\<lambda>(h, _).
     and_then (driven (responder_hello c h)) (\<lambda>(h, hello).
     and_then (ok_or (hs_transcript h) (internal ''handshake transcript'')) (\<lambda>transcript.
       Ok (h, hello, responder_session_message c transcript))))"

definition initiator_request :: "handshake_codec \<Rightarrow> handshake \<Rightarrow> byte list \<Rightarrow> byte list \<Rightarrow> (handshake \<times> byte list) result" where
  "initiator_request c h hello proof_msg =
     and_then (driven (receive c h hello)) (\<lambda>(h, _).
     and_then (driven (receive c h proof_msg)) (\<lambda>(h, _).
     and_then (ok_or (hs_transcript h) (internal ''handshake transcript'')) (\<lambda>transcript.
       Ok (h, initiator_session_message c transcript))))"



section \<open>Reachability along the driver\<close>

lemma driven_Ok: "driven p = Ok (h', x) \<longleftrightarrow> p = (h', Ok x)"
  by (cases p) (auto simp: driven_def and_then_Ok_iff)

lemma driven_simps [simp]:
  "driven (h, Inr x) = Ok (h, x)" "driven (h, Inl e) = Err (handshake_error_into e)"
  by (simp_all add: driven_def)

lemmas driver_steps = reach_step [OF _ step_initiator_hello] reach_step [OF _ step_responder_hello]
  reach_step [OF _ step_responder_proof] reach_step [OF _ step_initiator_proof] reach_step [OF _ step_confirmation]
  reach_step [OF _ step_receive]

lemma segment_reach:
  assumes "handshake_reach c h"
  shows "initiator_opening c h = Ok (h', m) \<Longrightarrow> handshake_reach c h'"
    and "responder_opening c sign h m1 = Ok (h', m2, m3) \<Longrightarrow> handshake_reach c h'"
    and "initiator_answer c sign h m2 m3 = Ok (h', m) \<Longrightarrow> handshake_reach c h'"
    and "responder_closing c h m = Ok (h', m5) \<Longrightarrow> handshake_reach c h'"
    and "initiator_closing c h m = Ok (h', session) \<Longrightarrow> handshake_reach c h'"
  using assms
  unfolding initiator_opening_def responder_opening_def initiator_answer_def responder_closing_def
    initiator_closing_def and_then_Ok_iff split_paired_Ex prod.case driven_Ok
  by (auto, (meson driver_steps)+)

text \<open>The driver signs exactly what it requests.\<close>

lemma opening_signs:
  "responder_opening c sign h first =
     and_then (responder_request c h first) (\<lambda>(h, hello, m).
     and_then (sign m) (\<lambda>signature.
     and_then (driven (responder_proof c h signature)) (\<lambda>(h, proof_msg). Ok (h, hello, proof_msg))))"
  by (auto simp: responder_opening_def responder_request_def and_then_def split: sum.split option.split prod.split)

lemma answer_signs:
  "initiator_answer c sign h hello proof_msg =
     and_then (initiator_request c h hello proof_msg) (\<lambda>(h, m).
     and_then (sign m) (\<lambda>signature. driven (initiator_proof c h signature)))"
  by (auto simp: initiator_answer_def initiator_request_def and_then_def split: sum.split option.split prod.split)






lemma exchange_reach:
  assumes "handshake_reach c i" and "handshake_reach c r" and "exchange c sign_i sign_r i r = Ok (i', r', si, sr)"
  shows "handshake_reach c i'" and "handshake_reach c r'"
proof -
  obtain i1 i2 r1 m1 m2 m3 m4 m5 where s: "initiator_opening c i = Ok (i1, m1)"
      "responder_opening c sign_r r m1 = Ok (r1, m2, m3)" "initiator_answer c sign_i i1 m2 m3 = Ok (i2, m4)"
      "responder_closing c r1 m4 = Ok (r', m5)" "initiator_closing c i2 m5 = Ok (i', si)"
    using assms(3) unfolding exchange_def
    by (auto simp only: and_then_Ok_iff split_paired_Ex prod.case sum.inject prod.inject)
  show "handshake_reach c i'"
    using segment_reach(5) [OF segment_reach(3) [OF segment_reach(1) [OF assms(1) s(1)] s(3)] s(5)] .
  show "handshake_reach c r'" using segment_reach(4) [OF segment_reach(2) [OF assms(2) s(2)] s(4)] .
qed

section \<open>Honest messages are accepted\<close>

text \<open>What the codecs of the message types promise: decoding inverts encoding, and an encoded
  message is canonical with its kind at the head of an array of its published arity.\<close>

definition handshake_codec_ok :: "handshake_codec \<Rightarrow> bool" where
  "handshake_codec_ok c \<longleftrightarrow>
     wire_codec_ok (hc_initiator_hello c) \<and> wire_codec_ok (hc_responder_hello c) \<and> wire_codec_ok (hc_proof c) \<and>
     wire_codec_ok (hc_confirmation c) \<and>
     (\<forall>w b. wc_encode (hc_initiator_hello c) w = Ok b \<longrightarrow> hc_canonical c b \<and> hc_probe c b = Some (8, ih_kind w)) \<and>
     (\<forall>w b. wc_encode (hc_responder_hello c) w = Ok b \<longrightarrow> hc_canonical c b \<and> hc_probe c b = Some (6, rh_kind w)) \<and>
     (\<forall>w b. wc_encode (hc_proof c) w = Ok b \<longrightarrow> hc_canonical c b \<and> hc_probe c b = Some (3, pw_kind w)) \<and>
     (\<forall>w b. wc_encode (hc_confirmation c) w = Ok b \<longrightarrow> hc_canonical c b \<and> hc_probe c b = Some (2, cw_kind w))"

lemma probe_kind: "hc_probe c b = Some (n, kind_number kind) \<Longrightarrow> probe c b = Ok (n, kind)"
  by (cases kind) (simp_all add: probe_def handshake_kinds_def kind_number_def)

lemma decode_encoded:
  "wire_codec_ok wc \<Longrightarrow> wc_encode wc w = Ok b \<Longrightarrow> decode_wire wc b = Ok w"
  by (simp add: wire_codec_ok_def decode_wire_def)

lemma receive_in_turn:
  assumes "hc_canonical c b" and "hc_probe c b = Some (handshake_arity kind, kind_number kind)"
    and "position_sender kind \<noteq> hg_role (hs_config h)" and "kind \<noteq> AdmissionGrantDelivery"
    and "handshake_position kind = hs_completed h + 1" and "receive_position c h kind b = (h', Ok ())"
  shows "receive c h b = (h'\<lparr>hs_completed := hs_completed h' + 1\<rparr>, Ok ())"
proof -
  have "hs_completed h < PROTOCOL_POSITIONS" using assms(4,5) by (cases kind) (simp_all add: PROTOCOL_POSITIONS_def)
  then show ?thesis using assms by (simp add: receive_def probe_kind)
qed

lemma send_in_turn:
  assumes "hg_role (hs_config h) = sender" and "hs_completed h + 1 = handshake_position kind"
  shows "begin_send h kind sender = Ok ()"
  using assms by (simp add: begin_send_def)

lemma check_peer_hello_honest:
  assumes "peer_ok c h v" and "id_parse ClusterId (hg_cluster (hs_config h)) = Ok (hg_cluster (hs_config h))"
  shows "check_peer_hello c h (hg_cluster (hs_config h)) (hv_node_id v) (hv_public_key v) (hv_nonce v) (hv_offer_bytes v) = Ok v"
  using assms by (auto simp: check_peer_hello_def peer_ok_def fixed_bytes_def split: option.splits)

definition negotiated :: "handshake \<Rightarrow> hello_view \<Rightarrow> selection \<Rightarrow> byte list \<Rightarrow> handshake" where
  "negotiated h v s t = h\<lparr>hs_peer_hello := Some v, hs_selection := Some s, hs_transcript := Some t\<rparr>"

lemma negotiated_simps [simp]:
  "hs_config (negotiated h v s t) = hs_config h" "hs_completed (negotiated h v s t) = hs_completed h"
  "hs_peer_hello (negotiated h v s t) = Some v" "hs_selection (negotiated h v s t) = Some s"
  "hs_transcript (negotiated h v s t) = Some t" "hs_local_view (negotiated h v s t) = hs_local_view h"
  by (simp_all add: negotiated_def)

lemma accept_peer_hello_honest:
  assumes "peer_ok c h v" and "id_parse ClusterId (hg_cluster (hs_config h)) = Ok (hg_cluster (hs_config h))"
    and "hello_select c h v = Ok s" and "transcript_of c h v s = Ok t"
  shows "accept_peer_hello c h (hg_cluster (hs_config h)) (hv_node_id v) (hv_public_key v) (hv_nonce v) (hv_offer_bytes v) =
     (negotiated h v s t, Ok ())"
proof -
  have "hs_peer_hello (h\<lparr>hs_peer_hello := Some v\<rparr>) = Some v" by simp
  then have "finalize_hellos c (h\<lparr>hs_peer_hello := Some v\<rparr>) = (negotiated h v s t, Ok ())"
    using assms(3,4)
    by (cases "hg_role (hs_config h)")
      (simp_all add: finalize_hellos_def hello_select_def transcript_of_def negotiated_def)
  then show ?thesis by (simp add: accept_peer_hello_def check_peer_hello_honest [OF assms(1,2)])
qed

text \<open>The credential proof field of a role: absent in member mode, derived from the shared
  secret in join mode.\<close>

definition proof_value :: "handshake_codec \<Rightarrow> handshake_config \<Rightarrow> byte list \<Rightarrow> proof_role \<Rightarrow> byte list option \<Rightarrow> bool" where
  "proof_value c g t prole p \<longleftrightarrow>
     (case hg_mode g of
        Member \<Rightarrow> p = None
      | Join \<Rightarrow> \<exists>secret b. hg_credential g = Some secret \<and> p = Some b \<and> length b = PROOF_LEN \<and>
          derive_proof (hc_proofs c) prole (hg_channel_binding g) secret (body_digest (hc_sha c) t) = Ok b)"

lemma derive_local_proof_value:
  assumes "proof_value c (hs_config h) t prole p" and "hs_transcript h = Some t"
  shows "derive_local_proof c h prole = Ok p"
  using assms by (auto simp: proof_value_def derive_local_proof_def transcript_digest_def split: handshake_mode.splits)

lemma receive_proof_honest:
  assumes "decode_wire (hc_proof c) b = Ok w" and "proof_value c (hs_config h) t prole (pw_proof w)"
    and "length (pw_signature w) = SIGNATURE_LEN" and "hs_peer_hello h = Some peer" and "hs_transcript h = Some t"
    and "hc_ed25519 c (hv_public_key peer) (signature_message (hc_sha c) domain t) (pw_signature w)"
  shows "receive_proof c h b domain prole = Ok ()"
  using assms
  by (auto simp: receive_proof_def proof_value_def fixed_bytes_def optional_bytes_def transcript_digest_def
      verify_proof_iff [THEN iffD2] verify_strict_def split: handshake_mode.splits)

text \<open>Two endpoints configured for one session.\<close>

definition matching :: "handshake_codec \<Rightarrow> handshake \<Rightarrow> handshake \<Rightarrow> bool" where
  "matching c i r \<longleftrightarrow>
     hg_role (hs_config i) = Initiator \<and> hg_role (hs_config r) = Responder \<and>
     hg_mode (hs_config i) = hg_mode (hs_config r) \<and> hg_generation (hs_config i) = hg_generation (hs_config r) \<and>
     hg_credential (hs_config i) = hg_credential (hs_config r) \<and> hg_cluster (hs_config i) = hg_cluster (hs_config r) \<and>
     hg_channel_binding (hs_config i) = hg_channel_binding (hs_config r) \<and>
     id_parse ClusterId (hg_cluster (hs_config i)) = Ok (hg_cluster (hs_config i)) \<and>
     (\<forall>g. hg_generation (hs_config i) = Some g \<longrightarrow> length g = GENERATION_LEN) \<and>
     peer_ok c i (hs_local_view r) \<and> peer_ok c r (hs_local_view i)"

definition initiator_hello_of :: "handshake \<Rightarrow> initiator_hello_wire" where
  "initiator_hello_of h =
     \<lparr>ih_kind = kind_number InitiatorHello, ih_mode = mode_text (hg_mode (hs_config h)),
      ih_generation = hg_generation (hs_config h), ih_cluster = hg_cluster (hs_config h),
      ih_node_id = hg_local_id (hs_config h), ih_public_key = hg_local_key (hs_config h),
      ih_nonce = hg_local_nonce (hs_config h), ih_offer = hv_offer_bytes (hs_local_view h)\<rparr>"

definition responder_hello_of :: "handshake \<Rightarrow> responder_hello_wire" where
  "responder_hello_of h =
     \<lparr>rh_kind = kind_number ResponderHello, rh_cluster = hg_cluster (hs_config h),
      rh_node_id = hg_local_id (hs_config h), rh_public_key = hg_local_key (hs_config h),
      rh_nonce = hg_local_nonce (hs_config h), rh_offer = hv_offer_bytes (hs_local_view h)\<rparr>"

lemma new_start:
  assumes "handshake_new c g registry = Ok h"
  shows "hs_completed h = 0" and "view_ok h" and "inputs_ok (hs_config h)"
  using new_inv [OF assms] assms
  by (auto simp: handshake_new_def and_then_Ok_iff handshake_invD)

lemma mode_parse_text [simp]: "mode_parse (mode_text m) = Ok m"
  by (cases m) (simp_all add: mode_parse_def)

lemma matchingD:
  assumes "matching c i r"
  shows "hg_role (hs_config i) = Initiator" and "hg_role (hs_config r) = Responder"
    and "hg_mode (hs_config i) = hg_mode (hs_config r)" and "hg_generation (hs_config i) = hg_generation (hs_config r)"
    and "hg_credential (hs_config i) = hg_credential (hs_config r)" and "hg_cluster (hs_config i) = hg_cluster (hs_config r)"
    and "hg_channel_binding (hs_config i) = hg_channel_binding (hs_config r)"
    and "id_parse ClusterId (hg_cluster (hs_config r)) = Ok (hg_cluster (hs_config r))"
    and "\<forall>g. hg_generation (hs_config r) = Some g \<longrightarrow> length g = GENERATION_LEN"
    and "peer_ok c i (hs_local_view r)" and "peer_ok c r (hs_local_view i)"
  using assms by (auto simp: matching_def)

lemma receive_initiator_hello_honest:
  assumes "matching c i r" and "view_ok i" and "inputs_ok (hs_config r)"
    and "decode_wire (hc_initiator_hello c) b = Ok (initiator_hello_of i)"
    and "hello_select c r (hs_local_view i) = Ok s" and "transcript_of c r (hs_local_view i) s = Ok t"
  shows "receive_position c r InitiatorHello b = (negotiated r (hs_local_view i) s t, Ok ())"
proof -
  note m = matchingD [OF assms(1)]
  have gen: "optional_bytes GENERATION_LEN (hg_generation (hs_config i)) ''handshake generation'' =
      Ok (hg_generation (hs_config i))"
    using m by (simp add: optional_bytes_Ok)
  have "accept_peer_hello c r (hg_cluster (hs_config i)) (hg_local_id (hs_config i)) (hg_local_key (hs_config i))
      (hg_local_nonce (hs_config i)) (hv_offer_bytes (hs_local_view i)) = (negotiated r (hs_local_view i) s t, Ok ())"
    using accept_peer_hello_honest [OF _ _ assms(5,6)] m assms(2) by (simp add: view_ok_def)
  then show ?thesis
    using assms(3,4) gen m
    by (cases "hg_mode (hs_config r)")
      (auto simp: receive_position_def receive_initiator_hello_def initiator_hello_of_def inputs_ok_def
        simp del: mode_text.simps)
qed

lemma receive_responder_hello_honest:
  assumes "matching c i r" and "view_ok r" and "decode_wire (hc_responder_hello c) b = Ok (responder_hello_of r)"
    and "hello_select c h (hs_local_view r) = Ok s" and "transcript_of c h (hs_local_view r) s = Ok t"
    and "h = i\<lparr>hs_completed := n\<rparr>"
  shows "receive_position c h ResponderHello b = (negotiated h (hs_local_view r) s t, Ok ())"
proof -
  note m = matchingD [OF assms(1)]
  have "accept_peer_hello c h (hg_cluster (hs_config r)) (hg_local_id (hs_config r)) (hg_local_key (hs_config r))
      (hg_local_nonce (hs_config r)) (hv_offer_bytes (hs_local_view r)) = (negotiated h (hs_local_view r) s t, Ok ())"
    using accept_peer_hello_honest [OF _ _ assms(4,5)] m assms(2,6) by (simp add: view_ok_def)
  then show ?thesis using assms(3) by (simp add: receive_position_def receive_responder_hello_def responder_hello_of_def)
qed

text \<open>The state in which an endpoint of an honest exchange ends.\<close>

definition finished :: "handshake \<Rightarrow> hello_view \<Rightarrow> selection \<Rightarrow> byte list \<Rightarrow> handshake" where
  "finished h v s t = (negotiated h v s t)\<lparr>hs_completed := PROTOCOL_POSITIONS\<rparr>"

lemma finished_simps [simp]:
  "hs_config (finished h v s t) = hs_config h" "hs_completed (finished h v s t) = PROTOCOL_POSITIONS"
  "hs_peer_hello (finished h v s t) = Some v" "hs_selection (finished h v s t) = Some s"
  "hs_transcript (finished h v s t) = Some t" "hs_local_view (finished h v s t) = hs_local_view h"
  by (simp_all add: finished_def)

text \<open>The states of the two endpoints, and every call between them.\<close>

abbreviation (input) initiator_at :: "handshake \<Rightarrow> hello_view \<Rightarrow> selection \<Rightarrow> byte list \<Rightarrow> nat \<Rightarrow> handshake" where
  "initiator_at i v s t k \<equiv> (negotiated (i\<lparr>hs_completed := 1\<rparr>) v s t)\<lparr>hs_completed := k\<rparr>"

abbreviation (input) responder_at :: "handshake \<Rightarrow> hello_view \<Rightarrow> selection \<Rightarrow> byte list \<Rightarrow> nat \<Rightarrow> handshake" where
  "responder_at r v s t k \<equiv> (negotiated r v s t)\<lparr>hs_completed := k\<rparr>"

lemma exchange_steps:
  assumes "handshake_new c gi reg_i = Ok i" and "handshake_new c gr reg_r = Ok r" and "matching c i r"
    and "handshake_codec_ok c"
    and "honest_offer (hc_digests c) (hs_registry i) (hv_offer (hs_local_view i))"
    and "honest_offer (hc_digests c) (hs_registry r) (hv_offer (hs_local_view r))"
    and "faithful_digests (hc_digests c) (hs_registry i) (hs_registry r)"
    and "registry_typed (hc_dns c) (hs_registry i)" and "registry_typed (hc_dns c) (hs_registry r)"
    and "hello_select c i (hs_local_view r) = Ok s" and "transcript_of c i (hs_local_view r) s = Ok t"
    and "sign_r (responder_session_message c t) = Ok sig_r" and "length sig_r = SIGNATURE_LEN"
    and "hc_ed25519 c (hg_local_key (hs_config r)) (responder_session_message c t) sig_r"
    and "sign_i (initiator_session_message c t) = Ok sig_i" and "length sig_i = SIGNATURE_LEN"
    and "hc_ed25519 c (hg_local_key (hs_config i)) (initiator_session_message c t) sig_i"
    and "proof_value c (hs_config i) t ResponderRole proof_r" and "proof_value c (hs_config i) t InitiatorRole proof_i"
    and "wc_encode (hc_initiator_hello c) (initiator_hello_of i) = Ok m1"
    and "wc_encode (hc_responder_hello c) (responder_hello_of r) = Ok m2"
    and "wc_encode (hc_proof c) \<lparr>pw_kind = kind_number ResponderProof, pw_proof = proof_r, pw_signature = sig_r\<rparr> = Ok m3"
    and "wc_encode (hc_proof c) \<lparr>pw_kind = kind_number InitiatorProof, pw_proof = proof_i, pw_signature = sig_i\<rparr> = Ok m4"
    and "wc_encode (hc_confirmation c) \<lparr>cw_kind = kind_number SelectionConfirmation, cw_selection = sel_bytes s\<rparr> = Ok m5"
  shows "initiator_opening c i = Ok (i\<lparr>hs_completed := 1\<rparr>, m1)"
    and "receive c r m1 = (responder_at r (hs_local_view i) s t 1, Ok ())"
    and "responder_hello c (responder_at r (hs_local_view i) s t 1) = (responder_at r (hs_local_view i) s t 2, Ok m2)"
    and "responder_proof c (responder_at r (hs_local_view i) s t 2) sig_r = (responder_at r (hs_local_view i) s t 3, Ok m3)"
    and "receive c (i\<lparr>hs_completed := 1\<rparr>) m2 = (initiator_at i (hs_local_view r) s t 2, Ok ())"
    and "receive c (initiator_at i (hs_local_view r) s t 2) m3 = (initiator_at i (hs_local_view r) s t 3, Ok ())"
    and "initiator_proof c (initiator_at i (hs_local_view r) s t 3) sig_i = (initiator_at i (hs_local_view r) s t 4, Ok m4)"
    and "receive c (responder_at r (hs_local_view i) s t 3) m4 = (responder_at r (hs_local_view i) s t 4, Ok ())"
    and "selection_confirmation c (responder_at r (hs_local_view i) s t 4) = (responder_at r (hs_local_view i) s t 5, Ok m5)"
    and "receive c (initiator_at i (hs_local_view r) s t 4) m5 = (initiator_at i (hs_local_view r) s t 5, Ok ())"
proof -
  note m = matchingD [OF assms(3)] and ok = assms(4) [unfolded handshake_codec_ok_def]
  note i0 = new_start [OF assms(1)] and r0 = new_start [OF assms(2)]
  have sel_r: "hello_select c r (hs_local_view i) = Ok s"
    using honest_select [OF assms(5-9) assms(10) [unfolded hello_select_def]] by (simp add: hello_select_def)
  have tr_r: "transcript_of c r (hs_local_view i) s = Ok t"
    using assms(11) m(1-7) by (simp add: transcript_of_def)
  have pv: "proof_value c (hs_config r) t prole p \<longleftrightarrow> proof_value c (hs_config i) t prole p" for prole p
    unfolding proof_value_def m(3,5,7) ..
  let ?i1 = "i\<lparr>hs_completed := 1\<rparr>"
  let ?r1 = "(negotiated r (hs_local_view i) s t)\<lparr>hs_completed := 1\<rparr>"
  let ?n = "negotiated ?i1 (hs_local_view r) s t"
  let ?r = "\<lambda>k. responder_at r (hs_local_view i) s t k" and ?i = "\<lambda>k. ?n\<lparr>hs_completed := k\<rparr>"
  show 1: "initiator_opening c i = Ok (?i1, m1)"
    using m(1) i0(1) assms(20)
    by (simp add: initiator_opening_def initiator_hello_def send_in_turn finish_send_def initiator_hello_of_def)
  show 2: "receive c r m1 = (?r1, Ok ())"
    using receive_in_turn [where kind = InitiatorHello, OF _ _ _ _ _
        receive_initiator_hello_honest [OF assms(3) i0(2) r0(3) decode_encoded sel_r tr_r]]
      ok assms(20) m(2) r0(1) by (simp add: initiator_hello_of_def)
  show 3: "responder_hello c ?r1 = (?r 2, Ok m2)"
    using m(2) assms(21) by (simp add: responder_hello_def send_in_turn finish_send_def responder_hello_of_def)
  show 4: "responder_proof c (?r 2) sig_r = (?r 3, Ok m3)"
    using m(2) assms(22) derive_local_proof_value [of c "?r 2" t ResponderRole proof_r] assms(18) pv
    by (simp add: responder_proof_def send_proof_def send_in_turn finish_send_def)
  have sel_i: "hello_select c ?i1 (hs_local_view r) = Ok s" and tr_i: "transcript_of c ?i1 (hs_local_view r) s = Ok t"
    using assms(10,11) by (simp_all add: hello_select_def transcript_of_def)
  show 5: "receive c ?i1 m2 = (?i 2, Ok ())"
    using receive_in_turn [where kind = ResponderHello, OF _ _ _ _ _
        receive_responder_hello_honest [OF assms(3) r0(2) decode_encoded sel_i tr_i refl]]
      ok assms(21) m(1) by (simp add: responder_hello_of_def)
  show 6: "receive c (?i 2) m3 = (?i 3, Ok ())"
    using receive_in_turn [where kind = ResponderProof and h = "?i 2" and h' = "?i 2" and c = c and b = m3]
      receive_proof_honest [where b = m3 and c = c and h = "?i 2" and t = t and domain = SESSION_V1_RESPONDER_DOMAIN and
        prole = ResponderRole, OF decode_encoded [OF _ assms(22)]] ok assms(13,14,18,22) m(1) r0(2)
    by (simp add: receive_position_def responder_session_message_def view_ok_def)
  show 7: "initiator_proof c (?i 3) sig_i = (?i 4, Ok m4)"
    using m(1) assms(23) derive_local_proof_value [of c "?i 3" t InitiatorRole proof_i] assms(19)
    by (simp add: initiator_proof_def send_proof_def send_in_turn finish_send_def)
  show 8: "receive c (?r 3) m4 = (?r 4, Ok ())"
    using receive_in_turn [where kind = InitiatorProof and h = "?r 3" and h' = "?r 3" and c = c and b = m4]
      receive_proof_honest [where b = m4 and c = c and h = "?r 3" and t = t and domain = SESSION_V1_INITIATOR_DOMAIN and
        prole = InitiatorRole, OF decode_encoded [OF _ assms(23)]] ok assms(16,17,19,23) m(2) i0(2) pv
    by (simp add: receive_position_def initiator_session_message_def view_ok_def)
  show 9: "selection_confirmation c (?r 4) = (?r 5, Ok m5)"
    using m(2) assms(24) by (simp add: selection_confirmation_def send_in_turn finish_send_def)
  show 10: "receive c (?i 4) m5 = (?i 5, Ok ())"
    using receive_in_turn [where kind = SelectionConfirmation and h = "?i 4" and h' = "?i 4" and c = c and b = m5]
      decode_encoded [OF _ assms(24)] ok assms(24) m(1)
    by (simp add: receive_position_def receive_confirmation_def)
qed

lemma exchange_runs:
  assumes "handshake_new c gi reg_i = Ok i" and "handshake_new c gr reg_r = Ok r" and "matching c i r"
    and "handshake_codec_ok c"
    and "honest_offer (hc_digests c) (hs_registry i) (hv_offer (hs_local_view i))"
    and "honest_offer (hc_digests c) (hs_registry r) (hv_offer (hs_local_view r))"
    and "faithful_digests (hc_digests c) (hs_registry i) (hs_registry r)"
    and "registry_typed (hc_dns c) (hs_registry i)" and "registry_typed (hc_dns c) (hs_registry r)"
    and "hello_select c i (hs_local_view r) = Ok s" and "transcript_of c i (hs_local_view r) s = Ok t"
    and "sign_r (responder_session_message c t) = Ok sig_r" and "length sig_r = SIGNATURE_LEN"
    and "hc_ed25519 c (hg_local_key (hs_config r)) (responder_session_message c t) sig_r"
    and "sign_i (initiator_session_message c t) = Ok sig_i" and "length sig_i = SIGNATURE_LEN"
    and "hc_ed25519 c (hg_local_key (hs_config i)) (initiator_session_message c t) sig_i"
    and "proof_value c (hs_config i) t ResponderRole proof_r" and "proof_value c (hs_config i) t InitiatorRole proof_i"
    and "wc_encode (hc_initiator_hello c) (initiator_hello_of i) = Ok m1"
    and "wc_encode (hc_responder_hello c) (responder_hello_of r) = Ok m2"
    and "wc_encode (hc_proof c) \<lparr>pw_kind = kind_number ResponderProof, pw_proof = proof_r, pw_signature = sig_r\<rparr> = Ok m3"
    and "wc_encode (hc_proof c) \<lparr>pw_kind = kind_number InitiatorProof, pw_proof = proof_i, pw_signature = sig_i\<rparr> = Ok m4"
    and "wc_encode (hc_confirmation c) \<lparr>cw_kind = kind_number SelectionConfirmation, cw_selection = sel_bytes s\<rparr> = Ok m5"
  shows "exchange c sign_i sign_r i r =
     Ok (finished i (hs_local_view r) s t, finished r (hs_local_view i) s t,
       \<lparr>es_peer = hg_local_id gr, es_selected_features = sel_features s\<rparr>,
       \<lparr>es_peer = hg_local_id gi, es_selected_features = sel_features s\<rparr>)"
proof -
  note m = exchange_steps [where sign_i = sign_i and sign_r = sign_r, OF assms]
  have cfg: "hs_config i = gi" "hs_config r = gr"
    using assms(1,2) by (auto simp: handshake_new_def and_then_Ok_iff)
  have v: "view_ok i" "view_ok r" using new_start(2) [OF assms(1)] new_start(2) [OF assms(2)] .
  have "initiator_at i (hs_local_view r) s t 5 = finished i (hs_local_view r) s t"
    "responder_at r (hs_local_view i) s t 5 = finished r (hs_local_view i) s t"
    by (simp_all add: finished_def negotiated_def PROTOCOL_POSITIONS_def)
  then show ?thesis
    using m assms(12,15) v cfg
    by (simp add: exchange_def responder_opening_def initiator_answer_def responder_closing_def initiator_closing_def
        established_def peer_identity_def selected_features_def view_ok_def)
qed

section \<open>A sample session\<close>

text \<open>A codec of finitely many messages: each entry of the table is one message and its bytes.\<close>

definition table_codec :: "('a \<times> byte list) list \<Rightarrow> 'a wire_codec" where
  "table_codec tab =
     \<lparr>wc_encode = (\<lambda>v. ok_or (map_of tab v) (invalid_input ''cbor'')),
      wc_decode = (\<lambda>b. ok_or (map_of (map prod.swap tab) b) NonCanonicalFailure)\<rparr>"

lemma table_codec_ok:
  assumes "distinct (map fst tab)" and "distinct (map snd tab)"
  shows "wire_codec_ok (table_codec tab)"
proof -
  have "distinct (map fst (map prod.swap tab))" using assms(2) by (simp add: comp_def)
  moreover have "(b, v) \<in> prod.swap ` set tab \<longleftrightarrow> (v, b) \<in> set tab" for b v by force
  ultimately show ?thesis
    using assms(1) by (simp add: wire_codec_ok_def table_codec_def map_of_eq_Some_iff)
qed

abbreviation (input) key_a :: "byte list" where "key_a \<equiv> replicate 32 1"
abbreviation (input) key_b :: "byte list" where "key_b \<equiv> replicate 32 2"

definition sample_registry0 :: feature_registry where "sample_registry0 = \<lparr>fr_definitions = []\<rparr>"
definition sample_offer0 :: feature_offer where "sample_offer0 = \<lparr>fo_supported = [], fo_required = [], fo_limits = []\<rparr>"

definition sample_config :: "role \<Rightarrow> handshake_config" where
  "sample_config role =
     \<lparr>hg_mode = Member, hg_role = role, hg_cluster = lit ''cluster_000000000000000000001'',
      hg_local_id = (if role = Initiator then lit ''node_000000000000000000001'' else lit ''node_000000000000000000002''),
      hg_local_key = (if role = Initiator then key_a else key_b),
      hg_expected_peer = Some (if role = Initiator then (lit ''node_000000000000000000002'', key_b)
        else (lit ''node_000000000000000000001'', key_a)),
      hg_generation = None, hg_credential = None, hg_local_nonce = replicate 32 3, hg_local_offer = sample_offer0,
      hg_channel_binding = replicate 32 4\<rparr>"

definition sample_endpoint :: "role \<Rightarrow> handshake" where
  "sample_endpoint role =
     \<lparr>hs_config = sample_config role, hs_registry = sample_registry0, hs_completed = 0,
      hs_local_view = \<lparr>hv_node_id = hg_local_id (sample_config role), hv_public_key = hg_local_key (sample_config role),
        hv_nonce = replicate 32 3, hv_offer_bytes = [6], hv_offer = sample_offer0\<rparr>,
      hs_peer_hello = None, hs_selection = None, hs_transcript = None, hs_grant_sent = False, hs_grant = None\<rparr>"

definition sample_transcript :: transcript_wire where
  "sample_transcript =
     \<lparr>tw_magic = PROTOCOL_MAGIC, tw_schema = ucast BASE_SCHEMA_ID, tw_mode = lit ''member'', tw_generation = None,
      tw_roles = [lit ''initiator'', lit ''responder''], tw_cluster = lit ''cluster_000000000000000000001'',
      tw_identities = [\<lparr>iw_node_id = lit ''node_000000000000000000001'', iw_public_key = key_a\<rparr>,
        \<lparr>iw_node_id = lit ''node_000000000000000000002'', iw_public_key = key_b\<rparr>],
      tw_nonces = [replicate 32 3, replicate 32 3], tw_offers = [[6], [6]], tw_selection = [7],
      tw_channel_binding = replicate 32 4\<rparr>"

definition sample_sha :: "byte list \<Rightarrow> digest" where "sample_sha bytes = take 32 (bytes @ replicate 32 0)"


definition sample_handshake_codec :: handshake_codec where
  "sample_handshake_codec =
     \<lparr>hc_dns = (\<lambda>_. True), hc_sha = sample_sha,
      hc_ed25519 = (\<lambda>k m s. s = replicate 64 0 \<and>
        (k = key_b \<and> m = signature_message sample_sha SESSION_V1_RESPONDER_DOMAIN [9] \<or>
         k = key_a \<and> m = signature_message sample_sha SESSION_V1_INITIATOR_DOMAIN [9])),
      hc_proofs = \<lparr>pp_hkdf = (\<lambda>_ _ _. None), pp_hmac = (\<lambda>_ _. None)\<rparr>, hc_digests = sample_provider,
      hc_canonical = (\<lambda>_. True),
      hc_probe = map_of [([1], (8, kind_number InitiatorHello)), ([2], (6, kind_number ResponderHello)),
        ([3], (3, kind_number ResponderProof)), ([4], (3, kind_number InitiatorProof)),
        ([5], (2, kind_number SelectionConfirmation))],
      hc_initiator_hello = table_codec [(initiator_hello_of (sample_endpoint Initiator), [1])],
      hc_responder_hello = table_codec [(responder_hello_of (sample_endpoint Responder), [2])],
      hc_proof = table_codec
        [(\<lparr>pw_kind = kind_number ResponderProof, pw_proof = None, pw_signature = replicate 64 0\<rparr>, [3]),
         (\<lparr>pw_kind = kind_number InitiatorProof, pw_proof = None, pw_signature = replicate 64 0\<rparr>, [4])],
      hc_confirmation = table_codec [(\<lparr>cw_kind = kind_number SelectionConfirmation, cw_selection = [7]\<rparr>, [5])],
      hc_grant = table_codec [],
      hc_transcript = (\<lambda>w. if w = sample_transcript then Ok [9]
        else if w = sample_transcript\<lparr>tw_nonces := [replicate 32 5, replicate 32 3]\<rparr> then Ok [8]
        else Err (invalid_input ''cbor'')),
      hc_selection = (\<lambda>_. Ok [7]),
      hc_offer_encode = (\<lambda>w. if w = offer_wire sample_offer0 then Ok [6] else Err (invalid_input ''cbor'')),
      hc_offer_decode = (\<lambda>b. if b = [6] then Ok (offer_wire sample_offer0) else Err (invalid_input ''cbor''))\<rparr>"

definition sample_sign :: "byte list \<Rightarrow> byte list result" where "sample_sign _ = Ok (replicate 64 0)"

lemma sample_kinds: "kind_number ResponderProof \<noteq> kind_number InitiatorProof"
  by (simp add: kind_number_def)

lemma sample_handshake_codec_ok: "handshake_codec_ok sample_handshake_codec"
proof -
  have e: "wc_encode (table_codec tab) w = Ok b \<longleftrightarrow> map_of tab w = Some b" for tab :: "('a \<times> byte list) list" and w b
    by (simp add: table_codec_def)
  show ?thesis
    by (simp add: handshake_codec_ok_def sample_handshake_codec_def table_codec_ok sample_kinds e)
      (simp add: initiator_hello_of_def responder_hello_of_def)
qed

lemma sample_decode0: "offer_decode (\<lambda>_. True) (hc_offer_decode sample_handshake_codec) sample_registry0 [6] = Ok sample_offer0"
  by (simp add: sample_handshake_codec_def offer_decode_def offer_wire_def sample_offer0_def offer_from_wire_def
      check_capacity_def map_ordered_def validate_limits_def expected_limits_def MAX_SUPPORTED_LABELS_def)

lemma sample_new: "handshake_new sample_handshake_codec (sample_config role) sample_registry0 = Ok (sample_endpoint role)"
  by (simp add: handshake_new_def sample_config_def sample_endpoint_def offer_encode_def sample_handshake_codec_def
      validate_limits_def expected_limits_def sample_offer0_def)

lemma sample_ids:
  "id_parse ClusterId (lit ''cluster_000000000000000000001'') = Ok (lit ''cluster_000000000000000000001'')"
  "id_parse NodeId (lit ''node_000000000000000000001'') = Ok (lit ''node_000000000000000000001'')"
  "id_parse NodeId (lit ''node_000000000000000000002'') = Ok (lit ''node_000000000000000000002'')"
  by (simp_all add: id_parse_def validate_id_def is_base62_def RANDOM_SUFFIX_LEN_def)

lemma sample_matching: "matching sample_handshake_codec (sample_endpoint Initiator) (sample_endpoint Responder)"
proof -
  have ne: "lit ''node_000000000000000000001'' \<noteq> lit ''node_000000000000000000002''" by simp
  have "peer_ok sample_handshake_codec (sample_endpoint Initiator) (hs_local_view (sample_endpoint Responder))"
    "peer_ok sample_handshake_codec (sample_endpoint Responder) (hs_local_view (sample_endpoint Initiator))"
    using sample_decode0 sample_ids ne
    by (simp_all only: peer_ok_def sample_endpoint_def sample_config_def handshake.simps hello_view.simps
        handshake_config.simps role.distinct if_True if_False refl simp_thms length_replicate PUBLIC_KEY_LEN_def NONCE_LEN_def
        option.inject eq_commute [of "lit ''node_000000000000000000002''"])
      (simp_all add: sample_handshake_codec_def)
  then show ?thesis using sample_ids(1) by (simp add: matching_def) (simp add: sample_endpoint_def sample_config_def)
qed

definition sample_selection :: selection where
  "sample_selection = \<lparr>sel_features = [], sel_limits = [], sel_bytes = [7]\<rparr>"

lemma sample_hello_select:
  "hello_select sample_handshake_codec (sample_endpoint Initiator) (hs_local_view (sample_endpoint Responder)) =
   Ok sample_selection"
  by (simp add: hello_select_def sample_endpoint_def sample_config_def sample_offer0_def select_def sample_handshake_codec_def
      dependency_fixpoint.simps [of _ "[]"] check_selection_conflicts_def check_selection_required_def bs_of_list_def sample_selection_def)

lemma sample_transcript_of:
  "transcript_of sample_handshake_codec (sample_endpoint Initiator) (hs_local_view (sample_endpoint Responder))
     sample_selection = Ok [9]"
  by (simp add: transcript_of_def sample_endpoint_def sample_config_def assemble_transcript_def sample_handshake_codec_def
      sample_transcript_def identity_of_def sample_selection_def)

lemma sample_side:
  "honest_offer (hc_digests sample_handshake_codec) (hs_registry (sample_endpoint role)) (hv_offer (hs_local_view (sample_endpoint role)))"
  "faithful_digests (hc_digests sample_handshake_codec) (hs_registry (sample_endpoint Initiator)) (hs_registry (sample_endpoint Responder))"
  "registry_typed (hc_dns sample_handshake_codec) (hs_registry (sample_endpoint role))"
  "proof_value sample_handshake_codec (hs_config (sample_endpoint role)) [9] prole None"
  "sample_sign m = Ok (replicate 64 0)" "length (replicate 64 (0::byte)) = SIGNATURE_LEN"
  "hc_ed25519 sample_handshake_codec (hg_local_key (hs_config (sample_endpoint Responder)))
     (responder_session_message sample_handshake_codec [9]) (replicate 64 0)"
  "hc_ed25519 sample_handshake_codec (hg_local_key (hs_config (sample_endpoint Initiator)))
     (initiator_session_message sample_handshake_codec [9]) (replicate 64 0)"
  by (simp_all add: honest_offer_def faithful_digests_def registry_typed_def registry_get_def sample_endpoint_def
      sample_config_def sample_offer0_def sample_registry0_def proof_value_def sample_sign_def SIGNATURE_LEN_def
      sample_handshake_codec_def responder_session_message_def initiator_session_message_def)

lemma sample_encodes:
  "wc_encode (hc_initiator_hello sample_handshake_codec) (initiator_hello_of (sample_endpoint Initiator)) = Ok [1]"
  "wc_encode (hc_responder_hello sample_handshake_codec) (responder_hello_of (sample_endpoint Responder)) = Ok [2]"
  "wc_encode (hc_proof sample_handshake_codec)
     \<lparr>pw_kind = kind_number ResponderProof, pw_proof = None, pw_signature = replicate 64 0\<rparr> = Ok [3]"
  "wc_encode (hc_proof sample_handshake_codec)
     \<lparr>pw_kind = kind_number InitiatorProof, pw_proof = None, pw_signature = replicate 64 0\<rparr> = Ok [4]"
  "wc_encode (hc_confirmation sample_handshake_codec) \<lparr>cw_kind = kind_number SelectionConfirmation,
     cw_selection = sel_bytes sample_selection\<rparr> = Ok [5]"
  using sample_kinds by (simp_all add: sample_handshake_codec_def table_codec_def sample_selection_def)

lemmas sample_premises =
  sample_new [of Initiator] sample_new [of Responder] sample_matching sample_handshake_codec_ok
  sample_side(1) [of Initiator] sample_side(1) [of Responder] sample_side(2) sample_side(3) [of Initiator]
  sample_side(3) [of Responder] sample_hello_select sample_transcript_of sample_side(5,6,7)
  sample_side(5,6,8) sample_side(4,4) sample_encodes

lemma sample_exchange:
  "exchange sample_handshake_codec sample_sign sample_sign (sample_endpoint Initiator) (sample_endpoint Responder) =
     Ok (finished (sample_endpoint Initiator) (hs_local_view (sample_endpoint Responder)) sample_selection [9],
       finished (sample_endpoint Responder) (hs_local_view (sample_endpoint Initiator)) sample_selection [9],
       \<lparr>es_peer = hg_local_id (sample_config Responder), es_selected_features = []\<rparr>,
       \<lparr>es_peer = hg_local_id (sample_config Initiator), es_selected_features = []\<rparr>)"
  using exchange_runs [where sign_i = sample_sign and sign_r = sample_sign, OF sample_premises] by (simp add: sample_selection_def)

lemmas sample_reach =
  exchange_reach [OF reach_new [OF sample_new [of Initiator]] reach_new [OF sample_new [of Responder]] sample_exchange]






section \<open>Properties\<close>

text \<open>C5: the exchange completes. Two endpoints created for the same session (same mode,
  generation, credential, cluster and channel binding, each acceptable to the other), whose
  offers state what their registries implement and whose selection succeeds, whose messages fit
  the codecs and whose signatures verify, run all five positions without an error. Both end
  authenticated, with the same transcript, the same selected features, and each other's node id.\<close>

theorem exchange_completes:
  assumes "handshake_new c gi reg_i = Ok i" and "handshake_new c gr reg_r = Ok r" and "matching c i r"
    and "handshake_codec_ok c"
    and "honest_offer (hc_digests c) (hs_registry i) (hv_offer (hs_local_view i))"
    and "honest_offer (hc_digests c) (hs_registry r) (hv_offer (hs_local_view r))"
    and "faithful_digests (hc_digests c) (hs_registry i) (hs_registry r)"
    and "registry_typed (hc_dns c) (hs_registry i)" and "registry_typed (hc_dns c) (hs_registry r)"
    and "hello_select c i (hs_local_view r) = Ok s" and "transcript_of c i (hs_local_view r) s = Ok t"
    and "sign_r (responder_session_message c t) = Ok sig_r" and "length sig_r = SIGNATURE_LEN"
    and "hc_ed25519 c (hg_local_key (hs_config r)) (responder_session_message c t) sig_r"
    and "sign_i (initiator_session_message c t) = Ok sig_i" and "length sig_i = SIGNATURE_LEN"
    and "hc_ed25519 c (hg_local_key (hs_config i)) (initiator_session_message c t) sig_i"
    and "proof_value c (hs_config i) t ResponderRole proof_r" and "proof_value c (hs_config i) t InitiatorRole proof_i"
    and "wc_encode (hc_initiator_hello c) (initiator_hello_of i) = Ok m1"
    and "wc_encode (hc_responder_hello c) (responder_hello_of r) = Ok m2"
    and "wc_encode (hc_proof c) \<lparr>pw_kind = kind_number ResponderProof, pw_proof = proof_r, pw_signature = sig_r\<rparr> = Ok m3"
    and "wc_encode (hc_proof c) \<lparr>pw_kind = kind_number InitiatorProof, pw_proof = proof_i, pw_signature = sig_i\<rparr> = Ok m4"
    and "wc_encode (hc_confirmation c) \<lparr>cw_kind = kind_number SelectionConfirmation, cw_selection = sel_bytes s\<rparr> = Ok m5"
  shows "\<exists>i' r'. exchange c sign_i sign_r i r =
       Ok (i', r', \<lparr>es_peer = hg_local_id gr, es_selected_features = sel_features s\<rparr>,
           \<lparr>es_peer = hg_local_id gi, es_selected_features = sel_features s\<rparr>) \<and>
     is_authenticated i' \<and> is_authenticated r' \<and> hs_transcript i' = Some t \<and> hs_transcript r' = Some t"
  using exchange_runs [where sign_i = sign_i and sign_r = sign_r, OF assms]
  by (intro exI [of _ "finished i (hs_local_view r) s t"] exI [of _ "finished r (hs_local_view i) s t"])
    (simp add: finished_def is_authenticated_def)

theorem exchange_completes_witness:
  "\<exists>i' r'. exchange sample_handshake_codec sample_sign sample_sign (sample_endpoint Initiator) (sample_endpoint Responder) =
       Ok (i', r', \<lparr>es_peer = hg_local_id (sample_config Responder), es_selected_features = []\<rparr>,
           \<lparr>es_peer = hg_local_id (sample_config Initiator), es_selected_features = []\<rparr>) \<and>
     is_authenticated i' \<and> is_authenticated r' \<and> hs_transcript i' = Some [9] \<and> hs_transcript r' = Some [9]"
  using exchange_completes [where sign_i = sample_sign and sign_r = sample_sign, OF sample_premises] by (simp add: sample_selection_def)




text \<open>C15: whatever an endpoint sends and receives, in whatever order, it never passes position
  five, and at its proof turn it holds a peer identity distinct from its own, equal to the
  expected binding in member mode, a transcript over exactly its own configuration, its peer's
  hello and the selection both offers give, and a session signature of the peer key over that
  transcript under the peer role's domain, in join mode with the credential proof derived from
  the shared secret. A grant is sent or stored only in join mode, only by the responder or the
  initiator respectively, and only after authentication.\<close>

theorem authenticated_sound:
  assumes "handshake_reach c h"
  shows "hs_completed h \<le> PROTOCOL_POSITIONS \<and> grant_ok h \<and>
    (proof_turn (hg_role (hs_config h)) \<le> hs_completed h \<longrightarrow>
      (\<exists>peer s t wire. hs_peer_hello h = Some peer \<and> peer_ok c h peer \<and>
        (hg_mode (hs_config h) = Member \<longrightarrow> hg_expected_peer (hs_config h) = peer_identity h) \<and>
        hello_select c h peer = Ok s \<and> transcript_of c h peer s = Ok t \<and> hs_transcript h = Some t \<and>
        proof_checked c h (peer_domain (hg_role (hs_config h))) (peer_proof_role (hg_role (hs_config h))) wire peer t))"
proof (intro conjI impI)
  note inv = handshake_invD [OF reach_inv [OF assms]]
  show "hs_completed h \<le> PROTOCOL_POSITIONS" "grant_ok h" using inv(3,4) .
  assume turn: "proof_turn (hg_role (hs_config h)) \<le> hs_completed h"
  have "hello_turn (hg_role (hs_config h)) \<le> proof_turn (hg_role (hs_config h))" by (cases "hg_role (hs_config h)") simp_all
  then have "hellos_ok c h" using inv(5) turn by simp
  then obtain peer s t where p: "hs_peer_hello h = Some peer" "peer_ok c h peer" "hs_transcript h = Some t"
      "hello_select c h peer = Ok s" "transcript_of c h peer s = Ok t" unfolding hellos_ok_def by blast
  obtain wire where w: "proof_checked c h (peer_domain (hg_role (hs_config h)))
      (peer_proof_role (hg_role (hs_config h))) wire peer t"
    using p(1,3) by (metis proof_okE [OF inv(7) [OF turn]] option.inject)
  have "hg_mode (hs_config h) = Member \<longrightarrow> hg_expected_peer (hs_config h) = peer_identity h"
    using inv(1) p(1,2) by (auto simp: inputs_ok_def peer_ok_def peer_identity_def)
  then show "\<exists>peer s t wire. hs_peer_hello h = Some peer \<and> peer_ok c h peer \<and>
      (hg_mode (hs_config h) = Member \<longrightarrow> hg_expected_peer (hs_config h) = peer_identity h) \<and>
      hello_select c h peer = Ok s \<and> transcript_of c h peer s = Ok t \<and> hs_transcript h = Some t \<and>
      proof_checked c h (peer_domain (hg_role (hs_config h))) (peer_proof_role (hg_role (hs_config h))) wire peer t"
    using p w by (intro exI [of _ peer] exI [of _ s] exI [of _ t] exI [of _ wire]) simp
qed

theorem authenticated_sound_witness:
  "grant_ok (finished (sample_endpoint Initiator) (hs_local_view (sample_endpoint Responder)) sample_selection [9]) \<and>
   (\<exists>wire. proof_checked sample_handshake_codec
      (finished (sample_endpoint Initiator) (hs_local_view (sample_endpoint Responder)) sample_selection [9])
      SESSION_V1_RESPONDER_DOMAIN ResponderRole wire (hs_local_view (sample_endpoint Responder)) [9])"
  using authenticated_sound [OF sample_reach(1)]
  by (simp add: finished_def sample_endpoint_def sample_config_def PROTOCOL_POSITIONS_def) blast

end
