(* ===== verification/Receipt_Index.thy ===== *)
theory Receipt_Index
  imports Receipts
begin

text \<open>
  The receipt reference index (\<^verbatim>\<open>src/src/storage/receipt.rs\<close>). A receipt may be referenced by owner
  records: each reference is an edge key, the head key counts the edges, and an unreferenced
  receipt can carry the wall time from which its retention runs. Every operation reads one
  snapshot and prepares a conditional transaction against its revision. \<open>snap\<close> is the
  snapshot, \<open>sys\<close> the store that commits, and \<open>now\<close> the reading of the wall clock.
\<close>

section \<open>Values\<close>

definition RECORD_REFERENCE_DOMAIN :: "byte list" where
  "RECORD_REFERENCE_DOMAIN = as_bytes (lit ''radiata.woooo.tech/receipt-reference/metadata-record/v1'') @ [0]"
definition REFERENCE_TOKEN_WIDTH :: nat where "REFERENCE_TOKEN_WIDTH = 32"
definition WALL_TIME_WIDTH :: nat where "WALL_TIME_WIDTH = 13"
definition NANOS_PER_SECOND :: u32 where "NANOS_PER_SECOND = 1000000000"

record receipt_identity =
  ri_transaction :: transaction_id
  ri_operation_digest :: digest

definition identity_from_receipt :: "commit_receipt \<Rightarrow> receipt_identity" where
  "identity_from_receipt receipt =
     \<lparr>ri_transaction = cr_transaction receipt, ri_operation_digest = cr_operation_digest receipt\<rparr>"

type_synonym reference_token = digest

definition token_for_record :: "(byte list \<Rightarrow> digest) \<Rightarrow> store_namespace \<Rightarrow> store_key \<Rightarrow> reference_token" where
  "token_for_record sha ns key =
     (let namespace = as_bytes (tag_value ns)
      in sha (RECORD_REFERENCE_DOMAIN @ to_be_bytes_u64 (word_of_nat (length namespace)) @ namespace @
              to_be_bytes_u64 (word_of_nat (length key)) @ key))"

datatype receipt_reference_change =
    AddSelf "reference_token list"
  | AddTo receipt_identity "reference_token list"
  | RemoveFrom receipt_identity "reference_token list"

record grouped_receipt_change =
  gc_target :: "receipt_identity option"
  gc_remove :: bool
  gc_tokens :: "reference_token list"

datatype receipt_reference_outcome =
    RefApplied commit_receipt | RefAborted | RefConflict | RefUnknown receipt_identity

datatype receipt_cleanup_outcome =
    CleanupReferenced | Anchored commit_receipt | Retained | Forgotten commit_receipt
  | CleanupAborted | CleanupConflict | CleanupUnknown receipt_identity

definition storage_corrupt :: error where
  "storage_corrupt = provider_error P_StorageCorrupt StorageSnapshot"

definition increment_reference_count :: "u64 \<Rightarrow> u64 result" where
  "increment_reference_count count = ok_or (checked_add count 1) (resource_exhausted ''receipt reference count'')"

definition encode_reference_count :: "(byte list \<Rightarrow> digest) \<Rightarrow> u64 \<Rightarrow> store_value" where
  "encode_reference_count sha count = store_value_new sha (to_be_bytes_u64 count)"

definition decode_reference_count :: "store_value \<Rightarrow> u64 result" where
  "decode_reference_count value =
     (if length (sv_value value) \<noteq> 8 then Err storage_corrupt
      else let count = from_be_bytes (sv_value value)
           in if count = 0 then Err storage_corrupt else Ok count)"

definition encode_wall_time :: "int \<Rightarrow> byte list" where
  "encode_wall_time t =
     (let (sign, duration) = if 0 \<le> t then (0, t) else (1, - t)
      in sign # to_be_bytes_u64 (word_of_int (duration div 10 ^ 9)) @ to_be_bytes_u32 (word_of_int (duration mod 10 ^ 9)))"

definition decode_wall_time :: "byte list \<Rightarrow> int result" where
  "decode_wall_time encoded =
     (if length encoded \<noteq> WALL_TIME_WIDTH then Err storage_corrupt
      else
        (let sign = encoded ! 0;
             seconds = from_be_bytes (take 8 (drop 1 encoded)) :: u64;
             nanos = from_be_bytes (drop 9 encoded) :: u32
         in if nanos \<ge> NANOS_PER_SECOND \<or> sign = 1 \<and> seconds = 0 \<and> nanos = 0 then Err storage_corrupt
            else
              (let duration = uint seconds * 10 ^ 9 + uint nanos
               in if sign = 0 then ok_or (checked_add_time 0 duration) storage_corrupt
                  else if sign = 1 then ok_or (checked_sub_time 0 duration) storage_corrupt
                  else Err storage_corrupt)))"

section \<open>Reading the index\<close>

datatype live_marker = MarkerActive store_value | MarkerForgotten

definition verify_live_marker ::
  "'s storage \<Rightarrow> 's \<Rightarrow> store_namespace \<Rightarrow> transaction_id \<Rightarrow> live_marker result" where
  "verify_live_marker so snap ns t =
     and_then (so_get so snap ns (used_id_key t)) (\<lambda>marker.
       case marker of
         None \<Rightarrow> Err storage_corrupt
       | Some v \<Rightarrow>
           if sv_value v = ACTIVE_MARKER_VALUE then Ok (MarkerActive v)
           else if sv_value v = FORGOTTEN_MARKER_VALUE then Ok MarkerForgotten
           else Err storage_corrupt)"

text \<open>The counting loop of the audit over the scanned edges.\<close>

fun count_edges :: "byte list \<Rightarrow> (store_key \<times> store_value) list \<Rightarrow> u64 \<Rightarrow> u64 result" where
  "count_edges pre [] count = Ok count"
| "count_edges pre ((key, v) # scan) count =
     (if \<not> prefix pre key \<or> length key \<noteq> length pre + REFERENCE_TOKEN_WIDTH \<or> sv_value v \<noteq> []
      then Err storage_corrupt
      else and_then (increment_reference_count count) (count_edges pre scan))"

definition audit_reference_index ::
  "'s storage \<Rightarrow> 's \<Rightarrow> store_namespace \<Rightarrow> transaction_id \<Rightarrow> store_value option \<Rightarrow> store_value option \<Rightarrow> u64 result" where
  "audit_reference_index so snap ns t head anchor =
     and_then (reference_edge_prefix t) (\<lambda>pre.
     and_then (count_edges pre (so_scan so snap ns pre) 0) (\<lambda>count.
     and_then
       (case head of
          None \<Rightarrow> if count = 0 then Ok () else Err storage_corrupt
        | Some v \<Rightarrow> and_then (decode_reference_count v) (\<lambda>n. if n = count then Ok () else Err storage_corrupt))
       (\<lambda>_. if count > 0 \<and> anchor \<noteq> None then Err storage_corrupt else Ok count)))"

record receipt_reference_state =
  rs_head_key :: store_key
  rs_anchor_key :: store_key
  rs_edge_key :: "store_key option"
  rs_head :: "store_value option"
  rs_edge :: "store_value option"
  rs_anchor :: "store_value option"
  rs_audited_count :: u64

definition load_reference_state ::
  "'s storage \<Rightarrow> 's \<Rightarrow> store_namespace \<Rightarrow> transaction_id \<Rightarrow> reference_token option \<Rightarrow> receipt_reference_state result" where
  "load_reference_state so snap ns t edge_token =
     and_then (so_get so snap ns (reference_head_key t)) (\<lambda>head.
     and_then (case edge_token of None \<Rightarrow> Ok None
               | Some token \<Rightarrow> and_then (reference_edge_key t token) (\<lambda>key. Ok (Some key))) (\<lambda>edge_key.
     and_then (case edge_key of None \<Rightarrow> Ok None | Some key \<Rightarrow> so_get so snap ns key) (\<lambda>edge.
     and_then (so_get so snap ns (eligibility_anchor_key t)) (\<lambda>anchor.
     and_then (audit_reference_index so snap ns t head anchor) (\<lambda>count.
       Ok \<lparr>rs_head_key = reference_head_key t, rs_anchor_key = eligibility_anchor_key t, rs_edge_key = edge_key,
           rs_head = head, rs_edge = edge, rs_anchor = anchor, rs_audited_count = count\<rparr>)))))"

section \<open>Single references\<close>

fun map_reference_outcome :: "commit_outcome \<Rightarrow> receipt_reference_outcome" where
  "map_reference_outcome (Committed receipt) = RefApplied receipt"
| "map_reference_outcome Aborted = RefAborted"
| "map_reference_outcome ConflictOutcome = RefConflict"
| "map_reference_outcome (UnknownOutcome t d) = RefUnknown \<lparr>ri_transaction = t, ri_operation_digest = d\<rparr>"

text \<open>What one operation decides from its snapshot: an answer without a commit, or a prepared
  transaction.\<close>

type_synonym 'a plan = "('a + store_transaction) result"

definition prepare_on_snapshot ::
  "(byte list \<Rightarrow> digest) \<Rightarrow> (ustr \<Rightarrow> bool) \<Rightarrow> 's storage \<Rightarrow> 's \<Rightarrow> transaction_id \<Rightarrow> store_operation list \<Rightarrow> 'a plan" where
  "prepare_on_snapshot sha dns so snap t ops =
     and_then (so_revision so snap) (\<lambda>revision.
     and_then (prepare_internal_transaction sha dns t revision ops) (\<lambda>tx. Ok (Inr tx)))"

definition add_operations ::
  "(byte list \<Rightarrow> digest) \<Rightarrow> store_namespace \<Rightarrow> receipt_reference_state \<Rightarrow> store_key \<Rightarrow> store_operation list result" where
  "add_operations sha ns state edge_key =
     and_then
       (case rs_head state of
          Some v \<Rightarrow> and_then (decode_reference_count v) (\<lambda>count.
                   and_then (increment_reference_count count) (\<lambda>after. Ok (Exact (sv_digest v), after)))
        | None \<Rightarrow> Ok (Absent, 1))
       (\<lambda>(head_expectation, next_count).
       and_then
         (case rs_anchor state of
            None \<Rightarrow> Ok []
          | Some anchor \<Rightarrow> and_then (decode_wall_time (sv_value anchor)) (\<lambda>_.
                            Ok [Delete ns (rs_anchor_key state) (sv_digest anchor)]))
         (\<lambda>anchor_ops.
           Ok ([Put ns (rs_head_key state) head_expectation (encode_reference_count sha next_count),
                Put ns edge_key Absent (store_value_new sha [])] @ anchor_ops)))"

definition plan_add_reference ::
  "(byte list \<Rightarrow> digest) \<Rightarrow> (ustr \<Rightarrow> bool) \<Rightarrow> 's storage \<Rightarrow> 's \<Rightarrow> receipt_identity \<Rightarrow> reference_token \<Rightarrow> transaction_id \<Rightarrow>
   receipt_reference_outcome plan" where
  "plan_add_reference sha dns so snap target token t =
     and_then (internal_namespace dns) (\<lambda>ns.
     and_then (verify_live_marker so snap ns (ri_transaction target)) (\<lambda>marker.
       if marker = MarkerForgotten then Ok (Inl RefConflict)
       else
         and_then (load_reference_state so snap ns (ri_transaction target) (Some token)) (\<lambda>state.
         and_then (ok_or (rs_edge_key state) storage_corrupt) (\<lambda>edge_key.
           if rs_edge state \<noteq> None then Ok (Inl RefConflict)
           else and_then (add_operations sha ns state edge_key) (prepare_on_snapshot sha dns so snap t)))))"

definition remove_operations ::
  "(byte list \<Rightarrow> digest) \<Rightarrow> store_namespace \<Rightarrow> receipt_reference_state \<Rightarrow> store_key \<Rightarrow> store_value \<Rightarrow> store_operation list result" where
  "remove_operations sha ns state edge_key edge =
     and_then (ok_or (rs_head state) storage_corrupt) (\<lambda>head.
     and_then (decode_reference_count head) (\<lambda>count.
       Ok [Delete ns edge_key (sv_digest edge),
           if count = 1 then Delete ns (rs_head_key state) (sv_digest head)
           else Put ns (rs_head_key state) (Exact (sv_digest head)) (encode_reference_count sha (count - 1))]))"

definition plan_remove_reference ::
  "(byte list \<Rightarrow> digest) \<Rightarrow> (ustr \<Rightarrow> bool) \<Rightarrow> 's storage \<Rightarrow> 's \<Rightarrow> receipt_identity \<Rightarrow> reference_token \<Rightarrow> transaction_id \<Rightarrow>
   receipt_reference_outcome plan" where
  "plan_remove_reference sha dns so snap target token t =
     and_then (internal_namespace dns) (\<lambda>ns.
     and_then (verify_live_marker so snap ns (ri_transaction target)) (\<lambda>marker.
       if marker = MarkerForgotten then Ok (Inl RefConflict)
       else
         and_then (load_reference_state so snap ns (ri_transaction target) (Some token)) (\<lambda>state.
         and_then (ok_or (rs_edge_key state) storage_corrupt) (\<lambda>edge_key.
           case rs_edge state of
             None \<Rightarrow> Ok (Inl RefConflict)
           | Some edge \<Rightarrow>
               and_then (remove_operations sha ns state edge_key edge) (prepare_on_snapshot sha dns so snap t)))))"

definition commit_plan ::
  "'s storage \<Rightarrow> 's \<times> commit_state \<Rightarrow> (commit_outcome \<Rightarrow> 'a) \<Rightarrow> 'a plan \<Rightarrow> ('s \<times> commit_state) \<times> 'a result" where
  "commit_plan so sys answer plan =
     (case plan of
        Inl e \<Rightarrow> (sys, Err e)
      | Inr (Inl a) \<Rightarrow> (sys, Ok a)
      | Inr (Inr tx) \<Rightarrow>
          (case store_commit (so_commit so) sys tx of
             (sys', Inl e) \<Rightarrow> (sys', Err e)
           | (sys', Inr outcome) \<Rightarrow> (sys', Ok (answer outcome))))"

definition add_receipt_reference ::
  "(byte list \<Rightarrow> digest) \<Rightarrow> (ustr \<Rightarrow> bool) \<Rightarrow> 's storage \<Rightarrow> 's \<Rightarrow> 's \<times> commit_state \<Rightarrow> receipt_identity \<Rightarrow> reference_token \<Rightarrow>
   transaction_id \<Rightarrow> ('s \<times> commit_state) \<times> receipt_reference_outcome result" where
  "add_receipt_reference sha dns so snap sys target token t =
     commit_plan so sys map_reference_outcome (plan_add_reference sha dns so snap target token t)"

definition remove_receipt_reference ::
  "(byte list \<Rightarrow> digest) \<Rightarrow> (ustr \<Rightarrow> bool) \<Rightarrow> 's storage \<Rightarrow> 's \<Rightarrow> 's \<times> commit_state \<Rightarrow> receipt_identity \<Rightarrow> reference_token \<Rightarrow>
   transaction_id \<Rightarrow> ('s \<times> commit_state) \<times> receipt_reference_outcome result" where
  "remove_receipt_reference sha dns so snap sys target token t =
     commit_plan so sys map_reference_outcome (plan_remove_reference sha dns so snap target token t)"

section \<open>Cleanup\<close>

definition anchor_operations ::
  "(byte list \<Rightarrow> digest) \<Rightarrow> store_namespace \<Rightarrow> receipt_reference_state \<Rightarrow> int \<Rightarrow> store_operation list" where
  "anchor_operations sha ns state now =
     [Check ns (rs_head_key state) Absent,
      Put ns (rs_anchor_key state) Absent (store_value_new sha (encode_wall_time now))]"

definition forget_operations ::
  "(byte list \<Rightarrow> digest) \<Rightarrow> store_namespace \<Rightarrow> receipt_reference_state \<Rightarrow> store_value \<Rightarrow> store_value \<Rightarrow> receipt_identity \<Rightarrow>
   store_operation list" where
  "forget_operations sha ns state anchor active_marker target =
     [Check ns (rs_head_key state) Absent,
      Delete ns (rs_anchor_key state) (sv_digest anchor),
      Put ns (used_id_key (ri_transaction target)) (Exact (sv_digest active_marker)) (marker_value sha FORGOTTEN_MARKER_VALUE),
      ForgetReceipt (ri_transaction target) (ri_operation_digest target)]"

text \<open>The plan of a cleanup carries whether it anchors or forgets.\<close>

definition plan_cleanup ::
  "(byte list \<Rightarrow> digest) \<Rightarrow> (ustr \<Rightarrow> bool) \<Rightarrow> 's storage \<Rightarrow> 's \<Rightarrow> int \<Rightarrow> int \<Rightarrow> receipt_identity \<Rightarrow> transaction_id \<Rightarrow>
   bool \<times> receipt_cleanup_outcome plan" where
  "plan_cleanup sha dns so snap retention now target t =
     (case and_then (internal_namespace dns) (\<lambda>ns.
         and_then (verify_live_marker so snap ns (ri_transaction target)) (\<lambda>marker.
           case marker of
             MarkerForgotten \<Rightarrow> Ok (Inl CleanupConflict)
           | MarkerActive active_marker \<Rightarrow>
               and_then (load_reference_state so snap ns (ri_transaction target) None) (\<lambda>state.
                 if rs_audited_count state > 0 then Ok (Inl CleanupReferenced)
                 else case rs_anchor state of
                     None \<Rightarrow> Ok (Inr (True, anchor_operations sha ns state now))
                   | Some anchor \<Rightarrow>
                       and_then (decode_wall_time (sv_value anchor)) (\<lambda>anchored_at.
                         case checked_add_time anchored_at retention of
                           None \<Rightarrow> Ok (Inl Retained)
                         | Some deadline \<Rightarrow>
                             if now < deadline then Ok (Inl Retained)
                             else Ok (Inr (False, forget_operations sha ns state anchor active_marker target)))))) of
        Inl e \<Rightarrow> (False, Err e)
      | Inr (Inl a) \<Rightarrow> (False, Ok (Inl a))
      | Inr (Inr (anchoring, ops)) \<Rightarrow> (anchoring, prepare_on_snapshot sha dns so snap t ops))"

fun map_cleanup_outcome :: "bool \<Rightarrow> commit_outcome \<Rightarrow> receipt_cleanup_outcome" where
  "map_cleanup_outcome anchoring (Committed receipt) = (if anchoring then Anchored receipt else Forgotten receipt)"
| "map_cleanup_outcome anchoring Aborted = CleanupAborted"
| "map_cleanup_outcome anchoring ConflictOutcome = CleanupConflict"
| "map_cleanup_outcome anchoring (UnknownOutcome t d) = CleanupUnknown \<lparr>ri_transaction = t, ri_operation_digest = d\<rparr>"

definition cleanup_receipt ::
  "(byte list \<Rightarrow> digest) \<Rightarrow> (ustr \<Rightarrow> bool) \<Rightarrow> 's storage \<Rightarrow> 's \<Rightarrow> 's \<times> commit_state \<Rightarrow> int \<Rightarrow> int \<Rightarrow> receipt_identity \<Rightarrow>
   transaction_id \<Rightarrow> ('s \<times> commit_state) \<times> receipt_cleanup_outcome result" where
  "cleanup_receipt sha dns so snap sys retention now target t =
     (let (anchoring, plan) = plan_cleanup sha dns so snap retention now target t
      in commit_plan so sys (map_cleanup_outcome anchoring) plan)"

section \<open>Grouped changes\<close>

fun change_parts :: "receipt_reference_change \<Rightarrow> receipt_identity option \<times> bool \<times> reference_token list" where
  "change_parts (AddSelf tokens) = (None, False, tokens)"
| "change_parts (AddTo target tokens) = (Some target, False, tokens)"
| "change_parts (RemoveFrom target tokens) = (Some target, True, tokens)"

fun insert_tokens :: "reference_token list \<Rightarrow> reference_token list \<Rightarrow> reference_token list result" where
  "insert_tokens [] seen = Ok seen"
| "insert_tokens (token # tokens) seen =
     (if token \<in> set seen then Err (invalid_input ''receipt reference change token'')
      else insert_tokens tokens (bs_insert token seen))"

abbreviation group_target_id :: "transaction_id \<Rightarrow> receipt_identity option \<Rightarrow> transaction_id" where
  "group_target_id self target \<equiv> (case target of None \<Rightarrow> self | Some r \<Rightarrow> ri_transaction r)"

fun group_changes_loop ::
  "transaction_id \<Rightarrow> receipt_reference_change list \<Rightarrow> reference_token list \<Rightarrow> grouped_receipt_change list \<Rightarrow>
   grouped_receipt_change list result" where
  "group_changes_loop self [] seen groups = Ok groups"
| "group_changes_loop self (change # changes) seen groups =
     (let (target0, remove, tokens) = change_parts change
      in if tokens = [] then Err (invalid_input ''receipt reference change tokens'')
         else and_then (insert_tokens tokens seen) (\<lambda>seen'.
           let target = (if map_option ri_transaction target0 = Some self then None else target0)
           in if target = None \<and> remove then Err (invalid_input ''receipt reference change target'')
              else if list_ex (\<lambda>g. group_target_id self (gc_target g) = group_target_id self target) groups
              then Err (invalid_input ''receipt reference change target'')
              else group_changes_loop self changes seen'
                     (groups @ [\<lparr>gc_target = target, gc_remove = remove, gc_tokens = tokens\<rparr>])))"

definition group_receipt_changes ::
  "transaction_id \<Rightarrow> receipt_reference_change list \<Rightarrow> grouped_receipt_change list result" where
  "group_receipt_changes self changes = group_changes_loop self changes [] []"

text \<open>The edge puts and deletes of a group; every edge key is built with its length check.\<close>

definition edge_puts ::
  "(byte list \<Rightarrow> digest) \<Rightarrow> store_namespace \<Rightarrow> transaction_id \<Rightarrow> reference_token list \<Rightarrow> store_operation list result" where
  "edge_puts sha ns t tokens =
     map_result (\<lambda>token. and_then (reference_edge_key t token) (\<lambda>key.
       Ok (Put ns key Absent (store_value_new sha [])))) tokens"

definition build_self_reference_operations ::
  "(byte list \<Rightarrow> digest) \<Rightarrow> 's storage \<Rightarrow> 's \<Rightarrow> store_namespace \<Rightarrow> transaction_id \<Rightarrow> reference_token list \<Rightarrow> u64 \<Rightarrow>
   store_operation list result" where
  "build_self_reference_operations sha so snap ns self tokens additional =
     and_then (so_get so snap ns (used_id_key self)) (\<lambda>marker.
       if marker \<noteq> None then Err (conflict ''receipt reference target'')
       else
         and_then (so_get so snap ns (reference_head_key self)) (\<lambda>head.
         and_then (audit_reference_index so snap ns self head None) (\<lambda>_.
           if head \<noteq> None then Err (conflict ''receipt reference target'')
           else and_then (edge_puts sha ns self tokens) (\<lambda>edges.
             Ok (Put ns (reference_head_key self) Absent (encode_reference_count sha additional) # edges)))))"

definition build_remove_operations ::
  "(byte list \<Rightarrow> digest) \<Rightarrow> store_namespace \<Rightarrow> transaction_id \<Rightarrow> reference_token list \<Rightarrow> store_value option \<Rightarrow>
   store_value option list \<Rightarrow> u64 \<Rightarrow> u64 \<Rightarrow> store_operation list result" where
  "build_remove_operations sha ns t tokens head edges count additional =
     (if None \<in> set edges then Err (conflict ''receipt reference token'')
      else and_then (ok_or head storage_corrupt) (\<lambda>head.
        and_then (ok_or (checked_sub count additional) storage_corrupt) (\<lambda>remaining.
        and_then (map_result (\<lambda>(token, edge).
            case edge of
              None \<Rightarrow> Err (conflict ''receipt reference token'')
            | Some v \<Rightarrow> and_then (reference_edge_key t token) (\<lambda>key. Ok (Delete ns key (sv_digest v))))
          (zip tokens edges)) (\<lambda>deletes.
          Ok (deletes @
              [if remaining = 0 then Delete ns (reference_head_key t) (sv_digest head)
               else Put ns (reference_head_key t) (Exact (sv_digest head)) (encode_reference_count sha remaining)])))))"

definition build_add_operations ::
  "(byte list \<Rightarrow> digest) \<Rightarrow> store_namespace \<Rightarrow> transaction_id \<Rightarrow> reference_token list \<Rightarrow> store_value option \<Rightarrow>
   store_value option \<Rightarrow> store_value option list \<Rightarrow> u64 \<Rightarrow> u64 \<Rightarrow> store_operation list result" where
  "build_add_operations sha ns t tokens head anchor edges count additional =
     and_then (ok_or (checked_add count additional) (resource_exhausted ''receipt reference count'')) (\<lambda>after.
     and_then (map_result (\<lambda>(token, edge).
         if edge \<noteq> None then Err (conflict ''receipt reference token'')
         else and_then (reference_edge_key t token) (\<lambda>key. Ok (Put ns key Absent (store_value_new sha []))))
       (zip tokens edges)) (\<lambda>puts.
     and_then
       (case anchor of
          None \<Rightarrow> Ok []
        | Some a \<Rightarrow> and_then (decode_wall_time (sv_value a)) (\<lambda>_.
                   Ok [Delete ns (eligibility_anchor_key t) (sv_digest a)]))
       (\<lambda>anchor_ops.
         Ok (Put ns (reference_head_key t) (case head of Some v \<Rightarrow> Exact (sv_digest v) | None \<Rightarrow> Absent)
               (encode_reference_count sha after) # puts @ anchor_ops))))"

text \<open>The checked conversion of a length to a count.\<close>

definition count_of_length :: "nat \<Rightarrow> u64 result" where
  "count_of_length n =
     (if n < 2 ^ 64 then Ok (word_of_nat n) else Err (resource_exhausted ''receipt reference count''))"

definition build_receipt_change_operations ::
  "(byte list \<Rightarrow> digest) \<Rightarrow> 's storage \<Rightarrow> 's \<Rightarrow> store_namespace \<Rightarrow> transaction_id \<Rightarrow> grouped_receipt_change \<Rightarrow>
   store_operation list result" where
  "build_receipt_change_operations sha so snap ns self grp =
     and_then (count_of_length (length (gc_tokens grp))) (\<lambda>additional.
      case gc_target grp of
           None \<Rightarrow> build_self_reference_operations sha so snap ns self (gc_tokens grp) additional
         | Some target \<Rightarrow>
             (let t = ri_transaction target
              in and_then (verify_live_marker so snap ns t) (\<lambda>marker.
                   if marker = MarkerForgotten then Err (conflict ''receipt reference target'')
                   else
                     and_then (so_get so snap ns (reference_head_key t)) (\<lambda>head.
                     and_then (so_get so snap ns (eligibility_anchor_key t)) (\<lambda>anchor.
                     and_then (map_result (\<lambda>token. and_then (reference_edge_key t token) (so_get so snap ns)) (gc_tokens grp)) (\<lambda>edges.
                     and_then (audit_reference_index so snap ns t head anchor) (\<lambda>count.
                       if gc_remove grp
                       then build_remove_operations sha ns t (gc_tokens grp) head edges count additional
                       else build_add_operations sha ns t (gc_tokens grp) head anchor edges count additional)))))))"

definition prepare_transaction_with_receipt_changes ::
  "(byte list \<Rightarrow> digest) \<Rightarrow> (ustr \<Rightarrow> bool) \<Rightarrow> 's storage \<Rightarrow> 's \<Rightarrow> transaction_id \<Rightarrow> store_operation list \<Rightarrow>
   receipt_reference_change list \<Rightarrow> store_transaction result" where
  "prepare_transaction_with_receipt_changes sha dns so snap t caller_ops changes =
     (if list_ex operation_uses_reserved_namespace caller_ops
      then Err (invalid_input ''metadata storage reserved namespace'')
      else
        and_then (internal_namespace dns) (\<lambda>ns.
        and_then (group_receipt_changes t changes) (\<lambda>groups.
        and_then (map_result (build_receipt_change_operations sha so snap ns t) groups) (\<lambda>built.
        and_then (so_revision so snap) (\<lambda>revision.
          prepare_internal_transaction sha dns t revision (caller_ops @ concat built))))))"

definition recover_self_referenced_transaction ::
  "(byte list \<Rightarrow> digest) \<Rightarrow> (ustr \<Rightarrow> bool) \<Rightarrow> transaction_id \<Rightarrow> store_revision \<Rightarrow> store_operation list \<Rightarrow>
   reference_token list \<Rightarrow> receipt_identity result" where
  "recover_self_referenced_transaction sha dns t base caller_ops tokens =
     (if tokens = [] then Err (invalid_input ''receipt reference change tokens'')
      else if list_ex operation_uses_reserved_namespace caller_ops
      then Err (invalid_input ''metadata storage reserved namespace'')
      else
        and_then (internal_namespace dns) (\<lambda>ns.
        and_then (count_of_length (length tokens)) (\<lambda>additional.
        and_then (edge_puts sha ns t tokens) (\<lambda>edges.
        and_then (prepare_internal_transaction sha dns t base
            (caller_ops @ Put ns (reference_head_key t) Absent (encode_reference_count sha additional) # edges)) (\<lambda>tx.
          Ok \<lparr>ri_transaction = t, ri_operation_digest = st_operation_digest tx\<rparr>)))))"

section \<open>Keys of different receipts are disjoint\<close>

definition receipt_id_ok :: "transaction_id \<Rightarrow> bool" where
  "receipt_id_ok t \<longleftrightarrow> is_ascii t \<and> length t < 2 ^ 16"

definition edge_prefix :: "transaction_id \<Rightarrow> byte list" where
  "edge_prefix t = REFERENCE_EDGE_TAG @ to_be_bytes_u16 (word_of_nat (length (as_bytes t))) @ as_bytes t @ [EDGE_DELIMITER]"

lemma reference_edge_Ok:
  assumes "receipt_id_ok t"
  shows "reference_edge_prefix t = Ok (edge_prefix t)" "reference_edge_key t token = Ok (edge_prefix t @ token)"
  using assms str_len_ascii [of t]
  by (simp_all add: receipt_id_ok_def reference_edge_key_def reference_edge_prefix_def edge_prefix_def str_len_def)

definition index_keys :: "transaction_id \<Rightarrow> store_key set" where
  "index_keys t = {reference_head_key t, eligibility_anchor_key t} \<union> {key. prefix (edge_prefix t) key}"

lemmas receipt_key_defs = reference_head_key_def eligibility_anchor_key_def used_id_key_def tagged_transaction_key_def
  REFERENCE_HEAD_TAG_def ELIGIBILITY_ANCHOR_TAG_def USED_ID_TAG_def

lemma edge_prefix_key:
  "prefix (edge_prefix t) key \<Longrightarrow> \<exists>rest. key = 3 # rest"
  by (auto simp: edge_prefix_def REFERENCE_EDGE_TAG_def prefix_def)

lemma receipt_keys_distinct [simp]:
  "reference_head_key t \<noteq> eligibility_anchor_key u" "eligibility_anchor_key u \<noteq> reference_head_key t"
  "reference_head_key t \<noteq> edge_prefix u @ r" "edge_prefix u @ r \<noteq> reference_head_key t"
  "eligibility_anchor_key t \<noteq> edge_prefix u @ r" "edge_prefix u @ r \<noteq> eligibility_anchor_key t"
  "used_id_key t \<noteq> reference_head_key u" "reference_head_key u \<noteq> used_id_key t"
  "used_id_key t \<noteq> eligibility_anchor_key u" "eligibility_anchor_key u \<noteq> used_id_key t"
  "used_id_key t \<noteq> edge_prefix u @ r" "edge_prefix u @ r \<noteq> used_id_key t"
  by (auto simp: receipt_key_defs edge_prefix_def REFERENCE_EDGE_TAG_def)

lemma used_id_key_not_index: "used_id_key t \<notin> index_keys u"
  by (auto simp: index_keys_def prefix_def)

lemma edge_prefix_inj:
  assumes "receipt_id_ok t" "receipt_id_ok u" "edge_prefix t @ a = edge_prefix u @ b"
  shows "t = u \<and> a = b"
proof -
  have l: "length (as_bytes x) = length x" if "receipt_id_ok x" for x
    using that str_len_ascii [of x] by (simp add: receipt_id_ok_def str_len_def)
  have eq: "to_be_bytes_u16 (word_of_nat (length t)) @ as_bytes t @ EDGE_DELIMITER # a =
      to_be_bytes_u16 (word_of_nat (length u)) @ as_bytes u @ EDGE_DELIMITER # b"
    using assms(3) by (simp add: edge_prefix_def l [OF assms(1)] l [OF assms(2)])
  then have "to_be_bytes_u16 (word_of_nat (length t)) = to_be_bytes_u16 (word_of_nat (length u))"
    and r: "as_bytes t @ EDGE_DELIMITER # a = as_bytes u @ EDGE_DELIMITER # b" by (simp_all add: append_eq_append_conv)
  then have "word_of_nat (length t) = (word_of_nat (length u) :: u16)" by (metis from_to_be_u16)
  from arg_cong [OF this, of unat] have "length t = length u" using assms(1,2) by (simp add: unat_of_nat receipt_id_ok_def)
  then have "as_bytes t = as_bytes u" "a = b" using r l assms(1,2) by (simp_all add: append_eq_append_conv)
  with as_bytes_inj [of t u] assms(1,2) show ?thesis by (simp add: receipt_id_ok_def)
qed

lemma index_keys_disjoint:
  assumes "receipt_id_ok t" "receipt_id_ok u" "t \<noteq> u"
  shows "index_keys t \<inter> index_keys u = {}"
proof -
  have "as_bytes t \<noteq> as_bytes u" using assms as_bytes_inj [of t u] by (auto simp: receipt_id_ok_def)
  then have "reference_head_key t \<noteq> reference_head_key u" "eligibility_anchor_key t \<noteq> eligibility_anchor_key u"
    by (simp_all add: receipt_key_defs)
  moreover have "\<not> (prefix (edge_prefix t) k \<and> prefix (edge_prefix u) k)" for k
    using edge_prefix_inj [OF assms(1,2)] assms(3) unfolding prefix_def by metis
  ultimately show ?thesis by (auto simp: index_keys_def prefix_def)
qed

section \<open>The index of an abstract store\<close>

definition ref_edges :: "abs_store \<Rightarrow> transaction_id \<Rightarrow> reference_token set" where
  "ref_edges st t = {token. as_entries st (internal_ns, edge_prefix t @ token) \<noteq> None}"

abbreviation ref_marker :: "abs_store \<Rightarrow> transaction_id \<Rightarrow> byte list option" where
  "ref_marker st t \<equiv> as_entries st (internal_ns, used_id_key t)"

abbreviation ref_anchor :: "abs_store \<Rightarrow> transaction_id \<Rightarrow> byte list option" where
  "ref_anchor st t \<equiv> as_entries st (internal_ns, eligibility_anchor_key t)"

definition index_ok :: "abs_store \<Rightarrow> transaction_id \<Rightarrow> bool" where
  "index_ok st t \<longleftrightarrow>
     finite (ref_edges st t) \<and> card (ref_edges st t) < 2 ^ 64 \<and>
     (\<forall>token\<in>ref_edges st t. length token = 32 \<and> as_entries st (internal_ns, edge_prefix t @ token) = Some []) \<and>
     as_entries st (internal_ns, reference_head_key t) =
       (if ref_edges st t = {} then None else Some (to_be_bytes_u64 (word_of_nat (card (ref_edges st t))))) \<and>
     (ref_edges st t \<noteq> {} \<longrightarrow> ref_anchor st t = None)"

definition index_agree :: "transaction_id \<Rightarrow> abs_store \<Rightarrow> abs_store \<Rightarrow> bool" where
  "index_agree t st st' \<longleftrightarrow> (\<forall>key\<in>index_keys t. as_entries st (internal_ns, key) = as_entries st' (internal_ns, key))"

lemma index_agree_iff:
  assumes "index_agree t st st'"
  shows "ref_edges st t = ref_edges st' t" "ref_anchor st t = ref_anchor st' t" "index_ok st t = index_ok st' t"
    and "as_entries st (internal_ns, reference_head_key t) = as_entries st' (internal_ns, reference_head_key t)"
proof -
  have e: "as_entries st (internal_ns, edge_prefix t @ r) = as_entries st' (internal_ns, edge_prefix t @ r)" for r
    using assms by (simp add: index_agree_def index_keys_def)
  show h: "as_entries st (internal_ns, reference_head_key t) = as_entries st' (internal_ns, reference_head_key t)"
    and a: "ref_anchor st t = ref_anchor st' t" using assms by (simp_all add: index_agree_def index_keys_def)
  show r: "ref_edges st t = ref_edges st' t" using e by (simp add: ref_edges_def)
  show "index_ok st t = index_ok st' t" by (simp only: index_ok_def r h a e)
qed

lemma count_edges_Ok:
  "count_edges pre scan c = Ok n \<longleftrightarrow>
     (\<forall>(key, v)\<in>set scan. prefix pre key \<and> length key = length pre + REFERENCE_TOKEN_WIDTH \<and> sv_value v = []) \<and>
     unat c + length scan < 2 ^ 64 \<and> n = c + word_of_nat (length scan)"
proof (induction scan arbitrary: c)
  case Nil
  then show ?case using unat_less_exp [of c] by auto
next
  case (Cons kv scan)
  obtain key v where kv: "kv = (key, v)" by (cases kv)
  have inc: "increment_reference_count c = (if unat c + 1 < 2 ^ 64 then Ok (c + 1) else Err (resource_exhausted ''receipt reference count''))"
    by (simp add: increment_reference_count_def checked_add_def)
  have u: "unat c + 1 < 2 ^ 64 \<Longrightarrow> unat (c + 1) = unat c + 1" by (simp add: unat_word_ariths)
  show ?case using Cons.IH [of "c + 1"] u by (auto simp: kv inc add.assoc split: if_split_asm)
qed

context snapshot_backend
begin

text \<open>The audit accepts exactly a consistent index, and returns its number of references.\<close>

lemma audit_exact:
  assumes "inv snap" "receipt_id_ok t"
    and "so_get so snap internal_ns (reference_head_key t) = Ok head"
    and "so_get so snap internal_ns (eligibility_anchor_key t) = Ok anchor"
  shows "audit_reference_index so snap internal_ns t head anchor = Ok n \<longleftrightarrow>
    index_ok (abs snap) t \<and> n = word_of_nat (card (ref_edges (abs snap) t))"
proof -
  let ?pre = "edge_prefix t" and ?scan = "so_scan so snap internal_ns (edge_prefix t)" and ?E = "ref_edges (abs snap) t"
  note sc = scan_refines [OF assms(1) internal_ns_ok, of ?pre]
  have set_scan: "(key, v) \<in> set ?scan \<longleftrightarrow>
      (\<exists>token b. key = ?pre @ token \<and> v = store_value_new sha b \<and> as_entries (abs snap) (internal_ns, key) = Some b)" for key v
    using sc by (auto simp: prefix_def)
  have keys: "fst ` set ?scan = (\<lambda>token. ?pre @ token) ` ?E"
  proof (rule set_eqI)
    fix key
    have "key \<in> fst ` set ?scan \<longleftrightarrow> (\<exists>v. (key, v) \<in> set ?scan)" by force
    also have "\<dots> \<longleftrightarrow> key \<in> (\<lambda>token. ?pre @ token) ` ?E" unfolding set_scan by (auto simp: ref_edges_def)
    finally show "key \<in> fst ` set ?scan \<longleftrightarrow> key \<in> (\<lambda>token. ?pre @ token) ` ?E" .
  qed
  have fin: "finite ?E" by (rule finite_imageD [of "\<lambda>token. ?pre @ token"]) (simp_all add: keys [symmetric] inj_on_def)
  have "distinct (map fst ?scan)" using sc by (simp add: strict_sorted_imp_distinct)
  then have len: "length ?scan = card ?E"
    using distinct_card [of "map fst ?scan"] card_image [of "\<lambda>token. ?pre @ token" ?E] by (simp add: keys inj_on_def)
  have shape: "(\<forall>(key, v)\<in>set ?scan. prefix ?pre key \<and> length key = length ?pre + REFERENCE_TOKEN_WIDTH \<and> sv_value v = []) \<longleftrightarrow>
      (\<forall>token\<in>?E. length token = 32 \<and> as_entries (abs snap) (internal_ns, ?pre @ token) = Some [])"
  proof -
    have "(\<forall>(key, v)\<in>set ?scan. prefix ?pre key \<and> length key = length ?pre + REFERENCE_TOKEN_WIDTH \<and> sv_value v = []) \<longleftrightarrow>
        (\<forall>key v. (key, v) \<in> set ?scan \<longrightarrow> prefix ?pre key \<and> length key = length ?pre + 32 \<and> sv_value v = [])"
      by (auto simp: REFERENCE_TOKEN_WIDTH_def)
    also have "\<dots> \<longleftrightarrow> (\<forall>token b. as_entries (abs snap) (internal_ns, ?pre @ token) = Some b \<longrightarrow>
        prefix ?pre (?pre @ token) \<and> length (?pre @ token) = length ?pre + 32 \<and> sv_value (store_value_new sha b) = [])"
      unfolding set_scan by blast
    finally show ?thesis by (auto simp: ref_edges_def store_value_new_def)
  qed
  have count: "count_edges ?pre ?scan 0 = Ok c \<longleftrightarrow>
      (\<forall>token\<in>?E. length token = 32 \<and> as_entries (abs snap) (internal_ns, ?pre @ token) = Some []) \<and>
      card ?E < 2 ^ 64 \<and> c = word_of_nat (card ?E)" for c
    unfolding count_edges_Ok shape len by simp
  have z: "card ?E < 2 ^ 64 \<Longrightarrow> (word_of_nat (card ?E) :: u64) = 0 \<longleftrightarrow> ?E = {}"
    using fin by (simp add: word_unat_eq_iff unat_of_nat)
  have head: "head = map_option (store_value_new sha) (as_entries (abs snap) (internal_ns, reference_head_key t))"
    and anchor: "anchor = map_option (store_value_new sha) (ref_anchor (abs snap) t)"
    using assms(3,4) get_refines [OF assms(1) internal_ns_ok] by simp_all
  have dec: "decode_reference_count (store_value_new sha b) = Ok m \<longleftrightarrow> b = to_be_bytes_u64 m \<and> m \<noteq> 0" for b m
    using to_from_be_u64 [of b] by (auto simp: decode_reference_count_def store_value_new_def Let_def)
  have hd: "(case head of None \<Rightarrow> if c = 0 then Ok () else Err storage_corrupt
      | Some v \<Rightarrow> and_then (decode_reference_count v) (\<lambda>n. if n = c then Ok () else Err storage_corrupt)) = Ok u \<longleftrightarrow>
      as_entries (abs snap) (internal_ns, reference_head_key t) = (if c = 0 then None else Some (to_be_bytes_u64 c))" for c u
    unfolding head by (cases "as_entries (abs snap) (internal_ns, reference_head_key t)")
      (auto simp: and_then_Ok_iff dec split: if_split_asm)
  have pos: "0 < (c :: u64) \<longleftrightarrow> c \<noteq> 0" for c using word_gt_0 by blast
  show ?thesis
    unfolding audit_reference_index_def reference_edge_Ok(1) [OF assms(2)] and_then_simps and_then_Ok_iff count hd index_ok_def pos
    using z fin by (auto simp: anchor)
qed

end

end
