(* ===== verification/Receipt_Safety.thy ===== *)
theory Receipt_Safety
  imports Receipt_Index
begin

text \<open>
  Why the receipt reference index of \<open>Receipt_Index\<close> stays consistent and what that buys: the
  effect of every built batch on the index, the invariant that ties markers, receipts and
  references together, its preservation by every prepared transaction, and the permanence of
  used transaction ids.
\<close>

section \<open>Changes of one receipt's index\<close>

definition index_change ::
  "(byte list \<Rightarrow> digest) \<Rightarrow> abs_store \<Rightarrow> transaction_id \<Rightarrow> reference_token set \<Rightarrow> store_operation list \<Rightarrow> bool" where
  "index_change sha st t new ops \<longleftrightarrow>
     list_all (operation_ok sha) ops \<and>
     (\<forall>op\<in>set ops. \<exists>key\<in>index_keys t. operation_identity_of op = KeyId internal_ns key) \<and>
     (\<forall>st'. index_agree t st st' \<longrightarrow>
        index_ok (fold abs_apply ops st') t \<and> ref_edges (fold abs_apply ops st') t = new \<and>
        (ref_anchor (fold abs_apply ops st') t = None \<or> ref_anchor (fold abs_apply ops st') t = ref_anchor st t))"

lemma fold_puts:
  "as_entries (fold abs_apply (map (\<lambda>token. Put ns (f token) e v) tokens) st) (ns, key) =
     (if key \<in> f ` set tokens then Some (sv_value v) else as_entries st (ns, key))"
  by (induction tokens arbitrary: st) auto

lemma fold_deletes:
  "as_entries (fold abs_apply (map (\<lambda>token. Delete ns (f token) (d token)) tokens) st) (ns, key) =
     (if key \<in> f ` set tokens then None else as_entries st (ns, key))"
  by (induction tokens arbitrary: st) auto

abbreviation edge_put :: "(byte list \<Rightarrow> digest) \<Rightarrow> transaction_id \<Rightarrow> reference_token \<Rightarrow> store_operation" where
  "edge_put sha t token \<equiv> Put internal_ns (edge_prefix t @ token) Absent (store_value_new sha [])"

abbreviation head_put :: "(byte list \<Rightarrow> digest) \<Rightarrow> transaction_id \<Rightarrow> store_expectation \<Rightarrow> nat \<Rightarrow> store_operation" where
  "head_put sha t e n \<equiv> Put internal_ns (reference_head_key t) e (encode_reference_count sha (word_of_nat n))"

lemma index_change_shape:
  assumes "\<And>op. op \<in> set ops \<Longrightarrow> operation_ok sha op \<and> (\<exists>key\<in>index_keys t. operation_identity_of op = KeyId internal_ns key)"
    and "\<And>st'. index_agree t st st' \<Longrightarrow> index_ok (fold abs_apply ops st') t \<and> ref_edges (fold abs_apply ops st') t = new \<and>
        (ref_anchor (fold abs_apply ops st') t = None \<or> ref_anchor (fold abs_apply ops st') t = ref_anchor st t)"
  shows "index_change sha st t new ops"
  using assms unfolding index_change_def list_all_iff by blast

lemma index_keys_mem [simp]:
  "reference_head_key t \<in> index_keys t" "eligibility_anchor_key t \<in> index_keys t" "edge_prefix t @ token \<in> index_keys t"
  by (simp_all add: index_keys_def)

lemma add_change:
  assumes "index_ok st t" "distinct tokens" "\<forall>token\<in>set tokens. length token = 32 \<and> token \<notin> ref_edges st t" "tokens \<noteq> []"
    and "card (ref_edges st t) + length tokens < 2 ^ 64"
    and "anchor_ops = [] \<and> ref_anchor st t = None \<or> (\<exists>d. anchor_ops = [Delete internal_ns (eligibility_anchor_key t) d])"
  shows "index_change sha st t (ref_edges st t \<union> set tokens)
    (head_put sha t e (card (ref_edges st t) + length tokens) # map (edge_put sha t) tokens @ anchor_ops)"
proof (rule index_change_shape, goal_cases)
  case (1 op)
  then show ?case using assms(6) by (auto simp: internal_ns_ok encode_reference_count_def)
next
  case (2 st')
  note a = index_agree_iff [OF 2]
  let ?E = "ref_edges st t"
  define st1 where "st1 = fold abs_apply (head_put sha t e (card ?E + length tokens) # map (edge_put sha t) tokens @ anchor_ops) st'"
  have entries: "as_entries st1 (internal_ns, key) =
      (if key = eligibility_anchor_key t then None
       else if key \<in> (\<lambda>token. edge_prefix t @ token) ` set tokens then Some []
       else if key = reference_head_key t then Some (to_be_bytes_u64 (word_of_nat (card ?E + length tokens)))
       else as_entries st' (internal_ns, key))" for key
    using assms(6) a(2) unfolding st1_def by (auto simp: fold_puts encode_reference_count_def store_value_new_def)
  have E: "ref_edges st1 t = ?E \<union> set tokens"
    unfolding a(1) unfolding ref_edges_def entries by (auto simp: image_iff)
  have fin: "finite ?E" using assms(1) by (simp add: index_ok_def)
  have card: "card (?E \<union> set tokens) = card ?E + length tokens"
    using assms(2,3) fin by (subst card_Un_disjoint) (auto simp: distinct_card)
  have old: "\<forall>token\<in>?E. length token = 32 \<and> as_entries st' (internal_ns, edge_prefix t @ token) = Some []"
    using assms(1) a(1,3) by (simp add: index_ok_def)
  have "index_ok st1 t"
    unfolding index_ok_def E card using assms(3-5) fin old by (auto simp: entries)
  with E show ?case unfolding st1_def [symmetric] by (simp add: entries)
qed

lemma remove_change:
  assumes "index_ok st t" "distinct tokens" "set tokens \<subseteq> ref_edges st t"
    and "head_op = (if card (ref_edges st t) - length tokens = 0 then Delete internal_ns (reference_head_key t) d
                    else head_put sha t e (card (ref_edges st t) - length tokens))"
  shows "index_change sha st t (ref_edges st t - set tokens)
    (map (\<lambda>token. Delete internal_ns (edge_prefix t @ token) (ds token)) tokens @ [head_op])"
proof (rule index_change_shape, goal_cases)
  case (1 op)
  then show ?case using assms(4) by (auto simp: internal_ns_ok encode_reference_count_def split: if_splits)
next
  case (2 st')
  note a = index_agree_iff [OF 2]
  let ?E = "ref_edges st t" and ?n = "card (ref_edges st t) - length tokens"
  define st1 where "st1 = fold abs_apply (map (\<lambda>token. Delete internal_ns (edge_prefix t @ token) (ds token)) tokens @ [head_op]) st'"
  have entries: "as_entries st1 (internal_ns, key) =
      (if key = reference_head_key t then if ?n = 0 then None else Some (to_be_bytes_u64 (word_of_nat ?n))
       else if key \<in> (\<lambda>token. edge_prefix t @ token) ` set tokens then None
       else as_entries st' (internal_ns, key))" for key
    using assms(4) unfolding st1_def by (auto simp: fold_deletes encode_reference_count_def store_value_new_def)
  have E: "ref_edges st1 t = ?E - set tokens"
    unfolding a(1) unfolding ref_edges_def entries by (auto simp: image_iff)
  have fin: "finite ?E" using assms(1) by (simp add: index_ok_def)
  have card: "card (?E - set tokens) = ?n"
    using assms(2,3) fin by (simp add: card_Diff_subset distinct_card)
  then have empty: "?E - set tokens = {} \<longleftrightarrow> ?n = 0" using fin by (metis card_0_eq finite_Diff)
  have old: "\<forall>token\<in>?E. length token = 32 \<and> as_entries st' (internal_ns, edge_prefix t @ token) = Some []"
    "card ?E < 2 ^ 64" "?E \<noteq> {} \<longrightarrow> ref_anchor st' t = None" using assms(1) a(1,3) by (simp_all add: index_ok_def)
  have "index_ok st1 t"
    unfolding index_ok_def E card empty using fin old by (auto simp: entries)
  with E a(2) show ?case unfolding st1_def [symmetric] by (simp add: entries)
qed

section \<open>The invariant\<close>

text \<open>A receipt exists exactly while its id's marker is active, references and anchors only belong
  to such receipts, and every index is consistent.\<close>

definition marker_ok :: "abs_store \<Rightarrow> transaction_id \<Rightarrow> bool" where
  "marker_ok st t \<longleftrightarrow>
     ref_marker st t \<in> {None, Some ACTIVE_MARKER_VALUE, Some FORGOTTEN_MARKER_VALUE} \<and>
     (as_receipts st t \<noteq> None \<longleftrightarrow> ref_marker st t = Some ACTIVE_MARKER_VALUE) \<and>
     (ref_edges st t \<noteq> {} \<or> ref_anchor st t \<noteq> None \<longrightarrow> ref_marker st t = Some ACTIVE_MARKER_VALUE)"

definition receipts_inv :: "abs_store \<Rightarrow> bool" where
  "receipts_inv st \<longleftrightarrow> (\<forall>t. receipt_id_ok t \<longrightarrow> index_ok st t \<and> marker_ok st t)"

lemma marker_values [simp]: "FORGOTTEN_MARKER_VALUE \<noteq> ACTIVE_MARKER_VALUE" "ACTIVE_MARKER_VALUE \<noteq> FORGOTTEN_MARKER_VALUE"
  by (simp_all add: ACTIVE_MARKER_VALUE_def FORGOTTEN_MARKER_VALUE_def)

lemma zip_map_same: "zip xs (map h xs) = map (\<lambda>x. (x, h x)) xs"
  by (induction xs) simp_all

lemma edge_puts_Ok: "receipt_id_ok t \<Longrightarrow> edge_puts sha internal_ns t tokens = Ok (map (edge_put sha t) tokens)"
  unfolding edge_puts_def by (rule map_result_total) (simp add: reference_edge_Ok)

lemma build_remove_change:
  assumes "index_ok st t" "receipt_id_ok t" "distinct tokens" "length tokens < 2 ^ 64"
    and "edges = map (\<lambda>token. map_option (store_value_new sha) (as_entries st (internal_ns, edge_prefix t @ token))) tokens"
    and "build_remove_operations sha internal_ns t tokens head edges (word_of_nat (card (ref_edges st t)))
           (word_of_nat (length tokens)) = Ok ops"
  shows "index_change sha st t (ref_edges st t - set tokens) ops \<and> set tokens \<subseteq> ref_edges st t"
proof -
  let ?E = "ref_edges st t" and ?h = "\<lambda>token. map_option (store_value_new sha) (as_entries st (internal_ns, edge_prefix t @ token))"
  from assms(6) obtain v remaining deletes where b: "None \<notin> set edges" "head = Some v"
    "checked_sub (word_of_nat (card ?E)) (word_of_nat (length tokens)) = Some (remaining :: u64)"
    "map_result (\<lambda>(token, edge). case edge of None \<Rightarrow> Err (conflict ''receipt reference token'')
        | Some v \<Rightarrow> and_then (reference_edge_key t token) (\<lambda>key. Ok (Delete internal_ns key (sv_digest v)))) (zip tokens edges) = Ok deletes"
    "ops = deletes @ [if remaining = 0 then Delete internal_ns (reference_head_key t) (sv_digest v)
       else Put internal_ns (reference_head_key t) (Exact (sv_digest v)) (encode_reference_count sha remaining)]"
    by (auto simp: build_remove_operations_def and_then_Ok_iff split: if_split_asm)
  have sub: "set tokens \<subseteq> ?E"
  proof
    fix token assume "token \<in> set tokens"
    then have "?h token \<in> set edges" unfolding assms(5) by simp
    then have "?h token \<noteq> None" using b(1) by metis
    then show "token \<in> ?E" by (simp add: ref_edges_def)
  qed
  have fin: "finite ?E" "card ?E < 2 ^ 64" using assms(1) by (simp_all add: index_ok_def)
  then have le: "length tokens \<le> card ?E" using sub assms(3) by (metis card_mono distinct_card)
  have "deletes = map (\<lambda>token. Delete internal_ns (edge_prefix t @ token) (sv_digest (the (?h token)))) tokens"
  proof -
    have "map_result (\<lambda>token. case ?h token of None \<Rightarrow> Err (conflict ''receipt reference token'')
        | Some v \<Rightarrow> and_then (reference_edge_key t token) (\<lambda>key. Ok (Delete internal_ns key (sv_digest v)))) tokens =
      Ok (map (\<lambda>token. Delete internal_ns (edge_prefix t @ token) (sv_digest (the (?h token)))) tokens)"
      by (rule map_result_total) (use sub in \<open>auto simp: reference_edge_Ok [OF assms(2)] ref_edges_def\<close>)
    with b(4) show ?thesis unfolding assms(5) zip_map_same map_result_map by simp
  qed
  moreover have "remaining = word_of_nat (card ?E - length tokens)"
    using b(3) le by (simp add: checked_sub_def of_nat_diff split: if_split_asm)
  moreover have "(word_of_nat n :: u64) = 0 \<longleftrightarrow> n = 0" if "n < 2 ^ 64" for n
    using that by (simp add: word_unat_eq_iff unat_of_nat)
  then have "(word_of_nat (card ?E - length tokens) :: u64) = 0 \<longleftrightarrow> card ?E - length tokens = 0"
    using fin(2) by (meson diff_le_self le_less_trans)
  ultimately have ops: "ops = map (\<lambda>token. Delete internal_ns (edge_prefix t @ token) (sv_digest (the (?h token)))) tokens @
      [if card ?E - length tokens = 0 then Delete internal_ns (reference_head_key t) (sv_digest v)
       else head_put sha t (Exact (sv_digest v)) (card ?E - length tokens)]" using b(5) by simp
  show ?thesis unfolding ops by (intro conjI remove_change [OF assms(1,3) sub refl] sub)
qed

lemma build_add_change:
  assumes "index_ok st t" "receipt_id_ok t" "distinct tokens" "length tokens < 2 ^ 64" "tokens \<noteq> []"
    and "\<forall>token\<in>set tokens. length token = 32" "anchor = map_option (store_value_new sha) (ref_anchor st t)"
    and "edges = map (\<lambda>token. map_option (store_value_new sha) (as_entries st (internal_ns, edge_prefix t @ token))) tokens"
    and "build_add_operations sha internal_ns t tokens head anchor edges (word_of_nat (card (ref_edges st t)))
           (word_of_nat (length tokens)) = Ok ops"
  shows "index_change sha st t (ref_edges st t \<union> set tokens) ops"
proof -
  let ?E = "ref_edges st t" and ?h = "\<lambda>token. map_option (store_value_new sha) (as_entries st (internal_ns, edge_prefix t @ token))"
  let ?f = "\<lambda>token edge. if edge \<noteq> None then Err (conflict ''receipt reference token'')
        else and_then (reference_edge_key t token) (\<lambda>key. Ok (Put internal_ns key Absent (store_value_new sha [])))"
  from assms(9) obtain after puts anchor_ops e where b:
    "checked_add (word_of_nat (card ?E)) (word_of_nat (length tokens)) = Some (after :: u64)"
    "map_result (\<lambda>(token, edge). ?f token edge) (zip tokens edges) = Ok puts"
    "anchor = None \<and> anchor_ops = [] \<or> (\<exists>d. anchor_ops = [Delete internal_ns (eligibility_anchor_key t) d])"
    "ops = Put internal_ns (reference_head_key t) e (encode_reference_count sha after) # puts @ anchor_ops"
    by (cases anchor) (fastforce simp: build_add_operations_def and_then_Ok_iff)+
  have puts: "map_result (\<lambda>token. ?f token (?h token)) tokens = Ok puts"
    using b(2) unfolding assms(8) zip_map_same map_result_map by simp
  have new: "token \<notin> ?E" if "token \<in> set tokens" for token
    using map_result_member [OF puts that] by (auto simp: ref_edges_def split: if_split_asm)
  have "map_result (\<lambda>token. ?f token (?h token)) tokens = Ok (map (edge_put sha t) tokens)"
    by (rule map_result_total) (use new in \<open>auto simp: reference_edge_Ok [OF assms(2)] ref_edges_def\<close>)
  with puts have p: "puts = map (edge_put sha t) tokens" by simp
  have fin: "card ?E < 2 ^ 64" using assms(1) by (simp add: index_ok_def)
  have c: "card ?E + length tokens < 2 ^ 64 \<and> after = word_of_nat (card ?E + length tokens)"
    using b(1) fin assms(4) by (simp add: checked_add_def unat_of_nat split: if_split_asm)
  then have c1: "card ?E + length tokens < 2 ^ 64" and c2: "after = word_of_nat (card ?E + length tokens)" by blast+
  have a: "anchor_ops = [] \<and> ref_anchor st t = None \<or> (\<exists>d. anchor_ops = [Delete internal_ns (eligibility_anchor_key t) d])"
    using b(3) assms(7) by auto
  show ?thesis unfolding b(4) p c2
    by (rule add_change [OF assms(1,3) _ assms(5) c1 a]) (use new assms(6) in blast)
qed

context snapshot_backend
begin

lemma verify_marker_Ok:
  assumes "inv snap" "verify_live_marker so snap internal_ns t = Ok m"
  shows "m \<noteq> MarkerForgotten \<longrightarrow> ref_marker (abs snap) t = Some ACTIVE_MARKER_VALUE"
    and "\<And>v. m = MarkerActive v \<Longrightarrow> v = store_value_new sha ACTIVE_MARKER_VALUE"
    and "m = MarkerForgotten \<Longrightarrow> ref_marker (abs snap) t = Some FORGOTTEN_MARKER_VALUE"
  using assms get_refines [OF assms(1) internal_ns_ok, of "used_id_key t"]
  by (auto simp: verify_live_marker_def and_then_Ok_iff split: option.split_asm if_split_asm)

lemma edges_read:
  assumes "inv snap" "receipt_id_ok t"
  shows "map_result (\<lambda>token. and_then (reference_edge_key t token) (so_get so snap internal_ns)) tokens =
    Ok (map (\<lambda>token. map_option (store_value_new sha) (as_entries (abs snap) (internal_ns, edge_prefix t @ token))) tokens)"
  by (rule map_result_total) (simp add: reference_edge_Ok [OF assms(2)] get_refines [OF assms(1) internal_ns_ok])

text \<open>The operations of one group change exactly the index of its target.\<close>

lemma build_group_change:
  assumes "inv snap" "receipts_inv (abs snap)" "receipt_id_ok (group_target_id self (gc_target g))"
    and "distinct (gc_tokens g)" "gc_tokens g \<noteq> []" "\<forall>token\<in>set (gc_tokens g). length token = 32"
    and "build_receipt_change_operations sha so snap internal_ns self g = Ok ops"
  shows "index_change sha (abs snap) (group_target_id self (gc_target g))
      (if gc_target g \<noteq> None \<and> gc_remove g then ref_edges (abs snap) (group_target_id self (gc_target g)) - set (gc_tokens g)
       else ref_edges (abs snap) (group_target_id self (gc_target g)) \<union> set (gc_tokens g)) ops \<and>
    (gc_target g \<noteq> None \<longrightarrow> ref_marker (abs snap) (group_target_id self (gc_target g)) = Some ACTIVE_MARKER_VALUE)"
proof (cases "gc_target g")
  case None
  let ?E = "ref_edges (abs snap) self"
  have idx: "receipt_id_ok self" "index_ok (abs snap) self" "marker_ok (abs snap) self"
    using assms(2,3) None by (simp_all add: receipts_inv_def)
  note gets = get_refines [OF assms(1) internal_ns_ok]
  from assms(7) None have b: "length (gc_tokens g) < 2 ^ 64" "ref_marker (abs snap) self = None"
    "ops = head_put sha self Absent (length (gc_tokens g)) # map (edge_put sha self) (gc_tokens g) @ []"
    by (auto simp: build_receipt_change_operations_def build_self_reference_operations_def and_then_Ok_iff count_of_length_def
        edge_puts_Ok [OF idx(1)] gets split: if_split_asm)
  have e: "?E = {}" "ref_anchor (abs snap) self = None" using idx(3) b(2) by (auto simp: marker_ok_def)
  have "index_change sha (abs snap) self (?E \<union> set (gc_tokens g)) ops"
    using add_change [OF idx(2) assms(4) _ assms(5), of "[]" sha Absent] assms(6) b(1) e unfolding b(3) by simp
  with None show ?thesis by simp
next
  case (Some target)
  let ?t = "ri_transaction target"
  have idx: "receipt_id_ok ?t" "index_ok (abs snap) ?t" using assms(2,3) Some by (simp_all add: receipts_inv_def)
  note gets = get_refines [OF assms(1) internal_ns_ok]
  let ?head = "map_option (store_value_new sha) (as_entries (abs snap) (internal_ns, reference_head_key ?t))"
  let ?anchor = "map_option (store_value_new sha) (ref_anchor (abs snap) ?t)"
  let ?edges = "map (\<lambda>token. map_option (store_value_new sha) (as_entries (abs snap) (internal_ns, edge_prefix ?t @ token))) (gc_tokens g)"
  from assms(7) Some obtain m count where b: "length (gc_tokens g) < 2 ^ 64"
    "verify_live_marker so snap internal_ns ?t = Ok m" "m \<noteq> MarkerForgotten"
    "audit_reference_index so snap internal_ns ?t ?head ?anchor = Ok count"
    "(if gc_remove g then build_remove_operations sha internal_ns ?t (gc_tokens g) ?head ?edges count (word_of_nat (length (gc_tokens g)))
      else build_add_operations sha internal_ns ?t (gc_tokens g) ?head ?anchor ?edges count (word_of_nat (length (gc_tokens g)))) = Ok ops"
    by (auto simp: build_receipt_change_operations_def and_then_Ok_iff count_of_length_def Let_def edges_read [OF assms(1) idx(1)]
        gets split: if_split_asm)
  have count: "count = word_of_nat (card (ref_edges (abs snap) ?t))"
    using audit_exact [OF assms(1) idx(1) gets gets, of count] b(4) by blast
  have m: "ref_marker (abs snap) ?t = Some ACTIVE_MARKER_VALUE" using verify_marker_Ok(1) [OF assms(1) b(2)] b(3) by blast
  show ?thesis
  proof (cases "gc_remove g")
    case True
    with b(5) have "build_remove_operations sha internal_ns ?t (gc_tokens g) ?head ?edges count (word_of_nat (length (gc_tokens g))) = Ok ops"
      by simp
    from build_remove_change [OF idx(2,1) assms(4) b(1) refl this [unfolded count]] True Some m show ?thesis by simp
  next
    case False
    with b(5) have "build_add_operations sha internal_ns ?t (gc_tokens g) ?head ?anchor ?edges count (word_of_nat (length (gc_tokens g))) = Ok ops"
      by simp
    from build_add_change [OF idx(2,1) assms(4) b(1) assms(5,6) refl refl this [unfolded count]] False Some m show ?thesis by simp
  qed
qed

end

section \<open>Batches preserve the invariant\<close>

lemma commit_receipts_inv:
  assumes "st_operations tx = ops @ [marker_put sha (st_id tx)]" "receipt_id_ok (st_id tx)"
    and "\<And>u. receipt_id_ok u \<Longrightarrow> index_ok (fold abs_apply ops st) u"
    and "\<And>u. receipt_id_ok u \<Longrightarrow> u \<noteq> st_id tx \<Longrightarrow> marker_ok (fold abs_apply ops st) u"
  shows "receipts_inv (abs_commit st tx)"
  unfolding receipts_inv_def
proof (intro allI impI conjI)
  fix u assume u: "receipt_id_ok u"
  let ?st1 = "fold abs_apply ops st"
  have entries: "as_entries (abs_commit st tx) = (as_entries ?st1)((internal_ns, used_id_key (st_id tx)) := Some ACTIVE_MARKER_VALUE)"
    and receipts: "as_receipts (abs_commit st tx) = (as_receipts ?st1)(st_id tx := Some (abs_receipt st tx))"
    using assms(1) by (simp_all add: abs_commit_def Let_def marker_value_def)
  have a: "index_agree u (abs_commit st tx) ?st1"
    using used_id_key_not_index [of "st_id tx" u] by (auto simp: index_agree_def entries)
  show "index_ok (abs_commit st tx) u" using index_agree_iff(3) [OF a] assms(3) [OF u] by simp
  show "marker_ok (abs_commit st tx) u"
  proof (cases "u = st_id tx")
    case False
    then have "used_id_key u \<noteq> used_id_key (st_id tx)"
      using u assms(2) used_id_key_inj [of u "st_id tx"] by (simp add: receipt_id_ok_def)
    with False assms(4) [OF u] index_agree_iff(1) [OF a] show ?thesis by (simp add: marker_ok_def entries receipts)
  qed (simp add: marker_ok_def entries receipts)
qed

lemma index_change_untouched:
  assumes "index_change sha st t new ops" "receipt_id_ok t" "receipt_id_ok u" "t \<noteq> u" "key \<in> index_keys u"
  shows "KeyId internal_ns key \<notin> set (map operation_identity_of ops)"
proof
  assume "KeyId internal_ns key \<in> set (map operation_identity_of ops)"
  then obtain op where "op \<in> set ops" "operation_identity_of op = KeyId internal_ns key" by auto
  with assms(1) have "key \<in> index_keys t" unfolding index_change_def by force
  with index_keys_disjoint [OF assms(2-4)] assms(5) show False by blast
qed

lemma concat_untouched:
  "(\<And>t new ops. (t, new, ops) \<in> set cs \<Longrightarrow> i \<notin> set (map operation_identity_of ops)) \<Longrightarrow>
   i \<notin> set (map operation_identity_of (concat (map (\<lambda>(t, new, ops). ops) cs)))"
  by fastforce

lemma changes_other:
  assumes "\<And>t new ops. (t, new, ops) \<in> set cs \<Longrightarrow> index_change sha st t new ops \<and> receipt_id_ok t \<and> t \<noteq> u" "receipt_id_ok u"
  shows "index_agree u st' (fold abs_apply (concat (map (\<lambda>(t, new, ops). ops) cs)) st')"
proof -
  have "KeyId internal_ns key \<notin> set (map operation_identity_of (concat (map (\<lambda>(t, new, ops). ops) cs)))"
    if k: "key \<in> index_keys u" for key
  proof -
    have "KeyId internal_ns key \<notin> set (map operation_identity_of ops)" if "(t, new, ops) \<in> set cs" for t new ops
      using index_change_untouched [OF _ _ assms(2) _ k] assms(1) [OF that] by blast
    then show ?thesis by (rule concat_untouched)
  qed
  from abs_apply_untouched [OF this] show ?thesis by (simp add: index_agree_def)
qed

text \<open>Caller operations and index changes of distinct receipts, applied together.\<close>

lemma changes_effect:
  assumes "receipts_inv st" "\<not> list_ex operation_uses_reserved_namespace caller_ops"
    and "\<And>t new ops. (t, new, ops) \<in> set cs \<Longrightarrow> index_change sha st t new ops \<and> receipt_id_ok t \<and>
      (ref_marker st t = Some ACTIVE_MARKER_VALUE \<or> t = self)"
    and "distinct (map fst cs)" "receipt_id_ok u"
  shows "index_ok (fold abs_apply (caller_ops @ concat (map (\<lambda>(t, new, ops). ops) cs)) st) u"
    and "u \<noteq> self \<Longrightarrow> marker_ok (fold abs_apply (caller_ops @ concat (map (\<lambda>(t, new, ops). ops) cs)) st) u"
proof -
  let ?ops = "caller_ops @ concat (map (\<lambda>(t, new, ops). ops) cs)"
  let ?st1 = "fold abs_apply ?ops st"
  have u: "index_ok st u" "marker_ok st u" using assms(1,5) by (simp_all add: receipts_inv_def)
  have caller: "index_agree u st (fold abs_apply caller_ops st)"
    using abs_apply_untouched [OF reserved_identity(1) [OF assms(2)]] by (simp add: index_agree_def)
  have loc: "operation_identity_of op \<in> KeyId internal_ns ` index_keys t" if "(t, new, ops) \<in> set cs" "op \<in> set ops" for t new ops op
    using assms(3) [OF that(1)] that(2) unfolding index_change_def by blast
  have "i \<notin> set (map operation_identity_of (concat (map (\<lambda>(t, new, ops). ops) cs)))"
    if "i = KeyId internal_ns (used_id_key u) \<or> i = ReceiptId u" for i
    using loc that used_id_key_not_index [of u] by (intro concat_untouched) fastforce
  then have r: "KeyId internal_ns (used_id_key u) \<notin> set (map operation_identity_of ?ops)" "ReceiptId u \<notin> set (map operation_identity_of ?ops)"
    using reserved_identity [OF assms(2)] unfolding map_append set_append Un_iff by blast+
  have mk: "ref_marker ?st1 u = ref_marker st u" "as_receipts ?st1 u = as_receipts st u"
    using abs_apply_untouched [OF r(1)] abs_apply_receipts [OF r(2)] by simp_all
  have "index_ok ?st1 u \<and> (u \<noteq> self \<longrightarrow> (ref_edges ?st1 u \<noteq> {} \<or> ref_anchor ?st1 u \<noteq> None \<longrightarrow> ref_marker st u = Some ACTIVE_MARKER_VALUE))"
  proof (cases "u \<in> fst ` set cs")
    case True
    then obtain new ops where c: "(u, new, ops) \<in> set cs" by force
    then obtain cs1 cs2 where cs: "cs = cs1 @ (u, new, ops) # cs2" by (auto dest: split_list)
    have "u \<notin> fst ` (set cs1 \<union> set cs2)" using assms(4) unfolding cs by auto
    then have other: "index_change sha st t n os \<and> receipt_id_ok t \<and> t \<noteq> u" if "(t, n, os) \<in> set cs1 \<union> set cs2" for t n os
      using image_eqI [of t fst "(t, n, os)", OF _ that] that assms(3) [of t n os] unfolding cs by auto
    let ?A = "fold abs_apply (caller_ops @ concat (map (\<lambda>(t, new, ops). ops) cs1)) st"
    have "index_agree u (fold abs_apply caller_ops st) ?A"
    proof -
      have "index_change sha st t n os \<and> receipt_id_ok t \<and> t \<noteq> u" if "(t, n, os) \<in> set cs1" for t n os
        using other that by blast
      from changes_other [OF this assms(5)] show ?thesis by simp
    qed
    with caller have A: "index_agree u st ?A" by (simp add: index_agree_def)
    have B: "index_agree u (fold abs_apply ops ?A) ?st1"
    proof -
      have "index_change sha st t n os \<and> receipt_id_ok t \<and> t \<noteq> u" if "(t, n, os) \<in> set cs2" for t n os
        using other that by blast
      from changes_other [OF this assms(5)] show ?thesis unfolding cs by simp
    qed
    have "index_ok (fold abs_apply ops ?A) u" using assms(3) [OF c] A unfolding index_change_def by blast
    with index_agree_iff(3) [OF B] assms(3) [OF c] show ?thesis by blast
  next
    case False
    have B: "index_agree u (fold abs_apply caller_ops st) ?st1"
    proof -
      have "index_change sha st t n os \<and> receipt_id_ok t \<and> t \<noteq> u" if "(t, n, os) \<in> set cs" for t n os
        using assms(3) [OF that] False that by force
      from changes_other [OF this assms(5)] show ?thesis by simp
    qed
    with caller have "index_agree u st ?st1" by (simp add: index_agree_def)
    from index_agree_iff [OF this] u show ?thesis by (simp add: marker_ok_def)
  qed
  then show "index_ok ?st1 u" "u \<noteq> self \<Longrightarrow> marker_ok ?st1 u" using u(2) mk by (simp_all add: marker_ok_def)
qed

section \<open>Prepared transactions preserve the invariant\<close>

definition changes_ok :: "receipt_reference_change list \<Rightarrow> bool" where
  "changes_ok changes \<longleftrightarrow> (\<forall>c\<in>set changes. \<forall>target remove tokens. change_parts c = (target, remove, tokens) \<longrightarrow>
     (\<forall>token\<in>set tokens. length token = 32) \<and> (\<forall>r. target = Some r \<longrightarrow> receipt_id_ok (ri_transaction r)))"

definition groups_ok :: "transaction_id \<Rightarrow> grouped_receipt_change list \<Rightarrow> bool" where
  "groups_ok self groups \<longleftrightarrow>
     distinct (map (\<lambda>g. group_target_id self (gc_target g)) groups) \<and>
     (\<forall>g\<in>set groups. gc_tokens g \<noteq> [] \<and> distinct (gc_tokens g) \<and> (\<forall>token\<in>set (gc_tokens g). length token = 32) \<and>
        (\<forall>r. gc_target g = Some r \<longrightarrow> receipt_id_ok (ri_transaction r)))"

lemma insert_tokens_Ok:
  "insert_tokens tokens seen = Ok seen' \<Longrightarrow> distinct tokens \<and> set tokens \<inter> set seen = {}"
  by (induction tokens seen rule: insert_tokens.induct) (auto split: if_split_asm)

lemma group_changes_loop_ok:
  "group_changes_loop self changes seen groups = Ok out \<Longrightarrow> changes_ok changes \<Longrightarrow> groups_ok self groups \<Longrightarrow> groups_ok self out"
proof (induction self changes seen groups rule: group_changes_loop.induct)
  case (2 self change changes seen groups)
  obtain target0 remove tokens where cp: "change_parts change = (target0, remove, tokens)" by (metis surj_pair)
  define target where "target = (if map_option ri_transaction target0 = Some self then None else target0)"
  from 2(2) [unfolded group_changes_loop.simps(2) cp Let_def prod.case, folded target_def]
  obtain seen' where s: "tokens \<noteq> []" "insert_tokens tokens seen = Ok seen'"
    "\<not> list_ex (\<lambda>g. group_target_id self (gc_target g) = group_target_id self target) groups"
    "\<not> (target = None \<and> remove)"
    "group_changes_loop self changes seen' (groups @ [\<lparr>gc_target = target, gc_remove = remove, gc_tokens = tokens\<rparr>]) = Ok out"
    by (auto simp: and_then_Ok_iff split: if_split_asm)
  have c: "changes_ok changes" "\<forall>token\<in>set tokens. length token = 32" "\<forall>r. target = Some r \<longrightarrow> receipt_id_ok (ri_transaction r)"
    using 2(3) cp by (auto simp: changes_ok_def target_def split: if_split_asm)
  have "groups_ok self (groups @ [\<lparr>gc_target = target, gc_remove = remove, gc_tokens = tokens\<rparr>])"
    using 2(4) s(1,3) c(2,3) insert_tokens_Ok [OF s(2)] by (fastforce simp: groups_ok_def list_ex_iff)
  from 2(1) [OF cp [symmetric] refl refl s(1) target_def s(4,3,5) c(1) this] show ?case .
qed simp

text \<open>Used ids stay used, and forgotten ids stay forgotten.\<close>

definition markers_kept :: "abs_store \<Rightarrow> abs_store \<Rightarrow> bool" where
  "markers_kept st st' \<longleftrightarrow> (\<forall>u. receipt_id_ok u \<longrightarrow> ref_marker st u \<noteq> None \<longrightarrow>
     ref_marker st' u = ref_marker st u \<or> ref_marker st' u = Some FORGOTTEN_MARKER_VALUE)"

lemma markers_kept_refl: "markers_kept st st"
  by (simp add: markers_kept_def)

lemma markers_kept_trans: "markers_kept st st1 \<Longrightarrow> markers_kept st1 st2 \<Longrightarrow> markers_kept st st2"
  unfolding markers_kept_def by (metis option.distinct(1))

context snapshot_backend
begin

text \<open>A transaction is sound on a snapshot when it keeps the invariant and every used id.\<close>

definition sound_on :: "(ustr \<Rightarrow> bool) \<Rightarrow> 's \<Rightarrow> transaction_id \<Rightarrow> store_transaction \<Rightarrow> bool" where
  "sound_on dns snap t tx \<longleftrightarrow> (\<exists>ops revision. prepare_internal_transaction sha dns t revision ops = Ok tx \<and>
     so_revision so snap = Ok revision \<and> list_all (operation_ok sha) ops \<and>
     (receipts_inv (abs snap) \<longrightarrow> ref_marker (abs snap) t = None \<longrightarrow>
      receipts_inv (abs_commit (abs snap) tx) \<and> markers_kept (abs snap) (abs_commit (abs snap) tx)))"

lemma prepared_changes_sound:
  assumes "inv snap" "dns BUILTIN_DOMAIN" "receipt_id_ok t" "list_all (operation_ok sha) caller_ops"
    and "changes_ok changes" "prepare_transaction_with_receipt_changes sha dns so snap t caller_ops changes = Ok tx"
    and "receipts_inv (abs snap)"
  shows "sound_on dns snap t tx"
proof -
  from assms(6) obtain groups built revision where b: "\<not> list_ex operation_uses_reserved_namespace caller_ops"
    "group_receipt_changes t changes = Ok groups"
    "map_result (build_receipt_change_operations sha so snap internal_ns t) groups = Ok built"
    "so_revision so snap = Ok revision"
    "prepare_internal_transaction sha dns t revision (caller_ops @ concat built) = Ok tx"
    by (auto simp: prepare_transaction_with_receipt_changes_def internal_namespace_Ok [of dns, OF assms(2)] and_then_Ok_iff split: if_split_asm)
  have g: "groups_ok t groups"
    using group_changes_loop_ok [OF b(2) [unfolded group_receipt_changes_def] assms(5)] by (simp add: groups_ok_def)
  define new where "new = (\<lambda>g :: grouped_receipt_change. let r = ref_edges (abs snap) (group_target_id t (gc_target g))
     in if gc_target g \<noteq> None \<and> gc_remove g then r - set (gc_tokens g) else r \<union> set (gc_tokens g))"
  define cs where "cs = map2 (\<lambda>g ops. (group_target_id t (gc_target g), new g, ops)) groups built"
  have l2: "list_all2 (\<lambda>g ops. build_receipt_change_operations sha so snap internal_ns t g = Ok ops) groups built"
    using b(3) by (simp add: map_result_Ok_iff)
  then have len: "length groups = length built" by (rule list_all2_lengthD)
  have ops: "concat (map (\<lambda>(t, new, ops). ops) cs) = concat built"
    using len unfolding cs_def by (induction groups built rule: list_induct2) simp_all
  have fst: "map fst cs = map (\<lambda>g. group_target_id t (gc_target g)) groups"
    using len unfolding cs_def by (induction groups built rule: list_induct2) simp_all
  have cs: "index_change sha (abs snap) u n os \<and> receipt_id_ok u \<and> (ref_marker (abs snap) u = Some ACTIVE_MARKER_VALUE \<or> u = t)"
    if c: "(u, n, os) \<in> set cs" for u n os
  proof -
    from c obtain g where gz: "(g, os) \<in> set (zip groups built)" "u = group_target_id t (gc_target g)" "n = new g"
      by (auto simp: cs_def)
    have gm: "g \<in> set groups" using gz(1) by (rule set_zip_leftD)
    have bo: "build_receipt_change_operations sha so snap internal_ns t g = Ok os"
      using l2 gz(1) by (auto simp: list_all2_iff)
    have id: "receipt_id_ok (group_target_id t (gc_target g))"
      using g gm assms(3) by (auto simp: groups_ok_def split: option.split)
    have tk: "distinct (gc_tokens g)" "gc_tokens g \<noteq> []" "\<forall>token\<in>set (gc_tokens g). length token = 32"
      using g gm by (auto simp: groups_ok_def)
    from build_group_change [OF assms(1,7) id tk bo] id show ?thesis
      unfolding gz new_def by (cases "gc_target g") (auto simp: Let_def)
  qed
  have dist: "distinct (map fst cs)" using g by (simp add: fst groups_ok_def)
  note eff = changes_effect [OF assms(7) b(1) cs dist, unfolded ops]
  note p = prepare_internal_Ok [OF assms(2) b(5)]
  have inv': "receipts_inv (abs_commit (abs snap) tx)"
    by (rule commit_receipts_inv [OF p(3) [folded p(1)]]) (use assms(3) eff p(1) in simp_all)
  have "ref_marker (abs_commit (abs snap) tx) u = ref_marker (abs snap) u" if "receipt_id_ok u" "u \<noteq> t" for u
  proof -
    have "KeyId internal_ns (used_id_key u) \<notin> set (map operation_identity_of (caller_ops @ concat built))"
    proof -
      have "KeyId internal_ns (used_id_key u) \<notin> set (map operation_identity_of (concat (map (\<lambda>(t, new, ops). ops) cs)))"
        using cs used_id_key_not_index [of u] unfolding index_change_def by (intro concat_untouched) fastforce
      then show ?thesis using reserved_identity(1) [OF b(1), of "used_id_key u"] by (simp add: ops)
    qed
    from abs_apply_untouched [OF this] used_id_key_inj [of u t] that assms(3) show ?thesis
      by (simp add: abs_commit_def p(1,3) Let_def receipt_id_ok_def)
  qed
  moreover have "list_all (operation_ok sha) (caller_ops @ concat built)"
  proof -
    have "list_all (operation_ok sha) os" if "(u, n, os) \<in> set cs" for u n os
      using cs [OF that] by (simp add: index_change_def)
    then have "list_all (operation_ok sha) (concat (map (\<lambda>(t, new, ops). ops) cs))" by (auto simp: list_all_iff)
    with assms(4) show ?thesis by (simp add: ops)
  qed
  ultimately show ?thesis unfolding sound_on_def markers_kept_def using inv' b(4,5) assms(3) by (metis (no_types, lifting))
qed


lemma single_change_sound:
  assumes "dns BUILTIN_DOMAIN" "receipt_id_ok t" "receipt_id_ok u" "ref_marker (abs snap) u = Some ACTIVE_MARKER_VALUE"
    and "index_change sha (abs snap) u new ops" "prepare_on_snapshot sha dns so snap t ops = Ok (Inr tx)"
  shows "sound_on dns snap t tx"
proof -
  obtain revision where p: "so_revision so snap = Ok revision" "prepare_internal_transaction sha dns t revision ops = Ok tx"
    using assms(6) by (auto simp: prepare_on_snapshot_def and_then_Ok_iff)
  note pi = prepare_internal_Ok [OF assms(1) p(2)]
  have "receipts_inv (abs_commit (abs snap) tx) \<and>
      (\<forall>w. receipt_id_ok w \<longrightarrow> ref_marker (abs snap) w \<noteq> None \<longrightarrow> ref_marker (abs_commit (abs snap) tx) w = ref_marker (abs snap) w)"
    if i: "receipts_inv (abs snap)" and n: "ref_marker (abs snap) t = None"
  proof -
    have cs: "index_change sha (abs snap) a b c \<and> receipt_id_ok a \<and> (ref_marker (abs snap) a = Some ACTIVE_MARKER_VALUE \<or> a = t)"
      if "(a, b, c) \<in> set [(u, new, ops)]" for a b c using that assms(3-5) by auto
    have r: "\<not> list_ex operation_uses_reserved_namespace []" by simp
    have d: "distinct (map fst [(u, new, ops)])" by simp
    note eff = changes_effect [OF i r cs d, simplified]
    have "receipts_inv (abs_commit (abs snap) tx)"
      by (rule commit_receipts_inv [OF pi(3) [folded pi(1)]]) (use assms(2) eff pi(1) in simp_all)
    moreover have "ref_marker (abs_commit (abs snap) tx) w = ref_marker (abs snap) w"
      if w: "receipt_id_ok w" "ref_marker (abs snap) w \<noteq> None" for w
    proof -
      have "KeyId internal_ns (used_id_key w) \<notin> set (map operation_identity_of ops)"
        using assms(5) used_id_key_not_index [of w u] unfolding index_change_def by fastforce
      moreover have "used_id_key w \<noteq> used_id_key t" using w(2) n by auto
      ultimately show ?thesis using abs_apply_untouched by (simp add: abs_commit_def pi(3) Let_def)
    qed
    ultimately show ?thesis by blast
  qed
  moreover have "list_all (operation_ok sha) ops" using assms(5) by (simp add: index_change_def)
  ultimately show ?thesis unfolding sound_on_def markers_kept_def by (intro exI [of _ ops] exI [of _ revision]) (use p in simp)
qed

lemma load_Ok:
  assumes "inv snap" "receipt_id_ok u" "load_reference_state so snap internal_ns u token = Ok state"
  shows "index_ok (abs snap) u \<and> state = \<lparr>rs_head_key = reference_head_key u, rs_anchor_key = eligibility_anchor_key u,
      rs_edge_key = map_option (\<lambda>token. edge_prefix u @ token) token,
      rs_head = map_option (store_value_new sha) (as_entries (abs snap) (internal_ns, reference_head_key u)),
      rs_edge = (case token of None \<Rightarrow> None
        | Some token \<Rightarrow> map_option (store_value_new sha) (as_entries (abs snap) (internal_ns, edge_prefix u @ token))),
      rs_anchor = map_option (store_value_new sha) (ref_anchor (abs snap) u),
      rs_audited_count = word_of_nat (card (ref_edges (abs snap) u))\<rparr>"
proof -
  note gets = get_refines [OF assms(1) internal_ns_ok]
  from assms(3) show ?thesis
    by (cases token) (auto simp: load_reference_state_def and_then_Ok_iff gets reference_edge_Ok [OF assms(2)]
        audit_exact [OF assms(1,2) gets gets])
qed

lemma head_read:
  assumes "index_ok st u"
  shows "map_option (store_value_new sha) (as_entries st (internal_ns, reference_head_key u)) =
    (if ref_edges st u = {} then None else Some (encode_reference_count sha (word_of_nat (card (ref_edges st u)))))"
    and "ref_edges st u \<noteq> {} \<Longrightarrow>
      decode_reference_count (encode_reference_count sha (word_of_nat (card (ref_edges st u)))) = Ok (word_of_nat (card (ref_edges st u)))"
proof -
  have c: "finite (ref_edges st u)" "card (ref_edges st u) < 2 ^ 64" using assms by (simp_all add: index_ok_def)
  show "map_option (store_value_new sha) (as_entries st (internal_ns, reference_head_key u)) =
    (if ref_edges st u = {} then None else Some (encode_reference_count sha (word_of_nat (card (ref_edges st u)))))"
    using assms by (simp add: index_ok_def encode_reference_count_def)
  show "decode_reference_count (encode_reference_count sha (word_of_nat (card (ref_edges st u)))) = Ok (word_of_nat (card (ref_edges st u)))"
    if "ref_edges st u \<noteq> {}"
    using that c by (simp add: decode_reference_count_def encode_reference_count_def word_unat_eq_iff unat_of_nat)
qed

lemma add_operations_change:
  assumes "inv snap" "receipt_id_ok u" "load_reference_state so snap internal_ns u (Some token) = Ok state" "length token = 32"
    and "rs_edge state = None" "rs_edge_key state = Some edge_key" "add_operations sha internal_ns state edge_key = Ok ops"
  shows "index_change sha (abs snap) u (ref_edges (abs snap) u \<union> {token}) ops"
proof -
  let ?E = "ref_edges (abs snap) u"
  note l = load_Ok [OF assms(1-3)]
  have idx: "index_ok (abs snap) u" using l by blast
  note hr = head_read [OF idx]
  have c: "card ?E < 2 ^ 64" "?E = {} \<longleftrightarrow> card ?E = 0" using idx by (auto simp: index_ok_def)
  have new: "token \<notin> ?E" using l assms(5) by (simp add: ref_edges_def)
  obtain e after anchor_ops where o: "ops = [Put internal_ns (reference_head_key u) e (encode_reference_count sha after),
      edge_put sha u token] @ anchor_ops"
    "?E = {} \<and> after = 1 \<or> ?E \<noteq> {} \<and> increment_reference_count (word_of_nat (card ?E)) = Ok after"
    "anchor_ops = [] \<and> ref_anchor (abs snap) u = None \<or> (\<exists>d. anchor_ops = [Delete internal_ns (eligibility_anchor_key u) d])"
    using assms(6,7) l hr
    by (cases "ref_anchor (abs snap) u"; cases "?E = {}") (auto simp: add_operations_def and_then_Ok_iff)
  have n: "card ?E + 1 < 2 ^ 64 \<and> after = word_of_nat (card ?E + 1)"
    using o(2) c by (auto simp: increment_reference_count_def checked_add_def unat_of_nat split: if_split_asm)
  have "index_change sha (abs snap) u (?E \<union> set [token])
      (head_put sha u e (card ?E + length [token]) # map (edge_put sha u) [token] @ anchor_ops)"
    by (rule add_change [OF idx _ _ _ _ o(3)]) (use new n assms(4) in simp_all)
  moreover have "after = word_of_nat (card ?E + length [token])" using n by simp
  ultimately show ?thesis unfolding o(1) by simp
qed

lemma plan_add_sound:
  assumes "inv snap" "dns BUILTIN_DOMAIN" "receipt_id_ok t" "receipt_id_ok (ri_transaction target)" "length token = 32"
    and "plan_add_reference sha dns so snap target token t = Ok (Inr tx)"
  shows "sound_on dns snap t tx"
proof -
  let ?u = "ri_transaction target"
  from assms(6) obtain m state edge_key ops where b: "verify_live_marker so snap internal_ns ?u = Ok m" "m \<noteq> MarkerForgotten"
    "load_reference_state so snap internal_ns ?u (Some token) = Ok state" "rs_edge_key state = Some edge_key" "rs_edge state = None"
    "add_operations sha internal_ns state edge_key = Ok ops" "prepare_on_snapshot sha dns so snap t ops = Ok (Inr tx :: receipt_reference_outcome + _)"
    by (auto simp: plan_add_reference_def internal_namespace_Ok [of dns, OF assms(2)] and_then_Ok_iff split: if_split_asm)
  have m: "ref_marker (abs snap) ?u = Some ACTIVE_MARKER_VALUE" using verify_marker_Ok(1) [OF assms(1) b(1)] b(2) by blast
  show ?thesis
    by (rule single_change_sound [OF assms(2-4) m add_operations_change [OF assms(1,4) b(3) assms(5) b(5,4,6)] b(7)])
qed

lemma plan_remove_sound:
  assumes "inv snap" "dns BUILTIN_DOMAIN" "receipt_id_ok t" "receipt_id_ok (ri_transaction target)"
    and "plan_remove_reference sha dns so snap target token t = Ok (Inr tx)"
  shows "sound_on dns snap t tx"
proof -
  let ?u = "ri_transaction target" and ?E = "ref_edges (abs snap) (ri_transaction target)"
  from assms(5) obtain m state edge_key edge ops where b: "verify_live_marker so snap internal_ns ?u = Ok m" "m \<noteq> MarkerForgotten"
    "load_reference_state so snap internal_ns ?u (Some token) = Ok state" "rs_edge_key state = Some edge_key" "rs_edge state = Some edge"
    "remove_operations sha internal_ns state edge_key edge = Ok ops" "prepare_on_snapshot sha dns so snap t ops = Ok (Inr tx :: receipt_reference_outcome + _)"
    by (auto simp: plan_remove_reference_def internal_namespace_Ok [of dns, OF assms(2)] and_then_Ok_iff split: if_split_asm option.split_asm)
  have m: "ref_marker (abs snap) ?u = Some ACTIVE_MARKER_VALUE" using verify_marker_Ok(1) [OF assms(1) b(1)] b(2) by blast
  note l = load_Ok [OF assms(1,4) b(3)]
  have idx: "index_ok (abs snap) ?u" using l by blast
  note hr = head_read [OF idx]
  have old: "token \<in> ?E" using l b(5) by (auto simp: ref_edges_def)
  then have ne: "?E \<noteq> {}" by blast
  have c: "card ?E < 2 ^ 64" "card ?E > 0" using idx ne by (auto simp: index_ok_def card_gt_0_iff)
  let ?d = "sv_digest (encode_reference_count sha (word_of_nat (card ?E)))"
  let ?head = "if card ?E - length [token] = 0 then Delete internal_ns (reference_head_key ?u) ?d
      else head_put sha ?u (Exact ?d) (card ?E - length [token])"
  have w1: "(word_of_nat (card ?E) :: u64) = 1 \<longleftrightarrow> card ?E - length [token] = 0"
    using c by (auto simp: word_unat_eq_iff unat_of_nat)
  have w2: "(word_of_nat (card ?E) :: u64) - 1 = word_of_nat (card ?E - length [token])"
    using c(2) by (simp add: of_nat_diff)
  have st: "rs_head state = Some (encode_reference_count sha (word_of_nat (card ?E)))" "rs_head_key state = reference_head_key ?u"
    "edge_key = edge_prefix ?u @ token" using l hr(1) ne b(4) by simp_all
  have "ops = [Delete internal_ns edge_key (sv_digest edge),
      if (word_of_nat (card ?E) :: u64) = 1 then Delete internal_ns (reference_head_key ?u) ?d
      else Put internal_ns (reference_head_key ?u) (Exact ?d) (encode_reference_count sha (word_of_nat (card ?E) - 1))]"
    using b(6) unfolding remove_operations_def st ok_or_simps and_then_simps hr(2) [OF ne] by simp
  then have ops: "ops = map (\<lambda>token. Delete internal_ns (edge_prefix ?u @ token) (sv_digest edge)) [token] @ [?head]"
    unfolding w1 w2 st(3) by (simp only: list.map append.simps)
  have "index_change sha (abs snap) ?u (?E - set [token]) ops"
    unfolding ops by (rule remove_change [OF idx]) (use old in simp_all)
  from single_change_sound [OF assms(2-4) m this b(7)] show ?thesis .
qed


text \<open>A cleanup commits only for an unreferenced receipt with an active marker, and it forgets only
  past the retention of the recorded wall time.\<close>

lemma plan_cleanup_cases:
  assumes "inv snap" "dns BUILTIN_DOMAIN" "receipt_id_ok (ri_transaction target)"
    and "plan_cleanup sha dns so snap retention now target t = (anchoring, Ok (Inr tx))"
  obtains state ops where "index_ok (abs snap) (ri_transaction target)" "ref_edges (abs snap) (ri_transaction target) = {}"
    "ref_marker (abs snap) (ri_transaction target) = Some ACTIVE_MARKER_VALUE"
    "prepare_on_snapshot sha dns so snap t ops = Ok (Inr tx :: receipt_cleanup_outcome + _)"
    "rs_head_key state = reference_head_key (ri_transaction target)" "rs_anchor_key state = eligibility_anchor_key (ri_transaction target)"
    "anchoring \<and> ref_anchor (abs snap) (ri_transaction target) = None \<and> ops = anchor_operations sha internal_ns state now \<or>
     \<not> anchoring \<and> (\<exists>a w. ref_anchor (abs snap) (ri_transaction target) = Some a \<and> decode_wall_time a = Ok w \<and> w + retention \<le> now \<and>
       ops = forget_operations sha internal_ns state (store_value_new sha a) (store_value_new sha ACTIVE_MARKER_VALUE) target)"
proof -
  let ?u = "ri_transaction target"
  from assms(4) obtain m state ops where b: "verify_live_marker so snap internal_ns ?u = Ok (MarkerActive m)"
    "load_reference_state so snap internal_ns ?u None = Ok state" "\<not> rs_audited_count state > 0"
    "prepare_on_snapshot sha dns so snap t ops = Ok (Inr tx :: receipt_cleanup_outcome + _)"
    "rs_anchor state = None \<and> anchoring \<and> ops = anchor_operations sha internal_ns state now \<or>
     (\<exists>a w. rs_anchor state = Some a \<and> decode_wall_time (sv_value a) = Ok w \<and> w + retention \<le> now \<and> \<not> anchoring \<and>
       ops = forget_operations sha internal_ns state a m target)"
    by (auto simp: plan_cleanup_def internal_namespace_Ok [of dns, OF assms(2)] and_then_Ok_iff checked_add_time_def
        split: sum.split_asm live_marker.split_asm if_split_asm option.split_asm)
  note l = load_Ok [OF assms(1,3) b(2)]
  note v = verify_marker_Ok [OF assms(1) b(1)]
  have idx: "index_ok (abs snap) ?u" using l by blast
  have "card (ref_edges (abs snap) ?u) = 0"
    using b(3) l idx by (simp add: word_gt_0 index_ok_def word_unat_eq_iff unat_of_nat)
  then have e: "ref_edges (abs snap) ?u = {}" using idx by (simp add: index_ok_def)
  have m: "ref_marker (abs snap) ?u = Some ACTIVE_MARKER_VALUE" "m = store_value_new sha ACTIVE_MARKER_VALUE"
    using v(1) v(2) [of m] by simp_all
  have k: "rs_head_key state = reference_head_key ?u" "rs_anchor_key state = eligibility_anchor_key ?u"
    "rs_anchor state = map_option (store_value_new sha) (ref_anchor (abs snap) ?u)" using l by simp_all
  from that [OF idx e m(1) b(4) k(1,2)] b(5) m(2) k(3) show ?thesis by auto
qed

lemma plan_cleanup_sound:
  assumes "inv snap" "dns BUILTIN_DOMAIN" "receipt_id_ok t" "receipt_id_ok (ri_transaction target)"
    and "plan_cleanup sha dns so snap retention now target t = (anchoring, Ok (Inr tx))"
  shows "sound_on dns snap t tx"
proof -
  let ?u = "ri_transaction target" and ?st = "abs snap"
  obtain state ops where
    e: "index_ok ?st ?u" "ref_edges ?st ?u = {}" "ref_marker ?st ?u = Some ACTIVE_MARKER_VALUE"
      "prepare_on_snapshot sha dns so snap t ops = Ok (Inr tx :: receipt_cleanup_outcome + _)"
      "rs_head_key state = reference_head_key ?u" "rs_anchor_key state = eligibility_anchor_key ?u"
    and ops: "anchoring \<and> ref_anchor ?st ?u = None \<and> ops = anchor_operations sha internal_ns state now \<or>
      \<not> anchoring \<and> (\<exists>a w. ref_anchor ?st ?u = Some a \<and> decode_wall_time a = Ok w \<and> w + retention \<le> now \<and>
       ops = forget_operations sha internal_ns state (store_value_new sha a) (store_value_new sha ACTIVE_MARKER_VALUE) target)"
    by (rule plan_cleanup_cases [OF assms(1,2,4,5)])
  obtain revision where p: "so_revision so snap = Ok revision" "prepare_internal_transaction sha dns t revision ops = Ok tx"
    using e(4) by (auto simp: prepare_on_snapshot_def and_then_Ok_iff)
  note pi = prepare_internal_Ok [OF assms(2) p(2)]
  define st1 where "st1 = fold abs_apply ops ?st"
  define forget where "forget = (\<not> anchoring)"
  obtain anchor' where st1: "as_entries st1 = (if forget
      then (as_entries ?st)((internal_ns, eligibility_anchor_key ?u) := None, (internal_ns, used_id_key ?u) := Some FORGOTTEN_MARKER_VALUE)
      else (as_entries ?st)((internal_ns, eligibility_anchor_key ?u) := Some anchor'))"
    "as_receipts st1 = (if forget then (as_receipts ?st)(?u := None) else as_receipts ?st)"
    using ops unfolding st1_def forget_def
    by (auto simp: anchor_operations_def forget_operations_def e(5,6) marker_value_def)
  have keys: "used_id_key w \<noteq> used_id_key ?u" if "receipt_id_ok w" "w \<noteq> ?u" for w
    using used_id_key_inj [of w ?u] that assms(4) by (simp add: receipt_id_ok_def)
  have edges: "ref_edges st1 w = ref_edges ?st w" for w
    by (auto simp: ref_edges_def st1)
  have agree: "index_agree w ?st st1" if "receipt_id_ok w" "w \<noteq> ?u" for w
    using index_keys_disjoint [OF that(1) assms(4) that(2)] used_id_key_not_index [of ?u w]
    by (auto simp: index_agree_def st1 index_keys_def)
  have "receipts_inv (abs_commit ?st tx) \<and> (\<forall>w. receipt_id_ok w \<longrightarrow> ref_marker ?st w \<noteq> None \<longrightarrow>
      ref_marker (abs_commit ?st tx) w = ref_marker ?st w \<or> ref_marker (abs_commit ?st tx) w = Some FORGOTTEN_MARKER_VALUE)"
    if i: "receipts_inv ?st" and n: "ref_marker ?st t = None"
  proof
    have iu: "index_ok st1 ?u" using e(1,2) by (simp add: index_ok_def edges) (simp add: st1)
    show "receipts_inv (abs_commit ?st tx)"
    proof (rule commit_receipts_inv [OF pi(3) [folded pi(1)]], goal_cases)
      case 1
      then show ?case using assms(3) pi(1) by simp
    next
      case (2 w)
      then show ?case unfolding st1_def [symmetric] using iu index_agree_iff(3) [OF agree [of w]] i
        by (cases "w = ?u") (auto simp: receipts_inv_def)
    next
      case (3 w)
      have "marker_ok ?st w" using i 3(1) by (simp add: receipts_inv_def)
      moreover have "w \<noteq> ?u \<Longrightarrow> ref_anchor st1 w = ref_anchor ?st w" using index_agree_iff(2) [OF agree [OF 3(1)]] by simp
      ultimately show ?case unfolding st1_def [symmetric] using keys [OF 3(1)] e(2,3)
        by (cases "w = ?u") (auto simp: marker_ok_def edges st1 split: if_splits)
    qed
    show "\<forall>w. receipt_id_ok w \<longrightarrow> ref_marker ?st w \<noteq> None \<longrightarrow>
      ref_marker (abs_commit ?st tx) w = ref_marker ?st w \<or> ref_marker (abs_commit ?st tx) w = Some FORGOTTEN_MARKER_VALUE"
    proof (intro allI impI)
      fix w assume w: "receipt_id_ok w" "ref_marker ?st w \<noteq> None"
      have "used_id_key w \<noteq> used_id_key t" using w(2) n by auto
      then have "ref_marker (abs_commit ?st tx) w = ref_marker st1 w" by (simp add: abs_commit_def pi(3) Let_def st1_def)
      with keys [OF w(1)] show "ref_marker (abs_commit ?st tx) w = ref_marker ?st w \<or> ref_marker (abs_commit ?st tx) w = Some FORGOTTEN_MARKER_VALUE"
        by (cases "w = ?u") (auto simp: st1)
    qed
  qed
  moreover have "list_all (operation_ok sha) ops"
    using ops assms(4) by (auto simp: anchor_operations_def forget_operations_def internal_ns_ok marker_value_def receipt_id_ok_def)
  ultimately show ?thesis unfolding sound_on_def markers_kept_def by (intro exI [of _ ops] exI [of _ revision]) (use p in simp)
qed


end

section \<open>Runs\<close>

text \<open>One step of a metadata store: a caller's transaction with any receipt changes, a single
  reference added or removed, or a cleanup, each decided on some snapshot; or the commit machine
  moves on its own, without the store.\<close>

inductive receipt_step ::
  "(byte list \<Rightarrow> digest) \<Rightarrow> (ustr \<Rightarrow> bool) \<Rightarrow> 's storage \<Rightarrow> 's \<Rightarrow> 's \<times> commit_state \<Rightarrow> 's \<times> commit_state \<Rightarrow> bool"
  for sha dns so snap where
  step_transaction: "receipt_id_ok t \<Longrightarrow> list_all (operation_ok sha) caller_ops \<Longrightarrow> changes_ok changes \<Longrightarrow>
    prepare_transaction_with_receipt_changes sha dns so snap t caller_ops changes = Ok tx \<Longrightarrow>
    store_commit (so_commit so) (s, state) tx = (sys, outcome) \<Longrightarrow> receipt_step sha dns so snap (s, state) sys"
| step_add: "receipt_id_ok t \<Longrightarrow> receipt_id_ok (ri_transaction target) \<Longrightarrow> length token = 32 \<Longrightarrow>
    add_receipt_reference sha dns so snap (s, state) target token t = (sys, r) \<Longrightarrow> receipt_step sha dns so snap (s, state) sys"
| step_remove: "receipt_id_ok t \<Longrightarrow> receipt_id_ok (ri_transaction target) \<Longrightarrow>
    remove_receipt_reference sha dns so snap (s, state) target token t = (sys, r) \<Longrightarrow> receipt_step sha dns so snap (s, state) sys"
| step_cleanup: "receipt_id_ok t \<Longrightarrow> receipt_id_ok (ri_transaction target) \<Longrightarrow>
    cleanup_receipt sha dns so snap (s, state) retention now target t = (sys, outc) \<Longrightarrow> receipt_step sha dns so snap (s, state) sys"
| step_machine: "receipt_step sha dns so snap (s, state) (s, state')"

inductive_cases receipt_stepE: "receipt_step sha dns so snap sys sys'"

text \<open>A run keeps every state it went through; a step may read any of them as its snapshot. The
  fault environment of a step is free.\<close>

inductive receipt_run ::
  "(byte list \<Rightarrow> digest) \<Rightarrow> (ustr \<Rightarrow> bool) \<Rightarrow> ('io \<Rightarrow> 's storage) \<Rightarrow> 's \<Rightarrow> 's list \<Rightarrow> 's \<times> commit_state \<Rightarrow> bool"
  for sha dns so s0 where
  run_start: "receipt_run sha dns so s0 [s0] (s0, Ready)"
| run_step: "receipt_run sha dns so s0 history sys \<Longrightarrow> snap \<in> set history \<Longrightarrow> receipt_step sha dns (so io) snap sys sys' \<Longrightarrow>
    receipt_run sha dns so s0 (fst sys' # history) sys'"

lemma commit_plan_cases:
  assumes "commit_plan so (s, state) answer plan = (sys, r)"
  shows "sys = (s, state) \<or> (\<exists>tx outcome. plan = Ok (Inr tx) \<and> store_commit (so_commit so) (s, state) tx = (sys, outcome))"
  using assms by (auto simp: commit_plan_def split: sum.split_asm prod.split_asm)

context snapshot_backend
begin

lemma sound_commit:
  assumes "inv snap" "inv s" "later sha (abs snap) (abs s)" "dns BUILTIN_DOMAIN" "\<And>bytes. length (sha bytes) = 32"
    and "receipt_id_ok t" "receipts_inv (abs s)" "sound_on dns snap t tx"
    and "store_commit (so_commit so) (s, state) tx = ((s', state'), r)"
  shows "inv s' \<and> receipts_inv (abs s') \<and> later sha (abs s) (abs s') \<and> markers_kept (abs s) (abs s')"
proof -
  from assms(8) obtain ops revision where p: "prepare_internal_transaction sha dns t revision ops = Ok tx"
    "so_revision so snap = Ok revision" "list_all (operation_ok sha) ops"
    and keep: "receipts_inv (abs snap) \<longrightarrow> ref_marker (abs snap) t = None \<longrightarrow> receipts_inv (abs_commit (abs snap) tx) \<and>
      markers_kept (abs snap) (abs_commit (abs snap) tx)"
    by (auto simp: sound_on_def)
  have "is_ascii t" using assms(6) by (simp add: receipt_id_ok_def)
  from prepared_ok [OF assms(4) p(1) this p(3) assms(5)] have ok: "transaction_ok sha tx" .
  note b = prepared_batch [OF assms(1-4) p(1) ok p(2) assms(9)]
  show ?thesis
  proof (cases "abs s' = abs s")
    case True
    with b assms(7) show ?thesis by (simp add: later_refl markers_kept_refl)
  next
    case False
    with b have e: "abs snap = abs s" "abs s' = abs_commit (abs s) tx" "as_generation (abs s) \<noteq> - 1" "ref_marker (abs s) t = None"
      by blast+
    from later_commit [OF later_refl e(3)] keep assms(7) b e show ?thesis by simp
  qed
qed

lemma receipt_step_sound:
  assumes "receipt_step sha dns so snap (s, state) (s', state')"
    and "inv snap" "inv s" "later sha (abs snap) (abs s)" "dns BUILTIN_DOMAIN" "\<And>bytes. length (sha bytes) = 32"
    and "receipts_inv (abs snap)" "receipts_inv (abs s)"
  shows "inv s' \<and> receipts_inv (abs s') \<and> later sha (abs s) (abs s') \<and> markers_kept (abs s) (abs s')"
proof -
  note idle = assms(3,8) later_refl [of sha "abs s"] markers_kept_refl [of "abs s"]
  note sound = sound_commit [of snap s dns, OF assms(2-6) _ assms(8)]
  from assms(1) show ?thesis
  proof (cases rule: receipt_step.cases)
    case (step_transaction t caller_ops changes tx outcome)
    show ?thesis
      by (rule sound [OF step_transaction(1) prepared_changes_sound [OF assms(2,5) step_transaction(1-4) assms(7)] step_transaction(5)])
  next
    case (step_add t target token r)
    from commit_plan_cases [OF step_add(4) [unfolded add_receipt_reference_def]] show ?thesis
      using idle sound [OF step_add(1) plan_add_sound [of snap dns, OF assms(2,5) step_add(1-3)]] by blast
  next
    case (step_remove t target token r)
    from commit_plan_cases [OF step_remove(3) [unfolded remove_receipt_reference_def]] show ?thesis
      using idle sound [OF step_remove(1) plan_remove_sound [of snap dns, OF assms(2,5) step_remove(1,2)]] by blast
  next
    case (step_cleanup t target retention now outc)
    obtain anchoring plan where pl: "plan_cleanup sha dns so snap retention now target t = (anchoring, plan)" by (metis surj_pair)
    from step_cleanup(3) pl have "commit_plan so (s, state) (map_cleanup_outcome anchoring) plan = ((s', state'), outc)"
      by (simp add: cleanup_receipt_def)
    from commit_plan_cases [OF this] show ?thesis
      using idle sound [OF step_cleanup(1) plan_cleanup_sound [of snap dns, OF assms(2,5) step_cleanup(1,2)]] pl by blast
  next
    case step_machine
    with idle show ?thesis by simp
  qed
qed

text \<open>A used id admits no further effect.\<close>

lemma used_id_no_effect:
  assumes "inv snap" "inv s" "later sha (abs snap) (abs s)" "dns BUILTIN_DOMAIN" "\<And>bytes. length (sha bytes) = 32" "is_ascii t"
    and "prepare_internal_transaction sha dns t revision ops = Ok tx" "list_all (operation_ok sha) ops" "so_revision so snap = Ok revision"
    and "ref_marker (abs s) t \<noteq> None" "store_commit (so_commit so) (s, state) tx = ((s', state'), r)"
  shows "abs s' = abs s"
  using prepared_batch [OF assms(1-4,7) prepared_ok [OF assms(4,7,6,8,5)] assms(9,11)] assms(10) by blast

end

lemma later_trans: "later sha st1 st2 \<Longrightarrow> later sha st0 st1 \<Longrightarrow> later sha st0 st2"
  by (induction rule: later.induct) (auto intro: later_commit)

text \<open>Over redb every state of a run keeps the invariant, and no id is lost.\<close>

lemma receipt_run_inv:
  assumes "receipt_run sha dns (redb_storage sha) s0 history (s, state)"
    and "redb_inv s0" "receipts_inv (redb_abs s0)" "dns BUILTIN_DOMAIN" "\<And>bytes. length (sha bytes) = 32"
  shows "redb_inv s \<and> receipts_inv (redb_abs s) \<and>
    (\<forall>h\<in>set history. redb_inv h \<and> receipts_inv (redb_abs h) \<and> later sha (redb_abs h) (redb_abs s) \<and> markers_kept (redb_abs h) (redb_abs s))"
  using assms(1)
proof (induction history "(s, state)" arbitrary: s state rule: receipt_run.induct)
  case run_start
  then show ?case using assms(2,3) by (simp add: later_refl markers_kept_refl)
next
  case (run_step history sys snap io s' state')
  obtain s state where sys: "sys = (s, state)" by (cases sys)
  note IH = run_step.hyps(2) [OF sys]
  have snap: "redb_inv snap" "receipts_inv (redb_abs snap)" "later sha (redb_abs snap) (redb_abs s)" and s: "redb_inv s" "receipts_inv (redb_abs s)"
    using IH run_step.hyps(3) by blast+
  note e = rs.receipt_step_sound [OF run_step.hyps(4) [unfolded sys] snap(1) s(1) snap(3) assms(4,5) snap(2) s(2)]
  have "redb_inv h \<and> receipts_inv (redb_abs h) \<and> later sha (redb_abs h) (redb_abs s') \<and> markers_kept (redb_abs h) (redb_abs s')"
    if "h \<in> set history" for h
    using IH that e later_trans markers_kept_trans by blast
  with e show ?case by (simp add: later_refl markers_kept_refl)
qed

section \<open>Recorded wall times\<close>

lemma decode_encode_wall_time:
  assumes "host_time t"
  shows "decode_wall_time (encode_wall_time t) = Ok t"
proof -
  define d where "d = \<bar>t\<bar>"
  define sign :: byte where "sign = (if 0 \<le> t then 0 else 1)"
  let ?s = "word_of_int (d div 10 ^ 9) :: u64" and ?n = "word_of_int (d mod 10 ^ 9) :: u32"
  have enc: "encode_wall_time t = sign # to_be_bytes_u64 ?s @ to_be_bytes_u32 ?n"
    by (simp add: encode_wall_time_def d_def sign_def)
  have "d div 10 ^ 9 < 2 ^ 64" using assms by (simp add: d_def host_time_def abs_if) linarith
  moreover have "0 \<le> d div 10 ^ 9" "0 \<le> d mod 10 ^ 9" "d mod 10 ^ 9 < 10 ^ 9"
    by (simp_all add: d_def pos_imp_zdiv_nonneg_iff)
  ultimately have u: "uint ?s = d div 10 ^ 9" "uint ?n = d mod 10 ^ 9" by (simp_all add: uint_word_of_int)
  have n: "\<not> ?n \<ge> NANOS_PER_SECOND"
    using u(2) \<open>d mod 10 ^ 9 < 10 ^ 9\<close> unfolding word_le_def NANOS_PER_SECOND_def by simp
  have z: "\<not> (sign = 1 \<and> ?s = 0 \<and> ?n = 0)"
  proof
    assume a: "sign = 1 \<and> ?s = 0 \<and> ?n = 0"
    then have "d div 10 ^ 9 = 0" "d mod 10 ^ 9 = 0" using u by (metis unsigned_0)+
    then have "d = 0" by (metis div_mult_mod_eq mult_zero_left add_0)
    with a show False by (simp add: sign_def d_def split: if_split_asm)
  qed
  have dur: "uint ?s * 10 ^ 9 + uint ?n = d" unfolding u by simp
  have len: "length (encode_wall_time t) = WALL_TIME_WIDTH" by (simp add: enc WALL_TIME_WIDTH_def)
  have parts: "take 8 (drop 1 (encode_wall_time t)) = to_be_bytes_u64 ?s" "drop 9 (encode_wall_time t) = to_be_bytes_u32 ?n"
    "encode_wall_time t ! 0 = sign" by (simp_all add: enc)
  have "sign = 0 \<or> sign = 1" by (simp add: sign_def)
  then have "decode_wall_time (encode_wall_time t) =
      (if sign = 0 then ok_or (checked_add_time 0 d) storage_corrupt else ok_or (checked_sub_time 0 d) storage_corrupt)"
    using n z len unfolding decode_wall_time_def Let_def parts from_to_be_u64 from_to_be_u32 dur by auto
  also have "\<dots> = Ok t"
    using assms by (auto simp: sign_def d_def host_time_def checked_add_time_def checked_sub_time_def)
  finally show ?thesis .
qed

section \<open>What a cleanup does\<close>

context snapshot_backend
begin

lemma cleanup_effect:
  assumes "inv snap" "inv s" "later sha (abs snap) (abs s)" "dns BUILTIN_DOMAIN" "\<And>bytes. length (sha bytes) = 32"
    and "receipt_id_ok t" "receipt_id_ok (ri_transaction target)"
    and "cleanup_receipt sha dns so snap (s, state) retention now target t = ((s', state'), outc)"
    and "as_receipts (abs s) u \<noteq> None" "as_receipts (abs s') u = None"
  shows "u = ri_transaction target \<and> ref_edges (abs s) u = {} \<and>
    (\<exists>a w. ref_anchor (abs s) u = Some a \<and> decode_wall_time a = Ok w \<and> w + retention \<le> now) \<and>
    map_option cr_operation_digest (as_receipts (abs s) u) = Some (ri_operation_digest target) \<and>
    ref_marker (abs s') u = Some FORGOTTEN_MARKER_VALUE"
proof -
  let ?u = "ri_transaction target"
  obtain anchoring plan where pl: "plan_cleanup sha dns so snap retention now target t = (anchoring, plan)" by (metis surj_pair)
  have "commit_plan so (s, state) (map_cleanup_outcome anchoring) plan = ((s', state'), outc)"
    using assms(8) pl by (simp add: cleanup_receipt_def)
  from commit_plan_cases [OF this] assms(9,10) obtain tx outcome where c: "plan = Ok (Inr tx)"
    "store_commit (so_commit so) (s, state) tx = ((s', state'), outcome)" by auto
  obtain st ops where
    e: "ref_edges (abs snap) ?u = {}" "prepare_on_snapshot sha dns so snap t ops = Ok (Inr tx :: receipt_cleanup_outcome + _)"
      "rs_head_key st = reference_head_key ?u" "rs_anchor_key st = eligibility_anchor_key ?u"
    and ops: "anchoring \<and> ref_anchor (abs snap) ?u = None \<and> ops = anchor_operations sha internal_ns st now \<or>
      \<not> anchoring \<and> (\<exists>a w. ref_anchor (abs snap) ?u = Some a \<and> decode_wall_time a = Ok w \<and> w + retention \<le> now \<and>
       ops = forget_operations sha internal_ns st (store_value_new sha a) (store_value_new sha ACTIVE_MARKER_VALUE) target)"
    by (rule plan_cleanup_cases [OF assms(1,4,7) pl [unfolded c(1)]])
  obtain revision where p: "so_revision so snap = Ok revision" "prepare_internal_transaction sha dns t revision ops = Ok tx"
    using e(2) by (auto simp: prepare_on_snapshot_def and_then_Ok_iff)
  note pi = prepare_internal_Ok [OF assms(4) p(2)]
  have "list_all (operation_ok sha) ops"
    using ops assms(7) by (auto simp: anchor_operations_def forget_operations_def internal_ns_ok marker_value_def receipt_id_ok_def)
  moreover have "is_ascii t" using assms(6) by (simp add: receipt_id_ok_def)
  ultimately have ok: "transaction_ok sha tx" using prepared_ok [OF assms(4) p(2) _ _ assms(5)] by blast
  have ne: "abs s' \<noteq> abs s" using assms(9,10) by auto
  from prepared_batch [OF assms(1-4) p(2) ok p(1) c(2)] ne
  have b: "abs snap = abs s" "abs s' = abs_commit (abs s) tx" "ref_marker (abs s) t = None" "list_all (abs_condition sha (abs s)) ops"
    "as_receipts (abs s) t = None" by blast+
  have ut: "u \<noteq> t" using b(5) assms(9) by auto
  have forget: "\<not> anchoring"
  proof
    assume "anchoring"
    with ops have "ops = anchor_operations sha internal_ns st now" by blast
    then have "as_receipts (abs s') u = as_receipts (abs s) u"
      using ut by (simp add: b(2) abs_commit_def pi(1,3) Let_def anchor_operations_def)
    with assms(9,10) show False by simp
  qed
  with ops obtain a w where f: "ref_anchor (abs s) ?u = Some a" "decode_wall_time a = Ok w" "w + retention \<le> now"
    "ops = forget_operations sha internal_ns st (store_value_new sha a) (store_value_new sha ACTIVE_MARKER_VALUE) target"
    unfolding b(1) by blast
  have uu: "u = ?u"
  proof (rule ccontr)
    assume "u \<noteq> ?u"
    then have "as_receipts (abs s') u = as_receipts (abs s) u"
      using ut by (simp add: b(2) abs_commit_def pi(1,3) Let_def f(4) forget_operations_def)
    with assms(9,10) show False by simp
  qed
  have "used_id_key ?u \<noteq> used_id_key t" using used_id_key_inj [of ?u t] ut uu assms(6,7) by (simp add: receipt_id_ok_def)
  then have "ref_marker (abs s') u = Some FORGOTTEN_MARKER_VALUE"
    by (simp add: uu b(2) abs_commit_def pi(3) Let_def f(4) forget_operations_def marker_value_def)
  moreover have "map_option cr_operation_digest (as_receipts (abs s) u) = Some (ri_operation_digest target)"
    using b(4) f(4) uu by (auto simp: forget_operations_def split: option.split_asm)
  ultimately show ?thesis using uu e(1) f(1-3) b(1) by metis
qed


text \<open>An unreferenced active receipt is anchored, or forgotten once its retention has passed.\<close>

lemma plan_cleanup_unreferenced:
  assumes "inv snap" "dns BUILTIN_DOMAIN" "receipt_id_ok (ri_transaction target)" "index_ok (abs snap) (ri_transaction target)"
    and "ref_edges (abs snap) (ri_transaction target) = {}" "ref_marker (abs snap) (ri_transaction target) = Some ACTIVE_MARKER_VALUE"
  obtains state where "rs_head_key state = reference_head_key (ri_transaction target)"
    "rs_anchor_key state = eligibility_anchor_key (ri_transaction target)"
    "ref_anchor (abs snap) (ri_transaction target) = None \<Longrightarrow>
      plan_cleanup sha dns so snap retention now target t =
        (True, prepare_on_snapshot sha dns so snap t (anchor_operations sha internal_ns state now))"
    "\<And>a w. ref_anchor (abs snap) (ri_transaction target) = Some a \<Longrightarrow> decode_wall_time a = Ok w \<Longrightarrow>
      checked_add_time w retention = Some (w + retention) \<Longrightarrow> w + retention \<le> now \<Longrightarrow>
      plan_cleanup sha dns so snap retention now target t =
        (False, prepare_on_snapshot sha dns so snap t (forget_operations sha internal_ns state (store_value_new sha a)
          (store_value_new sha ACTIVE_MARKER_VALUE) target))"
proof -
  let ?u = "ri_transaction target"
  note gets = get_refines [OF assms(1) internal_ns_ok]
  have audit: "audit_reference_index so snap internal_ns ?u
      (map_option (store_value_new sha) (as_entries (abs snap) (internal_ns, reference_head_key ?u)))
      (map_option (store_value_new sha) (ref_anchor (abs snap) ?u)) = Ok 0"
    using audit_exact [OF assms(1,3) gets gets, of 0] assms(4,5) by simp
  define state where "state = \<lparr>rs_head_key = reference_head_key ?u, rs_anchor_key = eligibility_anchor_key ?u, rs_edge_key = None,
      rs_head = map_option (store_value_new sha) (as_entries (abs snap) (internal_ns, reference_head_key ?u)), rs_edge = None,
      rs_anchor = map_option (store_value_new sha) (ref_anchor (abs snap) ?u), rs_audited_count = 0\<rparr>"
  have load: "load_reference_state so snap internal_ns ?u None = Ok state"
    by (simp add: load_reference_state_def gets audit state_def)
  have ver: "verify_live_marker so snap internal_ns ?u = Ok (MarkerActive (store_value_new sha ACTIVE_MARKER_VALUE))"
    by (simp add: verify_live_marker_def gets assms(6))
  have st: "rs_audited_count state = 0" "rs_anchor state = map_option (store_value_new sha) (ref_anchor (abs snap) ?u)"
    by (simp_all add: state_def)
  note ns = internal_namespace_Ok [of dns, OF assms(2)]
  show ?thesis
  proof (rule that [of state])
    show "rs_head_key state = reference_head_key ?u" "rs_anchor_key state = eligibility_anchor_key ?u" by (simp_all add: state_def)
  qed (simp_all add: plan_cleanup_def ns ver load st)
qed

end

lemma redb_prepared_lands:
  assumes "redb_inv s" "dns BUILTIN_DOMAIN" "\<And>bytes. length (sha bytes) = 32" "receipt_id_ok t" "as_receipts (redb_abs s) t = None"
    and "ref_marker (redb_abs s) t = None" "list_all (operation_ok sha) ops"
    and "distinct (map operation_identity_of (ops @ [marker_put sha t]))" "list_all (abs_condition sha (redb_abs s)) ops"
    and "as_generation (redb_abs s) \<noteq> - 1"
  obtains tx s' where "prepare_on_snapshot sha dns (redb_storage sha no_faults) s t ops = Ok (Inr tx)"
    "store_commit (so_commit (redb_storage sha no_faults)) (s, Ready) tx = ((s', Ready), Ok (Committed (abs_receipt (redb_abs s) tx)))"
    "redb_inv s'" "redb_abs s' = abs_commit (redb_abs s) tx" "st_id tx = t" "st_operations tx = ops @ [marker_put sha t]"
proof -
  have "is_ascii t" using assms(4) by (simp add: receipt_id_ok_def)
  then obtain tx s' where "prepare_internal_transaction sha dns t (to_be_bytes_u64 (as_generation (redb_abs s))) ops = Ok tx"
    "store_commit (so_commit (redb_storage sha no_faults)) (s, Ready) tx = ((s', Ready), Ok (Committed (abs_receipt (redb_abs s) tx)))"
    "redb_inv s'" "redb_abs s' = abs_commit (redb_abs s) tx" "st_id tx = t" "st_operations tx = ops @ [marker_put sha t]"
    by (rule redb_internal_lands [where dns = dns and sha = sha, OF assms(1-3) _ assms(5-10)])
  with that rs.revision_refines [OF assms(1), of sha no_faults] show ?thesis by (simp add: prepare_on_snapshot_def)
qed

section \<open>An unreferenced receipt is retired\<close>

lemma cleanup_anchors:
  assumes "redb_inv s" "dns BUILTIN_DOMAIN" "\<And>bytes. length (sha bytes) = 32" "receipts_inv (redb_abs s)"
    and "receipt_id_ok (ri_transaction target)" "as_receipts (redb_abs s) (ri_transaction target) \<noteq> None"
    and "ref_edges (redb_abs s) (ri_transaction target) = {}" "ref_anchor (redb_abs s) (ri_transaction target) = None"
    and "receipt_id_ok t" "ref_marker (redb_abs s) t = None" "as_generation (redb_abs s) \<noteq> - 1"
  obtains s' tx where "cleanup_receipt sha dns (redb_storage sha no_faults) s (s, Ready) retention now target t =
      ((s', Ready), Ok (Anchored (abs_receipt (redb_abs s) tx)))"
    "redb_inv s'" "redb_abs s' = abs_commit (redb_abs s) tx" "st_id tx = t"
    "st_operations tx = [Check internal_ns (reference_head_key (ri_transaction target)) Absent,
       Put internal_ns (eligibility_anchor_key (ri_transaction target)) Absent (store_value_new sha (encode_wall_time now))] @ [marker_put sha t]"
proof -
  let ?u = "ri_transaction target"
  have i: "index_ok (redb_abs s) ?u" "marker_ok (redb_abs s) ?u" "marker_ok (redb_abs s) t"
    using assms(4,5,9) by (simp_all add: receipts_inv_def)
  have m: "ref_marker (redb_abs s) ?u = Some ACTIVE_MARKER_VALUE" and t: "as_receipts (redb_abs s) t = None"
    using i(2,3) assms(6,10) by (auto simp: marker_ok_def)
  have h: "as_entries (redb_abs s) (internal_ns, reference_head_key ?u) = None" using i(1) assms(7) by (simp add: index_ok_def)
  obtain state where st: "rs_head_key state = reference_head_key ?u" "rs_anchor_key state = eligibility_anchor_key ?u"
    "plan_cleanup sha dns (redb_storage sha no_faults) s retention now target t =
        (True, prepare_on_snapshot sha dns (redb_storage sha no_faults) s t (anchor_operations sha internal_ns state now))"
    by (rule rs.plan_cleanup_unreferenced [where dns = dns and sha = sha and io = no_faults and retention = retention and now = now and t = t,
        OF assms(1,2,5) i(1) assms(7) m]) (use assms(8) in simp)
  let ?ops = "anchor_operations sha internal_ns state now"
  have ops: "?ops = [Check internal_ns (reference_head_key ?u) Absent,
       Put internal_ns (eligibility_anchor_key ?u) Absent (store_value_new sha (encode_wall_time now))]"
    by (simp add: anchor_operations_def st)
  obtain tx s' where l: "prepare_on_snapshot sha dns (redb_storage sha no_faults) s t ?ops = Ok (Inr tx :: receipt_cleanup_outcome + _)"
    "store_commit (so_commit (redb_storage sha no_faults)) (s, Ready) tx = ((s', Ready), Ok (Committed (abs_receipt (redb_abs s) tx)))"
    "redb_inv s'" "redb_abs s' = abs_commit (redb_abs s) tx" "st_id tx = t" "st_operations tx = ?ops @ [marker_put sha t]"
    by (rule redb_prepared_lands [where dns = dns and ops = ?ops, OF assms(1,2,3,9) t assms(10)])
      (use assms(8,11) h in \<open>simp_all add: ops internal_ns_ok\<close>)
  show ?thesis
    by (rule that [OF _ l(3-5) l(6) [unfolded ops]]) (simp add: cleanup_receipt_def st(3) l(1,2) commit_plan_def)
qed

lemma cleanup_forgets:
  assumes "redb_inv s" "dns BUILTIN_DOMAIN" "\<And>bytes. length (sha bytes) = 32" "receipts_inv (redb_abs s)"
    and "receipt_id_ok (ri_transaction target)" "as_receipts (redb_abs s) (ri_transaction target) = Some r"
    and "cr_operation_digest r = ri_operation_digest target" "ref_edges (redb_abs s) (ri_transaction target) = {}"
    and "ref_anchor (redb_abs s) (ri_transaction target) = Some a" "decode_wall_time a = Ok w"
    and "checked_add_time w retention = Some (w + retention)" "w + retention \<le> now"
    and "receipt_id_ok t" "ref_marker (redb_abs s) t = None" "as_generation (redb_abs s) \<noteq> - 1"
  obtains s' receipt where "cleanup_receipt sha dns (redb_storage sha no_faults) s (s, Ready) retention now target t =
      ((s', Ready), Ok (Forgotten receipt))"
    "as_receipts (redb_abs s') (ri_transaction target) = None"
    "ref_marker (redb_abs s') (ri_transaction target) = Some FORGOTTEN_MARKER_VALUE"
proof -
  let ?u = "ri_transaction target"
  have i: "index_ok (redb_abs s) ?u" "marker_ok (redb_abs s) ?u" "marker_ok (redb_abs s) t"
    using assms(4,5,13) by (simp_all add: receipts_inv_def)
  have m: "ref_marker (redb_abs s) ?u = Some ACTIVE_MARKER_VALUE" and t: "as_receipts (redb_abs s) t = None"
    using i(2,3) assms(6,14) by (auto simp: marker_ok_def)
  have ut: "?u \<noteq> t" using assms(6) t by auto
  then have k: "used_id_key ?u \<noteq> used_id_key t" using used_id_key_inj [of ?u t] assms(5,13) by (simp add: receipt_id_ok_def)
  have h: "as_entries (redb_abs s) (internal_ns, reference_head_key ?u) = None" using i(1) assms(8) by (simp add: index_ok_def)
  obtain state where st: "rs_head_key state = reference_head_key ?u" "rs_anchor_key state = eligibility_anchor_key ?u"
    "plan_cleanup sha dns (redb_storage sha no_faults) s retention now target t =
        (False, prepare_on_snapshot sha dns (redb_storage sha no_faults) s t (forget_operations sha internal_ns state
          (store_value_new sha a) (store_value_new sha ACTIVE_MARKER_VALUE) target))"
    by (rule rs.plan_cleanup_unreferenced [where dns = dns and sha = sha and io = no_faults and retention = retention and now = now and t = t,
        OF assms(1,2,5) i(1) assms(8) m]) (use assms(9-12) in simp)
  let ?ops = "forget_operations sha internal_ns state (store_value_new sha a) (store_value_new sha ACTIVE_MARKER_VALUE) target"
  have asc: "is_ascii ?u" using assms(5) by (simp add: receipt_id_ok_def)
  obtain tx s' where l: "prepare_on_snapshot sha dns (redb_storage sha no_faults) s t ?ops = Ok (Inr tx :: receipt_cleanup_outcome + _)"
    "store_commit (so_commit (redb_storage sha no_faults)) (s, Ready) tx = ((s', Ready), Ok (Committed (abs_receipt (redb_abs s) tx)))"
    "redb_inv s'" "redb_abs s' = abs_commit (redb_abs s) tx" "st_id tx = t" "st_operations tx = ?ops @ [marker_put sha t]"
    by (rule redb_prepared_lands [where dns = dns and ops = ?ops, OF assms(1,2,3,13) t assms(14)])
      (use assms(6,7,9,15) h m k asc in \<open>simp_all add: forget_operations_def st internal_ns_ok marker_value_def\<close>)
  have "as_receipts (redb_abs s') ?u = None" "ref_marker (redb_abs s') ?u = Some FORGOTTEN_MARKER_VALUE"
    using ut k by (simp_all add: l(4-6) abs_commit_def Let_def forget_operations_def marker_value_def)
  then show ?thesis
    by (intro that) (simp_all add: cleanup_receipt_def st(3) l(1,2) commit_plan_def)
qed

section \<open>A sample receipt\<close>

lemma empty_db_entries: "as_entries (redb_abs empty_db) k = None" and empty_db_generation: "as_generation (redb_abs empty_db) = 0"
  by (cases k, simp_all add: redb_abs_def redb_tables_abs_def empty_db_def redb_initialize_def current_generation_def decode_revision_def)

lemma empty_db_receipts_inv: "receipts_inv (redb_abs empty_db)"
  by (simp add: receipts_inv_def index_ok_def marker_ok_def ref_edges_def empty_db_entries empty_db_receipts)

text \<open>A store in which the transaction \<^verbatim>\<open>txn_1\<close> has put one record.\<close>

definition sample_id :: "nat \<Rightarrow> transaction_id" where
  "sample_id n = lit ''txn_'' @ [48 + n]"

lemma sample_id_ok: "n < 10 \<Longrightarrow> receipt_id_ok (sample_id n)"
  by (simp add: receipt_id_ok_def sample_id_def)

lemma sample_id_eq [simp]: "sample_id m = sample_id n \<longleftrightarrow> m = n"
  by (simp add: sample_id_def)

lemma sample_id_key: "m < 10 \<Longrightarrow> n < 10 \<Longrightarrow> used_id_key (sample_id m) = used_id_key (sample_id n) \<longleftrightarrow> m = n"
  using used_id_key_inj [of "sample_id m" "sample_id n"] sample_id_ok by (simp add: receipt_id_ok_def)

lemma sample_ns_internal: "sample_ns \<noteq> internal_ns" "tag_value sample_ns \<noteq> INTERNAL_NAMESPACE"
  by (simp_all add: sample_ns_def make_tag_def internal_ns_def INTERNAL_NAMESPACE_def BUILTIN_DOMAIN_def)

lemma sample_receipt_run:
  obtains tx s where "receipt_run sample_sha (\<lambda>_. True) (redb_storage sample_sha) empty_db [s, empty_db] (s, Ready)"
    "redb_abs s = abs_commit (redb_abs empty_db) tx" "st_id tx = sample_id 1" "redb_inv s"
    "st_operations tx = [Put sample_ns [1] Absent (store_value_new sample_sha [7]), marker_put sample_sha (sample_id 1)]"
proof -
  let ?op = "Put sample_ns [1] Absent (store_value_new sample_sha [7])"
  have len: "length (sample_sha bytes) = 32" for bytes by (simp add: sample_sha_def)
  have ok: "list_all (operation_ok sample_sha) [?op]" by (simp add: sample_ns_ok)
  have d: "distinct (map operation_identity_of ([?op] @ [marker_put sample_sha (sample_id 1)]))" using sample_ns_internal by simp
  have c: "list_all (abs_condition sample_sha (redb_abs empty_db)) [?op]" by (simp add: empty_db_entries)
  have id: "receipt_id_ok (sample_id 1)" by (rule sample_id_ok) simp
  obtain tx s where l: "prepare_on_snapshot sample_sha (\<lambda>_. True) (redb_storage sample_sha no_faults) empty_db (sample_id 1) [?op] =
      Ok (Inr tx :: unit + _)"
    "store_commit (so_commit (redb_storage sample_sha no_faults)) (empty_db, Ready) tx =
      ((s, Ready), Ok (Committed (abs_receipt (redb_abs empty_db) tx)))"
    "redb_inv s" "redb_abs s = abs_commit (redb_abs empty_db) tx" "st_id tx = sample_id 1"
    "st_operations tx = [?op] @ [marker_put sample_sha (sample_id 1)]"
    by (rule redb_prepared_lands [OF empty_db_inv TrueI len id empty_db_receipts empty_db_entries ok d c])
      (simp add: empty_db_generation)
  have pr: "prepare_transaction_with_receipt_changes sample_sha (\<lambda>_. True) (redb_storage sample_sha no_faults) empty_db (sample_id 1)
      [?op] [] = Ok tx"
    using l(1) sample_ns_internal(2)
    by (auto simp: prepare_transaction_with_receipt_changes_def prepare_on_snapshot_def internal_namespace_Ok group_receipt_changes_def
        and_then_Ok_iff)
  have st: "receipt_step sample_sha (\<lambda>_. True) (redb_storage sample_sha no_faults) empty_db (empty_db, Ready) (s, Ready)"
    by (rule step_transaction [OF id ok _ pr l(2)]) (simp add: changes_ok_def)
  have "receipt_run sample_sha (\<lambda>_. True) (redb_storage sample_sha) empty_db [s, empty_db] (s, Ready)"
    using run_step [where so = "redb_storage sample_sha" and io = no_faults, OF run_start _ st] by simp
  with that l(3-6) show ?thesis by simp
qed

section \<open>Properties\<close>

text \<open>C7: in every run of a metadata store over redb (any transactions with receipt changes,
  single references, cleanups, stale snapshots and engine faults, from an empty store) the
  reference index of every transaction id is consistent: its audit succeeds and returns the
  number of its edges, a receipt exists exactly while its marker is active, and a referenced
  receipt exists and has no retention anchor.\<close>

theorem receipt_index_invariant:
  assumes "receipt_run sha dns (redb_storage sha) empty_db history (s, state)"
    and "dns BUILTIN_DOMAIN" "\<forall>bytes. length (sha bytes) = 32" "receipt_id_ok t"
  shows "(\<exists>head anchor count. so_get (redb_storage sha io) s internal_ns (reference_head_key t) = Ok head \<and>
      so_get (redb_storage sha io) s internal_ns (eligibility_anchor_key t) = Ok anchor \<and>
      audit_reference_index (redb_storage sha io) s internal_ns t head anchor = Ok count \<and>
      unat count = card (ref_edges (redb_abs s) t)) \<and>
    (as_receipts (redb_abs s) t \<noteq> None \<longleftrightarrow> ref_marker (redb_abs s) t = Some ACTIVE_MARKER_VALUE) \<and>
    (ref_edges (redb_abs s) t \<noteq> {} \<longrightarrow> as_receipts (redb_abs s) t \<noteq> None \<and> ref_anchor (redb_abs s) t = None)"
proof -
  have len: "length (sha bytes) = 32" for bytes using assms(3) by blast
  note r = receipt_run_inv [OF assms(1) empty_db_inv empty_db_receipts_inv assms(2) len]
  have i: "redb_inv s" "index_ok (redb_abs s) t" "marker_ok (redb_abs s) t" using r assms(4) by (auto simp: receipts_inv_def)
  note gets = rs.get_refines [OF i(1) internal_ns_ok, of sha io]
  have "card (ref_edges (redb_abs s) t) < 2 ^ 64" using i(2) by (simp add: index_ok_def)
  then have u: "unat (word_of_nat (card (ref_edges (redb_abs s) t)) :: u64) = card (ref_edges (redb_abs s) t)"
    by (simp add: unat_of_nat)
  note a = rs.audit_exact [OF i(1) assms(4) gets gets, of "word_of_nat (card (ref_edges (redb_abs s) t))"]
  have a': "audit_reference_index (redb_storage sha io) s internal_ns t
      (map_option (store_value_new sha) (as_entries (redb_abs s) (internal_ns, reference_head_key t)))
      (map_option (store_value_new sha) (ref_anchor (redb_abs s) t)) = Ok (word_of_nat (card (ref_edges (redb_abs s) t)))"
    using a i(2) by blast
  show ?thesis
  proof (intro conjI)
    show "\<exists>head anchor count. so_get (redb_storage sha io) s internal_ns (reference_head_key t) = Ok head \<and>
      so_get (redb_storage sha io) s internal_ns (eligibility_anchor_key t) = Ok anchor \<and>
      audit_reference_index (redb_storage sha io) s internal_ns t head anchor = Ok count \<and>
      unat count = card (ref_edges (redb_abs s) t)"
      using gets a' u by blast
  qed (use i(2,3) in \<open>simp_all add: marker_ok_def index_ok_def\<close>)
qed

theorem receipt_index_invariant_witness:
  "\<exists>s. receipt_run sample_sha (\<lambda>_. True) (redb_storage sample_sha) empty_db [s, empty_db] (s, Ready) \<and>
    (as_receipts (redb_abs s) (sample_id 1) \<noteq> None \<longleftrightarrow> ref_marker (redb_abs s) (sample_id 1) = Some ACTIVE_MARKER_VALUE)"
proof -
  obtain tx s where r: "receipt_run sample_sha (\<lambda>_. True) (redb_storage sample_sha) empty_db [s, empty_db] (s, Ready)"
    by (rule sample_receipt_run)
  have "\<forall>bytes. length (sample_sha bytes) = 32" by (simp add: sample_sha_def)
  from receipt_index_invariant [OF r TrueI this sample_id_ok [of 1]] r show ?thesis by (intro exI [of _ s]) simp
qed

text \<open>C8: transaction ids are used once for ever. Once any state of a run held the marker of an id,
  no transaction prepared under that id, on whatever snapshot of the run, has an effect, even
  after the receipt was forgotten; and a forgotten id stays forgotten.\<close>

theorem used_id_permanent:
  assumes "receipt_run sha dns (redb_storage sha) empty_db history (s, state)"
    and "dns BUILTIN_DOMAIN" "\<forall>bytes. length (sha bytes) = 32" "receipt_id_ok t"
    and "h \<in> set history" "ref_marker (redb_abs h) t \<noteq> None" "snap \<in> set history"
    and "list_all (operation_ok sha) ops" "changes_ok changes"
    and "prepare_transaction_with_receipt_changes sha dns (redb_storage sha io) snap t ops changes = Ok tx"
    and "store_commit (so_commit (redb_storage sha io)) (s, state) tx = ((s', state'), r)"
  shows "redb_abs s' = redb_abs s \<and>
    (ref_marker (redb_abs h) t = Some FORGOTTEN_MARKER_VALUE \<longrightarrow> ref_marker (redb_abs s) t = Some FORGOTTEN_MARKER_VALUE)"
proof -
  have len: "length (sha bytes) = 32" for bytes using assms(3) by blast
  note run = receipt_run_inv [OF assms(1) empty_db_inv empty_db_receipts_inv assms(2) len]
  have k: "redb_inv snap" "receipts_inv (redb_abs snap)" "later sha (redb_abs snap) (redb_abs s)" "redb_inv s"
    "markers_kept (redb_abs h) (redb_abs s)" using run assms(5,7) by blast+
  then have m: "ref_marker (redb_abs s) t = ref_marker (redb_abs h) t \<or> ref_marker (redb_abs s) t = Some FORGOTTEN_MARKER_VALUE"
    using assms(4,6) by (simp add: markers_kept_def)
  from rs.prepared_changes_sound [OF k(1) assms(2,4,8-10) k(2)]
  obtain os revision where p: "prepare_internal_transaction sha dns t revision os = Ok tx" "list_all (operation_ok sha) os"
    "so_revision (redb_storage sha io) snap = Ok revision" by (auto simp: rs.sound_on_def)
  have "is_ascii t" using assms(4) by (simp add: receipt_id_ok_def)
  moreover have "ref_marker (redb_abs s) t \<noteq> None" using m assms(6) by auto
  ultimately have "redb_abs s' = redb_abs s"
    using rs.used_id_no_effect [OF k(1,4,3) assms(2) len _ p _ assms(11)] by blast
  with m show ?thesis by auto
qed

theorem used_id_permanent_witness:
  "\<exists>s tx sys r. receipt_run sample_sha (\<lambda>_. True) (redb_storage sample_sha) empty_db [s, empty_db] (s, Ready) \<and>
    prepare_transaction_with_receipt_changes sample_sha (\<lambda>_. True) (redb_storage sample_sha no_faults) s (sample_id 1)
      [Put sample_ns [2] Absent (store_value_new sample_sha [8])] [] = Ok tx \<and>
    store_commit (so_commit (redb_storage sample_sha no_faults)) (s, Ready) tx = (sys, r) \<and> redb_abs (fst sys) = redb_abs s"
proof -
  let ?op = "Put sample_ns [2] Absent (store_value_new sample_sha [8])"
  obtain tx0 s where r: "receipt_run sample_sha (\<lambda>_. True) (redb_storage sample_sha) empty_db [s, empty_db] (s, Ready)"
    "redb_abs s = abs_commit (redb_abs empty_db) tx0" "st_id tx0 = sample_id 1" "redb_inv s"
    "st_operations tx0 = [Put sample_ns [1] Absent (store_value_new sample_sha [7]), marker_put sample_sha (sample_id 1)]"
    by (rule sample_receipt_run)
  have m: "ref_marker (redb_abs s) (sample_id 1) \<noteq> None" by (simp add: r(2,5) abs_commit_def Let_def)
  obtain tx where p: "prepare_transaction_with_receipt_changes sample_sha (\<lambda>_. True) (redb_storage sample_sha no_faults) s (sample_id 1)
      [?op] [] = Ok tx"
    using rs.revision_refines [OF r(4), of sample_sha no_faults] sample_ns_internal
    by (simp add: prepare_transaction_with_receipt_changes_def internal_namespace_Ok group_receipt_changes_def
        prepare_internal_transaction_def store_transaction_new_Ok)
  obtain s' state' a where c: "store_commit (so_commit (redb_storage sample_sha no_faults)) (s, Ready) tx = ((s', state'), a)"
    by (metis surj_pair)
  have "\<forall>bytes. length (sample_sha bytes) = 32" by (simp add: sample_sha_def)
  from used_id_permanent [OF r(1) TrueI this sample_id_ok [of 1] _ m _ _ _ p c] have "redb_abs s' = redb_abs s"
    by (simp add: sample_ns_ok changes_ok_def)
  with r(1) p c show ?thesis by (intro exI [of _ s] exI [of _ tx] exI [of _ "(s', state')"] exI [of _ a]) simp
qed

text \<open>A cleanup retires a receipt only when it may. If a cleanup, decided on a snapshot that may be
  stale and with engine faults, makes the receipt of some transaction disappear, then that
  transaction is its target, the digests agree, the receipt had no reference, its retention
  anchor is older than the retention, and the id is left marked as forgotten.\<close>

lemma cleanup_forgets_only_expired:
  assumes "redb_inv snap" "redb_inv s" "later sha (redb_abs snap) (redb_abs s)" "dns BUILTIN_DOMAIN" "\<forall>bytes. length (sha bytes) = 32"
    and "receipt_id_ok t" "receipt_id_ok (ri_transaction target)"
    and "cleanup_receipt sha dns (redb_storage sha io) snap (s, state) retention now target t = ((s', state'), outc)"
    and "as_receipts (redb_abs s) u \<noteq> None" "as_receipts (redb_abs s') u = None"
  shows "u = ri_transaction target \<and> ref_edges (redb_abs s) u = {} \<and>
    (\<exists>a w. ref_anchor (redb_abs s) u = Some a \<and> decode_wall_time a = Ok w \<and> w + retention \<le> now) \<and>
    map_option cr_operation_digest (as_receipts (redb_abs s) u) = Some (ri_operation_digest target) \<and>
    ref_marker (redb_abs s') u = Some FORGOTTEN_MARKER_VALUE"
proof -
  have len: "length (sha bytes) = 32" for bytes using assms(5) by blast
  show ?thesis by (rule rs.cleanup_effect [OF assms(1-4) len assms(6-10)])
qed

text \<open>C32: an unreferenced receipt is retired. From any state with a consistent index a first cleanup of
  an unreferenced receipt records the wall time, and a second one, once the retention has passed,
  forgets the receipt and leaves its id marked as forgotten, on a store without engine faults.\<close>

theorem unreferenced_receipt_retired:
  assumes "redb_inv s" "dns BUILTIN_DOMAIN" "\<forall>bytes. length (sha bytes) = 32" "receipts_inv (redb_abs s)"
    and "receipt_id_ok (ri_transaction target)" "as_receipts (redb_abs s) (ri_transaction target) = Some r"
    and "cr_operation_digest r = ri_operation_digest target" "ref_edges (redb_abs s) (ri_transaction target) = {}"
    and "ref_anchor (redb_abs s) (ri_transaction target) = None" "unat (as_generation (redb_abs s)) + 2 < 2 ^ 64"
    and "receipt_id_ok t1" "receipt_id_ok t2" "t1 \<noteq> t2" "ref_marker (redb_abs s) t1 = None" "ref_marker (redb_abs s) t2 = None"
    and "host_time now" "checked_add_time now retention = Some (now + retention)" "now + retention \<le> now'"
  shows "\<exists>s1 receipt1 s2 receipt2.
    cleanup_receipt sha dns (redb_storage sha no_faults) s (s, Ready) retention now target t1 = ((s1, Ready), Ok (Anchored receipt1)) \<and>
    cleanup_receipt sha dns (redb_storage sha no_faults) s1 (s1, Ready) retention now' target t2 = ((s2, Ready), Ok (Forgotten receipt2)) \<and>
    as_receipts (redb_abs s2) (ri_transaction target) = None \<and>
    ref_marker (redb_abs s2) (ri_transaction target) = Some FORGOTTEN_MARKER_VALUE"
proof -
  let ?u = "ri_transaction target"
  have len: "length (sha bytes) = 32" for bytes using assms(3) by blast
  have g: "as_generation (redb_abs s) \<noteq> - 1" "as_generation (redb_abs s) + 1 \<noteq> - 1"
    using assms(10) unat_minus_one_word [where ?'a = 64] by (auto simp: word_unat_eq_iff unat_word_ariths)
  have rec: "as_receipts (redb_abs s) ?u \<noteq> None" using assms(6) by simp
  obtain s1 tx where c1: "cleanup_receipt sha dns (redb_storage sha no_faults) s (s, Ready) retention now target t1 =
      ((s1, Ready), Ok (Anchored (abs_receipt (redb_abs s) tx)))"
    "redb_inv s1" "redb_abs s1 = abs_commit (redb_abs s) tx" "st_id tx = t1"
    "st_operations tx = [Check internal_ns (reference_head_key ?u) Absent,
       Put internal_ns (eligibility_anchor_key ?u) Absent (store_value_new sha (encode_wall_time now))] @ [marker_put sha t1]"
    by (rule cleanup_anchors [where dns = dns, OF assms(1,2) len assms(4,5) rec assms(8,9,11,14) g(1)])
  have "as_receipts (redb_abs s) t1 = None" using assms(4,11,14) by (auto simp: receipts_inv_def marker_ok_def)
  then have ut: "?u \<noteq> t1" using assms(6) by auto
  have k: "used_id_key t2 \<noteq> used_id_key t1"
    using used_id_key_inj [of t2 t1] assms(11-13) by (auto simp: receipt_id_ok_def)
  have s1: "as_receipts (redb_abs s1) ?u = Some r" "ref_edges (redb_abs s1) ?u = {}"
    "ref_anchor (redb_abs s1) ?u = Some (encode_wall_time now)" "ref_marker (redb_abs s1) t2 = None" "as_generation (redb_abs s1) \<noteq> - 1"
    using assms(6,8,15) ut k g(2) by (simp_all add: c1(3-5) abs_commit_def Let_def ref_edges_def)
  have "receipt_step sha dns (redb_storage sha no_faults) s (s, Ready) (s1, Ready)" by (rule step_cleanup [OF assms(11,5) c1(1)])
  from rs.receipt_step_sound [OF this assms(1,1) later_refl assms(2) len assms(4,4)] have inv1: "receipts_inv (redb_abs s1)" by blast
  obtain s2 receipt where c2: "cleanup_receipt sha dns (redb_storage sha no_faults) s1 (s1, Ready) retention now' target t2 =
      ((s2, Ready), Ok (Forgotten receipt))"
    "as_receipts (redb_abs s2) ?u = None" "ref_marker (redb_abs s2) ?u = Some FORGOTTEN_MARKER_VALUE"
    by (rule cleanup_forgets [where dns = dns, OF c1(2) assms(2) len inv1 assms(5) s1(1) assms(7) s1(2,3) decode_encode_wall_time [OF assms(16)]
          assms(17,18,12) s1(4,5)])
  from c1(1) c2 show ?thesis by blast
qed

lemma sample_retired_premises:
  obtains s r where "redb_inv s" "receipts_inv (redb_abs s)" "as_receipts (redb_abs s) (sample_id 1) = Some r"
    "ref_edges (redb_abs s) (sample_id 1) = {}" "ref_anchor (redb_abs s) (sample_id 1) = None"
    "as_generation (redb_abs s) = 1" "ref_marker (redb_abs s) (sample_id 2) = None" "ref_marker (redb_abs s) (sample_id 3) = None"
proof -
  obtain tx s where r: "receipt_run sample_sha (\<lambda>_. True) (redb_storage sample_sha) empty_db [s, empty_db] (s, Ready)"
    "redb_abs s = abs_commit (redb_abs empty_db) tx" "st_id tx = sample_id 1" "redb_inv s"
    "st_operations tx = [Put sample_ns [1] Absent (store_value_new sample_sha [7]), marker_put sample_sha (sample_id 1)]"
    by (rule sample_receipt_run)
  have len: "length (sample_sha bytes) = 32" for bytes by (simp add: sample_sha_def)
  have inv: "receipts_inv (redb_abs s)"
    using receipt_run_inv [OF r(1) empty_db_inv empty_db_receipts_inv TrueI len] by blast
  show ?thesis
    by (rule that [OF r(4) inv, of "abs_receipt (redb_abs empty_db) tx"])
      (use sample_ns_internal(1) in \<open>simp_all add: sample_id_key r(2,3,5) abs_commit_def Let_def ref_edges_def empty_db_entries empty_db_generation\<close>)
qed

theorem unreferenced_receipt_retired_witness:
  "\<exists>s target s1 receipt1 s2 receipt2. as_receipts (redb_abs s) (ri_transaction target) \<noteq> None \<and>
    cleanup_receipt sample_sha (\<lambda>_. True) (redb_storage sample_sha no_faults) s (s, Ready) 60 1000 target (sample_id 2) =
      ((s1, Ready), Ok (Anchored receipt1)) \<and>
    cleanup_receipt sample_sha (\<lambda>_. True) (redb_storage sample_sha no_faults) s1 (s1, Ready) 60 2000 target (sample_id 3) =
      ((s2, Ready), Ok (Forgotten receipt2)) \<and>
    as_receipts (redb_abs s2) (ri_transaction target) = None"
proof -
  obtain s r where p: "redb_inv s" "receipts_inv (redb_abs s)" "as_receipts (redb_abs s) (sample_id 1) = Some r"
    "ref_edges (redb_abs s) (sample_id 1) = {}" "ref_anchor (redb_abs s) (sample_id 1) = None"
    "as_generation (redb_abs s) = 1" "ref_marker (redb_abs s) (sample_id 2) = None" "ref_marker (redb_abs s) (sample_id 3) = None"
    by (rule sample_retired_premises)
  let ?target = "\<lparr>ri_transaction = sample_id 1, ri_operation_digest = cr_operation_digest r\<rparr>"
  have id: "receipt_id_ok (sample_id 1)" "receipt_id_ok (sample_id 2)" "receipt_id_ok (sample_id 3)" by (simp_all add: sample_id_ok)
  have l: "\<forall>bytes. length (sample_sha bytes) = 32" by (simp add: sample_sha_def)
  have "sample_id 2 \<noteq> sample_id 3" "host_time 1000" "checked_add_time 1000 60 = Some (1000 + 60)" "(1000 :: int) + 60 \<le> 2000"
    "unat (as_generation (redb_abs s)) + 2 < 2 ^ 64"
    by (simp_all add: host_time_def checked_add_time_def p(6))
  note side = this
  obtain s1 receipt1 s2 receipt2 where c:
    "cleanup_receipt sample_sha (\<lambda>_. True) (redb_storage sample_sha no_faults) s (s, Ready) 60 1000 ?target (sample_id 2) =
      ((s1, Ready), Ok (Anchored receipt1))"
    "cleanup_receipt sample_sha (\<lambda>_. True) (redb_storage sample_sha no_faults) s1 (s1, Ready) 60 2000 ?target (sample_id 3) =
      ((s2, Ready), Ok (Forgotten receipt2))"
    "as_receipts (redb_abs s2) (ri_transaction ?target) = None"
    using unreferenced_receipt_retired [where dns = "\<lambda>_. True" and target = ?target and retention = 60 and now = 1000 and now' = 2000
        and ?t1.0 = "sample_id 2" and ?t2.0 = "sample_id 3", OF p(1) TrueI l p(2)]
      id p(3-5,7,8) side by auto
  with p(3) show ?thesis
    by (intro exI [of _ s] exI [of _ ?target] exI [of _ s1] exI [of _ receipt1] exI [of _ s2] exI [of _ receipt2]) simp
qed

lemma sample_retirement:
  obtains s target s' receipt where "redb_inv s" "receipt_id_ok (ri_transaction target)" "as_receipts (redb_abs s) (ri_transaction target) \<noteq> None"
    "cleanup_receipt sample_sha (\<lambda>_. True) (redb_storage sample_sha no_faults) s (s, Ready) 60 2000 target (sample_id 3) =
       ((s', Ready), Ok (Forgotten receipt))" "as_receipts (redb_abs s') (ri_transaction target) = None"
proof -
  obtain s r where p: "redb_inv s" "receipts_inv (redb_abs s)" "as_receipts (redb_abs s) (sample_id 1) = Some r"
    "ref_edges (redb_abs s) (sample_id 1) = {}" "ref_anchor (redb_abs s) (sample_id 1) = None"
    "as_generation (redb_abs s) = 1" "ref_marker (redb_abs s) (sample_id 2) = None" "ref_marker (redb_abs s) (sample_id 3) = None"
    by (rule sample_retired_premises)
  let ?target = "\<lparr>ri_transaction = sample_id 1, ri_operation_digest = cr_operation_digest r\<rparr>"
  have id: "receipt_id_ok (sample_id n)" if "n < 10" for n using that by (rule sample_id_ok)
  have l: "length (sample_sha bytes) = 32" for bytes by (simp add: sample_sha_def)
  obtain s1 tx where a: "cleanup_receipt sample_sha (\<lambda>_. True) (redb_storage sample_sha no_faults) s (s, Ready) 60 1000 ?target (sample_id 2) =
      ((s1, Ready), Ok (Anchored (abs_receipt (redb_abs s) tx)))"
    "redb_inv s1" "redb_abs s1 = abs_commit (redb_abs s) tx" "st_id tx = sample_id 2"
    "st_operations tx = [Check internal_ns (reference_head_key (ri_transaction ?target)) Absent,
       Put internal_ns (eligibility_anchor_key (ri_transaction ?target)) Absent (store_value_new sample_sha (encode_wall_time 1000))] @
       [marker_put sample_sha (sample_id 2)]"
    by (rule cleanup_anchors [where dns = "\<lambda>_. True" and target = ?target and t = "sample_id 2" and retention = 60 and now = 1000, OF p(1) TrueI l p(2)])
      (use p id in simp_all)
  have s1: "as_receipts (redb_abs s1) (sample_id 1) = Some r" "ref_edges (redb_abs s1) (sample_id 1) = {}"
    "ref_anchor (redb_abs s1) (sample_id 1) = Some (encode_wall_time 1000)" "ref_marker (redb_abs s1) (sample_id 3) = None"
    "as_generation (redb_abs s1) \<noteq> - 1"
    using p by (simp_all add: a(3-5) abs_commit_def Let_def ref_edges_def sample_id_key)
  have "receipt_step sample_sha (\<lambda>_. True) (redb_storage sample_sha no_faults) s (s, Ready) (s1, Ready)"
    by (rule step_cleanup [OF _ _ a(1)]) (use id in simp_all)
  from rs.receipt_step_sound [OF this p(1,1) later_refl TrueI l p(2,2)] have inv1: "receipts_inv (redb_abs s1)" by blast
  have host: "host_time 1000" by (simp add: host_time_def)
  obtain s2 receipt where c2: "cleanup_receipt sample_sha (\<lambda>_. True) (redb_storage sample_sha no_faults) s1 (s1, Ready) 60 2000 ?target (sample_id 3) =
      ((s2, Ready), Ok (Forgotten receipt))"
    "as_receipts (redb_abs s2) (ri_transaction ?target) = None"
    by (rule cleanup_forgets [where dns = "\<lambda>_. True" and target = ?target and t = "sample_id 3" and retention = 60 and now = 2000 and w = 1000,
          OF a(2) TrueI l inv1])
      (use s1 id decode_encode_wall_time [OF host] in \<open>simp_all add: checked_add_time_def\<close>)
  show ?thesis by (rule that [of s1 ?target s2 receipt]) (use a(2) s1(1) c2 id in simp_all)
qed

end
