(* ===== verification/Join_Credential.thy ===== *)
theory Join_Credential
  imports Relay_Prelude
begin

text \<open>
  Join credentials (\<^verbatim>\<open>src/src/identity/credential.rs\<close>): the canonical secret text, the receiver's
  one generation in memory and its life cycle, and the session driver's reservation guard
  (\<^verbatim>\<open>src/src/session/driver.rs\<close>). The base64url engine and the two entropy fills are arguments;
  time is in nanoseconds since the epoch. \<open>issuer_run\<close> interleaves the operator's issue and rotate
  with any number of admission attempts.
\<close>

section \<open>The credential text\<close>

definition CREDENTIAL_PREFIX :: ustr where "CREDENTIAL_PREFIX = lit ''join_''"
definition BODY_LEN :: nat where "BODY_LEN = 32"
definition CREDENTIAL_LEN :: nat where "CREDENTIAL_LEN = str_len CREDENTIAL_PREFIX + 43"
definition LIFETIME :: int where "LIFETIME = 600 * 10 ^ 9"

record base64_engine =
  b64_encode :: "byte list \<Rightarrow> ustr"
  b64_decode :: "ustr \<Rightarrow> byte list option"

record join_credential =
  jc_text :: ustr
  jc_body :: "byte list"

definition credential_from_body :: "base64_engine \<Rightarrow> byte list \<Rightarrow> join_credential" where
  "credential_from_body b64 body = \<lparr>jc_text = CREDENTIAL_PREFIX @ b64_encode b64 body, jc_body = body\<rparr>"

definition credential_parse :: "base64_engine \<Rightarrow> ustr \<Rightarrow> join_credential result" where
  "credential_parse b64 txt =
     (if str_len txt \<noteq> CREDENTIAL_LEN \<or> \<not> prefix CREDENTIAL_PREFIX txt then Err (invalid_input ''join credential'')
      else
        (let encoded = drop (length CREDENTIAL_PREFIX) txt
         in and_then (ok_or (b64_decode b64 encoded) (invalid_input ''join credential'')) (\<lambda>body.
            if length body \<noteq> BODY_LEN then Err (invalid_input ''join credential'')
            else if b64_encode b64 body \<noteq> encoded then Err (invalid_input ''join credential'')
            else Ok (credential_from_body b64 body))))"

lemma credential_parse_text:
  assumes "b64_decode b64 (b64_encode b64 body) = Some body" and "str_len (b64_encode b64 body) = 43"
    and "length body = BODY_LEN"
  shows "credential_parse b64 (jc_text (credential_from_body b64 body)) = Ok (credential_from_body b64 body)"
  using assms by (simp add: credential_parse_def credential_from_body_def CREDENTIAL_LEN_def)

lemma credential_parse_canonical:
  assumes "credential_parse b64 txt = Ok c"
  shows "jc_text c = txt \<and> length (jc_body c) = BODY_LEN"
  using assms
  by (auto simp: credential_parse_def credential_from_body_def Let_def and_then_Ok_iff prefix_def split: if_splits)

section \<open>Generations\<close>

datatype generation_state = GenActive | GenReserved | GenConsumed

record active_generation =
  ag_credential :: "join_credential option"
  ag_id :: "byte list"
  ag_expires_at :: int
  ag_state :: generation_state

definition generation_live :: "active_generation \<Rightarrow> int \<Rightarrow> unit result" where
  "generation_live g now =
     (if ag_state g = GenConsumed then Err (authentication_failed ''join credential consumed'')
      else if now \<ge> ag_expires_at g then Err (authentication_failed ''join credential expired'')
      else Ok ())"

type_synonym issuer = "active_generation option"

record issued_credential =
  ic_credential :: join_credential
  ic_expires_at :: int

definition issuer_replace ::
  "base64_engine \<Rightarrow> byte list result \<Rightarrow> byte list result \<Rightarrow> issuer \<Rightarrow> int \<Rightarrow> issuer \<times> issued_credential result" where
  "issuer_replace b64 body_fill id_fill iss now =
     (case and_then body_fill (\<lambda>body. and_then id_fill (\<lambda>gid.
         and_then (ok_or (checked_add_time now LIFETIME) (internal ''join credential expiry'')) (\<lambda>expires_at.
           Ok (body, gid, expires_at)))) of
        Inl e \<Rightarrow> (iss, Err e)
      | Inr (body, gid, expires_at) \<Rightarrow>
          (Some \<lparr>ag_credential = Some (credential_from_body b64 body), ag_id = gid, ag_expires_at = expires_at,
                 ag_state = GenActive\<rparr>,
           Ok \<lparr>ic_credential = credential_from_body b64 body, ic_expires_at = expires_at\<rparr>))"

definition issuer_issue ::
  "base64_engine \<Rightarrow> byte list result \<Rightarrow> byte list result \<Rightarrow> issuer \<Rightarrow> int \<Rightarrow> issuer \<times> issued_credential result" where
  "issuer_issue b64 body_fill id_fill iss now =
     (if (case iss of None \<Rightarrow> False | Some g \<Rightarrow> is_ok (generation_live g now))
      then (iss, Err (conflict ''join credential active''))
      else issuer_replace b64 body_fill id_fill iss now)"

definition issuer_rotate ::
  "base64_engine \<Rightarrow> byte list result \<Rightarrow> byte list result \<Rightarrow> issuer \<Rightarrow> int \<Rightarrow> issuer \<times> issued_credential result" where
  "issuer_rotate = issuer_replace"

definition generation_id :: "issuer \<Rightarrow> byte list option" where
  "generation_id iss = map_option ag_id iss"

definition active_credential :: "issuer \<Rightarrow> int \<Rightarrow> join_credential result" where
  "active_credential iss now =
     and_then (ok_or iss (authentication_failed ''join credential absent'')) (\<lambda>g.
     and_then (generation_live g now) (\<lambda>_.
       ok_or (ag_credential g) (authentication_failed ''join credential consumed'')))"

definition issuer_reserve :: "issuer \<Rightarrow> int \<Rightarrow> issuer \<times> unit result" where
  "issuer_reserve iss now =
     (case iss of
        None \<Rightarrow> (iss, Err (authentication_failed ''join credential absent''))
      | Some g \<Rightarrow>
          (case generation_live g now of
             Inl e \<Rightarrow> (iss, Err e)
           | Inr _ \<Rightarrow>
               (case ag_state g of
                  GenActive \<Rightarrow> (Some (g\<lparr>ag_state := GenReserved\<rparr>), Ok ())
                | GenReserved \<Rightarrow> (iss, Err (conflict ''join credential reserved''))
                | GenConsumed \<Rightarrow> (iss, Err (authentication_failed ''join credential consumed'')))))"

definition issuer_release :: "issuer \<Rightarrow> issuer \<times> unit result" where
  "issuer_release iss =
     (case iss of
        None \<Rightarrow> (iss, Err (authentication_failed ''join credential absent''))
      | Some g \<Rightarrow>
          if ag_state g = GenReserved then (Some (g\<lparr>ag_state := GenActive\<rparr>), Ok ())
          else (iss, Err (conflict ''join credential not reserved'')))"

definition issuer_consume :: "issuer \<Rightarrow> issuer \<times> unit result" where
  "issuer_consume iss =
     (case iss of
        None \<Rightarrow> (iss, Err (authentication_failed ''join credential absent''))
      | Some g \<Rightarrow>
          if ag_state g = GenReserved then (Some (g\<lparr>ag_credential := None, ag_state := GenConsumed\<rparr>), Ok ())
          else (iss, Err (conflict ''join credential not reserved'')))"

section \<open>The driver's reservation\<close>

text \<open>The join branch of the responder: the hello's generation must be the current one, the
  generation is reserved and its secret read under one lock. The result arms a reservation.\<close>

definition reserve_join :: "issuer \<Rightarrow> int \<Rightarrow> byte list option \<Rightarrow> issuer \<times> (byte list \<times> byte list) result" where
  "reserve_join iss now peek_generation =
     (case generation_id iss of
        None \<Rightarrow> (iss, Err (authentication_failed ''join credential''))
      | Some active_generation \<Rightarrow>
          if peek_generation \<noteq> Some active_generation
          then (iss, Err (authentication_failed ''join credential generation''))
          else (case issuer_reserve iss now of
                  (iss', Inl e) \<Rightarrow> (iss', Err (authentication_failed ''join credential''))
                | (iss', Inr _) \<Rightarrow>
                    (case active_credential iss' now of
                       Inl e \<Rightarrow> (iss', Err (authentication_failed ''join credential''))
                     | Inr c \<Rightarrow> (iss', Ok (active_generation, jc_body c)))))"

text \<open>Consuming or dropping an armed reservation; a failed consume leaves it armed, so it is
  released when it is dropped.\<close>

definition reservation_release :: "issuer \<Rightarrow> issuer" where
  "reservation_release iss = fst (issuer_release iss)"

definition reservation_consume :: "issuer \<Rightarrow> issuer \<times> unit result" where
  "reservation_consume iss =
     (case issuer_consume iss of
        (iss', Inl e) \<Rightarrow> (reservation_release iss', Err e)
      | (iss', Inr _) \<Rightarrow> (iss', Ok ()))"

section \<open>Interleaved runs\<close>

text \<open>The issuer with a count of the generations made so far, the generation numbers of the
  attempts holding a reservation, and the numbers of the generations consumed.\<close>

record issuer_world =
  iw_issuer :: issuer
  iw_made :: nat
  iw_holders :: "nat list"
  iw_consumed :: "nat list"

inductive issuer_step :: "base64_engine \<Rightarrow> issuer_world \<Rightarrow> issuer_world \<Rightarrow> bool" for b64 where
  step_issue: "issuer_issue b64 bf gf (iw_issuer w) now = (iss, r) \<Longrightarrow>
    issuer_step b64 w (w\<lparr>iw_issuer := iss, iw_made := (if is_ok r then iw_made w + 1 else iw_made w)\<rparr>)"
| step_rotate: "issuer_rotate b64 bf gf (iw_issuer w) now = (iss, r) \<Longrightarrow>
    issuer_step b64 w (w\<lparr>iw_issuer := iss, iw_made := (if is_ok r then iw_made w + 1 else iw_made w)\<rparr>)"
| step_attempt: "reserve_join (iw_issuer w) now peeked = (iss, r) \<Longrightarrow>
    issuer_step b64 w (w\<lparr>iw_issuer := iss, iw_holders := (if is_ok r then iw_made w # iw_holders w else iw_holders w)\<rparr>)"
| step_release: "n \<in> set (iw_holders w) \<Longrightarrow>
    issuer_step b64 w (w\<lparr>iw_issuer := reservation_release (iw_issuer w), iw_holders := remove1 n (iw_holders w)\<rparr>)"
| step_consume: "n \<in> set (iw_holders w) \<Longrightarrow> reservation_consume (iw_issuer w) = (iss, r) \<Longrightarrow>
    issuer_step b64 w (w\<lparr>iw_issuer := iss, iw_holders := remove1 n (iw_holders w),
      iw_consumed := (if is_ok r then iw_made w # iw_consumed w else iw_consumed w)\<rparr>)"

inductive issuer_run :: "base64_engine \<Rightarrow> issuer_world \<Rightarrow> bool" for b64 where
  run_start: "issuer_run b64 \<lparr>iw_issuer = None, iw_made = 0, iw_holders = [], iw_consumed = []\<rparr>"
| run_step: "issuer_run b64 w \<Longrightarrow> issuer_step b64 w w' \<Longrightarrow> issuer_run b64 w'"

text \<open>Runs in which no new generation is made while an attempt holds a reservation.\<close>

inductive quiet_run :: "base64_engine \<Rightarrow> issuer_world \<Rightarrow> bool" for b64 where
  quiet_start: "quiet_run b64 \<lparr>iw_issuer = None, iw_made = 0, iw_holders = [], iw_consumed = []\<rparr>"
| quiet_step: "quiet_run b64 w \<Longrightarrow> issuer_step b64 w w' \<Longrightarrow> iw_made w' = iw_made w \<or> iw_holders w = [] \<Longrightarrow> quiet_run b64 w'"

section \<open>Invariants\<close>

definition generation_ok :: "issuer_world \<Rightarrow> bool" where
  "generation_ok w \<longleftrightarrow>
     (case iw_issuer w of
        None \<Rightarrow> iw_made w = 0 \<and> iw_consumed w = []
      | Some g \<Rightarrow> (ag_state g = GenConsumed \<longleftrightarrow> iw_made w \<in> set (iw_consumed w)) \<and>
          (ag_credential g = None \<longleftrightarrow> ag_state g = GenConsumed))"

definition world_inv :: "issuer_world \<Rightarrow> bool" where
  "world_inv w \<longleftrightarrow> generation_ok w \<and> distinct (iw_consumed w) \<and>
     (\<forall>n\<in>set (iw_consumed w). n \<le> iw_made w) \<and> (\<forall>n\<in>set (iw_holders w). n \<le> iw_made w)"

lemma replace_cases:
  assumes "issuer_replace b64 bf gf iss now = (iss', r)"
  obtains (failed) e where "iss' = iss" and "r = Err e"
  | (made) g i where "iss' = Some g" and "ag_state g = GenActive" and "ag_credential g \<noteq> None" and "r = Ok i"
  using assms by (auto simp: issuer_replace_def split: sum.splits)

lemma issue_cases:
  assumes "issuer_issue b64 bf gf iss now = (iss', r)"
  obtains (failed) e where "iss' = iss" and "r = Err e"
  | (made) g i where "iss' = Some g" and "ag_state g = GenActive" and "ag_credential g \<noteq> None" and "r = Ok i"
  using assms by (auto simp: issuer_issue_def split: if_splits elim: replace_cases)

lemma reserve_join_cases:
  assumes "reserve_join iss now peeked = (iss', r)"
    and "\<And>g. iss = Some g \<Longrightarrow> ag_credential g = None \<longleftrightarrow> ag_state g = GenConsumed"
  obtains (failed) e where "iss' = iss" and "r = Err e"
  | (reserved) g x where "iss = Some g" and "ag_state g = GenActive" and "iss' = Some (g\<lparr>ag_state := GenReserved\<rparr>)"
      and "r = Ok x" and "fst x = ag_id g" and "now < ag_expires_at g"
  using assms
  by (auto simp: reserve_join_def generation_id_def issuer_reserve_def generation_live_def active_credential_def
      split: option.splits sum.splits generation_state.splits if_splits)

lemma consume_cases:
  assumes "reservation_consume iss = (iss', r)"
  obtains (failed) e where "iss' = iss" and "r = Err e"
  | (consumed) g where "iss = Some g" and "ag_state g = GenReserved"
      and "iss' = Some (g\<lparr>ag_credential := None, ag_state := GenConsumed\<rparr>)" and "r = Ok ()"
  using assms
  by (auto simp: reservation_consume_def issuer_consume_def reservation_release_def issuer_release_def
      split: option.splits sum.splits if_splits)

text \<open>A step changes the generation, reserves it, releases it, consumes it, or leaves the issuer.\<close>

lemma step_cases:
  assumes "issuer_step b64 w w'" and "world_inv w"
  obtains (same) "iw_issuer w' = iw_issuer w" and "iw_made w' = iw_made w" and "iw_consumed w' = iw_consumed w"
      and "iw_holders w' = iw_holders w \<or> (\<exists>n\<in>set (iw_holders w). iw_holders w' = remove1 n (iw_holders w) \<and>
        (\<forall>g. iw_issuer w = Some g \<longrightarrow> ag_state g \<noteq> GenReserved))"
  | (made) g where "iw_issuer w' = Some g" and "ag_state g = GenActive" and "ag_credential g \<noteq> None"
      and "iw_made w' = iw_made w + 1" and "iw_holders w' = iw_holders w" and "iw_consumed w' = iw_consumed w"
  | (reserved) g where "iw_issuer w = Some g" and "ag_state g = GenActive" and "iw_issuer w' = Some (g\<lparr>ag_state := GenReserved\<rparr>)"
      and "iw_made w' = iw_made w" and "iw_holders w' = iw_made w # iw_holders w" and "iw_consumed w' = iw_consumed w"
  | (released) g n where "iw_issuer w = Some g" and "ag_state g = GenReserved" and "iw_issuer w' = Some (g\<lparr>ag_state := GenActive\<rparr>)"
      and "iw_made w' = iw_made w" and "n \<in> set (iw_holders w)" and "iw_holders w' = remove1 n (iw_holders w)"
      and "iw_consumed w' = iw_consumed w"
  | (consumed) g n where "iw_issuer w = Some g" and "ag_state g = GenReserved"
      and "iw_issuer w' = Some (g\<lparr>ag_credential := None, ag_state := GenConsumed\<rparr>)"
      and "iw_made w' = iw_made w" and "n \<in> set (iw_holders w)" and "iw_holders w' = remove1 n (iw_holders w)"
      and "iw_consumed w' = iw_made w # iw_consumed w"
  using assms(1)
proof cases
  case (step_issue bf gf now iss r)
  from step_issue(2) show ?thesis
    by (cases rule: issue_cases) (use step_issue(1) that(1,2) in auto)
next
  case (step_rotate bf gf now iss r)
  from step_rotate(2) [unfolded issuer_rotate_def] show ?thesis
    by (cases rule: replace_cases) (use step_rotate(1) that(1,2) in auto)
next
  case (step_attempt now peeked iss r)
  have "\<And>g. iw_issuer w = Some g \<Longrightarrow> ag_credential g = None \<longleftrightarrow> ag_state g = GenConsumed"
    using assms(2) by (simp add: world_inv_def generation_ok_def)
  from step_attempt(2) this show ?thesis
    by (cases rule: reserve_join_cases) (use step_attempt(1) that(1,3) in auto)
next
  case (step_release n)
  show ?thesis
  proof (cases "\<exists>g. iw_issuer w = Some g \<and> ag_state g = GenReserved")
    case True
    then obtain g where "iw_issuer w = Some g" "ag_state g = GenReserved" by blast
    then show ?thesis using step_release that(4) [of g n]
      by (simp add: reservation_release_def issuer_release_def)
  next
    case False
    then have "reservation_release (iw_issuer w) = iw_issuer w"
      by (cases "iw_issuer w") (auto simp: reservation_release_def issuer_release_def)
    then show ?thesis using step_release False that(1) by auto
  qed
next
  case (step_consume n iss r)
  show ?thesis
  proof (cases "\<exists>g. iw_issuer w = Some g \<and> ag_state g = GenReserved")
    case True
    then obtain g where "iw_issuer w = Some g" "ag_state g = GenReserved" by blast
    then show ?thesis using step_consume that(5) [of g n]
      by (auto simp: reservation_consume_def issuer_consume_def)
  next
    case False
    from step_consume(3) obtain e where "iss = iw_issuer w" "r = Err e"
      by (cases rule: consume_cases) (use False in auto)
    then show ?thesis using step_consume False that(1) by auto
  qed
qed

lemma step_world_inv: "issuer_step b64 w w' \<Longrightarrow> world_inv w \<Longrightarrow> world_inv w'"
proof -
  assume s: "issuer_step b64 w w'" and inv: "world_inv w"
  note i = inv [unfolded world_inv_def generation_ok_def]
  have sub: "set (remove1 n xs) \<subseteq> set xs" for n :: nat and xs by (rule set_remove1_subset)
  from s inv show "world_inv w'"
  proof (cases rule: step_cases)
    case same
    then show ?thesis using i sub by (auto simp: world_inv_def generation_ok_def split: option.splits)
  next
    case (made g)
    have "iw_made w' \<notin> set (iw_consumed w)" using i made(4) by auto
    then show ?thesis using i made by (auto simp: world_inv_def generation_ok_def)
  next
    case (reserved g)
    then show ?thesis using i by (auto simp: world_inv_def generation_ok_def)
  next
    case (released g n)
    then show ?thesis using i sub by (auto simp: world_inv_def generation_ok_def)
  next
    case (consumed g n)
    then show ?thesis using i sub by (auto simp: world_inv_def generation_ok_def)
  qed
qed

lemma run_world_inv: "issuer_run b64 w \<Longrightarrow> world_inv w"
proof (induction rule: issuer_run.induct)
  case run_start
  show ?case by (simp add: world_inv_def generation_ok_def)
next
  case (run_step w w')
  then show ?case using step_world_inv by blast
qed

lemma quiet_run_run: "quiet_run b64 w \<Longrightarrow> issuer_run b64 w"
  by (induction rule: quiet_run.induct) (auto intro: issuer_run.intros)

definition one_holder :: "issuer_world \<Rightarrow> bool" where
  "one_holder w \<longleftrightarrow>
     iw_holders w = (if \<exists>g. iw_issuer w = Some g \<and> ag_state g = GenReserved then [iw_made w] else [])"

lemma quiet_one_holder: "quiet_run b64 w \<Longrightarrow> one_holder w"
proof (induction rule: quiet_run.induct)
  case (quiet_step w w')
  note inv = run_world_inv [OF quiet_run_run [OF quiet_step.hyps(1)]]
  from quiet_step.hyps(2) inv show ?case
    by (cases rule: step_cases) (use quiet_step.IH quiet_step.hyps(3) in \<open>auto simp: one_holder_def split: if_splits\<close>)
qed (simp add: one_holder_def)

section \<open>Concrete steps\<close>

definition sample_generation :: "base64_engine \<Rightarrow> byte \<Rightarrow> generation_state \<Rightarrow> active_generation" where
  "sample_generation b64 k st =
     \<lparr>ag_credential = Some (credential_from_body b64 (replicate 32 0)), ag_id = replicate 16 k, ag_expires_at = LIFETIME,
      ag_state = st\<rparr>"

lemma sample_made:
  "issuer_step b64 w (w\<lparr>iw_issuer := Some (sample_generation b64 k GenActive), iw_made := iw_made w + 1\<rparr>)"
proof -
  have "issuer_rotate b64 (Ok (replicate 32 0)) (Ok (replicate 16 k)) (iw_issuer w) 0 =
      (Some (sample_generation b64 k GenActive),
       Ok \<lparr>ic_credential = credential_from_body b64 (replicate 32 0), ic_expires_at = LIFETIME\<rparr>)"
    by (simp add: issuer_rotate_def issuer_replace_def checked_add_time_def LIFETIME_def sample_generation_def)
  from step_rotate [OF this] show ?thesis by simp
qed

lemma sample_held:
  assumes "iw_issuer w = Some (sample_generation b64 k GenActive)"
  shows "issuer_step b64 w (w\<lparr>iw_issuer := Some (sample_generation b64 k GenReserved), iw_holders := iw_made w # iw_holders w\<rparr>)"
proof -
  have "reserve_join (iw_issuer w) 0 (Some (replicate 16 k)) =
      (Some (sample_generation b64 k GenReserved), Ok (replicate 16 k, replicate 32 0))"
    by (simp add: assms reserve_join_def generation_id_def issuer_reserve_def generation_live_def active_credential_def
        LIFETIME_def credential_from_body_def sample_generation_def)
  from step_attempt [OF this] show ?thesis by simp
qed

lemma sample_freed:
  assumes "iw_issuer w = Some (sample_generation b64 k GenReserved)" and "n \<in> set (iw_holders w)"
  shows "issuer_step b64 w (w\<lparr>iw_issuer := Some (sample_generation b64 k GenActive), iw_holders := remove1 n (iw_holders w)\<rparr>)"
  using step_release [OF assms(2), of b64] assms(1)
  by (simp add: reservation_release_def issuer_release_def sample_generation_def)

definition sample_world :: "base64_engine \<Rightarrow> byte \<Rightarrow> generation_state \<Rightarrow> nat \<Rightarrow> nat list \<Rightarrow> issuer_world" where
  "sample_world b64 k st n hs =
     \<lparr>iw_issuer = Some (sample_generation b64 k st), iw_made = n, iw_holders = hs, iw_consumed = []\<rparr>"

lemma sample_runs:
  "issuer_run b64 (sample_world b64 k GenActive 1 [])"
  "issuer_run b64 (sample_world b64 k GenActive n hs) \<Longrightarrow> issuer_run b64 (sample_world b64 k GenReserved n (n # hs))"
  "issuer_run b64 (sample_world b64 k st n hs) \<Longrightarrow> issuer_run b64 (sample_world b64 j GenActive (n + 1) hs)"
  "issuer_run b64 (sample_world b64 k GenReserved n hs) \<Longrightarrow> m \<in> set hs \<Longrightarrow>
   issuer_run b64 (sample_world b64 k GenActive n (remove1 m hs))"
proof -
  show "issuer_run b64 (sample_world b64 k GenActive 1 [])"
    using run_step [OF run_start sample_made [of b64 _ k]] by (simp add: sample_world_def)
  show "issuer_run b64 (sample_world b64 k GenReserved n (n # hs))" if "issuer_run b64 (sample_world b64 k GenActive n hs)"
    using run_step [OF that sample_held [of _ b64 k]] by (simp add: sample_world_def)
  show "issuer_run b64 (sample_world b64 j GenActive (n + 1) hs)" if "issuer_run b64 (sample_world b64 k st n hs)"
    using run_step [OF that sample_made [of b64 _ j]] by (simp add: sample_world_def)
  show "issuer_run b64 (sample_world b64 k GenActive n (remove1 m hs))"
    if "issuer_run b64 (sample_world b64 k GenReserved n hs)" "m \<in> set hs"
    using run_step [OF that(1) sample_freed [of _ b64 k m]] that(2) by (simp add: sample_world_def)
qed

lemma sample_consumed:
  "issuer_run b64 \<lparr>iw_issuer = Some ((sample_generation b64 k GenConsumed)\<lparr>ag_credential := None\<rparr>), iw_made = 1,
     iw_holders = [], iw_consumed = [1]\<rparr>"
proof -
  let ?w = "sample_world b64 k GenReserved 1 [1]"
  have "reservation_consume (iw_issuer ?w) =
      (Some ((sample_generation b64 k GenConsumed)\<lparr>ag_credential := None\<rparr>), Ok ())"
    by (simp add: sample_world_def sample_generation_def reservation_consume_def issuer_consume_def)
  from run_step [OF sample_runs(2) [OF sample_runs(1)] step_consume [OF _ this, of 1]]
  show ?thesis by (simp add: sample_world_def)
qed

section \<open>Properties\<close>

text \<open>C9: single use. Whatever the operator and the admission attempts do, in any order, each
  generation is consumed at most once; once the current one is consumed its secret is gone and
  no further attempt can reserve it. When no generation is made while an attempt is in progress,
  at most one attempt holds a reservation, it is for the current generation, and the generation
  is reserved exactly while it is held.\<close>

theorem generation_single_use:
  assumes "issuer_run b64 w"
  shows "distinct (iw_consumed w) \<and>
    (iw_made w \<in> set (iw_consumed w) \<longrightarrow>
       (\<forall>now. \<not> is_ok (active_credential (iw_issuer w) now) \<and> \<not> is_ok (snd (issuer_reserve (iw_issuer w) now)))) \<and>
    (quiet_run b64 w \<longrightarrow> iw_holders w = [] \<or>
       iw_holders w = [iw_made w] \<and> (\<exists>g. iw_issuer w = Some g \<and> ag_state g = GenReserved))"
proof -
  note inv = run_world_inv [OF assms, unfolded world_inv_def]
  have "\<not> is_ok (active_credential (iw_issuer w) now) \<and> \<not> is_ok (snd (issuer_reserve (iw_issuer w) now))"
    if "iw_made w \<in> set (iw_consumed w)" for now
    using inv that
    by (auto simp: generation_ok_def active_credential_def issuer_reserve_def generation_live_def split: option.splits)
  then show ?thesis using inv quiet_one_holder [of b64 w] by (auto simp: one_holder_def split: if_splits)
qed

theorem generation_single_use_witness:
  "\<forall>b64 now. \<not> is_ok (active_credential (Some ((sample_generation b64 7 GenConsumed)\<lparr>ag_credential := None\<rparr>)) now)"
proof (intro allI)
  show "\<not> is_ok (active_credential (Some ((sample_generation b64 7 GenConsumed)\<lparr>ag_credential := None\<rparr>)) now)" for b64 now
    using generation_single_use [OF sample_consumed [of b64 7]] by simp
qed

text \<open>C33: a reservation is not bound to its generation. After a rotation during an attempt, the
  attempt's release frees the successor another attempt has reserved, so two attempts hold one
  generation at the same time.\<close>

theorem stale_release_frees_successor:
  "\<exists>w. issuer_run b64 w \<and> iw_holders w = [2, 2]"
proof -
  have "issuer_run b64 (sample_world b64 2 GenReserved 2 [2, 1])"
    using sample_runs(2) [OF sample_runs(3) [OF sample_runs(2) [OF sample_runs(1) [of b64 1]], of 2]]
    by (simp add: numeral_2_eq_2)
  from sample_runs(4) [OF this, of 1] have "issuer_run b64 (sample_world b64 2 GenActive 2 [2])" by simp
  from sample_runs(2) [OF this] show ?thesis by (auto simp: sample_world_def)
qed

end
