(* ===== verification/Route_Trace.thy ===== *)
theory Route_Trace
  imports Receipts Identifiers
begin

text \<open>
  Durable route-trace metadata (\<^verbatim>\<open>src/src/routing/trace.rs\<close>) and the wall-clock conversions it
  uses (\<^verbatim>\<open>src/src/time.rs\<close>): the record and its closed failure codes, the conditional put, the
  termination of records a previous incarnation left active, and the retention sweep, both in
  transactions of bounded size. The CBOR codec, the host grammar and SHA-256 are arguments;
  times are nanoseconds since the epoch, and \<open>tids\<close> supplies the transaction ids.
\<close>

section \<open>Wall-clock conversions\<close>

definition to_seconds :: "int \<Rightarrow> u64" where
  "to_seconds t = (if 0 \<le> t then word_of_int (t div 10 ^ 9) else 0)"

definition to_millis :: "int \<Rightarrow> u64" where
  "to_millis t = (if 0 \<le> t then word_of_int (t div 10 ^ 6) else 0)"

definition from_millis :: "u64 \<Rightarrow> int" where
  "from_millis millis = uint millis * 10 ^ 6"

definition from_seconds :: "u64 \<Rightarrow> int" where
  "from_seconds seconds = uint seconds * 10 ^ 9"

section \<open>Records\<close>

definition TRACE_SCHEMA :: ustr where "TRACE_SCHEMA = lit ''radiata.woooo.tech/schemas/route-trace-v1''"
definition TRACE_NAMESPACE :: ustr where "TRACE_NAMESPACE = lit ''radiata.woooo.tech/metadata/route-trace-v1''"
definition MAX_BATCH_OPERATIONS :: nat where "MAX_BATCH_OPERATIONS = 64"
definition NO_FAILURE :: byte where "NO_FAILURE = 0"

datatype trace_phase = Routing | Streaming | Delivered | FailedPhase error_kind

fun phase_code :: "trace_phase \<Rightarrow> byte" where
  "phase_code Routing = 0"
| "phase_code Streaming = 1"
| "phase_code Delivered = 2"
| "phase_code (FailedPhase k) = 3"

fun kind_code :: "error_kind \<Rightarrow> byte option" where
  "kind_code InvalidInput = Some 1"
| "kind_code Conflict = Some 2"
| "kind_code NotFound = Some 3"
| "kind_code NotReady = Some 4"
| "kind_code NotTrusted = Some 5"
| "kind_code Revoked = Some 6"
| "kind_code Unsupported = Some 7"
| "kind_code UnsupportedSchema = Some 8"
| "kind_code UnsupportedCapability = Some 9"
| "kind_code AuthenticationFailed = Some 10"
| "kind_code RouteUnavailable = Some 11"
| "kind_code StreamInterrupted = Some 12"
| "kind_code Overloaded = Some 13"
| "kind_code ResourceExhausted = Some 14"
| "kind_code StorageLocked = Some 15"
| "kind_code StorageCorrupt = Some 16"
| "kind_code PermissionDenied = Some 17"
| "kind_code Io = Some 18"
| "kind_code CommitUnknown = Some 19"
| "kind_code Cancelled = Some 20"
| "kind_code ShuttingDown = Some 21"
| "kind_code Internal = Some 22"

definition kind_from_code :: "byte \<Rightarrow> error_kind result" where
  "kind_from_code code =
     (if code = 1 then Ok InvalidInput else if code = 2 then Ok Conflict else if code = 3 then Ok NotFound
      else if code = 4 then Ok NotReady else if code = 5 then Ok NotTrusted else if code = 6 then Ok Revoked
      else if code = 7 then Ok Unsupported else if code = 8 then Ok UnsupportedSchema
      else if code = 9 then Ok UnsupportedCapability else if code = 10 then Ok AuthenticationFailed
      else if code = 11 then Ok RouteUnavailable else if code = 12 then Ok StreamInterrupted
      else if code = 13 then Ok Overloaded else if code = 14 then Ok ResourceExhausted
      else if code = 15 then Ok StorageLocked else if code = 16 then Ok StorageCorrupt
      else if code = 17 then Ok PermissionDenied else if code = 18 then Ok Io else if code = 19 then Ok CommitUnknown
      else if code = 20 then Ok Cancelled else if code = 21 then Ok ShuttingDown else if code = 22 then Ok Internal
      else Err (invalid_input ''route trace failure code''))"

definition phase_from_code :: "byte \<Rightarrow> byte option \<Rightarrow> trace_phase result" where
  "phase_from_code code failure =
     (case failure of
        None \<Rightarrow>
          if code = 0 then Ok Routing else if code = 1 then Ok Streaming else if code = 2 then Ok Delivered
          else Err (invalid_input ''route trace phase'')
      | Some f \<Rightarrow>
          if code = 3 \<and> f \<noteq> NO_FAILURE then and_then (kind_from_code f) (\<lambda>k. Ok (FailedPhase k))
          else Err (invalid_input ''route trace phase''))"

fun is_terminal :: "trace_phase \<Rightarrow> bool" where
  "is_terminal Delivered = True"
| "is_terminal (FailedPhase k) = True"
| "is_terminal _ = False"

record trace_record =
  tr_trace_id :: ustr
  tr_source :: ustr
  tr_destination :: ustr
  tr_attempts :: u32
  tr_phase :: trace_phase
  tr_updated_at :: int

definition trace_new :: "ustr \<Rightarrow> ustr \<Rightarrow> ustr \<Rightarrow> int \<Rightarrow> trace_record" where
  "trace_new trace_id source destination updated_at =
     \<lparr>tr_trace_id = trace_id, tr_source = source, tr_destination = destination, tr_attempts = 1, tr_phase = Routing,
      tr_updated_at = updated_at\<rparr>"

definition trace_failed :: "trace_record \<Rightarrow> error_kind \<Rightarrow> trace_record" where
  "trace_failed r kind = r\<lparr>tr_phase := FailedPhase kind\<rparr>"

datatype trace_transition = ToStreaming | ToDelivered | ToFailed error_kind

definition with_transition :: "trace_record \<Rightarrow> trace_transition \<Rightarrow> int \<Rightarrow> trace_record" where
  "with_transition r transition at =
     r\<lparr>tr_updated_at := at,
       tr_phase := (case transition of ToStreaming \<Rightarrow> Streaming | ToDelivered \<Rightarrow> Delivered | ToFailed kind \<Rightarrow> FailedPhase kind)\<rparr>"

record trace_wire =
  tw_schema :: ustr
  tw_record_version :: u16
  tw_trace_id :: ustr
  tw_source :: ustr
  tw_destination :: ustr
  tw_attempts :: u32
  tw_phase :: byte
  tw_failure :: "byte option"
  tw_updated_at_millis :: u64

record trace_codec =
  tc_dns :: "ustr \<Rightarrow> bool"
  tc_sha :: "byte list \<Rightarrow> digest"
  tc_encode :: "trace_wire \<Rightarrow> byte list result"
  tc_decode :: "byte list \<Rightarrow> trace_wire result"

definition trace_encode :: "trace_codec \<Rightarrow> trace_record \<Rightarrow> byte list result" where
  "trace_encode c r =
     and_then
       (case tr_phase r of
          FailedPhase kind \<Rightarrow> and_then (ok_or (kind_code kind) (invalid_input ''route trace failure'')) (\<lambda>f. Ok (3, f))
        | phase \<Rightarrow> Ok (phase_code phase, NO_FAILURE))
       (\<lambda>(code, failure).
         tc_encode c \<lparr>tw_schema = TRACE_SCHEMA, tw_record_version = 1, tw_trace_id = tr_trace_id r, tw_source = tr_source r,
           tw_destination = tr_destination r, tw_attempts = tr_attempts r, tw_phase = code,
           tw_failure = (if failure = NO_FAILURE then None else Some failure), tw_updated_at_millis = to_millis (tr_updated_at r)\<rparr>)"

definition decode_trace_record :: "trace_codec \<Rightarrow> byte list \<Rightarrow> trace_record result" where
  "decode_trace_record c bytes =
     and_then (tc_decode c bytes) (\<lambda>w.
       if tw_schema w \<noteq> TRACE_SCHEMA \<or> tw_record_version w \<noteq> 1 then Err (invalid_input ''route trace schema'')
       else
         and_then (id_parse TraceId (tw_trace_id w)) (\<lambda>trace_id.
         and_then (id_parse NodeId (tw_source w)) (\<lambda>source.
         and_then (id_parse NodeId (tw_destination w)) (\<lambda>destination.
         and_then (phase_from_code (tw_phase w) (tw_failure w)) (\<lambda>phase.
           Ok \<lparr>tr_trace_id = trace_id, tr_source = source, tr_destination = destination, tr_attempts = tw_attempts w,
               tr_phase = phase, tr_updated_at = from_millis (tw_updated_at_millis w)\<rparr>)))))"

section \<open>The store\<close>

definition trace_namespace :: "trace_codec \<Rightarrow> store_namespace result" where
  "trace_namespace c = tag_parse (tc_dns c) TRACE_NAMESPACE"

definition trace_key :: "ustr \<Rightarrow> store_key" where
  "trace_key trace_id = as_bytes trace_id"

definition put_trace ::
  "trace_codec \<Rightarrow> 's storage \<Rightarrow> 's \<Rightarrow> 's \<times> commit_state \<Rightarrow> transaction_id result \<Rightarrow> int \<Rightarrow> trace_record \<Rightarrow>
   ('s \<times> commit_state) \<times> unit result" where
  "put_trace c so snap sys tid now r0 =
     (let r = r0\<lparr>tr_updated_at := now\<rparr>
      in case and_then (trace_encode c r) (\<lambda>encoded.
            and_then (trace_namespace c) (\<lambda>ns.
            and_then (snapshot_expectation (so_get so snap ns (trace_key (tr_trace_id r)))) (\<lambda>expected.
            and_then tid (\<lambda>t.
            and_then (so_revision so snap) (\<lambda>revision.
              prepare_transaction (tc_sha c) (tc_dns c) t revision
                [Put ns (trace_key (tr_trace_id r)) expected (store_value_new (tc_sha c) encoded)]))))) of
           Inl e \<Rightarrow> (sys, Err e)
         | Inr tx \<Rightarrow>
             (case store_commit (so_commit so) sys tx of
                (sys', Inl e) \<Rightarrow> (sys', Err e)
              | (sys', Inr (Committed _)) \<Rightarrow> (sys', Ok ())
              | (sys', Inr (UnknownOutcome _ _)) \<Rightarrow> (sys', Err (provider_error P_CommitUnknown StorageReconcile))
              | (sys', Inr _) \<Rightarrow> (sys', Err (conflict ''route trace''))))"

text \<open>\<open>TraceSink::record\<close>: the counter of live records moves only when the put succeeded. The
  semaphore around it only delays the call.\<close>

definition sink_record ::
  "trace_codec \<Rightarrow> 's storage \<Rightarrow> 's \<Rightarrow> ('s \<times> commit_state) \<times> u64 \<Rightarrow> transaction_id result \<Rightarrow> int \<Rightarrow> trace_record \<Rightarrow>
   ('s \<times> commit_state) \<times> u64" where
  "sink_record c so snap sink tid now r =
     (case put_trace c so snap (fst sink) tid now r of
        (sys', Inl e) \<Rightarrow> (sys', snd sink)
      | (sys', Inr _) \<Rightarrow> (sys', snd sink + 1))"

definition commit_batch ::
  "trace_codec \<Rightarrow> 's storage \<Rightarrow> 's \<times> commit_state \<Rightarrow> transaction_id result \<Rightarrow> store_operation list \<Rightarrow>
   ('s \<times> commit_state) \<times> nat result" where
  "commit_batch c so sys tid ops =
     (case and_then (so_revision so (fst sys)) (\<lambda>revision.
          and_then tid (\<lambda>t. prepare_transaction (tc_sha c) (tc_dns c) t revision ops)) of
        Inl e \<Rightarrow> (sys, Err e)
      | Inr tx \<Rightarrow>
          (case store_commit (so_commit so) sys tx of
             (sys', Inl e) \<Rightarrow> (sys', Err e)
           | (sys', Inr (Committed _)) \<Rightarrow> (sys', Ok (length ops))
           | (sys', Inr Aborted) \<Rightarrow> (sys', Ok (length ops))
           | (sys', Inr ConflictOutcome) \<Rightarrow> (sys', Ok 0)
           | (sys', Inr (UnknownOutcome _ _)) \<Rightarrow> (sys', Err (provider_error P_CommitUnknown StorageReconcile))))"

text \<open>\<open>chunks\<close> of the standard library.\<close>

fun chunks :: "nat \<Rightarrow> 'a list \<Rightarrow> 'a list list" where
  "chunks n xs = (if n = 0 \<or> xs = [] then [] else take n xs # chunks n (drop n xs))"

declare chunks.simps [simp del]

primrec apply_batches ::
  "trace_codec \<Rightarrow> 's storage \<Rightarrow> (nat \<Rightarrow> transaction_id result) \<Rightarrow> store_operation list list \<Rightarrow> nat \<Rightarrow> 's \<times> commit_state \<Rightarrow> nat \<Rightarrow>
   ('s \<times> commit_state) \<times> nat result" where
  "apply_batches c so tids [] i sys applied = (sys, Ok applied)"
| "apply_batches c so tids (batch # batches) i sys applied =
     (case commit_batch c so sys (tids i) batch of
        (sys', Inl e) \<Rightarrow> (sys', Err e)
      | (sys', Inr n) \<Rightarrow> apply_batches c so tids batches (i + 1) sys' (applied + n))"

definition apply_batched ::
  "trace_codec \<Rightarrow> 's storage \<Rightarrow> (nat \<Rightarrow> transaction_id result) \<Rightarrow> 's \<times> commit_state \<Rightarrow> store_operation list \<Rightarrow>
   ('s \<times> commit_state) \<times> nat result" where
  "apply_batched c so tids sys ops = apply_batches c so tids (chunks MAX_BATCH_OPERATIONS ops) 0 sys 0"

text \<open>The decodable records of a scan; a record that does not decode is skipped.\<close>

definition decoded_entries :: "trace_codec \<Rightarrow> (store_key \<times> store_value) list \<Rightarrow> (store_key \<times> digest \<times> trace_record) list" where
  "decoded_entries c scan =
     List.map_filter (\<lambda>(key, v). case decode_trace_record c (sv_value v) of
        Inl _ \<Rightarrow> None | Inr r \<Rightarrow> Some (key, sv_digest v, r)) scan"

definition terminate_operation ::
  "trace_codec \<Rightarrow> store_namespace \<Rightarrow> int \<Rightarrow> store_key \<times> digest \<times> trace_record \<Rightarrow> store_operation result" where
  "terminate_operation c ns now e =
     (case e of (key, d, r) \<Rightarrow>
        and_then (trace_encode c (trace_failed (r\<lparr>tr_updated_at := now\<rparr>) StreamInterrupted)) (\<lambda>value.
          Ok (Put ns key (Exact d) (store_value_new (tc_sha c) value))))"

definition terminate_stale ::
  "trace_codec \<Rightarrow> 's storage \<Rightarrow> (nat \<Rightarrow> transaction_id result) \<Rightarrow> 's \<Rightarrow> 's \<times> commit_state \<Rightarrow> int \<Rightarrow> ('s \<times> commit_state) \<times> nat result" where
  "terminate_stale c so tids snap sys now =
     (case and_then (trace_namespace c) (\<lambda>ns.
          map_result (terminate_operation c ns now)
            (filter (\<lambda>(key, d, r). \<not> is_terminal (tr_phase r)) (decoded_entries c (so_scan so snap ns [])))) of
        Inl e \<Rightarrow> (sys, Err e)
      | Inr ops \<Rightarrow> apply_batched c so tids sys ops)"

definition trace_expired :: "int \<Rightarrow> int \<Rightarrow> trace_record \<Rightarrow> bool" where
  "trace_expired now retention r \<longleftrightarrow> tr_updated_at r \<le> now \<and> retention \<le> now - tr_updated_at r"

definition sweep_removals ::
  "trace_codec \<Rightarrow> int \<Rightarrow> int \<Rightarrow> nat \<Rightarrow> (store_key \<times> store_value) list \<Rightarrow> (store_key \<times> digest) list" where
  "sweep_removals c now retention terminal_cap scan =
     (let terminals = filter (\<lambda>(key, d, r). is_terminal (tr_phase r)) (decoded_entries c scan);
          expired = filter (\<lambda>(key, d, r). trace_expired now retention r) terminals;
          fresh = filter (\<lambda>(key, d, r). \<not> trace_expired now retention r) terminals;
          overflow = length expired + length fresh - terminal_cap
      in map (\<lambda>(key, d, r). (key, d)) (expired @ take overflow (sort_key (\<lambda>(key, d, r). tr_updated_at r) fresh)))"

definition trace_sweep ::
  "trace_codec \<Rightarrow> 's storage \<Rightarrow> (nat \<Rightarrow> transaction_id result) \<Rightarrow> 's \<Rightarrow> 's \<times> commit_state \<Rightarrow> int \<Rightarrow> nat \<Rightarrow> int \<Rightarrow>
   ('s \<times> commit_state) \<times> nat result" where
  "trace_sweep c so tids snap sys now terminal_cap retention =
     (case trace_namespace c of
        Inl e \<Rightarrow> (sys, Err e)
      | Inr ns \<Rightarrow>
          (let removals = sweep_removals c now retention terminal_cap (so_scan so snap ns [])
           in case apply_batched c so tids sys (map (\<lambda>(key, d). Delete ns key d) removals) of
                (sys', Inl e) \<Rightarrow> (sys', Err e)
              | (sys', Inr _) \<Rightarrow> (sys', Ok (length removals))))"

section \<open>The record codec\<close>

lemma kind_code_roundtrip: "\<exists>code. kind_code k = Some code \<and> code \<noteq> NO_FAILURE \<and> kind_from_code code = Ok k"
  by (cases k) (simp_all add: kind_from_code_def NO_FAILURE_def)

text \<open>What the records rely on in the codec: the strict decoder inverts the encoder.\<close>

definition trace_codec_ok :: "trace_codec \<Rightarrow> bool" where
  "trace_codec_ok c \<longleftrightarrow> (\<forall>w bytes. tc_encode c w = Ok bytes \<longrightarrow> tc_decode c bytes = Ok w)"

definition trace_ids_ok :: "trace_record \<Rightarrow> bool" where
  "trace_ids_ok r \<longleftrightarrow> id_parse TraceId (tr_trace_id r) = Ok (tr_trace_id r) \<and>
     id_parse NodeId (tr_source r) = Ok (tr_source r) \<and> id_parse NodeId (tr_destination r) = Ok (tr_destination r)"

lemma trace_decode_encode:
  assumes "trace_codec_ok c" "trace_encode c r = Ok bytes" "trace_ids_ok r"
  shows "decode_trace_record c bytes = Ok (r\<lparr>tr_updated_at := from_millis (to_millis (tr_updated_at r))\<rparr>)"
proof -
  from assms(1) have dec: "tc_encode c w = Ok b \<Longrightarrow> tc_decode c b = Ok w" for w b by (simp add: trace_codec_ok_def)
  show ?thesis
  proof (cases "tr_phase r")
    case (FailedPhase k)
    obtain f where f: "kind_code k = Some f" "f \<noteq> NO_FAILURE" "kind_from_code f = Ok k" using kind_code_roundtrip by blast
    with FailedPhase assms(2) have "tc_decode c bytes = Ok \<lparr>tw_schema = TRACE_SCHEMA, tw_record_version = 1,
        tw_trace_id = tr_trace_id r, tw_source = tr_source r, tw_destination = tr_destination r, tw_attempts = tr_attempts r,
        tw_phase = 3, tw_failure = Some f, tw_updated_at_millis = to_millis (tr_updated_at r)\<rparr>"
      by (intro dec) (simp add: trace_encode_def)
    with f FailedPhase assms(3) show ?thesis
      by (simp add: decode_trace_record_def trace_ids_ok_def phase_from_code_def)
  qed (use assms(2,3) in \<open>auto simp: trace_encode_def decode_trace_record_def trace_ids_ok_def phase_from_code_def NO_FAILURE_def dest!: dec\<close>)
qed

lemma trace_ids_decoded: "decode_trace_record c bytes = Ok r \<Longrightarrow> trace_ids_ok r"
  by (auto simp: decode_trace_record_def trace_ids_ok_def id_parse_def and_then_Ok_iff split: if_split_asm)

section \<open>Batches over a fault-free store\<close>

definition trace_ns :: store_namespace where
  "trace_ns = builtin_tag ''metadata'' ''route-trace-v1''"

lemma chunks_concat: "0 < n \<Longrightarrow> concat (chunks n xs) = xs \<and> length (chunks n xs) \<le> length xs"
proof (induction n xs rule: chunks.induct)
  case (1 n xs)
  show ?case
  proof (cases "xs = []")
    case False
    with 1 have "concat (chunks n (drop n xs)) = drop n xs" "length (chunks n (drop n xs)) \<le> length (drop n xs)" by simp_all
    moreover have "length (drop n xs) < length xs" using False 1(2) by simp
    moreover have "chunks n xs = take n xs # chunks n (drop n xs)" using False 1(2) by (simp add: chunks.simps [of n xs])
    ultimately show ?thesis by simp
  qed (simp add: chunks.simps)
qed

lemma fold_agree_outside:
  "(\<And>key. as_entries st (ns, key) = as_entries st' (ns, key)) \<Longrightarrow>
   as_entries (fold abs_apply ops st) (ns, key) = as_entries (fold abs_apply ops st') (ns, key)"
proof (induction ops arbitrary: st st')
  case (Cons op ops)
  have "as_entries (abs_apply op st) (ns, k) = as_entries (abs_apply op st') (ns, k)" for k
    using Cons.prems by (cases op) simp_all
  from Cons.IH [OF this] show ?case by simp
qed simp

lemma condition_kept:
  assumes "abs_condition sha st op" "\<not> operation_uses_reserved_namespace op"
    and "\<And>ns key. operation_identity_of op = KeyId ns key \<Longrightarrow> as_entries st' (ns, key) = as_entries st (ns, key)"
  shows "abs_condition sha st' op"
  using assms by (cases op) simp_all

lemma batch_lands:
  assumes "redb_inv s" "tc_dns c BUILTIN_DOMAIN" "\<And>bytes. length (tc_sha c bytes) = 32" "fresh_supply (redb_abs s) tids i"
    and "list_all (operation_ok (tc_sha c)) ops" "\<not> list_ex operation_uses_reserved_namespace ops"
    and "distinct (map operation_identity_of ops)" "list_all (abs_condition (tc_sha c) (redb_abs s)) ops"
    and "as_generation (redb_abs s) \<noteq> - 1"
  obtains s' where "commit_batch c (redb_storage (tc_sha c) no_faults) (s, Ready) (tids i) ops = ((s', Ready), Ok (length ops))"
    "redb_inv s'" "as_generation (redb_abs s') = as_generation (redb_abs s) + 1" "fresh_supply (redb_abs s') tids (i + 1)"
    "\<And>ns key. ns \<noteq> internal_ns \<Longrightarrow> as_entries (redb_abs s') (ns, key) = as_entries (fold abs_apply ops (redb_abs s)) (ns, key)"
proof -
  obtain t tx receipt s' where l: "tids i = Ok t" "prepare_transaction (tc_sha c) (tc_dns c) t (to_be_bytes_u64 (as_generation (redb_abs s))) ops = Ok tx"
    "store_commit (so_commit (redb_storage (tc_sha c) no_faults)) (s, Ready) tx = ((s', Ready), Ok (Committed receipt))"
    "redb_inv s'" "as_generation (redb_abs s') = as_generation (redb_abs s) + 1" "fresh_supply (redb_abs s') tids (i + 1)"
    "\<And>ns key. ns \<noteq> internal_ns \<Longrightarrow> as_entries (redb_abs s') (ns, key) = as_entries (fold abs_apply ops (redb_abs s)) (ns, key)"
    by (rule supplied_batch_lands [where dns = "tc_dns c" and sha = "tc_sha c" and s = s and tids = tids and i = i and ops = ops]) (use assms in simp_all)
  have "commit_batch c (redb_storage (tc_sha c) no_faults) (s, Ready) (tids i) ops = ((s', Ready), Ok (length ops))"
    unfolding commit_batch_def fst_conv rs.revision_refines [OF assms(1)] and_then_simps l(1,2) sum.case l(3) by simp
  from that [OF this l(4-7)] show ?thesis .
qed

lemma batches_land:
  assumes "redb_inv s" "tc_dns c BUILTIN_DOMAIN" "\<And>bytes. length (tc_sha c bytes) = 32" "fresh_supply (redb_abs s) tids i"
    and "list_all (operation_ok (tc_sha c)) (concat batches)" "\<not> list_ex operation_uses_reserved_namespace (concat batches)"
    and "distinct (map operation_identity_of (concat batches))" "list_all (abs_condition (tc_sha c) (redb_abs s)) (concat batches)"
    and "unat (as_generation (redb_abs s)) + length batches < 2 ^ 64"
  shows "\<exists>s'. apply_batches c (redb_storage (tc_sha c) no_faults) tids batches i (s, Ready) n =
      ((s', Ready), Ok (n + length (concat batches))) \<and> redb_inv s' \<and>
    (\<forall>ns key. ns \<noteq> internal_ns \<longrightarrow> as_entries (redb_abs s') (ns, key) = as_entries (fold abs_apply (concat batches) (redb_abs s)) (ns, key))"
  using assms(1,4-9)
proof (induction batches arbitrary: s i n)
  case (Cons b batches)
  let ?sha = "tc_sha c" and ?rest = "concat batches"
  have g: "as_generation (redb_abs s) \<noteq> - 1" using Cons.prems(7) unat_minus_one_word [where ?'a = 64] by auto
  obtain s1 where s1: "commit_batch c (redb_storage ?sha no_faults) (s, Ready) (tids i) b = ((s1, Ready), Ok (length b))"
    "redb_inv s1" "as_generation (redb_abs s1) = as_generation (redb_abs s) + 1" "fresh_supply (redb_abs s1) tids (i + 1)"
    "\<And>ns key. ns \<noteq> internal_ns \<Longrightarrow> as_entries (redb_abs s1) (ns, key) = as_entries (fold abs_apply b (redb_abs s)) (ns, key)"
    by (rule batch_lands [where c = c and tids = tids and i = i and ops = b, OF Cons.prems(1) assms(2,3) Cons.prems(2)])
      (use Cons.prems(3-6) g in \<open>simp_all add: list_ex_iff\<close>)
  have gen: "unat (as_generation (redb_abs s1)) + length batches < 2 ^ 64"
    using Cons.prems(7) unat_add_one [OF g] by (simp add: s1(3))
  have cond: "list_all (abs_condition ?sha (redb_abs s1)) ?rest"
    unfolding list_all_iff
  proof
    fix op assume op: "op \<in> set ?rest"
    have nr: "\<not> operation_uses_reserved_namespace op" using Cons.prems(4) op by (auto simp: list_ex_iff)
    have old: "abs_condition ?sha (redb_abs s) op" using Cons.prems(6) op by (auto simp: list_all_iff)
    show "abs_condition ?sha (redb_abs s1) op"
    proof (rule condition_kept [OF old nr])
      fix ns key assume k: "operation_identity_of op = KeyId ns key"
      have ni: "ns \<noteq> internal_ns" using nr k internal_ns_value by (cases op) auto
      have "KeyId ns key \<notin> set (map operation_identity_of b)" using Cons.prems(5) op k by (force simp: image_iff)
      with ni s1(5) show "as_entries (redb_abs s1) (ns, key) = as_entries (redb_abs s) (ns, key)"
        by (simp add: abs_apply_untouched)
    qed
  qed
  have "\<not> list_ex operation_uses_reserved_namespace ?rest" "list_all (operation_ok ?sha) ?rest" "distinct (map operation_identity_of ?rest)"
    using Cons.prems(3-5) by (auto simp: list_ex_iff list_all_iff)
  from Cons.IH [OF s1(2,4) this(2,1,3) cond gen, of "n + length b"] obtain s' where
    s': "apply_batches c (redb_storage ?sha no_faults) tids batches (i + 1) (s1, Ready) (n + length b) =
      ((s', Ready), Ok (n + length b + length ?rest))" "redb_inv s'"
    "\<And>ns key. ns \<noteq> internal_ns \<Longrightarrow> as_entries (redb_abs s') (ns, key) = as_entries (fold abs_apply ?rest (redb_abs s1)) (ns, key)" by blast
  have "as_entries (redb_abs s') (ns, key) = as_entries (fold abs_apply (concat (b # batches)) (redb_abs s)) (ns, key)"
    if "ns \<noteq> internal_ns" for ns key
    using s'(3) [OF that] fold_agree_outside [of "redb_abs s1" ns "fold abs_apply b (redb_abs s)" ?rest key] s1(5) [OF that] by simp
  with s' s1(1) show ?case by (intro exI [of _ s']) (simp add: add.assoc)
qed simp

section \<open>Passes over the trace namespace\<close>

definition trace_at :: "trace_codec \<Rightarrow> abs_store \<Rightarrow> store_key \<Rightarrow> trace_record option" where
  "trace_at c st key =
     (case as_entries st (trace_ns, key) of
        None \<Rightarrow> None
      | Some bytes \<Rightarrow> (case decode_trace_record c bytes of Inr r \<Rightarrow> Some r | Inl _ \<Rightarrow> None))"

abbreviation trace_scan :: "trace_codec \<Rightarrow> redb_database \<Rightarrow> (store_key \<times> store_value) list" where
  "trace_scan c s \<equiv> so_scan (redb_storage (tc_sha c) no_faults) s trace_ns []"

lemma trace_namespace_Ok: "tc_dns c BUILTIN_DOMAIN \<Longrightarrow> trace_namespace c = Ok trace_ns"
  using builtin_text_parse [of "tc_dns c" "''metadata''" "''route-trace-v1''"]
  by (simp add: trace_ns_def trace_namespace_def TRACE_NAMESPACE_def name_component_defs CATEGORY_CRYPTO_def)

lemma trace_ns_ok: "namespace_ok trace_ns" "trace_ns \<noteq> internal_ns" "tag_value trace_ns \<noteq> INTERNAL_NAMESPACE"
  unfolding trace_ns_def
  by (rule namespace_ok_make_tag) (simp_all add: BUILTIN_DOMAIN_def LENGTH_BOUND_def make_tag_def internal_ns_def INTERNAL_NAMESPACE_def)

lemma decoded_entries_iff:
  "(key, d, r) \<in> set (decoded_entries c scan) \<longleftrightarrow> (\<exists>v. (key, v) \<in> set scan \<and> decode_trace_record c (sv_value v) = Ok r \<and> d = sv_digest v)"
  by (force simp: decoded_entries_def map_filter_def split: sum.splits)

lemma decoded_entries_keys: "distinct (map fst scan) \<Longrightarrow> distinct (map fst (decoded_entries c scan))"
proof -
  assume d: "distinct (map fst scan)"
  have "map fst (decoded_entries c scan) = map fst (filter (\<lambda>(key, v). is_ok (decode_trace_record c (sv_value v))) scan)"
    by (induction scan) (auto simp: decoded_entries_def List.map_filter_simps split: sum.splits)
  with d show ?thesis by (simp add: distinct_map_filter)
qed

lemma trace_scan_facts:
  assumes "redb_inv s"
  shows "(key, d, r) \<in> set (decoded_entries c (trace_scan c s)) \<longleftrightarrow>
      (\<exists>b. as_entries (redb_abs s) (trace_ns, key) = Some b \<and> decode_trace_record c b = Ok r \<and> d = digest_store_value (tc_sha c) b)"
    and "distinct (map fst (decoded_entries c (trace_scan c s)))"
proof -
  note sc = rs.scan_refines [OF assms trace_ns_ok(1), of "tc_sha c" no_faults "[]"]
  show "(key, d, r) \<in> set (decoded_entries c (trace_scan c s)) \<longleftrightarrow>
      (\<exists>b. as_entries (redb_abs s) (trace_ns, key) = Some b \<and> decode_trace_record c b = Ok r \<and> d = digest_store_value (tc_sha c) b)"
    unfolding decoded_entries_iff sc [THEN conjunct1] by auto
  show "distinct (map fst (decoded_entries c (trace_scan c s)))"
    using sc by (intro decoded_entries_keys) (simp add: strict_sorted_imp_distinct)
qed

lemma trace_at_decoded:
  assumes "redb_inv s"
  shows "trace_at c (redb_abs s) key = Some r \<longleftrightarrow> (\<exists>d. (key, d, r) \<in> set (decoded_entries c (trace_scan c s)))"
  unfolding trace_scan_facts(1) [OF assms] by (auto simp: trace_at_def split: option.split sum.split)

text \<open>One conditional operation per selected record, applied in batches.\<close>

lemma trace_ops_land:
  assumes "redb_inv s" "tc_dns c BUILTIN_DOMAIN" "\<And>bytes. length (tc_sha c bytes) = 32" "fresh_supply (redb_abs s) tids 0"
    and "unat (as_generation (redb_abs s)) + length L < 2 ^ 64"
    and "set L \<subseteq> set (decoded_entries c (trace_scan c s))" "distinct (map fst L)"
    and "\<And>key d r. (key, d, r) \<in> set L \<Longrightarrow> f (key, d, r) = Delete trace_ns key d \<or>
      (\<exists>b. f (key, d, r) = Put trace_ns key (Exact d) (store_value_new (tc_sha c) b))"
  shows "\<exists>s'. apply_batched c (redb_storage (tc_sha c) no_faults) tids (s, Ready) (map f L) = ((s', Ready), Ok (length L)) \<and> redb_inv s' \<and>
    (\<forall>e v. e \<in> set L \<longrightarrow> op_effect (f e) = Some (trace_ns, fst e, v) \<longrightarrow> as_entries (redb_abs s') (trace_ns, fst e) = v) \<and>
    (\<forall>ns key. ns \<noteq> internal_ns \<longrightarrow> ns \<noteq> trace_ns \<or> key \<notin> fst ` set L \<longrightarrow>
      as_entries (redb_abs s') (ns, key) = as_entries (redb_abs s) (ns, key))"
proof -
  let ?b = "chunks MAX_BATCH_OPERATIONS (map f L)"
  have ch: "concat ?b = map f L" "length ?b \<le> length L"
    using chunks_concat [of MAX_BATCH_OPERATIONS "map f L"] by (simp_all add: MAX_BATCH_OPERATIONS_def)
  have f: "operation_ok (tc_sha c) (f e) \<and> \<not> operation_uses_reserved_namespace (f e) \<and> operation_identity_of (f e) = KeyId trace_ns (fst e) \<and>
      abs_condition (tc_sha c) (redb_abs s) (f e)" if e: "e \<in> set L" for e
  proof -
    obtain key d r where k: "e = (key, d, r)" by (cases e)
    with e assms(6) have "(key, d, r) \<in> set (decoded_entries c (trace_scan c s))" by blast
    then obtain b where "as_entries (redb_abs s) (trace_ns, key) = Some b" "d = digest_store_value (tc_sha c) b"
      using trace_scan_facts(1) [OF assms(1)] by blast
    with assms(8) [of key d r] e k trace_ns_ok show ?thesis by auto
  qed
  have ids: "map operation_identity_of (map f L) = map (KeyId trace_ns) (map fst L)" using f by simp
  have dist: "distinct (map operation_identity_of (map f L))"
    unfolding ids distinct_map using assms(7) by (auto simp: inj_on_def distinct_map)
  have "\<exists>s'. apply_batches c (redb_storage (tc_sha c) no_faults) tids ?b 0 (s, Ready) 0 = ((s', Ready), Ok (0 + length (concat ?b))) \<and>
      redb_inv s' \<and> (\<forall>ns key. ns \<noteq> internal_ns \<longrightarrow>
        as_entries (redb_abs s') (ns, key) = as_entries (fold abs_apply (concat ?b) (redb_abs s)) (ns, key))"
    by (rule batches_land [OF assms(1-4)]) (use f dist ch assms(5) in \<open>auto simp: list_all_iff list_ex_iff\<close>)
  then obtain s' where s': "apply_batched c (redb_storage (tc_sha c) no_faults) tids (s, Ready) (map f L) = ((s', Ready), Ok (length L))"
    "redb_inv s'" "\<And>ns key. ns \<noteq> internal_ns \<Longrightarrow> as_entries (redb_abs s') (ns, key) = as_entries (fold abs_apply (map f L) (redb_abs s)) (ns, key)"
    unfolding ch by (auto simp: apply_batched_def)
  have "as_entries (redb_abs s') (trace_ns, fst e) = v" if "e \<in> set L" "op_effect (f e) = Some (trace_ns, fst e, v)" for e v
    using s'(3) [OF trace_ns_ok(2)] abs_apply_touched [OF dist _ that(2)] that(1) by simp
  moreover have "as_entries (redb_abs s') (ns, key) = as_entries (redb_abs s) (ns, key)"
    if "ns \<noteq> internal_ns" "ns \<noteq> trace_ns \<or> key \<notin> fst ` set L" for ns key
  proof -
    have "KeyId ns key \<notin> set (map operation_identity_of (map f L))" unfolding ids using that(2) by auto
    from abs_apply_untouched [OF this] s'(3) [OF that(1)] show ?thesis by simp
  qed
  ultimately show ?thesis using s'(1,2) by blast
qed

text \<open>The keys of the records that decode and satisfy a predicate.\<close>

definition trace_keys :: "trace_codec \<Rightarrow> abs_store \<Rightarrow> (trace_record \<Rightarrow> bool) \<Rightarrow> store_key set" where
  "trace_keys c st P = {key. \<exists>r. trace_at c st key = Some r \<and> P r}"

lemma trace_keys_decoded:
  assumes "redb_inv s"
  shows "trace_keys c (redb_abs s) P = fst ` set (filter (\<lambda>(key, d, r). P r) (decoded_entries c (trace_scan c s)))"
    and "card (trace_keys c (redb_abs s) P) = length (filter (\<lambda>(key, d, r). P r) (decoded_entries c (trace_scan c s)))"
proof -
  let ?L = "filter (\<lambda>(key, d, r). P r) (decoded_entries c (trace_scan c s))"
  show k: "trace_keys c (redb_abs s) P = fst ` set ?L"
    unfolding trace_keys_def trace_at_decoded [OF assms] by (force simp: image_iff)
  have "distinct (map fst ?L)" by (rule distinct_map_filter [OF trace_scan_facts(2) [OF assms]])
  from distinct_card [OF this] show "card (trace_keys c (redb_abs s) P) = length ?L" unfolding k by simp
qed

lemma trace_at_unchanged:
  "as_entries st' (trace_ns, key) = as_entries st (trace_ns, key) \<Longrightarrow> trace_at c st' key = trace_at c st key"
  by (simp add: trace_at_def)

abbreviation interrupted :: "int \<Rightarrow> trace_record \<Rightarrow> trace_record" where
  "interrupted at r \<equiv> trace_failed (r\<lparr>tr_updated_at := at\<rparr>) StreamInterrupted"

abbreviation active :: "trace_record \<Rightarrow> bool" where
  "active r \<equiv> \<not> is_terminal (tr_phase r)"

text \<open>In flight means routing or streaming.\<close>

definition in_flight :: "trace_record \<Rightarrow> bool" where
  "in_flight r \<longleftrightarrow> tr_phase r = Routing \<or> tr_phase r = Streaming"

lemma in_flight_active: "in_flight r \<longleftrightarrow> active r"
  by (cases "tr_phase r") (simp_all add: in_flight_def)

lemma terminate_lands:
  assumes "redb_inv s" "tc_dns c BUILTIN_DOMAIN" "\<And>bytes. length (tc_sha c bytes) = 32" "fresh_supply (redb_abs s) tids 0"
    and "unat (as_generation (redb_abs s)) + card (trace_keys c (redb_abs s) active) < 2 ^ 64"
    and "\<And>key r. trace_at c (redb_abs s) key = Some r \<Longrightarrow> active r \<Longrightarrow> trace_encode c (interrupted now r) = Ok (enc r)"
  shows "\<exists>s'. terminate_stale c (redb_storage (tc_sha c) no_faults) tids s (s, Ready) now =
      ((s', Ready), Ok (card (trace_keys c (redb_abs s) active))) \<and> redb_inv s' \<and>
    (\<forall>key r. trace_at c (redb_abs s) key = Some r \<longrightarrow> active r \<longrightarrow> as_entries (redb_abs s') (trace_ns, key) = Some (enc r)) \<and>
    (\<forall>ns key. ns \<noteq> internal_ns \<longrightarrow> ns \<noteq> trace_ns \<or> key \<notin> trace_keys c (redb_abs s) active \<longrightarrow>
      as_entries (redb_abs s') (ns, key) = as_entries (redb_abs s) (ns, key))"
proof -
  let ?D = "decoded_entries c (trace_scan c s)"
  let ?L = "filter (\<lambda>(key, d, r). active r) ?D"
  define f where "f = (\<lambda>(key, d, r). Put trace_ns key (Exact d) (store_value_new (tc_sha c) (enc r)))"
  have enc: "trace_encode c (interrupted now r) = Ok (enc r)" if "(key, d, r) \<in> set ?L" for key d r
    using that assms(6) [of key r] trace_at_decoded [OF assms(1)] by auto
  have ops: "map_result (terminate_operation c trace_ns now) ?L = Ok (map f ?L)"
    by (rule map_result_total) (use enc in \<open>auto simp: terminate_operation_def f_def\<close>)
  have n: "card (trace_keys c (redb_abs s) active) = length ?L" by (rule trace_keys_decoded(2) [OF assms(1)])
  have g: "unat (as_generation (redb_abs s)) + length ?L < 2 ^ 64" using assms(5) unfolding n .
  have d: "distinct (map fst ?L)" by (rule distinct_map_filter [OF trace_scan_facts(2) [OF assms(1)]])
  have sub: "set ?L \<subseteq> set ?D" by auto
  have shape: "f (key, d, r) = Delete trace_ns key d \<or> (\<exists>b. f (key, d, r) = Put trace_ns key (Exact d) (store_value_new (tc_sha c) b))"
    for key d r by (auto simp: f_def)
  obtain s' where s': "apply_batched c (redb_storage (tc_sha c) no_faults) tids (s, Ready) (map f ?L) = ((s', Ready), Ok (length ?L))"
    "redb_inv s'" "\<And>e v. e \<in> set ?L \<Longrightarrow> op_effect (f e) = Some (trace_ns, fst e, v) \<Longrightarrow> as_entries (redb_abs s') (trace_ns, fst e) = v"
    "\<And>ns key. ns \<noteq> internal_ns \<Longrightarrow> ns \<noteq> trace_ns \<or> key \<notin> fst ` set ?L \<Longrightarrow>
      as_entries (redb_abs s') (ns, key) = as_entries (redb_abs s) (ns, key)"
    using trace_ops_land [where f = f, OF assms(1-4) g sub d shape] by blast
  have t: "terminate_stale c (redb_storage (tc_sha c) no_faults) tids s (s, Ready) now = ((s', Ready), Ok (length ?L))"
    unfolding terminate_stale_def trace_namespace_Ok [OF assms(2)] and_then_simps ops sum.case by (rule s'(1))
  have "as_entries (redb_abs s') (trace_ns, key) = Some (enc r)" if r: "trace_at c (redb_abs s) key = Some r" "active r" for key r
  proof -
    obtain d where "(key, d, r) \<in> set ?L" using r trace_at_decoded [OF assms(1)] by auto
    from s'(3) [OF this] show ?thesis by (simp add: f_def)
  qed
  with t [folded n] s'(2) s'(4) [folded trace_keys_decoded(1) [OF assms(1)]] show ?thesis by (intro exI [of _ s']) blast
qed

text \<open>C20: a restart ends every in-flight route. Over a fault-free redb store the termination
  pass returns the number of records that were still active; each of them becomes a failure
  with \<open>StreamInterrupted\<close>, stamped with the host time at millisecond precision and otherwise
  unchanged, so that none is active afterwards, and every other entry outside the internal
  namespace keeps its bytes.\<close>

theorem restart_terminates_traces:
  assumes "redb_inv s" "tc_dns c BUILTIN_DOMAIN" "\<forall>bytes. length (tc_sha c bytes) = 32" "fresh_supply (redb_abs s) tids 0"
    and "unat (as_generation (redb_abs s)) + card (trace_keys c (redb_abs s) in_flight) < 2 ^ 64" "trace_codec_ok c"
    and "\<forall>key r. trace_at c (redb_abs s) key = Some r \<longrightarrow> is_ok (trace_encode c (interrupted now r))"
  shows "\<exists>s'. terminate_stale c (redb_storage (tc_sha c) no_faults) tids s (s, Ready) now =
      ((s', Ready), Ok (card (trace_keys c (redb_abs s) in_flight))) \<and> redb_inv s' \<and>
    (\<forall>key r. trace_at c (redb_abs s) key = Some r \<longrightarrow> in_flight r \<longrightarrow>
      trace_at c (redb_abs s') key = Some (interrupted (from_millis (to_millis now)) r)) \<and>
    trace_keys c (redb_abs s') in_flight = {} \<and>
    (\<forall>ns key. ns \<noteq> internal_ns \<longrightarrow> ns \<noteq> trace_ns \<or> key \<notin> trace_keys c (redb_abs s) in_flight \<longrightarrow>
      as_entries (redb_abs s') (ns, key) = as_entries (redb_abs s) (ns, key))"
proof -
  have fl: "in_flight = (\<lambda>r. active r)" by (simp add: fun_eq_iff in_flight_active)
  define enc where "enc = (\<lambda>r. case trace_encode c (interrupted now r) of Inr b \<Rightarrow> b | Inl _ \<Rightarrow> [])"
  have e: "trace_encode c (interrupted now r) = Ok (enc r)" if "trace_at c (redb_abs s) key = Some r" for key r
    using assms(7) that unfolding enc_def is_ok_iff by fastforce
  have sha: "length (tc_sha c bytes) = 32" for bytes using assms(3) by simp
  obtain s' where s': "terminate_stale c (redb_storage (tc_sha c) no_faults) tids s (s, Ready) now =
      ((s', Ready), Ok (card (trace_keys c (redb_abs s) active)))" "redb_inv s'"
    "\<And>key r. trace_at c (redb_abs s) key = Some r \<Longrightarrow> active r \<Longrightarrow> as_entries (redb_abs s') (trace_ns, key) = Some (enc r)"
    "\<And>ns key. ns \<noteq> internal_ns \<Longrightarrow> ns \<noteq> trace_ns \<or> key \<notin> trace_keys c (redb_abs s) active \<Longrightarrow>
      as_entries (redb_abs s') (ns, key) = as_entries (redb_abs s) (ns, key)"
    using terminate_lands [where c = c and enc = enc and now = now, OF assms(1,2) sha assms(4) assms(5) [unfolded fl]] e by blast
  have changed: "trace_at c (redb_abs s') key = Some (interrupted (from_millis (to_millis now)) r)"
    if r: "trace_at c (redb_abs s) key = Some r" "active r" for key r
  proof -
    have "trace_ids_ok (interrupted now r)"
      using r(1) trace_ids_decoded by (auto simp: trace_at_def trace_ids_ok_def trace_failed_def split: option.splits sum.splits)
    from trace_decode_encode [OF assms(6) e [OF r(1)] this] s'(3) [OF r] show ?thesis by (simp add: trace_at_def trace_failed_def)
  qed
  have "\<not> active r" if "trace_at c (redb_abs s') key = Some r" for key r
  proof (cases "key \<in> trace_keys c (redb_abs s) active")
    case True
    with changed that show ?thesis by (auto simp: trace_keys_def trace_failed_def)
  next
    case False
    with that trace_at_unchanged [OF s'(4) [OF trace_ns_ok(2)]] show ?thesis by (auto simp: trace_keys_def)
  qed
  then have "trace_keys c (redb_abs s') active = {}" by (auto simp: trace_keys_def)
  with s'(1,2,4) changed show ?thesis unfolding fl by blast
qed


section \<open>The retention sweep\<close>

lemma sorted_take_before:
  "x \<in> set (take n (sort_key k xs)) \<Longrightarrow> y \<in> set (drop n (sort_key k xs)) \<Longrightarrow> k x \<le> k y"
proof -
  assume xy: "x \<in> set (take n (sort_key k xs))" "y \<in> set (drop n (sort_key k xs))"
  have "sorted (map k (take n (sort_key k xs) @ drop n (sort_key k xs)))" by (simp add: sorted_sort_key)
  with xy show ?thesis unfolding map_append sorted_append by simp
qed

text \<open>The records a sweep selects, as entries.\<close>

abbreviation expired_terminal :: "int \<Rightarrow> int \<Rightarrow> trace_record \<Rightarrow> bool" where
  "expired_terminal now retention r \<equiv> is_terminal (tr_phase r) \<and> trace_expired now retention r"

abbreviation fresh_terminal :: "int \<Rightarrow> int \<Rightarrow> trace_record \<Rightarrow> bool" where
  "fresh_terminal now retention r \<equiv> is_terminal (tr_phase r) \<and> \<not> trace_expired now retention r"

definition swept :: "int \<Rightarrow> int \<Rightarrow> nat \<Rightarrow> (store_key \<times> digest \<times> trace_record) list \<Rightarrow> (store_key \<times> digest \<times> trace_record) list" where
  "swept now retention cap D =
     (let E = filter (\<lambda>(key, d, r). expired_terminal now retention r) D;
          F = filter (\<lambda>(key, d, r). fresh_terminal now retention r) D
      in E @ take (length E + length F - cap) (sort_key (\<lambda>(key, d, r). tr_updated_at r) F))"

lemma sweep_removals_swept:
  "sweep_removals c now retention cap scan = map (\<lambda>(key, d, r). (key, d)) (swept now retention cap (decoded_entries c scan))"
proof -
  have "filter (\<lambda>(key, d, r). P r) (filter (\<lambda>(key, d, r). Q r) D) = filter (\<lambda>(key, d, r). Q r \<and> P r) D"
    for P Q and D :: "(store_key \<times> digest \<times> trace_record) list"
    unfolding filter_filter by (rule filter_cong [OF refl]) (simp add: case_prod_beta conj_commute)
  then show ?thesis unfolding sweep_removals_def swept_def Let_def by simp
qed

lemma swept_facts:
  assumes "distinct (map fst D)"
  shows "set (swept now retention cap D) \<subseteq> set D" "distinct (map fst (swept now retention cap D))"
    and "length (swept now retention cap D) = (let e = length (filter (\<lambda>(key, d, r). expired_terminal now retention r) D);
      f = length (filter (\<lambda>(key, d, r). fresh_terminal now retention r) D) in e + min f (e + f - cap))"
    and "(key, d, r) \<in> set (swept now retention cap D) \<Longrightarrow> is_terminal (tr_phase r)"
    and "(key, d, r) \<in> set D \<Longrightarrow> expired_terminal now retention r \<Longrightarrow> (key, d, r) \<in> set (swept now retention cap D)"
    and "(key, d, r) \<in> set (swept now retention cap D) \<Longrightarrow> \<not> trace_expired now retention r \<Longrightarrow>
      (key', d', r') \<in> set D \<Longrightarrow> (key', d', r') \<notin> set (swept now retention cap D) \<Longrightarrow> is_terminal (tr_phase r') \<Longrightarrow>
      tr_updated_at r \<le> tr_updated_at r'"
proof -
  let ?up = "\<lambda>(key, d, r). tr_updated_at r :: int"
  define E where "E = filter (\<lambda>(key :: store_key, d :: digest, r). expired_terminal now retention r) D"
  define F where "F = filter (\<lambda>(key :: store_key, d :: digest, r). fresh_terminal now retention r) D"
  define n where "n = length E + length F - cap"
  define S where "S = sort_key ?up F"
  have sw: "swept now retention cap D = E @ take n S" by (simp add: swept_def Let_def E_def F_def n_def S_def)
  have S: "set S = set F" by (simp add: S_def)
  note T = set_take_subset [of n S, unfolded S]
  show "set (swept now retention cap D) \<subseteq> set D" unfolding sw using T by (auto simp: E_def F_def)
  have dS: "distinct (map fst S)"
    using distinct_map_filter [OF assms, of "\<lambda>(key, d, r). fresh_terminal now retention r"]
    by (simp add: distinct_map S S_def F_def)
  have "(key, d, r) \<in> set E \<Longrightarrow> (key, d', r') \<in> set F \<Longrightarrow> False" for key d r d' r'
    using eq_key_imp_eq_value [OF assms, of key "(d, r)" "(d', r')"] by (auto simp: E_def F_def)
  then have "fst ` set E \<inter> fst ` set (take n S) = {}" using T by fastforce
  moreover have "distinct (map fst E)" unfolding E_def by (rule distinct_map_filter [OF assms])
  moreover have "distinct (map fst (take n S))" using dS by (simp add: take_map [symmetric])
  ultimately show "distinct (map fst (swept now retention cap D))" unfolding sw by simp
  show "length (swept now retention cap D) = (let e = length (filter (\<lambda>(key, d, r). expired_terminal now retention r) D);
      f = length (filter (\<lambda>(key, d, r). fresh_terminal now retention r) D) in e + min f (e + f - cap))"
    unfolding sw by (simp add: Let_def E_def [symmetric] F_def [symmetric] n_def S_def)
  show "is_terminal (tr_phase r)" if "(key, d, r) \<in> set (swept now retention cap D)"
    using that T unfolding sw by (auto simp: E_def F_def)
  show "(key, d, r) \<in> set (swept now retention cap D)" if "(key, d, r) \<in> set D" "expired_terminal now retention r"
    using that unfolding sw by (simp add: E_def)
  show "tr_updated_at r \<le> tr_updated_at r'" if "(key, d, r) \<in> set (swept now retention cap D)" "\<not> trace_expired now retention r"
    "(key', d', r') \<in> set D" "(key', d', r') \<notin> set (swept now retention cap D)" "is_terminal (tr_phase r')"
  proof -
    have 1: "(key, d, r) \<in> set (take n S)" using that(1,2) unfolding sw by (auto simp: E_def)
    have "(key', d', r') \<in> set S" using that(3-5) unfolding sw S by (auto simp: E_def F_def)
    then have "(key', d', r') \<in> set (take n S @ drop n S)" by simp
    then have 2: "(key', d', r') \<in> set (drop n S)" using that(4) unfolding sw set_append by blast
    from sorted_take_before [OF 1 [unfolded S_def] 2 [unfolded S_def]] show ?thesis by simp
  qed
qed

text \<open>The keys a sweep of a store selects.\<close>

definition swept_keys :: "trace_codec \<Rightarrow> redb_database \<Rightarrow> int \<Rightarrow> int \<Rightarrow> nat \<Rightarrow> store_key set" where
  "swept_keys c s now retention cap = fst ` set (swept now retention cap (decoded_entries c (trace_scan c s)))"

lemma swept_keys_facts:
  assumes "redb_inv s"
  shows "card (swept_keys c s now retention cap) = length (swept now retention cap (decoded_entries c (trace_scan c s)))"
    and "card (swept_keys c s now retention cap) =
      (let e = card (trace_keys c (redb_abs s) (expired_terminal now retention)); f = card (trace_keys c (redb_abs s) (fresh_terminal now retention))
       in e + min f (e + f - cap))"
    and "swept_keys c s now retention cap \<subseteq> trace_keys c (redb_abs s) (\<lambda>r. is_terminal (tr_phase r))"
    and "trace_keys c (redb_abs s) (expired_terminal now retention) \<subseteq> swept_keys c s now retention cap"
    and "key \<in> swept_keys c s now retention cap \<Longrightarrow> key' \<notin> swept_keys c s now retention cap \<Longrightarrow> trace_at c (redb_abs s) key = Some r \<Longrightarrow>
      trace_at c (redb_abs s) key' = Some r' \<Longrightarrow> fresh_terminal now retention r \<Longrightarrow> is_terminal (tr_phase r') \<Longrightarrow>
      tr_updated_at r \<le> tr_updated_at r'"
proof -
  define D where "D = decoded_entries c (trace_scan c s)"
  define L where "L = swept now retention cap D"
  have R: "swept_keys c s now retention cap = fst ` set L" by (simp add: swept_keys_def L_def D_def)
  have dD: "distinct (map fst D)" unfolding D_def by (rule trace_scan_facts(2) [OF assms])
  note sw = swept_facts [where now = now and retention = retention and cap = cap, OF dD, folded L_def]
  note keys = trace_keys_decoded [OF assms, of c, folded D_def]
  have at: "trace_at c (redb_abs s) key = Some r \<longleftrightarrow> (\<exists>d. (key, d, r) \<in> set D)" for key r
    unfolding D_def by (rule trace_at_decoded [OF assms])
  show card: "card (swept_keys c s now retention cap) = length (swept now retention cap (decoded_entries c (trace_scan c s)))"
    unfolding R D_def [symmetric] L_def [symmetric] using distinct_card [OF sw(2)] by simp
  show "card (swept_keys c s now retention cap) =
      (let e = card (trace_keys c (redb_abs s) (expired_terminal now retention)); f = card (trace_keys c (redb_abs s) (fresh_terminal now retention))
       in e + min f (e + f - cap))"
    unfolding card D_def [symmetric] L_def [symmetric] keys(2) sw(3) ..
  show "swept_keys c s now retention cap \<subseteq> trace_keys c (redb_abs s) (\<lambda>r. is_terminal (tr_phase r))"
    using sw(1,4) unfolding R trace_keys_def at by fastforce
  show "trace_keys c (redb_abs s) (expired_terminal now retention) \<subseteq> swept_keys c s now retention cap"
    using sw(5) unfolding R trace_keys_def at by force
  assume h: "key \<in> swept_keys c s now retention cap" "key' \<notin> swept_keys c s now retention cap" "trace_at c (redb_abs s) key = Some r"
    "trace_at c (redb_abs s) key' = Some r'" "fresh_terminal now retention r" "is_terminal (tr_phase r')"
  obtain d d' where dd: "(key, d, r) \<in> set D" "(key', d', r') \<in> set D" using h(3,4) unfolding at by blast
  from h(1) obtain d1 r1 where "(key, d1, r1) \<in> set L" by (auto simp: R)
  moreover from this sw(1) eq_key_imp_eq_value [OF dD _ dd(1)] have "(d1, r1) = (d, r)" by blast
  ultimately have "(key, d, r) \<in> set L" by simp
  moreover have "(key', d', r') \<notin> set L" using h(2) by (force simp: R)
  ultimately show "tr_updated_at r \<le> tr_updated_at r'" using sw(6) h(5,6) dd(2) by blast
qed

lemma sweep_lands:
  assumes "redb_inv s" "tc_dns c BUILTIN_DOMAIN" "\<And>bytes. length (tc_sha c bytes) = 32" "fresh_supply (redb_abs s) tids 0"
    and "unat (as_generation (redb_abs s)) + card (swept_keys c s now retention cap) < 2 ^ 64"
  obtains s' where "trace_sweep c (redb_storage (tc_sha c) no_faults) tids s (s, Ready) now cap retention =
      ((s', Ready), Ok (card (swept_keys c s now retention cap)))" "redb_inv s'"
    "\<And>key. key \<in> swept_keys c s now retention cap \<Longrightarrow> as_entries (redb_abs s') (trace_ns, key) = None"
    "\<And>ns key. ns \<noteq> internal_ns \<Longrightarrow> ns \<noteq> trace_ns \<or> key \<notin> swept_keys c s now retention cap \<Longrightarrow>
      as_entries (redb_abs s') (ns, key) = as_entries (redb_abs s) (ns, key)"
proof -
  let ?so = "redb_storage (tc_sha c) no_faults"
  define L where "L = swept now retention cap (decoded_entries c (trace_scan c s))"
  define f where "f = (\<lambda>(key :: store_key, d, r :: trace_record). Delete trace_ns key d)"
  have R: "swept_keys c s now retention cap = fst ` set L" by (simp add: swept_keys_def L_def)
  note card = swept_keys_facts(1) [OF assms(1), of c now retention cap, folded L_def]
  note sw = swept_facts(1,2) [where now = now and retention = retention and cap = cap, OF trace_scan_facts(2) [OF assms(1)], of c, folded L_def]
  have shape: "f (key, d, r) = Delete trace_ns key d \<or> (\<exists>b. f (key, d, r) = Put trace_ns key (Exact d) (store_value_new (tc_sha c) b))"
    for key d r by (simp add: f_def)
  obtain s' where s': "apply_batched c ?so tids (s, Ready) (map f L) = ((s', Ready), Ok (length L))" "redb_inv s'"
    "\<And>x v. x \<in> set L \<Longrightarrow> op_effect (f x) = Some (trace_ns, fst x, v) \<Longrightarrow> as_entries (redb_abs s') (trace_ns, fst x) = v"
    "\<And>ns key. ns \<noteq> internal_ns \<Longrightarrow> ns \<noteq> trace_ns \<or> key \<notin> fst ` set L \<Longrightarrow> as_entries (redb_abs s') (ns, key) = as_entries (redb_abs s) (ns, key)"
    using trace_ops_land [where f = f, OF assms(1-4) assms(5) [unfolded card] sw shape] by blast
  have m: "map (\<lambda>(key, d). Delete trace_ns key d) (map (\<lambda>(key, d, r). (key, d)) L) = map f L" by (auto simp: f_def)
  have run: "trace_sweep c ?so tids s (s, Ready) now cap retention = ((s', Ready), Ok (card (swept_keys c s now retention cap)))"
    unfolding trace_sweep_def trace_namespace_Ok [OF assms(2)] sum.case sweep_removals_swept Let_def L_def [symmetric] m s'(1)
    by (simp add: card)
  have "as_entries (redb_abs s') (trace_ns, key) = None" if "key \<in> swept_keys c s now retention cap" for key
  proof -
    from that obtain d r where "(key, d, r) \<in> set L" by (auto simp: R)
    from s'(3) [OF this] show ?thesis by (simp add: f_def)
  qed
  from that [OF run s'(2) this] s'(4) show ?thesis by (auto simp: R)
qed

text \<open>C31: the retention sweep is exact. Over a fault-free redb store one pass removes a set of
  keys and returns its size; every key removed held a terminal record, so an active one never
  goes, and every other entry outside the internal namespace keeps its bytes. Every terminal
  record past its retention is removed, at most \<open>cap\<close> terminal records remain, and those the
  cap evicts are the oldest. The number is exact: \<open>e\<close> expired and \<open>min f (e + f - cap)\<close> of
  the \<open>f\<close> fresh ones, since the overflow counts the expired records that leave anyway; with
  \<open>f \<le> cap < e + f\<close> fresh records are evicted although the rest already fits.\<close>

theorem trace_sweep_exact:
  assumes "redb_inv s" "tc_dns c BUILTIN_DOMAIN" "\<forall>bytes. length (tc_sha c bytes) = 32" "fresh_supply (redb_abs s) tids 0"
    and "unat (as_generation (redb_abs s)) + card (trace_keys c (redb_abs s) (\<lambda>r. is_terminal (tr_phase r))) < 2 ^ 64"
    and "e = card (trace_keys c (redb_abs s) (expired_terminal now retention))"
    and "f = card (trace_keys c (redb_abs s) (fresh_terminal now retention))"
  shows "\<exists>s' R. trace_sweep c (redb_storage (tc_sha c) no_faults) tids s (s, Ready) now cap retention =
      ((s', Ready), Ok (card R)) \<and> redb_inv s' \<and> card R = e + min f (e + f - cap) \<and>
    R \<subseteq> trace_keys c (redb_abs s) (\<lambda>r. is_terminal (tr_phase r)) \<and>
    trace_keys c (redb_abs s) (expired_terminal now retention) \<subseteq> R \<and>
    (\<forall>key\<in>R. as_entries (redb_abs s') (trace_ns, key) = None) \<and>
    (\<forall>ns key. ns \<noteq> internal_ns \<longrightarrow> ns \<noteq> trace_ns \<or> key \<notin> R \<longrightarrow>
      as_entries (redb_abs s') (ns, key) = as_entries (redb_abs s) (ns, key)) \<and>
    card (trace_keys c (redb_abs s') (\<lambda>r. is_terminal (tr_phase r))) \<le> cap \<and>
    (\<forall>key key' r r'. key \<in> R \<longrightarrow> key' \<notin> R \<longrightarrow> trace_at c (redb_abs s) key = Some r \<longrightarrow>
      trace_at c (redb_abs s) key' = Some r' \<longrightarrow> fresh_terminal now retention r \<longrightarrow> is_terminal (tr_phase r') \<longrightarrow>
      tr_updated_at r \<le> tr_updated_at r')"
proof -
  let ?T = "\<lambda>r. is_terminal (tr_phase r)" and ?R = "swept_keys c s now retention cap"
  note R = swept_keys_facts [where c = c and now = now and retention = retention and cap = cap, OF assms(1)]
  have fin: "finite (trace_keys c (redb_abs s) P)" for P unfolding trace_keys_decoded(1) [OF assms(1)] by simp
  have n: "card ?R = e + min f (e + f - cap)" unfolding R(2) assms(6,7) Let_def ..
  have "card ?R \<le> card (trace_keys c (redb_abs s) ?T)" by (rule card_mono [OF fin R(3)])
  then have g: "unat (as_generation (redb_abs s)) + card ?R < 2 ^ 64" using assms(5) by simp
  have sha: "length (tc_sha c bytes) = 32" for bytes using assms(3) by simp
  obtain s' where s': "trace_sweep c (redb_storage (tc_sha c) no_faults) tids s (s, Ready) now cap retention = ((s', Ready), Ok (card ?R))"
    "redb_inv s'" "\<And>key. key \<in> ?R \<Longrightarrow> as_entries (redb_abs s') (trace_ns, key) = None"
    "\<And>ns key. ns \<noteq> internal_ns \<Longrightarrow> ns \<noteq> trace_ns \<or> key \<notin> ?R \<Longrightarrow> as_entries (redb_abs s') (ns, key) = as_entries (redb_abs s) (ns, key)"
    by (rule sweep_lands [where c = c and tids = tids, OF assms(1,2) sha assms(4) g]) blast
  have "trace_at c (redb_abs s') key = (if key \<in> ?R then None else trace_at c (redb_abs s) key)" for key
    using s'(3) [of key] s'(4) [OF trace_ns_ok(2), of key] by (simp add: trace_at_def)
  then have "trace_keys c (redb_abs s') ?T = trace_keys c (redb_abs s) ?T - ?R" by (auto simp: trace_keys_def)
  then have "card (trace_keys c (redb_abs s') ?T) = card (trace_keys c (redb_abs s) ?T) - card ?R"
    using card_Diff_subset [OF finite_subset [OF R(3) fin] R(3)] by simp
  moreover have "trace_keys c (redb_abs s) ?T =
      trace_keys c (redb_abs s) (expired_terminal now retention) \<union> trace_keys c (redb_abs s) (fresh_terminal now retention)"
    by (auto simp: trace_keys_def)
  then have "card (trace_keys c (redb_abs s) ?T) \<le> e + f" unfolding assms(6,7) by (simp add: card_Un_le)
  ultimately have cap: "card (trace_keys c (redb_abs s') ?T) \<le> cap" unfolding n by linarith
  show ?thesis
    by (intro exI [of _ s'] exI [of _ ?R] conjI ballI allI impI s'(1,2) n R(3,4) s'(3) cap s'(4)) (assumption | rule R(5))+
qed

section \<open>Sample stores\<close>

definition sample_wire :: "byte \<Rightarrow> byte option \<Rightarrow> u64 \<Rightarrow> trace_wire" where
  "sample_wire code failure millis = \<lparr>tw_schema = TRACE_SCHEMA, tw_record_version = 1,
     tw_trace_id = sample_ident TraceId 1, tw_source = sample_ident NodeId 2,
     tw_destination = sample_ident NodeId 3, tw_attempts = 1, tw_phase = code, tw_failure = failure,
     tw_updated_at_millis = millis\<rparr>"

text \<open>A codec of four words: active, interrupted, and delivered early and late.\<close>

definition sample_words :: "(trace_wire \<times> byte list) list" where
  "sample_words = [(sample_wire 0 None 1, [0]), (sample_wire 3 (Some 12) 9, [1]), (sample_wire 2 None 2, [2]), (sample_wire 2 None 8, [3])]"

definition sample_trace_codec :: trace_codec where
  "sample_trace_codec = \<lparr>tc_dns = (\<lambda>_. True), tc_sha = sample_sha,
     tc_encode = (\<lambda>w. ok_or (map_of sample_words w) (invalid_input ''encoding'')),
     tc_decode = (\<lambda>b. ok_or (map_of (map prod.swap sample_words) b) (invalid_input ''decoding''))\<rparr>"

definition sample_traces :: redb_database where
  "sample_traces = empty_db\<lparr>rd_entries := [(composite_key trace_ns [1], [0]), (composite_key trace_ns [2], [2]), (composite_key trace_ns [3], [3])]\<rparr>"

lemma append_less_same: "xs @ a < xs @ b \<longleftrightarrow> a < (b :: byte list)"
  by (induction xs) simp_all

lemma sample_traces_inv: "redb_inv sample_traces"
  using empty_db_inv by (simp add: redb_inv_def sample_traces_def bt_ok_def composite_key_def append_less_same)

lemma sample_traces_entries:
  "as_entries (redb_abs sample_traces) (ns, key) =
     (if ns = trace_ns then map_of [([1], [0]), ([2], [2]), ([3], [3])] key else None)"
proof (cases "namespace_ok ns")
  case True
  then show ?thesis
    using composite_key_inj [OF True trace_ns_ok(1)] by (auto simp: redb_abs_def redb_tables_abs_def sample_traces_def)
next
  case False
  with trace_ns_ok(1) show ?thesis by (auto simp: redb_abs_def redb_tables_abs_def)
qed

lemma sample_supply: "fresh_supply (redb_abs sample_traces) (\<lambda>i. Ok (lit ''txn_'' @ replicate i 48)) 0"
proof -
  have "as_receipts (redb_abs sample_traces) t = None" for t
    using empty_db_receipts [of t] by (simp add: redb_abs_def redb_tables_abs_def sample_traces_def)
  moreover have "lit ''txn_'' @ replicate k 48 = lit ''txn_'' @ replicate j 48 \<longrightarrow> k = j" for j k :: nat
    by (auto dest: arg_cong [where f = length])
  ultimately show ?thesis
    unfolding fresh_supply_def sample_traces_entries using trace_ns_ok(2) by (simp add: is_ascii_def list_all_iff)
qed

lemma sample_generation: "as_generation (redb_abs sample_traces) = 0"
  by (simp add: redb_abs_def redb_tables_abs_def sample_traces_def empty_db_def redb_initialize_def current_generation_def decode_revision_def)

definition sample_trace :: "trace_phase \<Rightarrow> u64 \<Rightarrow> trace_record" where
  "sample_trace phase millis = \<lparr>tr_trace_id = sample_ident TraceId 1,
     tr_source = sample_ident NodeId 2, tr_destination = sample_ident NodeId 3,
     tr_attempts = 1, tr_phase = phase, tr_updated_at = from_millis millis\<rparr>"

lemma sample_words_distinct: "distinct (map fst sample_words)" "distinct (map snd sample_words)"
  by (simp_all add: sample_words_def sample_wire_def)

lemma sample_codec_inverse: "trace_codec_ok sample_trace_codec"
proof -
  have "ok_or (map_of (map prod.swap sample_words) b) (invalid_input ''decoding'') = Ok w"
    if "ok_or (map_of sample_words w) (invalid_input ''encoding'') = Ok b" for w b
  proof -
    have "map_of sample_words w = Some b" using that by (cases "map_of sample_words w") (simp_all add: ok_or_def)
    then have "map_of (map prod.swap sample_words) b = Some w"
      using sample_words_distinct by (force dest: map_of_SomeD intro!: map_of_is_SomeI simp: comp_def)
    then show ?thesis by (simp add: ok_or_def)
  qed
  then show ?thesis by (simp add: trace_codec_ok_def sample_trace_codec_def)
qed

lemma sample_decode:
  "phase_from_code code failure = Ok phase \<Longrightarrow> (sample_wire code failure millis, bytes) \<in> set sample_words \<Longrightarrow>
   decode_trace_record sample_trace_codec bytes = Ok (sample_trace phase millis)"
proof -
  assume a: "phase_from_code code failure = Ok phase" "(sample_wire code failure millis, bytes) \<in> set sample_words"
  have "map_of (map prod.swap sample_words) bytes = Some (sample_wire code failure millis)"
    using a(2) sample_words_distinct by (force intro!: map_of_is_SomeI simp: comp_def)
  then show ?thesis using a(1)
    by (simp add: decode_trace_record_def sample_trace_codec_def ok_or_def sample_wire_def sample_ident_parse sample_trace_def)
qed

lemma sample_trace_at:
  "trace_at sample_trace_codec (redb_abs sample_traces) =
     [[1] \<mapsto> sample_trace Routing 1, [2] \<mapsto> sample_trace Delivered 2, [3] \<mapsto> sample_trace Delivered 8]"
proof -
  have "decode_trace_record sample_trace_codec [0] = Ok (sample_trace Routing 1)"
    "decode_trace_record sample_trace_codec [2] = Ok (sample_trace Delivered 2)"
    "decode_trace_record sample_trace_codec [3] = Ok (sample_trace Delivered 8)"
    by (rule sample_decode, simp_all add: phase_from_code_def sample_words_def)+
  then show ?thesis by (simp add: fun_eq_iff trace_at_def sample_traces_entries)
qed

lemma sample_trace_keys:
  "trace_keys sample_trace_codec (redb_abs sample_traces) P =
     (if P (sample_trace Routing 1) then {[1]} else {}) \<union> (if P (sample_trace Delivered 2) then {[2]} else {}) \<union>
     (if P (sample_trace Delivered 8) then {[3]} else {})"
  unfolding trace_keys_def sample_trace_at by (auto split: if_splits)

lemma sample_interrupted: "trace_encode sample_trace_codec (interrupted 9000000 (sample_trace phase m)) = Ok [1]"
  by (simp add: trace_encode_def trace_failed_def sample_trace_def sample_trace_codec_def sample_words_def sample_wire_def ok_or_def
      NO_FAILURE_def to_millis_def)

theorem restart_terminates_traces_witness:
  "\<exists>s'. terminate_stale sample_trace_codec (redb_storage sample_sha no_faults) (\<lambda>i. Ok (lit ''txn_'' @ replicate i 48))
      sample_traces (sample_traces, Ready) 9000000 = ((s', Ready), Ok 1) \<and>
    trace_at sample_trace_codec (redb_abs s') [1] = Some (sample_trace (FailedPhase StreamInterrupted) 9)"
proof -
  have at: "trace_at sample_trace_codec (redb_abs sample_traces) [1] = Some (sample_trace Routing 1)"
    "in_flight (sample_trace Routing 1)" by (simp_all add: sample_trace_at sample_trace_def in_flight_def)
  have k: "trace_keys sample_trace_codec (redb_abs sample_traces) in_flight = {[1]}" by (simp add: sample_trace_keys sample_trace_def in_flight_def)
  have g: "unat (as_generation (redb_abs sample_traces)) + card (trace_keys sample_trace_codec (redb_abs sample_traces) in_flight) < 2 ^ 64"
    by (simp add: k sample_generation)
  have enc: "\<forall>key r. trace_at sample_trace_codec (redb_abs sample_traces) key = Some r \<longrightarrow>
      is_ok (trace_encode sample_trace_codec (interrupted 9000000 r))"
    unfolding sample_trace_at by (auto simp: sample_interrupted split: if_splits)
  have p: "tc_dns sample_trace_codec BUILTIN_DOMAIN" "\<forall>bytes. length (tc_sha sample_trace_codec bytes) = 32"
    "tc_sha sample_trace_codec = sample_sha" by (simp_all add: sample_trace_codec_def sample_sha_def)
  have i: "interrupted (from_millis (to_millis 9000000)) (sample_trace Routing 1) = sample_trace (FailedPhase StreamInterrupted) 9"
    by (simp add: trace_failed_def sample_trace_def to_millis_def)
  from restart_terminates_traces [OF sample_traces_inv p(1,2) sample_supply g sample_codec_inverse enc] at i show ?thesis
    unfolding k p(3) by auto
qed

theorem trace_sweep_exact_witness:
  "\<exists>s'. trace_sweep sample_trace_codec (redb_storage sample_sha no_faults) (\<lambda>i. Ok (lit ''txn_'' @ replicate i 48))
      sample_traces (sample_traces, Ready) 9000000 1 5000000 = ((s', Ready), Ok 2) \<and>
    as_entries (redb_abs s') (trace_ns, [1]) = Some [0]"
proof -
  have g: "unat (as_generation (redb_abs sample_traces)) + card (trace_keys sample_trace_codec (redb_abs sample_traces) (\<lambda>r. is_terminal (tr_phase r))) < 2 ^ 64"
    by (simp add: sample_trace_keys sample_trace_def sample_generation)
  have p: "tc_dns sample_trace_codec BUILTIN_DOMAIN" "\<forall>bytes. length (tc_sha sample_trace_codec bytes) = 32"
    "tc_sha sample_trace_codec = sample_sha" by (simp_all add: sample_trace_codec_def sample_sha_def)
  have e: "1 = card (trace_keys sample_trace_codec (redb_abs sample_traces) (expired_terminal 9000000 5000000))"
    "1 = card (trace_keys sample_trace_codec (redb_abs sample_traces) (fresh_terminal 9000000 5000000))"
    by (simp_all add: sample_trace_keys sample_trace_def trace_expired_def from_millis_def)
  have t: "trace_keys sample_trace_codec (redb_abs sample_traces) (\<lambda>r. is_terminal (tr_phase r)) = {[2], [3]}"
    by (auto simp: sample_trace_keys sample_trace_def)
  obtain s' R where s': "trace_sweep sample_trace_codec (redb_storage sample_sha no_faults) (\<lambda>i. Ok (lit ''txn_'' @ replicate i 48))
      sample_traces (sample_traces, Ready) 9000000 1 5000000 = ((s', Ready), Ok (card R))" "card R = 1 + min 1 (1 + 1 - 1)" "R \<subseteq> {[2], [3]}"
    "\<And>ns key. ns \<noteq> internal_ns \<Longrightarrow> ns \<noteq> trace_ns \<or> key \<notin> R \<Longrightarrow> as_entries (redb_abs s') (ns, key) = as_entries (redb_abs sample_traces) (ns, key)"
    using trace_sweep_exact [OF sample_traces_inv p(1,2) sample_supply g e, of 1] unfolding t p(3) by blast
  have "[1] \<notin> R" using s'(3) by auto
  with s'(4) [OF trace_ns_ok(2), of "[1]"] s'(1,2) show ?thesis by (simp add: sample_traces_entries)
qed

end
