(* ===== verification/Endpoints.thy ===== *)
theory Endpoints
  imports Qualified_Tags
begin

text \<open>
  Endpoint addresses (\<^verbatim>\<open>src/src/transport/endpoint.rs\<close>): parsing of \<^verbatim>\<open>wss://host[:port]\<close> to a
  canonical text with an explicit port. The host grammar of the \<^verbatim>\<open>domain\<close> crate is an
  argument; the address parsers of the standard library are written out.
\<close>

definition SCHEME :: ustr where "SCHEME = lit ''wss://''"
definition DEFAULT_PORT :: u16 where "DEFAULT_PORT = 443"
definition MAX_HOST_LEN :: nat where "MAX_HOST_LEN = 253"

record endpoint =
  ep_canonical :: ustr
  ep_host :: ustr
  ep_port :: u16

abbreviation colon :: uchar where "colon \<equiv> 58"

section \<open>Address parsers of the standard library\<close>

definition to_digit :: "nat \<Rightarrow> uchar \<Rightarrow> nat option" where
  "to_digit radix c =
     (let d = if is_digit c then Some (c - 48)
              else if is_lower c then Some (c - 97 + 10)
              else if is_upper c then Some (c - 65 + 10) else None
      in case d of Some v \<Rightarrow> if v < radix then Some v else None | None \<Rightarrow> None)"

definition digits_value :: "nat \<Rightarrow> ustr \<Rightarrow> nat" where
  "digits_value radix s = foldl (\<lambda>acc c. acc * radix + (case to_digit radix c of Some v \<Rightarrow> v | None \<Rightarrow> 0)) 0 s"

text \<open>A run of digits: at least one, at most \<open>max_digits\<close>, below the bound of the type, with no
  leading zero unless allowed.\<close>

definition read_number :: "nat \<Rightarrow> nat \<Rightarrow> bool \<Rightarrow> nat \<Rightarrow> ustr \<Rightarrow> (nat \<times> ustr) option" where
  "read_number radix max_digits allow_zero_prefix bound s =
     (let ds = takeWhile (\<lambda>c. to_digit radix c \<noteq> None) s
      in if ds = [] \<or> length ds > max_digits \<or> digits_value radix ds \<ge> bound \<or>
            \<not> allow_zero_prefix \<and> hd ds = 48 \<and> length ds > 1
         then None else Some (digits_value radix ds, drop (length ds) s))"

definition read_given_char :: "uchar \<Rightarrow> ustr \<Rightarrow> ustr option" where
  "read_given_char c s = (case s of x # rest \<Rightarrow> if x = c then Some rest else None | [] \<Rightarrow> None)"

definition read_separator :: "uchar \<Rightarrow> nat \<Rightarrow> (ustr \<Rightarrow> ('a \<times> ustr) option) \<Rightarrow> ustr \<Rightarrow> ('a \<times> ustr) option" where
  "read_separator sep index inner s =
     (if index > 0 then Option.bind (read_given_char sep s) inner else inner s)"

definition read_octet :: "nat \<Rightarrow> ustr \<Rightarrow> (nat \<times> ustr) option" where
  "read_octet index = read_separator 46 index (read_number 10 3 False (2 ^ 8))"

definition read_ipv4_addr :: "ustr \<Rightarrow> (nat list \<times> ustr) option" where
  "read_ipv4_addr s =
     Option.bind (read_octet 0 s) (\<lambda>(a, s). Option.bind (read_octet 1 s) (\<lambda>(b, s).
     Option.bind (read_octet 2 s) (\<lambda>(c, s). Option.bind (read_octet 3 s) (\<lambda>(d, s). Some ([a, b, c, d], s)))))"

definition ipv4_parse :: "ustr \<Rightarrow> nat list option" where
  "ipv4_parse s =
     (if str_len s > 15 then None
      else case read_ipv4_addr s of Some (octets, []) \<Rightarrow> Some octets | _ \<Rightarrow> None)"

text \<open>Groups of an IPv6 address from index \<open>i\<close> on, as long as the slots of \<open>todo\<close> last: the
  groups, whether an embedded IPv4 address ended them, and the rest.\<close>

primrec read_groups :: "nat \<Rightarrow> nat \<Rightarrow> ustr \<Rightarrow> nat list \<times> bool \<times> ustr" where
  "read_groups i 0 s = ([], False, s)"
| "read_groups i (Suc todo) s =
     (case (if 0 < todo then read_separator colon i read_ipv4_addr s else None) of
        Some (octets, rest) \<Rightarrow> ([octets ! 0 * 256 + octets ! 1, octets ! 2 * 256 + octets ! 3], True, rest)
      | None \<Rightarrow>
          (case read_separator colon i (read_number 16 4 True (2 ^ 16)) s of
             None \<Rightarrow> ([], False, s)
           | Some (g, rest) \<Rightarrow>
               (let (gs, ipv4, rest') = read_groups (i + 1) todo rest in (g # gs, ipv4, rest'))))"

definition read_ipv6_addr :: "ustr \<Rightarrow> (nat list \<times> ustr) option" where
  "read_ipv6_addr s =
     (let (head, head_ipv4, s1) = read_groups 0 8 s
      in if length head = 8 then Some (head, s1)
         else if head_ipv4 then None
         else Option.bind (read_given_char colon s1) (\<lambda>s2. Option.bind (read_given_char colon s2) (\<lambda>s3.
           let (tail, _, s4) = read_groups 0 (8 - (length head + 1)) s3
           in Some (head @ replicate (8 - length head - length tail) 0 @ tail, s4))))"

definition ipv6_parse :: "ustr \<Rightarrow> nat list option" where
  "ipv6_parse s = (case read_ipv6_addr s of Some (groups, []) \<Rightarrow> Some groups | _ \<Rightarrow> None)"

section \<open>Endpoints\<close>

definition endpoint_error :: error where
  "endpoint_error = invalid_input ''endpoint''"

text \<open>The text before and after the first occurrence of a character.\<close>

definition split_at :: "uchar \<Rightarrow> ustr \<Rightarrow> (ustr \<times> ustr) option" where
  "split_at c s =
     (let pre = takeWhile (\<lambda>x. x \<noteq> c) s in if length pre = length s then None else Some (pre, drop (length pre + 1) s))"

definition split_authority :: "ustr \<Rightarrow> (ustr \<times> bool \<times> ustr option) result" where
  "split_authority authority =
     (case read_given_char 91 authority of
        Some rest \<Rightarrow>
          and_then (ok_or (split_at 93 rest) endpoint_error) (\<lambda>(host, after).
            if count_list host colon < 2 \<or> 37 \<in> set host then Err endpoint_error
            else case read_given_char colon after of
                Some port \<Rightarrow> Ok (host, True, Some port)
              | None \<Rightarrow> if after = [] then Ok (host, True, None) else Err endpoint_error)
      | None \<Rightarrow>
          if count_list authority colon = 0 then Ok (authority, False, None)
          else if count_list authority colon = 1
          then and_then (ok_or (split_at colon authority) endpoint_error) (\<lambda>(host, port). Ok (host, False, Some port))
          else Err endpoint_error)"

definition parse_port :: "ustr \<Rightarrow> u16 result" where
  "parse_port txt =
     (if txt = [] \<or> \<not> list_all is_digit txt \<or> str_len txt > 1 \<and> hd txt = 48 then Err endpoint_error
      else if digits_value 10 txt < 2 ^ 16 then Ok (word_of_nat (digits_value 10 txt)) else Err endpoint_error)"

definition validate_host :: "(ustr \<Rightarrow> bool) \<Rightarrow> ustr \<Rightarrow> unit result" where
  "validate_host dns host =
     (if host = [] \<or> str_len host > MAX_HOST_LEN then Err endpoint_error
      else if list_all (\<lambda>c. is_digit c \<or> c = 46) host
      then (if ipv4_parse host \<noteq> None then Ok () else Err endpoint_error)
      else if colon \<in> set host
      then (if ipv6_parse host \<noteq> None then Ok () else Err endpoint_error)
      else if valid_dns_hostname dns host then Ok () else Err endpoint_error)"

text \<open>The decimal text of a number, as the formatter writes it.\<close>

fun decimal :: "nat \<Rightarrow> ustr" where
  "decimal n = (if n < 10 then [48 + n] else decimal (n div 10) @ [48 + n mod 10])"

declare decimal.simps [simp del]

definition endpoint_text :: "bool \<Rightarrow> ustr \<Rightarrow> u16 \<Rightarrow> ustr" where
  "endpoint_text bracketed host port =
     (if bracketed then SCHEME @ 91 # host @ 93 # colon # decimal (unat port)
      else SCHEME @ host @ colon # decimal (unat port))"

definition is_ascii_whitespace :: "uchar \<Rightarrow> bool" where
  "is_ascii_whitespace c \<longleftrightarrow> c = 32 \<or> c = 9 \<or> c = 10 \<or> c = 12 \<or> c = 13"

definition forbidden_char :: "uchar \<Rightarrow> bool" where
  "forbidden_char c \<longleftrightarrow> c = 47 \<or> c = 63 \<or> c = 35 \<or> c = 64 \<or> is_ascii_whitespace c"

definition endpoint_parse :: "(ustr \<Rightarrow> bool) \<Rightarrow> ustr \<Rightarrow> endpoint result" where
  "endpoint_parse dns value =
     (if take (length SCHEME) value \<noteq> SCHEME then Err endpoint_error
      else let authority = drop (length SCHEME) value
           in if authority = [] \<or> list_ex forbidden_char authority then Err endpoint_error
              else and_then (split_authority authority) (\<lambda>(host0, bracketed, port_text).
                let host = to_ascii_lowercase host0
                in and_then (validate_host dns host) (\<lambda>_.
                   and_then (case port_text of Some txt \<Rightarrow> parse_port txt | None \<Rightarrow> Ok DEFAULT_PORT) (\<lambda>port.
                     Ok \<lparr>ep_canonical = endpoint_text bracketed host port, ep_host = host, ep_port = port\<rparr>))))"

definition endpoint_authority :: "endpoint \<Rightarrow> ustr" where
  "endpoint_authority e = drop (length SCHEME) (ep_canonical e)"

section \<open>The canonical text\<close>

lemma decimal_step: "\<not> n < 10 \<Longrightarrow> decimal n = decimal (n div 10) @ [48 + n mod 10]" "n < 10 \<Longrightarrow> decimal n = [48 + n]"
  by (simp_all add: decimal.simps [of n])

lemma decimal_facts: "decimal n \<noteq> [] \<and> list_all is_digit (decimal n) \<and> (n \<noteq> 0 \<longrightarrow> hd (decimal n) \<noteq> 48)"
proof (induction n rule: decimal.induct)
  case (1 n)
  have "n mod 10 < 10" by simp
  show ?case
  proof (cases "n < 10")
    case True
    then show ?thesis by (simp add: decimal_step(2) is_digit_def)
  next
    case False
    have "n div 10 \<noteq> 0" using False by simp
    with 1 [OF False] False \<open>n mod 10 < 10\<close> show ?thesis by (simp add: decimal_step(1) is_digit_def)
  qed
qed

lemma digits_value_snoc: "digits_value radix (s @ [c]) = digits_value radix s * radix + (case to_digit radix c of Some v \<Rightarrow> v | None \<Rightarrow> 0)"
  by (simp add: digits_value_def)

lemma to_digit_decimal: "v < 10 \<Longrightarrow> to_digit 10 (48 + v) = Some v"
  by (simp add: to_digit_def is_digit_def Let_def)

lemma digits_value_decimal: "digits_value 10 (decimal n) = n"
proof (induction n rule: decimal.induct)
  case (1 n)
  have m: "n mod 10 < 10" by simp
  show ?case
  proof (cases "n < 10")
    case True
    then show ?thesis by (simp add: decimal_step(2) digits_value_def to_digit_decimal)
  next
    case False
    with 1 show ?thesis by (simp add: decimal_step(1) digits_value_snoc to_digit_decimal [OF m])
  qed
qed

lemma parse_port_decimal: "parse_port (decimal (unat p)) = Ok p"
proof -
  have b: "unat p < 2 ^ 16" using unat_less_exp [of p] by simp
  have "hd (decimal (unat p)) = 48 \<Longrightarrow> length (decimal (unat p)) = 1"
    using decimal_facts [of "unat p"] decimal_step(2) [of "unat p"] by (cases "unat p = 0") auto
  moreover have "str_len (decimal (unat p)) = length (decimal (unat p))"
  proof (rule str_len_ascii)
    show "is_ascii (decimal (unat p))" using decimal_facts [of "unat p"] by (auto simp: is_ascii_def list_all_iff is_digit_def)
  qed
  ultimately show ?thesis using b decimal_facts [of "unat p"] by (auto simp: parse_port_def digits_value_decimal)
qed

lemma split_at_Some: "split_at c s = Some (a, b) \<longleftrightarrow> c \<notin> set a \<and> s = a @ c # b"
proof (induction s arbitrary: a)
  case Nil
  show ?case by (simp add: split_at_def)
next
  case (Cons x s)
  show ?case
  proof (cases "x = c")
    case True
    then show ?thesis by (cases a) (auto simp: split_at_def)
  next
    case False
    have "split_at c (x # s) = map_option (\<lambda>(a, b). (x # a, b)) (split_at c s)"
      using False by (simp add: split_at_def Let_def)
    with Cons.IH False show ?thesis by (cases a) (auto split: option.split)
  qed
qed

lemma lowercase_chars:
  "c \<in> set (to_ascii_lowercase s) \<Longrightarrow> c \<in> set s \<or> is_lower c" "count_list (to_ascii_lowercase s) colon = count_list s colon"
  by (auto simp: to_ascii_lowercase_def is_lower_def) (induction s, auto)

definition host_shape :: "bool \<Rightarrow> ustr \<Rightarrow> bool" where
  "host_shape bracketed h \<longleftrightarrow>
     (if bracketed then 93 \<notin> set h \<and> 37 \<notin> set h \<and> 2 \<le> count_list h colon else colon \<notin> set h \<and> (h = [] \<or> hd h \<noteq> 91))"

lemma split_authority_Ok: "split_authority a = Ok (h, br, p) \<Longrightarrow> host_shape br h \<and> set h \<subseteq> set a"
proof (cases "read_given_char 91 a")
  case None
  assume s: "split_authority a = Ok (h, br, p)"
  have a: "a = [] \<or> hd a \<noteq> 91" using None by (cases a) (auto simp: read_given_char_def)
  consider "h = a" "\<not> br" "colon \<notin> set a" | ys where "a = h @ colon # ys" "\<not> br" "colon \<notin> set h"
    using s None by (auto simp: split_authority_def and_then_Ok_iff ok_or_def split_at_Some count_list_0_iff
      split: if_split_asm option.split_asm)
  then show ?thesis
  proof cases
    case 2
    with a show ?thesis by (cases h) (auto simp: host_shape_def)
  qed (use a in \<open>simp add: host_shape_def\<close>)
next
  case (Some rest)
  assume s: "split_authority a = Ok (h, br, p)"
  have a: "set rest \<subseteq> set a" using Some by (cases a) (auto simp: read_given_char_def split: if_split_asm)
  obtain ys where "rest = h @ 93 # ys" "93 \<notin> set h" "br" "\<not> count_list h colon < 2" "37 \<notin> set h"
    using s Some by (auto simp: split_authority_def and_then_Ok_iff ok_or_def split_at_Some split: if_split_asm option.split_asm)
  with a show ?thesis by (auto simp: host_shape_def)
qed

lemma host_shape_lowercase: "host_shape br h \<Longrightarrow> host_shape br (to_ascii_lowercase h)"
  using lowercase_chars(1) [of 93 h] lowercase_chars(1) [of 37 h] lowercase_chars(1) [of colon h] lowercase_chars(2) [of h]
  by (cases h) (auto simp: host_shape_def is_lower_def to_ascii_lowercase_def split: if_splits)

lemma split_authority_text:
  "host_shape br h \<Longrightarrow> h \<noteq> [] \<Longrightarrow> colon \<notin> set p \<Longrightarrow>
   split_authority (if br then 91 # h @ 93 # colon # p else h @ colon # p) = Ok (h, br, Some p)"
proof -
  assume a: "host_shape br h" "h \<noteq> []" "colon \<notin> set p"
  show ?thesis
  proof (cases br)
    case True
    have "split_at 93 (h @ 93 # colon # p) = Some (h, colon # p)" using a(1) True by (simp add: split_at_Some host_shape_def)
    with True a(1) show ?thesis by (simp add: split_authority_def read_given_char_def ok_or_def host_shape_def)
  next
    case False
    have "count_list (h @ colon # p) colon = 1" using a(1,3) False by (simp add: host_shape_def count_list_0_iff)
    moreover have "split_at colon (h @ colon # p) = Some (h, p)" using a(1) False by (simp add: split_at_Some host_shape_def)
    moreover have "read_given_char 91 (h @ colon # p) = None"
      using a(1,2) False by (cases h) (auto simp: read_given_char_def host_shape_def)
    ultimately show ?thesis using False by (simp add: split_authority_def ok_or_def)
  qed
qed

lemma text_clean:
  assumes "\<not> list_ex forbidden_char h"
  shows "\<not> list_ex forbidden_char (if br then 91 # h @ 93 # colon # decimal n else h @ colon # decimal n)"
proof -
  have "\<not> forbidden_char c" if "is_digit c" for c using that by (auto simp: forbidden_char_def is_ascii_whitespace_def is_digit_def)
  then have "\<not> list_ex forbidden_char (decimal n)" using decimal_facts [of n] by (auto simp: list_ex_iff list_all_iff)
  with assms show ?thesis by (simp add: forbidden_char_def is_ascii_whitespace_def)
qed

lemma endpoint_reparse_facts:
  assumes "endpoint_parse dns spelling = Ok e"
  shows "endpoint_parse dns (ep_canonical e) = Ok e \<and>
    ep_canonical e = endpoint_text (colon \<in> set (ep_host e)) (ep_host e) (ep_port e) \<and>
    to_ascii_lowercase (ep_host e) = ep_host e \<and> validate_host dns (ep_host e) = Ok ()"
proof -
  obtain h br p port where a: "split_authority (drop (length SCHEME) spelling) = Ok (h, br, p)"
    "\<not> list_ex forbidden_char (drop (length SCHEME) spelling)" "validate_host dns (to_ascii_lowercase h) = Ok ()"
    and e: "e = \<lparr>ep_canonical = endpoint_text br (to_ascii_lowercase h) port, ep_host = to_ascii_lowercase h, ep_port = port\<rparr>"
    using assms by (auto simp: endpoint_parse_def and_then_Ok_iff Let_def split: if_split_asm)
  define l where "l = to_ascii_lowercase h"
  note sp = split_authority_Ok [OF a(1)]
  have sh: "host_shape br l" unfolding l_def by (rule host_shape_lowercase [OF conjunct1 [OF sp]])
  have br: "br \<longleftrightarrow> colon \<in> set l"
    using sh count_list_0_iff [of l colon] by (cases br) (auto simp: host_shape_def)
  have ne: "l \<noteq> []" using a(3) unfolding l_def by (auto simp: validate_host_def)
  have "\<not> forbidden_char c" if "c \<in> set l" for c
  proof -
    from lowercase_chars(1) [of c h] that consider "c \<in> set h" | "is_lower c" by (auto simp: l_def)
    then show ?thesis
    proof cases
      case 1
      with sp a(2) show ?thesis by (auto simp: list_ex_iff)
    qed (auto simp: is_lower_def forbidden_char_def is_ascii_whitespace_def)
  qed
  then have "\<not> list_ex forbidden_char l" by (auto simp: list_ex_iff)
  note clean = text_clean [OF this, of br "unat port"]
  have "colon \<notin> set (decimal (unat port))" using decimal_facts [of "unat port"] by (auto simp: list_all_iff is_digit_def)
  note split = split_authority_text [OF sh ne this]
  define txt0 where "txt0 = (if br then 91 # l @ 93 # colon # decimal (unat port) else l @ colon # decimal (unat port))"
  have t: "endpoint_text br l port = SCHEME @ txt0" "txt0 \<noteq> []" by (simp_all add: endpoint_text_def txt0_def)
  have l: "to_ascii_lowercase l = l" "validate_host dns l = Ok ()" using a(3) by (simp_all add: l_def)
  have e': "e = \<lparr>ep_canonical = SCHEME @ txt0, ep_host = l, ep_port = port\<rparr>" by (simp add: e l_def [symmetric] t(1))
  have "endpoint_parse dns (SCHEME @ txt0) = Ok e"
    using t(2) clean split l unfolding endpoint_parse_def txt0_def [symmetric] e' by (simp add: t(1) parse_port_decimal Let_def)
  with l t(1) [unfolded br] show ?thesis by (simp add: e')
qed

lemma endpoint_reparse: "endpoint_parse dns spelling = Ok e \<Longrightarrow> endpoint_parse dns (ep_canonical e) = Ok e"
  using endpoint_reparse_facts by blast

text \<open>C30: an endpoint is its canonical text. Whatever spelling was parsed, the stored text has the
  lowercase host, brackets exactly around an IPv6 literal and an explicit port, and it parses
  back to the same endpoint; so equal texts mean equal endpoints.\<close>

theorem endpoint_parse_canonical:
  assumes "endpoint_parse dns spelling = Ok e"
  shows "endpoint_parse dns (ep_canonical e) = Ok e \<and>
    ep_canonical e = endpoint_text (colon \<in> set (ep_host e)) (ep_host e) (ep_port e) \<and>
    to_ascii_lowercase (ep_host e) = ep_host e \<and> validate_host dns (ep_host e) = Ok ()"
  by (rule endpoint_reparse_facts [OF assms])

theorem endpoint_parse_canonical_witness:
  "endpoint_parse (\<lambda>_. True) (lit ''wss://Node.Example'') = Ok \<lparr>ep_canonical = lit ''wss://node.example:443'',
     ep_host = lit ''node.example'', ep_port = 443\<rparr> \<and>
   endpoint_parse (\<lambda>_. True) (lit ''wss://node.example:443'') = Ok \<lparr>ep_canonical = lit ''wss://node.example:443'',
     ep_host = lit ''node.example'', ep_port = 443\<rparr>"
proof -
  have "endpoint_parse (\<lambda>_. True) (lit ''wss://Node.Example'') = Ok \<lparr>ep_canonical = lit ''wss://node.example:443'',
     ep_host = lit ''node.example'', ep_port = 443\<rparr>" by code_simp
  from this endpoint_parse_canonical [OF this] show ?thesis unfolding endpoint.simps by blast
qed

end
