(* ===== verification/Node_Descriptor.thy ===== *)
theory Node_Descriptor
  imports Resource_Store Endpoints Labels Identifiers
begin

text \<open>
  Owner-marked node descriptors (\<^verbatim>\<open>src/src/membership.rs\<close>, the decoder of
  \<^verbatim>\<open>src/src/membership/page.rs\<close>, the patch values of \<^verbatim>\<open>src/src/view.rs\<close>), their register in the
  metadata store, the publication of the local descriptor (\<^verbatim>\<open>src/src/membership/sync.rs\<close>) and the
  metadata update of the supervisor. The derived CBOR codecs of the two record shapes, the host
  grammar and SHA-256 are arguments.
\<close>

section \<open>Records\<close>

definition NODE_DESCRIPTOR_SCHEMA :: ustr where
  "NODE_DESCRIPTOR_SCHEMA = lit ''radiata.woooo.tech/schemas/node-descriptor-v1''"
definition NODE_DESCRIPTOR_NAMESPACE :: ustr where
  "NODE_DESCRIPTOR_NAMESPACE = lit ''radiata.woooo.tech/metadata/node-descriptor-v1''"
definition IDENTITY_BINDING_NAMESPACE :: ustr where
  "IDENTITY_BINDING_NAMESPACE = lit ''radiata.woooo.tech/metadata/identity-binding-v1''"

record node_descriptor =
  nd_node :: ustr
  nd_public_key :: "byte list"
  nd_endpoints :: "endpoint list"
  nd_labels :: label_set
  nd_revision :: u64
  nd_removed :: bool
  nd_version :: u16

record descriptor_wire =
  dw_schema :: ustr
  dw_record_version :: u16
  dw_node :: ustr
  dw_public_key :: "byte list"
  dw_endpoints :: "ustr list"
  dw_revision :: u64
  dw_removed :: bool
  dw_version :: u16
  dw_labels :: "(ustr \<times> ustr) list"

text \<open>The previous shape ends at the version.\<close>

record descriptor_wire_v1 =
  dv_schema :: ustr
  dv_record_version :: u16
  dv_node :: ustr
  dv_public_key :: "byte list"
  dv_endpoints :: "ustr list"
  dv_revision :: u64
  dv_removed :: bool
  dv_version :: u16

record descriptor_codec =
  dc_dns :: "ustr \<Rightarrow> bool"
  dc_sha :: "byte list \<Rightarrow> digest"
  dc_encode :: "descriptor_wire \<Rightarrow> byte list result"
  dc_decode :: "byte list \<Rightarrow> descriptor_wire result"
  dc_encode_v1 :: "descriptor_wire_v1 \<Rightarrow> byte list result"
  dc_decode_v1 :: "byte list \<Rightarrow> descriptor_wire_v1 result"

definition descriptor_new :: "ustr \<Rightarrow> byte list \<Rightarrow> endpoint list \<Rightarrow> u64 \<Rightarrow> bool \<Rightarrow> u16 \<Rightarrow> node_descriptor" where
  "descriptor_new node public_key endpoints revision removed version =
     \<lparr>nd_node = node, nd_public_key = public_key, nd_endpoints = endpoints, nd_labels = label_set_new,
      nd_revision = revision, nd_removed = removed, nd_version = version\<rparr>"

definition with_labels :: "node_descriptor \<Rightarrow> label_set \<Rightarrow> node_descriptor" where
  "with_labels d labels = d\<lparr>nd_labels := labels\<rparr>"

definition descriptor_to_wire :: "node_descriptor \<Rightarrow> descriptor_wire" where
  "descriptor_to_wire d =
     \<lparr>dw_schema = NODE_DESCRIPTOR_SCHEMA, dw_record_version = 2, dw_node = nd_node d, dw_public_key = nd_public_key d,
      dw_endpoints = map ep_canonical (nd_endpoints d), dw_revision = nd_revision d, dw_removed = nd_removed d,
      dw_version = nd_version d, dw_labels = map (\<lambda>(key, v). (tag_value key, v)) (ls_entries (nd_labels d))\<rparr>"

definition descriptor_encode :: "descriptor_codec \<Rightarrow> node_descriptor \<Rightarrow> byte list result" where
  "descriptor_encode c d = dc_encode c (descriptor_to_wire d)"

text \<open>The fields both shapes share; \<open>df_labels\<close> is present for the current one.\<close>

record descriptor_fields =
  df_node :: ustr
  df_public_key :: "byte list"
  df_endpoints :: "ustr list"
  df_revision :: u64
  df_removed :: bool
  df_labels :: "(ustr \<times> ustr) list option"

fun decode_descriptor_labels :: "(ustr \<Rightarrow> bool) \<Rightarrow> ustr option \<Rightarrow> label_set \<Rightarrow> (ustr \<times> ustr) list \<Rightarrow> label_set result" where
  "decode_descriptor_labels dns previous labels [] = Ok labels"
| "decode_descriptor_labels dns previous labels ((key_text, value_text) # rest) =
     (if (case previous of Some p \<Rightarrow> key_text \<le> p | None \<Rightarrow> False)
      then Err (invalid_input ''node descriptor label order'')
      else and_then (map_err (label_key_parse dns key_text) (\<lambda>_. invalid_input ''node descriptor label'')) (\<lambda>key.
           and_then (map_err (label_value_parse value_text) (\<lambda>_. invalid_input ''node descriptor label value'')) (\<lambda>v.
           and_then (label_set_insert labels key v) (\<lambda>labels'.
             decode_descriptor_labels dns (Some key_text) labels' rest))))"

definition descriptor_from_wire ::
  "(ustr \<Rightarrow> bool) \<Rightarrow> ustr \<Rightarrow> u16 \<Rightarrow> u16 \<Rightarrow> descriptor_fields \<Rightarrow> node_descriptor result" where
  "descriptor_from_wire dns schema record_version version f =
     (if schema \<noteq> NODE_DESCRIPTOR_SCHEMA \<or> \<not> (record_version = 1 \<or> record_version = 2)
      then Err (invalid_input ''node descriptor schema'')
      else if version \<noteq> 1 then Err (invalid_input ''node descriptor version'')
      else if (record_version = 2) \<noteq> (df_labels f \<noteq> None) then Err (invalid_input ''node descriptor version'')
      else
        and_then (map_err (id_parse NodeId (df_node f)) (\<lambda>_. invalid_input ''node descriptor node'')) (\<lambda>node.
        if length (df_public_key f) \<noteq> 32 then Err (invalid_input ''node descriptor key'')
        else
          and_then (map_result (\<lambda>t. map_err (endpoint_parse dns t) (\<lambda>_. invalid_input ''node descriptor endpoint''))
              (df_endpoints f)) (\<lambda>endpoints.
          and_then (decode_descriptor_labels dns None label_set_new (case df_labels f of Some l \<Rightarrow> l | None \<Rightarrow> [])) (\<lambda>labels.
            Ok (with_labels (descriptor_new node (df_public_key f) endpoints (df_revision f) (df_removed f) version) labels)))))"

definition decode_descriptor_v1 :: "descriptor_codec \<Rightarrow> byte list \<Rightarrow> node_descriptor result" where
  "decode_descriptor_v1 c bytes =
     and_then (map_err (dc_decode_v1 c bytes) (\<lambda>_. invalid_input ''node descriptor decode'')) (\<lambda>w.
       if dc_encode_v1 c w \<noteq> Ok bytes then Err (invalid_input ''node descriptor canonical'')
       else descriptor_from_wire (dc_dns c) (dv_schema w) (dv_record_version w) (dv_version w)
         \<lparr>df_node = dv_node w, df_public_key = dv_public_key w, df_endpoints = dv_endpoints w,
          df_revision = dv_revision w, df_removed = dv_removed w, df_labels = None\<rparr>)"

definition decode_descriptor :: "descriptor_codec \<Rightarrow> byte list \<Rightarrow> node_descriptor result" where
  "decode_descriptor c bytes =
     (case dc_decode c bytes of
        Inr w \<Rightarrow>
          if dc_encode c w = Ok bytes
          then descriptor_from_wire (dc_dns c) (dw_schema w) (dw_record_version w) (dw_version w)
            \<lparr>df_node = dw_node w, df_public_key = dw_public_key w, df_endpoints = dw_endpoints w,
             df_revision = dw_revision w, df_removed = dw_removed w, df_labels = Some (dw_labels w)\<rparr>
          else decode_descriptor_v1 c bytes
      | Inl _ \<Rightarrow> decode_descriptor_v1 c bytes)"

definition node_descriptor_digest :: "descriptor_codec \<Rightarrow> node_descriptor \<Rightarrow> digest result" where
  "node_descriptor_digest c d = and_then (descriptor_encode c d) (\<lambda>bytes. Ok (dc_sha c bytes))"

section \<open>Owner patches\<close>

record metadata_patch =
  mp_add_endpoints :: "endpoint list"
  mp_remove_endpoints :: "endpoint list"
  mp_set_labels :: "(label_key \<times> label_value) list"
  mp_remove_labels :: "label_key list"

definition patch_new :: metadata_patch where
  "patch_new = \<lparr>mp_add_endpoints = [], mp_remove_endpoints = [], mp_set_labels = [], mp_remove_labels = []\<rparr>"

definition patch_add_endpoint :: "metadata_patch \<Rightarrow> endpoint \<Rightarrow> metadata_patch result" where
  "patch_add_endpoint p e =
     (if e \<in> set (mp_add_endpoints p) then Err (conflict ''node metadata endpoint'')
      else Ok (p\<lparr>mp_add_endpoints := mp_add_endpoints p @ [e]\<rparr>))"

definition patch_remove_endpoint :: "metadata_patch \<Rightarrow> endpoint \<Rightarrow> metadata_patch result" where
  "patch_remove_endpoint p e = Ok (p\<lparr>mp_remove_endpoints := mp_remove_endpoints p @ [e]\<rparr>)"

definition patch_set_capability :: "metadata_patch \<Rightarrow> label_key \<Rightarrow> label_value \<Rightarrow> metadata_patch result" where
  "patch_set_capability p key v =
     (if key \<in> fst ` set (mp_set_labels p) then Err (conflict ''node metadata label'')
      else Ok (p\<lparr>mp_set_labels := mp_set_labels p @ [(key, v)]\<rparr>))"

definition patch_remove_capability :: "metadata_patch \<Rightarrow> label_key \<Rightarrow> metadata_patch result" where
  "patch_remove_capability p key = Ok (p\<lparr>mp_remove_labels := mp_remove_labels p @ [key]\<rparr>)"

primrec add_endpoints :: "endpoint list \<Rightarrow> endpoint list \<Rightarrow> endpoint list result" where
  "add_endpoints endpoints [] = Ok endpoints"
| "add_endpoints endpoints (e # rest) =
     (if e \<in> set endpoints then Err (conflict ''node metadata endpoint'') else add_endpoints (endpoints @ [e]) rest)"

primrec remove_endpoints :: "endpoint list \<Rightarrow> endpoint list \<Rightarrow> endpoint list result" where
  "remove_endpoints endpoints [] = Ok endpoints"
| "remove_endpoints endpoints (e # rest) =
     (if e \<notin> set endpoints then Err (not_found ''node metadata endpoint'') else remove_endpoints (remove1 e endpoints) rest)"

primrec set_labels :: "label_set \<Rightarrow> (label_key \<times> label_value) list \<Rightarrow> label_set result" where
  "set_labels labels [] = Ok labels"
| "set_labels labels (kv # rest) =
     and_then (label_set_insert (fst (label_set_remove labels (fst kv))) (fst kv) (snd kv)) (\<lambda>labels'. set_labels labels' rest)"

primrec remove_labels :: "label_set \<Rightarrow> label_key list \<Rightarrow> label_set result" where
  "remove_labels labels [] = Ok labels"
| "remove_labels labels (key # rest) =
     (if \<not> label_set_contains labels key then Err (not_found ''node metadata label'')
      else remove_labels (fst (label_set_remove labels key)) rest)"

text \<open>The next revision is an unchecked addition.\<close>

definition apply_metadata_patch :: "node_descriptor \<Rightarrow> metadata_patch \<Rightarrow> node_descriptor result" where
  "apply_metadata_patch d p =
     and_then (add_endpoints (nd_endpoints d) (mp_add_endpoints p)) (\<lambda>added.
     and_then (remove_endpoints added (mp_remove_endpoints p)) (\<lambda>endpoints.
     and_then (set_labels (nd_labels d) (mp_set_labels p)) (\<lambda>merged.
     and_then (remove_labels merged (mp_remove_labels p)) (\<lambda>labels.
       Ok (with_labels (descriptor_new (nd_node d) (nd_public_key d) endpoints (nd_revision d + 1) False 1) labels)))))"

section \<open>The descriptor register\<close>

definition descriptor_namespace :: "descriptor_codec \<Rightarrow> store_namespace result" where
  "descriptor_namespace c = tag_parse (dc_dns c) NODE_DESCRIPTOR_NAMESPACE"

definition descriptor_key :: "ustr \<Rightarrow> store_key" where
  "descriptor_key node = as_bytes node"

definition identity_binding_key :: "descriptor_codec \<Rightarrow> ustr \<Rightarrow> (store_namespace \<times> store_key) result" where
  "identity_binding_key c node =
     and_then (metadata_namespace (dc_dns c) IDENTITY_BINDING_NAMESPACE) (\<lambda>ns. Ok (ns, as_bytes node))"

definition read_descriptor :: "descriptor_codec \<Rightarrow> 's storage \<Rightarrow> 's \<Rightarrow> ustr \<Rightarrow> node_descriptor option result" where
  "read_descriptor c so snap node =
     and_then (descriptor_namespace c) (\<lambda>ns.
     and_then (so_get so snap ns (descriptor_key node)) (\<lambda>current.
       case current of
         None \<Rightarrow> Ok None
       | Some v \<Rightarrow> and_then (decode_descriptor c (sv_value v)) (\<lambda>d. Ok (Some d))))"

text \<open>Whether the register accepts a descriptor: strictly higher than a current one and never
  live over a removal; a first one at revision 1, or at any revision for a bound node.\<close>

definition check_descriptor :: "descriptor_codec \<Rightarrow> 's storage \<Rightarrow> 's \<Rightarrow> store_namespace \<Rightarrow> node_descriptor \<Rightarrow> unit result" where
  "check_descriptor c so snap ns d =
     and_then (so_get so snap ns (descriptor_key (nd_node d))) (\<lambda>current.
       case current of
         Some v \<Rightarrow>
           and_then (decode_descriptor c (sv_value v)) (\<lambda>existing.
             if nd_revision d \<le> nd_revision existing then Err (conflict ''node descriptor revision'')
             else if nd_removed existing \<and> \<not> nd_removed d then Err (conflict ''node descriptor removal'')
             else Ok ())
       | None \<Rightarrow>
           if nd_revision d \<noteq> 1
           then and_then (identity_binding_key c (nd_node d)) (\<lambda>(binding_ns, binding_key).
                  and_then (so_get so snap binding_ns binding_key) (\<lambda>adopted.
                    if adopted = None then Err (conflict ''node descriptor revision'') else Ok ()))
           else Ok ())"

definition prepare_descriptor ::
  "descriptor_codec \<Rightarrow> 's storage \<Rightarrow> 's \<Rightarrow> transaction_id result \<Rightarrow> store_namespace \<Rightarrow> node_descriptor \<Rightarrow> store_transaction result" where
  "prepare_descriptor c so snap tid ns d =
     and_then (snapshot_expectation (so_get so snap ns (descriptor_key (nd_node d)))) (\<lambda>expected.
     and_then tid (\<lambda>t.
     and_then (so_revision so snap) (\<lambda>revision.
     and_then (descriptor_encode c d) (\<lambda>bytes.
       prepare_transaction (dc_sha c) (dc_dns c) t revision
         [Put ns (descriptor_key (nd_node d)) expected (store_value_new (dc_sha c) bytes)]))))"

definition store_descriptor ::
  "descriptor_codec \<Rightarrow> 's storage \<Rightarrow> 's \<Rightarrow> 's \<times> commit_state \<Rightarrow> transaction_id result \<Rightarrow> node_descriptor \<Rightarrow>
   ('s \<times> commit_state) \<times> unit result" where
  "store_descriptor c so snap sys tid d =
     (case and_then (descriptor_namespace c) (\<lambda>ns.
          and_then (check_descriptor c so snap ns d) (\<lambda>_. prepare_descriptor c so snap tid ns d)) of
        Inl e \<Rightarrow> (sys, Err e)
      | Inr tx \<Rightarrow>
          (case store_commit (so_commit so) sys tx of
             (sys', Inl e) \<Rightarrow> (sys', Err e)
           | (sys', Inr (Committed _)) \<Rightarrow> (sys', Ok ())
           | (sys', Inr Aborted) \<Rightarrow> (sys', Ok ())
           | (sys', Inr ConflictOutcome) \<Rightarrow> (sys', Err (conflict ''node descriptor revision''))
           | (sys', Inr (UnknownOutcome _ _)) \<Rightarrow> (sys', Err (provider_error P_CommitUnknown StorageCommit))))"

section \<open>The local descriptor\<close>

definition saturating_succ_u64 :: "u64 \<Rightarrow> u64" where
  "saturating_succ_u64 r = (if r = - 1 then r else r + 1)"

text \<open>Every read takes a new snapshot, here the state at that point.\<close>

definition ensure_local_descriptor ::
  "descriptor_codec \<Rightarrow> 's storage \<Rightarrow> 's \<times> commit_state \<Rightarrow> transaction_id result \<Rightarrow> ustr \<Rightarrow> byte list \<Rightarrow> endpoint list \<Rightarrow>
   ('s \<times> commit_state) \<times> unit result" where
  "ensure_local_descriptor c so sys tid node public_key endpoints =
     (case read_descriptor c so (fst sys) node of
        Inl e \<Rightarrow> (sys, Err e)
      | Inr existing \<Rightarrow>
          if (case existing of Some current \<Rightarrow> nd_endpoints current = endpoints \<or> endpoints = [] | None \<Rightarrow> False)
          then (sys, Ok ())
          else
            (let revision = (case existing of None \<Rightarrow> 1 | Some current \<Rightarrow> saturating_succ_u64 (nd_revision current));
                 d = descriptor_new node public_key endpoints revision False 1
             in case store_descriptor c so (fst sys) sys tid d of
                  (sys', Inr _) \<Rightarrow> (sys', Ok ())
                | (sys', Inl e) \<Rightarrow>
                    (case read_descriptor c so (fst sys') node of
                       Inl e' \<Rightarrow> (sys', Err e')
                     | Inr None \<Rightarrow> (sys', Err e)
                     | Inr (Some current) \<Rightarrow> if revision \<le> nd_revision current then (sys', Ok ()) else (sys', Err e))))"

text \<open>The owner's update, without the event it emits and the view it returns.\<close>

definition update_node_metadata ::
  "descriptor_codec \<Rightarrow> 's storage \<Rightarrow> 's \<times> commit_state \<Rightarrow> transaction_id result \<Rightarrow> ustr \<Rightarrow> u64 \<Rightarrow> metadata_patch \<Rightarrow>
   ('s \<times> commit_state) \<times> node_descriptor result" where
  "update_node_metadata c so sys tid local expected_revision patch =
     (case and_then (read_descriptor c so (fst sys) local) (\<lambda>found.
          and_then (ok_or found (not_ready ''local descriptor'')) (\<lambda>current.
            if nd_revision current \<noteq> expected_revision then Err (conflict ''node metadata revision'')
            else apply_metadata_patch current patch)) of
        Inl e \<Rightarrow> (sys, Err e)
      | Inr updated \<Rightarrow>
          (case store_descriptor c so (fst sys) sys tid updated of
             (sys', Inl e) \<Rightarrow> (sys', Err e)
           | (sys', Inr _) \<Rightarrow> (sys', Ok updated)))"

section \<open>Decoding inverts encoding\<close>

text \<open>What the records rely on in the codec: the decoder inverts the encoder, and host names are
  case-insensitive.\<close>

definition descriptor_codec_ok :: "descriptor_codec \<Rightarrow> bool" where
  "descriptor_codec_ok c \<longleftrightarrow> (\<forall>w bytes. dc_encode c w = Ok bytes \<longrightarrow> dc_decode c bytes = Ok w) \<and>
     (\<forall>h. dc_dns c (to_ascii_lowercase h) = dc_dns c h)"

text \<open>A descriptor as the parsers and constructors make it.\<close>

definition descriptor_ok :: "descriptor_codec \<Rightarrow> node_descriptor \<Rightarrow> bool" where
  "descriptor_ok c d \<longleftrightarrow>
     id_parse NodeId (nd_node d) = Ok (nd_node d) \<and> length (nd_public_key d) = 32 \<and> nd_version d = 1 \<and>
     (\<forall>e\<in>set (nd_endpoints d). \<exists>spelling. endpoint_parse (dc_dns c) spelling = Ok e) \<and> label_set_ok (nd_labels d) \<and>
     (\<forall>e\<in>set (ls_entries (nd_labels d)). (\<exists>s. label_key_parse (dc_dns c) s = Ok (fst e)) \<and> label_value_parse (snd e) = Ok (snd e))"

lemma tag_less_text: "k < k' \<Longrightarrow> label_key_parse dns (tag_value k) = Ok k \<Longrightarrow> label_key_parse dns (tag_value k') = Ok k' \<Longrightarrow>
   tag_value k < tag_value k'"
proof -
  assume a: "k < k'" "label_key_parse dns (tag_value k) = Ok k" "label_key_parse dns (tag_value k') = Ok k'"
  have "tag_value k \<noteq> tag_value k'"
  proof
    assume e: "tag_value k = tag_value k'"
    have "Ok k = (Ok k' :: qualified_tag result)" by (rule trans [OF sym [OF a(2) [unfolded e]] a(3)])
    then have "k = k'" by (rule sum.inject(2) [THEN iffD1])
    with a(1) show False by (simp only: less_irrefl)
  qed
  moreover have "tag_fields k < tag_fields k'" using a(1) by (simp add: less_qualified_tag_def)
  ultimately show ?thesis unfolding tag_fields_def less_prod_simp by (metis order_le_imp_less_or_eq)
qed

lemma decode_descriptor_labels_entries:
  assumes "bt_ok (pre @ es)" "length (pre @ es) \<le> LABEL_SET_MAX_ENTRIES"
    and "\<forall>e\<in>set es. label_key_parse dns (tag_value (fst e)) = Ok (fst e) \<and> label_value_parse (snd e) = Ok (snd e)"
    and "case previous of None \<Rightarrow> True | Some p \<Rightarrow> (\<forall>e\<in>set es. p < tag_value (fst e))"
  shows "decode_descriptor_labels dns previous \<lparr>ls_entries = pre\<rparr> (map (\<lambda>(key, v). (tag_value key, v)) es) = Ok \<lparr>ls_entries = pre @ es\<rparr>"
  using assms
proof (induction es arbitrary: pre previous)
  case (Cons e es)
  have "bt_ok (pre @ [e])" using Cons.prems(1) by (auto simp: bt_ok_def sorted_wrt_append)
  then have i: "label_set_insert \<lparr>ls_entries = pre\<rparr> (fst e) (snd e) = Ok \<lparr>ls_entries = pre @ [e]\<rparr>"
    using Cons.prems(2) by (intro label_set_insert_last) simp_all
  have "tag_value (fst e) < tag_value (fst x)" if "x \<in> set es" for x
    by (rule tag_less_text [where dns = dns]) (use that Cons.prems(1,3) in \<open>auto simp: bt_ok_def sorted_wrt_append\<close>)
  then have "decode_descriptor_labels dns (Some (tag_value (fst e))) \<lparr>ls_entries = pre @ [e]\<rparr> (map (\<lambda>(key, v). (tag_value key, v)) es) =
      Ok \<lparr>ls_entries = (pre @ [e]) @ es\<rparr>"
    using Cons.prems by (intro Cons.IH) simp_all
  moreover have "(case previous of Some p \<Rightarrow> tag_value (fst e) \<le> p | None \<Rightarrow> False) = False"
    using Cons.prems(4) by (auto split: option.splits)
  ultimately show ?case using i Cons.prems(3) by (cases e) (simp only: list.map prod.case decode_descriptor_labels.simps fst_conv snd_conv, simp)
qed simp

lemma descriptor_decode_encode:
  assumes "descriptor_codec_ok c" "descriptor_ok c d" "descriptor_encode c d = Ok bytes"
  shows "decode_descriptor c bytes = Ok d"
proof -
  have dns: "\<And>h. dc_dns c (to_ascii_lowercase h) = dc_dns c h" using assms(1) by (simp add: descriptor_codec_ok_def)
  have w: "dc_decode c bytes = Ok (descriptor_to_wire d)" "dc_encode c (descriptor_to_wire d) = Ok bytes"
    using assms(1,3) by (simp_all add: descriptor_codec_ok_def descriptor_encode_def)
  have k: "\<forall>e\<in>set (ls_entries (nd_labels d)). label_key_parse (dc_dns c) (tag_value (fst e)) = Ok (fst e) \<and> label_value_parse (snd e) = Ok (snd e)"
    using assms(2) dns category_reparse [of "lit ''labels''" "''label key''" "dc_dns c"]
    by (auto simp: descriptor_ok_def label_key_parse_def CATEGORY_CRYPTO_def)
  have l: "decode_descriptor_labels (dc_dns c) None label_set_new (map (\<lambda>(key, v). (tag_value key, v)) (ls_entries (nd_labels d))) = Ok (nd_labels d)"
    using decode_descriptor_labels_entries [OF _ _ k, of "[]" None] assms(2)
    by (cases "nd_labels d") (simp add: descriptor_ok_def label_set_ok_def label_set_new_def)
  have "map_result (\<lambda>t. map_err (endpoint_parse (dc_dns c) t) (\<lambda>_. invalid_input ''node descriptor endpoint'')) (map ep_canonical (nd_endpoints d)) =
      Ok (map (\<lambda>e. e) (nd_endpoints d))"
    unfolding map_result_map
    by (rule map_result_total) (use assms(2) endpoint_reparse in \<open>auto simp: descriptor_ok_def\<close>)
  with w l assms(2) show ?thesis
    by (simp add: decode_descriptor_def descriptor_to_wire_def descriptor_from_wire_def descriptor_ok_def with_labels_def descriptor_new_def)
qed

text \<open>Decoding and patching give well-formed descriptors.\<close>

definition labels_ok :: "(ustr \<Rightarrow> bool) \<Rightarrow> label_set \<Rightarrow> bool" where
  "labels_ok dns l \<longleftrightarrow> label_set_ok l \<and>
     (\<forall>e\<in>set (ls_entries l). (\<exists>s. label_key_parse dns s = Ok (fst e)) \<and> label_value_parse (snd e) = Ok (snd e))"

lemma descriptor_ok_labels: "descriptor_ok c d \<longleftrightarrow>
    id_parse NodeId (nd_node d) = Ok (nd_node d) \<and> length (nd_public_key d) = 32 \<and> nd_version d = 1 \<and>
    (\<forall>e\<in>set (nd_endpoints d). \<exists>spelling. endpoint_parse (dc_dns c) spelling = Ok e) \<and> labels_ok (dc_dns c) (nd_labels d)"
  by (simp add: descriptor_ok_def labels_ok_def)

lemma set_bt_insert_cases: "x \<in> set (bt_insert k v m) \<Longrightarrow> x = (k, v) \<or> x \<in> set m"
  by (induction m) (auto split: if_split_asm)

lemma labels_ok_insert:
  assumes "labels_ok dns l" "label_set_insert l key v = Ok l'" "label_key_parse dns s = Ok key" "label_value_parse v = Ok v"
  shows "labels_ok dns l'"
proof -
  have e: "ls_entries l' = bt_insert key v (ls_entries l)" using assms(2) by (auto simp: label_set_insert_def split: if_split_asm)
  have "(\<exists>s. label_key_parse dns s = Ok (fst x)) \<and> label_value_parse (snd x) = Ok (snd x)" if "x \<in> set (ls_entries l')" for x
  proof -
    from that have "x = (key, v) \<or> x \<in> set (ls_entries l)" unfolding e by (rule set_bt_insert_cases)
    then show ?thesis
    proof
      assume "x = (key, v)"
      with assms(3,4) show ?thesis by auto
    next
      assume "x \<in> set (ls_entries l)"
      with assms(1) show ?thesis unfolding labels_ok_def by blast
    qed
  qed
  with assms(1,2) label_set_insert_ok [of l key v l'] show ?thesis unfolding labels_ok_def by blast
qed

lemma labels_ok_remove: "labels_ok dns l \<Longrightarrow> labels_ok dns (fst (label_set_remove l key))"
  using label_set_remove_ok [of l key] by (auto simp: labels_ok_def label_set_remove_def bt_remove_def)

lemma decode_descriptor_labels_ok:
  "labels_ok dns l \<Longrightarrow> decode_descriptor_labels dns previous l es = Ok l' \<Longrightarrow> labels_ok dns l'"
proof (induction dns previous l es rule: decode_descriptor_labels.induct)
  case (2 dns previous labels key_text value_text rest)
  then obtain key v labels1 where k: "label_key_parse dns key_text = Ok key" "label_value_parse value_text = Ok v"
    "label_set_insert labels key v = Ok labels1" "decode_descriptor_labels dns (Some key_text) labels1 rest = Ok l'"
    "\<not> (case previous of Some p \<Rightarrow> key_text \<le> p | None \<Rightarrow> False)"
    by (auto simp: and_then_Ok_iff map_err_Ok_iff split: if_split_asm)
  have "label_value_parse v = Ok v" using k(2) by (auto simp: label_value_parse_def split: if_split_asm)
  from labels_ok_insert [OF "2.prems"(1) k(3,1) this] "2.IH" k show ?case by (simp add: map_err_def)
qed simp

lemma labels_ok_new: "labels_ok dns label_set_new"
  using label_set_new_ok by (simp add: labels_ok_def label_set_new_def)

lemma from_wire_ok: "descriptor_from_wire (dc_dns c) schema rv version f = Ok d \<Longrightarrow> descriptor_ok c d"
proof -
  assume "descriptor_from_wire (dc_dns c) schema rv version f = Ok d"
  then obtain node endpoints labels where d: "version = 1" "id_parse NodeId (df_node f) = Ok node" "length (df_public_key f) = 32"
    "map_result (\<lambda>t. map_err (endpoint_parse (dc_dns c) t) (\<lambda>_. invalid_input ''node descriptor endpoint'')) (df_endpoints f) = Ok endpoints"
    "decode_descriptor_labels (dc_dns c) None label_set_new (case df_labels f of Some l \<Rightarrow> l | None \<Rightarrow> []) = Ok labels"
    "d = with_labels (descriptor_new node (df_public_key f) endpoints (df_revision f) (df_removed f) version) labels"
    unfolding descriptor_from_wire_def by (auto simp: and_then_Ok_iff split: if_split_asm)
  have "id_parse NodeId node = Ok node" using d(2) by (auto simp: id_parse_def and_then_Ok_iff)
  moreover have "\<exists>spelling. endpoint_parse (dc_dns c) spelling = Ok e" if "e \<in> set endpoints" for e
    using d(4) that unfolding map_result_Ok_iff list_all2_conv_all_nth by (auto simp: in_set_conv_nth)
  ultimately show ?thesis using decode_descriptor_labels_ok [OF labels_ok_new d(5)] d(1,3,6)
    by (simp add: descriptor_ok_labels with_labels_def descriptor_new_def)
qed

lemma decoded_descriptor_ok: "decode_descriptor c bytes = Ok d \<Longrightarrow> descriptor_ok c d"
  by (auto simp: decode_descriptor_def decode_descriptor_v1_def and_then_Ok_iff split: sum.split_asm if_split_asm intro: from_wire_ok)

definition patch_ok :: "descriptor_codec \<Rightarrow> metadata_patch \<Rightarrow> bool" where
  "patch_ok c p \<longleftrightarrow> (\<forall>e\<in>set (mp_add_endpoints p). \<exists>spelling. endpoint_parse (dc_dns c) spelling = Ok e) \<and>
     (\<forall>e\<in>set (mp_set_labels p). (\<exists>s. label_key_parse (dc_dns c) s = Ok (fst e)) \<and> label_value_parse (snd e) = Ok (snd e))"

lemma add_endpoints_Ok: "add_endpoints es ns = Ok r \<Longrightarrow> r = es @ ns"
proof (induction ns arbitrary: es)
  case (Cons n ns)
  then show ?case using Cons.IH [of "es @ [n]"] by (simp split: if_split_asm)
qed simp

lemma remove_endpoints_Ok: "remove_endpoints es ns = Ok r \<Longrightarrow> set r \<subseteq> set es"
proof (induction ns arbitrary: es)
  case (Cons e ns)
  then show ?case using set_remove1_subset [of e es] by (fastforce split: if_split_asm)
qed simp

lemma set_labels_ok:
  "labels_ok dns l \<Longrightarrow> (\<forall>e\<in>set kvs. (\<exists>s. label_key_parse dns s = Ok (fst e)) \<and> label_value_parse (snd e) = Ok (snd e)) \<Longrightarrow>
   set_labels l kvs = Ok l' \<Longrightarrow> labels_ok dns l'"
proof (induction kvs arbitrary: l)
  case (Cons kv kvs)
  then obtain l1 s where l: "label_set_insert (fst (label_set_remove l (fst kv))) (fst kv) (snd kv) = Ok l1" "set_labels l1 kvs = Ok l'"
    "label_key_parse dns s = Ok (fst kv)" "label_value_parse (snd kv) = Ok (snd kv)" by (auto simp: and_then_Ok_iff)
  from labels_ok_insert [OF labels_ok_remove [OF Cons.prems(1)] l(1,3,4)] Cons.IH l(2) Cons.prems(2) show ?case by simp
qed simp

lemma remove_labels_ok: "labels_ok dns l \<Longrightarrow> remove_labels l ks = Ok l' \<Longrightarrow> labels_ok dns l'"
  by (induction ks arbitrary: l) (auto split: if_split_asm intro: labels_ok_remove)

lemma patched_descriptor_ok:
  assumes "descriptor_ok c d" "patch_ok c p" "apply_metadata_patch d p = Ok d'"
  shows "descriptor_ok c d' \<and> nd_node d' = nd_node d \<and> nd_revision d' = nd_revision d + 1 \<and> \<not> nd_removed d' \<and>
    nd_public_key d' = nd_public_key d"
proof -
  from assms(3) obtain added endpoints merged labels where a: "add_endpoints (nd_endpoints d) (mp_add_endpoints p) = Ok added"
    "remove_endpoints added (mp_remove_endpoints p) = Ok endpoints" "set_labels (nd_labels d) (mp_set_labels p) = Ok merged"
    "remove_labels merged (mp_remove_labels p) = Ok labels"
    "d' = with_labels (descriptor_new (nd_node d) (nd_public_key d) endpoints (nd_revision d + 1) False 1) labels"
    by (auto simp: apply_metadata_patch_def and_then_Ok_iff)
  have "set endpoints \<subseteq> set (nd_endpoints d) \<union> set (mp_add_endpoints p)"
    using remove_endpoints_Ok [OF a(2)] add_endpoints_Ok [OF a(1)] by auto
  moreover have "labels_ok (dc_dns c) labels"
    by (rule remove_labels_ok [OF set_labels_ok [OF _ _ a(3)] a(4)]) (use assms(1,2) in \<open>auto simp: descriptor_ok_labels patch_ok_def\<close>)
  ultimately show ?thesis using assms(1,2) by (auto simp: a(5) descriptor_ok_labels with_labels_def descriptor_new_def patch_ok_def)
qed

section \<open>The register\<close>

definition descriptor_ns :: store_namespace where
  "descriptor_ns = builtin_tag ''metadata'' ''node-descriptor-v1''"

definition binding_ns :: store_namespace where
  "binding_ns = builtin_tag ''metadata'' ''identity-binding-v1''"

lemma descriptor_namespace_Ok: "dc_dns c BUILTIN_DOMAIN \<Longrightarrow> descriptor_namespace c = Ok descriptor_ns"
  using builtin_text_parse [of "dc_dns c" "''metadata''" "''node-descriptor-v1''"]
  by (simp add: descriptor_ns_def descriptor_namespace_def NODE_DESCRIPTOR_NAMESPACE_def name_component_defs CATEGORY_CRYPTO_def)

lemma binding_key_Ok: "dc_dns c BUILTIN_DOMAIN \<Longrightarrow> identity_binding_key c node = Ok (binding_ns, descriptor_key node)"
  using builtin_text_parse [of "dc_dns c" "''metadata''" "''identity-binding-v1''"]
  by (simp add: binding_ns_def identity_binding_key_def metadata_namespace_def IDENTITY_BINDING_NAMESPACE_def CATEGORY_METADATA_def
      name_component_defs CATEGORY_CRYPTO_def descriptor_key_def)

lemma descriptor_ns_ok: "namespace_ok descriptor_ns" "namespace_ok binding_ns" "descriptor_ns \<noteq> internal_ns"
  "tag_value descriptor_ns \<noteq> INTERNAL_NAMESPACE" "binding_ns \<noteq> internal_ns" "binding_ns \<noteq> descriptor_ns"
  unfolding descriptor_ns_def binding_ns_def
  by (rule namespace_ok_make_tag, simp_all add: BUILTIN_DOMAIN_def LENGTH_BOUND_def)
     (rule namespace_ok_make_tag, simp_all add: BUILTIN_DOMAIN_def LENGTH_BOUND_def make_tag_def internal_ns_def INTERNAL_NAMESPACE_def)

text \<open>What the register holds for a node, and what it accepts.\<close>

definition descriptor_at :: "descriptor_codec \<Rightarrow> abs_store \<Rightarrow> ustr \<Rightarrow> node_descriptor option" where
  "descriptor_at c st node =
     (case as_entries st (descriptor_ns, descriptor_key node) of
        None \<Rightarrow> None
      | Some bytes \<Rightarrow> (case decode_descriptor c bytes of Inr d \<Rightarrow> Some d | Inl _ \<Rightarrow> None))"

definition admissible :: "descriptor_codec \<Rightarrow> abs_store \<Rightarrow> node_descriptor \<Rightarrow> bool" where
  "admissible c st d \<longleftrightarrow>
     (if as_entries st (descriptor_ns, descriptor_key (nd_node d)) = None
      then nd_revision d = 1 \<or> as_entries st (binding_ns, descriptor_key (nd_node d)) \<noteq> None
      else \<exists>e. descriptor_at c st (nd_node d) = Some e \<and> nd_revision e < nd_revision d \<and> (nd_removed e \<longrightarrow> nd_removed d))"

lemma utf8_char_high: "\<not> c < 128 \<Longrightarrow> \<exists>b\<in>set (utf8_char c). 128 \<le> b"
proof -
  assume "\<not> c < 128"
  then have "(word_of_nat (128 + c mod 64) :: byte) \<in> set (utf8_char c)" by (simp add: utf8_char_def)
  moreover have "(128 :: byte) \<le> word_of_nat (128 + c mod 64)"
  proof -
    have "c mod 64 < 64" by simp
    then have "128 + c mod 64 < 2 ^ 8" by simp
    then have "unat (word_of_nat (128 + c mod 64) :: byte) = 128 + c mod 64"
      by (simp only: unsigned_of_nat) (simp add: take_bit_nat_eq_self)
    moreover have "unat (128 :: byte) = 128" by simp
    ultimately show ?thesis unfolding word_le_nat_alt by (simp only: le_add1)
  qed
  ultimately show ?thesis by blast
qed

lemma id_parse_ascii: "id_parse fam n = Ok m \<Longrightarrow> is_ascii n"
proof -
  assume "id_parse fam n = Ok m"
  then have n: "prefix (as_bytes (id_prefix fam)) (as_bytes n)" "list_all is_base62 (drop (str_len (id_prefix fam)) (as_bytes n))"
    by (auto simp: id_parse_def validate_id_def and_then_Ok_iff Let_def split: if_split_asm)
  have "b < 128" if b: "b \<in> set (as_bytes n)" for b
  proof -
    from n(1) obtain r where r: "as_bytes n = as_bytes (id_prefix fam) @ r" by (auto simp: prefix_def)
    have l: "str_len (id_prefix fam) = length (as_bytes (id_prefix fam))" by (simp add: str_len_ascii as_bytes_ascii)
    consider "b \<in> set (as_bytes (id_prefix fam))" | "b \<in> set r" using b r by auto
    then show ?thesis
    proof cases
      case 1
      then show ?thesis by (cases fam) auto
    next
      case 2
      with n(2) r l have "is_base62 b" by (simp add: list_all_iff)
      then show ?thesis by (auto simp: is_base62_def word_le_nat_alt word_less_nat_alt)
    qed
  qed
  then have "c < 128" if "c \<in> set n" for c
    using that utf8_char_high [of c] by (fastforce simp: as_bytes_def)
  then show ?thesis by (auto simp: is_ascii_def list_all_iff)
qed

lemma descriptor_key_inj: "id_parse NodeId n = Ok n \<Longrightarrow> id_parse NodeId m = Ok m \<Longrightarrow> descriptor_key n = descriptor_key m \<Longrightarrow> n = m"
  using as_bytes_eq id_parse_ascii by (simp add: descriptor_key_def)

context snapshot_backend
begin

lemma descriptor_get:
  assumes "inv snap"
  shows "so_get so snap descriptor_ns key = Ok (map_option (store_value_new sha) (as_entries (abs snap) (descriptor_ns, key)))"
    and "so_get so snap binding_ns key = Ok (map_option (store_value_new sha) (as_entries (abs snap) (binding_ns, key)))"
  by (rule get_refines [OF assms descriptor_ns_ok(1)], rule get_refines [OF assms descriptor_ns_ok(2)])

lemma check_descriptor_Ok:
  assumes "inv snap" "dc_dns c BUILTIN_DOMAIN"
  shows "check_descriptor c so snap descriptor_ns d = Ok () \<longleftrightarrow> admissible c (abs snap) d"
proof (cases "as_entries (abs snap) (descriptor_ns, descriptor_key (nd_node d))")
  case None
  then show ?thesis
    by (simp add: check_descriptor_def descriptor_get [OF assms(1)] binding_key_Ok [OF assms(2)] admissible_def)
next
  case (Some bytes)
  then show ?thesis
    by (cases "decode_descriptor c bytes")
      (auto simp: check_descriptor_def descriptor_get [OF assms(1)] admissible_def descriptor_at_def store_value_new_def)
qed

lemma read_descriptor_Ok:
  assumes "inv snap" "dc_dns c BUILTIN_DOMAIN"
  shows "read_descriptor c so snap node = Ok (Some d) \<longleftrightarrow> descriptor_at c (abs snap) node = Some d"
    and "read_descriptor c so snap node = Ok None \<longleftrightarrow> as_entries (abs snap) (descriptor_ns, descriptor_key node) = None"
proof -
  let ?v = "as_entries (abs snap) (descriptor_ns, descriptor_key node)"
  have r: "read_descriptor c so snap node = (case ?v of None \<Rightarrow> Ok None | Some b \<Rightarrow> and_then (decode_descriptor c b) (\<lambda>d. Ok (Some d)))"
    by (cases ?v) (simp_all add: read_descriptor_def descriptor_namespace_Ok [OF assms(2)] descriptor_get [OF assms(1)] store_value_new_def)
  show "read_descriptor c so snap node = Ok (Some d) \<longleftrightarrow> descriptor_at c (abs snap) node = Some d"
    unfolding r descriptor_at_def by (auto split: option.split sum.split simp: and_then_Ok_iff)
  show "read_descriptor c so snap node = Ok None \<longleftrightarrow> ?v = None"
    unfolding r by (auto split: option.split simp: and_then_Ok_iff)
qed

lemma store_descriptor_effect:
  assumes "inv snap" "inv s" "later sha (abs snap) (abs s)" "dc_sha c = sha" "dc_dns c BUILTIN_DOMAIN"
    and "\<And>bytes. length (sha bytes) = 32" "fresh_id (abs s) tid" "descriptor_codec_ok c" "descriptor_ok c d"
    and "store_descriptor c so snap (s, state) tid d = ((s', state'), r)"
  shows "inv s' \<and> (abs s' = abs s \<or>
      admissible c (abs s) d \<and> descriptor_at c (abs s') (nd_node d) = Some d \<and> later sha (abs s) (abs s') \<and>
      (\<exists>t bytes. as_entries (abs s') = (as_entries (abs s))((descriptor_ns, descriptor_key (nd_node d)) := Some bytes,
        (internal_ns, used_id_key t) := Some ACTIVE_MARKER_VALUE)))"
proof (cases "and_then (check_descriptor c so snap descriptor_ns d) (\<lambda>_. prepare_descriptor c so snap tid descriptor_ns d)")
  case (Inl e)
  with assms(2,10) show ?thesis by (auto simp: store_descriptor_def descriptor_namespace_Ok [OF assms(5)])
next
  case (Inr tx)
  let ?key = "descriptor_key (nd_node d)"
  have adm: "admissible c (abs snap) d"
    using Inr check_descriptor_Ok [OF assms(1,5)] by (auto simp: and_then_Ok_iff)
  obtain e t revision bytes where p: "tid = Ok t" "so_revision so snap = Ok revision" "descriptor_encode c d = Ok bytes"
    "prepare_transaction sha (dc_dns c) t revision [Put descriptor_ns ?key e (store_value_new sha bytes)] = Ok tx"
    using Inr by (auto simp: prepare_descriptor_def and_then_Ok_iff assms(4))
  have ok: "transaction_ok sha tx"
    by (rule prepared_ok [OF assms(5) prepare_Ok(1) [OF p(4)]])
      (use assms(6,7) p(1) descriptor_ns_ok(1) in \<open>simp_all add: fresh_id_def store_value_new_def\<close>)
  obtain sys a where sc: "store_commit (so_commit so) (s, state) tx = (sys, a)"
    by (cases "store_commit (so_commit so) (s, state) tx")
  have sys: "sys = (s', state')"
    using assms(10) Inr sc by (auto simp: store_descriptor_def descriptor_namespace_Ok [OF assms(5)] split: sum.split_asm commit_outcome.split_asm)
  have eff: "op_effect (Put descriptor_ns ?key e (store_value_new sha bytes)) = Some (descriptor_ns, ?key, Some bytes)"
    by (simp add: store_value_new_def)
  note w = caller_write [OF assms(1-3) _ p(4) ok eff p(2) sc [unfolded sys], OF assms(5)]
  have "descriptor_at c (abs s') (nd_node d) = Some d"
    if "as_entries (abs s') = (as_entries (abs s))((descriptor_ns, ?key) := Some bytes, (internal_ns, used_id_key t) := Some ACTIVE_MARKER_VALUE)"
    using descriptor_decode_encode [OF assms(8,9) p(3)] descriptor_ns_ok(3) by (simp add: descriptor_at_def that)
  moreover have "later sha (abs s) (abs_commit (abs s) tx)" if "as_generation (abs s) \<noteq> - 1"
    using later_commit [OF later_refl that] .
  ultimately show ?thesis using w adm by metis
qed

end

text \<open>Runs of the register over redb: stores decided on any earlier snapshot under any engine
  outcome, and writes of other components that leave the descriptors alone.\<close>

inductive descriptor_run :: "descriptor_codec \<Rightarrow> redb_database \<Rightarrow> redb_database \<Rightarrow> bool" for c s where
  run_start: "descriptor_run c s s"
| run_store: "descriptor_run c s s1 \<Longrightarrow> redb_inv snap \<Longrightarrow> later (dc_sha c) (redb_abs snap) (redb_abs s1) \<Longrightarrow>
    fresh_id (redb_abs s1) tid \<Longrightarrow> descriptor_ok c d \<Longrightarrow>
    store_descriptor c (redb_storage (dc_sha c) io) snap (s1, state) tid d = ((s2, state'), r) \<Longrightarrow> descriptor_run c s s2"
| run_other: "descriptor_run c s s1 \<Longrightarrow> redb_inv s2 \<Longrightarrow>
    (\<And>key. as_entries (redb_abs s2) (descriptor_ns, key) = as_entries (redb_abs s1) (descriptor_ns, key)) \<Longrightarrow> descriptor_run c s s2"

lemma descriptor_at_key:
  "descriptor_key n = descriptor_key m \<Longrightarrow> descriptor_at c st n = descriptor_at c st m"
  "as_entries st (descriptor_ns, descriptor_key n) = as_entries st' (descriptor_ns, descriptor_key n) \<Longrightarrow>
   descriptor_at c st n = descriptor_at c st' n"
  by (simp_all add: descriptor_at_def)

lemma descriptor_step_monotone:
  assumes "redb_inv snap" "redb_inv s" "later (dc_sha c) (redb_abs snap) (redb_abs s)" "dc_dns c BUILTIN_DOMAIN"
    and "\<And>bytes. length (dc_sha c bytes) = 32" "fresh_id (redb_abs s) tid" "descriptor_codec_ok c" "descriptor_ok c d"
    and "store_descriptor c (redb_storage (dc_sha c) io) snap (s, state) tid d = ((s', state'), r)"
  shows "redb_inv s'" and "descriptor_at c (redb_abs s) n = Some old \<Longrightarrow>
    \<exists>new. descriptor_at c (redb_abs s') n = Some new \<and> (new = old \<or> nd_revision old < nd_revision new) \<and> (nd_removed old \<longrightarrow> nd_removed new)"
proof -
  note e = rs.store_descriptor_effect [OF assms(1-3) refl assms(4-9)]
  show "redb_inv s'" using e by simp
  assume old: "descriptor_at c (redb_abs s) n = Some old"
  show "\<exists>new. descriptor_at c (redb_abs s') n = Some new \<and> (new = old \<or> nd_revision old < nd_revision new) \<and> (nd_removed old \<longrightarrow> nd_removed new)"
  proof (cases "redb_abs s' = redb_abs s")
    case False
    with e obtain t bytes where c: "admissible c (redb_abs s) d" "descriptor_at c (redb_abs s') (nd_node d) = Some d"
      "as_entries (redb_abs s') = (as_entries (redb_abs s))((descriptor_ns, descriptor_key (nd_node d)) := Some bytes,
        (internal_ns, used_id_key t) := Some ACTIVE_MARKER_VALUE)" by auto
    show ?thesis
    proof (cases "descriptor_key n = descriptor_key (nd_node d)")
      case True
      with old have "descriptor_at c (redb_abs s) (nd_node d) = Some old" using descriptor_at_key(1) by metis
      with c(1) have "nd_revision old < nd_revision d" "nd_removed old \<longrightarrow> nd_removed d"
        by (auto simp: admissible_def descriptor_at_def split: if_split_asm option.split_asm)
      with c(2) descriptor_at_key(1) [OF True] show ?thesis by simp
    next
      case False
      have "descriptor_at c (redb_abs s') n = descriptor_at c (redb_abs s) n"
        by (rule descriptor_at_key(2)) (use False descriptor_ns_ok(3) in \<open>simp add: c(3)\<close>)
      with old show ?thesis by simp
    qed
  qed (use old in simp)
qed

text \<open>C18: the descriptor register only moves forward. Along every run of stores decided on
  possibly overtaken snapshots, under any engine outcome, and of unrelated writes, a node's
  descriptor stays what it was or is replaced by one of a strictly higher revision, it never
  disappears, and a removal marker is never replaced by a live descriptor.\<close>

theorem descriptor_register_monotone:
  assumes "descriptor_run c s s'" "redb_inv s" "dc_dns c BUILTIN_DOMAIN" "\<forall>bytes. length (dc_sha c bytes) = 32"
    and "descriptor_codec_ok c" "descriptor_at c (redb_abs s) node = Some old"
  shows "\<exists>new. descriptor_at c (redb_abs s') node = Some new \<and> (new = old \<or> nd_revision old < nd_revision new) \<and>
    (nd_removed old \<longrightarrow> nd_removed new)"
proof -
  have "redb_inv s' \<and> (\<exists>new. descriptor_at c (redb_abs s') node = Some new \<and> (new = old \<or> nd_revision old < nd_revision new) \<and>
    (nd_removed old \<longrightarrow> nd_removed new))"
    using assms(1)
  proof (induction rule: descriptor_run.induct)
    case run_start
    show ?case using assms(2,6) by simp
  next
    case (run_store s1 snap tid d io state s2 state' r)
    then obtain mid where mid: "redb_inv s1" "descriptor_at c (redb_abs s1) node = Some mid" "mid = old \<or> nd_revision old < nd_revision mid"
      "nd_removed old \<longrightarrow> nd_removed mid" by blast
    note m = descriptor_step_monotone [OF run_store.hyps(2) mid(1) run_store.hyps(3) assms(3) _ run_store.hyps(4) assms(5) run_store.hyps(5,6)]
    from m(2) [OF _ mid(2)] assms(4) obtain new where "descriptor_at c (redb_abs s2) node = Some new"
      "new = mid \<or> nd_revision mid < nd_revision new" "nd_removed mid \<longrightarrow> nd_removed new" by blast
    moreover have "redb_inv s2" using m(1) assms(4) by simp
    ultimately show ?case using mid(3,4) by (metis order_less_trans)
  next
    case (run_other s1 s2)
    then show ?case using descriptor_at_key(2) [of "redb_abs s2" node "redb_abs s1"] by metis
  qed
  then show ?thesis by simp
qed

section \<open>A fault-free store\<close>

lemma descriptor_lands:
  assumes "redb_inv s" "dc_dns c BUILTIN_DOMAIN" "\<And>bytes. length (dc_sha c bytes) = 32" "fresh_supply (redb_abs s) tids i"
    and "descriptor_codec_ok c" "descriptor_ok c d" "admissible c (redb_abs s) d" "descriptor_encode c d = Ok bytes"
    and "as_generation (redb_abs s) \<noteq> - 1"
  obtains s' where "store_descriptor c (redb_storage (dc_sha c) no_faults) s (s, Ready) (tids i) d = ((s', Ready), Ok ())"
    "redb_inv s'" "as_generation (redb_abs s') = as_generation (redb_abs s) + 1" "fresh_supply (redb_abs s') tids (i + 1)"
    "descriptor_at c (redb_abs s') (nd_node d) = Some d"
    "\<And>ns key. ns \<noteq> internal_ns \<Longrightarrow> (ns, key) \<noteq> (descriptor_ns, descriptor_key (nd_node d)) \<Longrightarrow>
      as_entries (redb_abs s') (ns, key) = as_entries (redb_abs s) (ns, key)"
proof -
  let ?so = "redb_storage (dc_sha c) no_faults" and ?key = "descriptor_key (nd_node d)"
  obtain e where e: "snapshot_expectation (so_get ?so s descriptor_ns ?key) = Ok e"
    "abs_expectation (dc_sha c) (as_entries (redb_abs s) (descriptor_ns, ?key)) e"
    using rs.get_expectation [OF assms(1) descriptor_ns_ok(1)] by blast
  define ops where "ops = [Put descriptor_ns ?key e (store_value_new (dc_sha c) bytes)]"
  obtain t tx receipt s' where l: "tids i = Ok t"
    "prepare_transaction (dc_sha c) (dc_dns c) t (to_be_bytes_u64 (as_generation (redb_abs s))) ops = Ok tx"
    "store_commit (so_commit ?so) (s, Ready) tx = ((s', Ready), Ok (Committed receipt))"
    "redb_inv s'" "as_generation (redb_abs s') = as_generation (redb_abs s) + 1" "fresh_supply (redb_abs s') tids (i + 1)"
    "\<And>ns key. ns \<noteq> internal_ns \<Longrightarrow> as_entries (redb_abs s') (ns, key) = as_entries (fold abs_apply ops (redb_abs s)) (ns, key)"
    by (rule supplied_batch_lands [where dns = "dc_dns c" and sha = "dc_sha c" and s = s and tids = tids and i = i and ops = ops])
      (use assms(1-4,9) e(2) descriptor_ns_ok(1,4) in \<open>simp_all add: ops_def store_value_new_def\<close>)
  have "check_descriptor c ?so s descriptor_ns d = Ok ()" using rs.check_descriptor_Ok [OF assms(1,2)] assms(7) by blast
  moreover have "prepare_descriptor c ?so s (tids i) descriptor_ns d = Ok tx"
    unfolding prepare_descriptor_def e(1) and_then_simps l(1) rs.revision_refines [OF assms(1)] assms(8) ops_def [symmetric] by (rule l(2))
  ultimately have st: "store_descriptor c ?so s (s, Ready) (tids i) d = ((s', Ready), Ok ())"
    unfolding store_descriptor_def descriptor_namespace_Ok [OF assms(2)] and_then_simps by (simp add: l(3))
  have "as_entries (redb_abs s') (descriptor_ns, ?key) = Some bytes"
    using l(7) [OF descriptor_ns_ok(3)] by (simp add: ops_def store_value_new_def)
  then have "descriptor_at c (redb_abs s') (nd_node d) = Some d"
    using descriptor_decode_encode [OF assms(5,6,8)] by (simp add: descriptor_at_def)
  moreover have "as_entries (redb_abs s') (ns, key) = as_entries (redb_abs s) (ns, key)"
    if "ns \<noteq> internal_ns" "(ns, key) \<noteq> (descriptor_ns, ?key)" for ns key
    using l(7) [OF that(1), of key] that(2) by (auto simp: ops_def)
  ultimately show ?thesis using that [OF st l(4-6)] by blast
qed

lemma admissible_next:
  assumes "descriptor_at c st (nd_node d) = Some current" "nd_revision current < nd_revision d" "nd_removed current \<longrightarrow> nd_removed d"
  shows "admissible c st d"
  using assms by (auto simp: admissible_def descriptor_at_def)

lemma word_less_succ: "r \<noteq> - 1 \<Longrightarrow> r < r + (1 :: u64)"
  by (simp add: word_less_nat_alt unat_add_one)

text \<open>Publishing endpoints other than the recorded ones writes a bare descriptor.\<close>

lemma ensure_overwrites:
  assumes "redb_inv s" "dc_dns c BUILTIN_DOMAIN" "\<And>bytes. length (dc_sha c bytes) = 32" "fresh_supply (redb_abs s) tids i"
    and "descriptor_codec_ok c" "as_generation (redb_abs s) \<noteq> - 1"
    and "descriptor_at c (redb_abs s) node = Some current" "nd_endpoints current \<noteq> endpoints" "endpoints \<noteq> []"
    and "\<not> nd_removed current" "nd_revision current \<noteq> - 1" "d = descriptor_new node key endpoints (nd_revision current + 1) False 1"
    and "descriptor_ok c d" "descriptor_encode c d = Ok bytes"
  shows "\<exists>s'. ensure_local_descriptor c (redb_storage (dc_sha c) no_faults) (s, Ready) (tids i) node key endpoints = ((s', Ready), Ok ()) \<and>
    redb_inv s' \<and> descriptor_at c (redb_abs s') node = Some d"
proof -
  have n: "nd_node d = node" by (simp add: assms(12) descriptor_new_def)
  have adm: "admissible c (redb_abs s) d"
    by (rule admissible_next [where current = current])
      (use assms(7,10) word_less_succ [OF assms(11)] n in \<open>simp_all add: assms(12) descriptor_new_def\<close>)
  obtain s' where s': "store_descriptor c (redb_storage (dc_sha c) no_faults) s (s, Ready) (tids i) d = ((s', Ready), Ok ())"
    "redb_inv s'" "descriptor_at c (redb_abs s') (nd_node d) = Some d"
    by (rule descriptor_lands [where c = c and d = d and tids = tids and i = i, OF assms(1-5,13) adm assms(14,6)])
  have "read_descriptor c (redb_storage (dc_sha c) no_faults) s node = Ok (Some current)"
    using rs.read_descriptor_Ok(1) [OF assms(1,2)] assms(7) by blast
  then have "ensure_local_descriptor c (redb_storage (dc_sha c) no_faults) (s, Ready) (tids i) node key endpoints = ((s', Ready), Ok ())"
    using assms(8,9,11) s'(1) unfolding ensure_local_descriptor_def by (simp add: Let_def saturating_succ_u64_def assms(12) [symmetric])
  with s'(2,3) n show ?thesis by auto
qed

text \<open>C29: publishing the local endpoints undoes the owner's metadata update. A patch that changes
  the endpoints of the local descriptor is accepted and stored; the next publication of the
  listener's endpoints finds them different and installs, at the following revision, a
  descriptor with the listener's endpoints and no labels at all, so that neither the patched
  endpoints nor any label, of the patch or older, survives.\<close>

theorem metadata_update_lost:
  assumes "redb_inv s" "dc_dns c BUILTIN_DOMAIN" "\<forall>bytes. length (dc_sha c bytes) = 32" "fresh_supply (redb_abs s) tids 0"
    and "descriptor_codec_ok c" "unat (as_generation (redb_abs s)) + 2 < 2 ^ 64"
    and "descriptor_at c (redb_abs s) node = Some current" "nd_node current = node" "nd_endpoints current = published" "published \<noteq> []"
    and "\<not> nd_removed current" "unat (nd_revision current) + 2 < 2 ^ 64"
    and "patch_ok c p" "apply_metadata_patch current p = Ok updated" "nd_endpoints updated \<noteq> published"
    and "bare = descriptor_new node (nd_public_key current) published (nd_revision current + 1 + 1) False 1"
    and "is_ok (descriptor_encode c updated)" "is_ok (descriptor_encode c bare)"
  shows "\<exists>s1 s2. update_node_metadata c (redb_storage (dc_sha c) no_faults) (s, Ready) (tids 0) node (nd_revision current) p =
      ((s1, Ready), Ok updated) \<and> descriptor_at c (redb_abs s1) node = Some updated \<and>
    ensure_local_descriptor c (redb_storage (dc_sha c) no_faults) (s1, Ready) (tids 1) node (nd_public_key current) published =
      ((s2, Ready), Ok ()) \<and> descriptor_at c (redb_abs s2) node = Some bare \<and> ls_entries (nd_labels bare) = []"
proof -
  let ?so = "redb_storage (dc_sha c) no_faults"
  have sha: "length (dc_sha c bytes) = 32" for bytes using assms(3) by simp
  have ne: "w \<noteq> - 1" "w + 1 \<noteq> - 1" if "unat w + 2 < 2 ^ 64" for w :: u64
  proof -
    have m: "unat (- 1 :: u64) = 2 ^ 64 - 1" using unat_minus_one_word [where ?'a = 64] by simp
    show w: "w \<noteq> - 1" using that m by auto
    show "w + 1 \<noteq> - 1"
    proof
      assume e: "w + 1 = - 1"
      have "unat (w + 1) = unat w + 1" using unat_add_one [OF w] by simp
      with m have "unat w + 1 = 2 ^ 64 - 1" unfolding e by simp
      with that show False by simp
    qed
  qed
  have cur: "descriptor_ok c current"
    using assms(7) by (auto simp: descriptor_at_def split: option.split_asm sum.split_asm intro: decoded_descriptor_ok)
  note up = patched_descriptor_ok [OF cur assms(13,14)]
  obtain b1 b2 where b: "descriptor_encode c updated = Ok b1" "descriptor_encode c bare = Ok b2" using assms(17,18) by (auto simp: is_ok_iff)
  have adm: "admissible c (redb_abs s) updated"
    by (rule admissible_next [where current = current])
      (use assms(7,8,11) up word_less_succ [OF ne(1) [OF assms(12)]] in auto)
  obtain s1 where s1: "store_descriptor c ?so s (s, Ready) (tids 0) updated = ((s1, Ready), Ok ())" "redb_inv s1"
    "as_generation (redb_abs s1) = as_generation (redb_abs s) + 1" "fresh_supply (redb_abs s1) tids (0 + 1)"
    "descriptor_at c (redb_abs s1) (nd_node updated) = Some updated"
    by (rule descriptor_lands [where c = c and d = updated and tids = tids and i = 0,
          OF assms(1,2) sha assms(4,5) conjunct1 [OF up] adm b(1) ne(1) [OF assms(6)]])
  have "read_descriptor c ?so s node = Ok (Some current)" using rs.read_descriptor_Ok(1) [OF assms(1,2)] assms(7) by blast
  then have u: "update_node_metadata c ?so (s, Ready) (tids 0) node (nd_revision current) p = ((s1, Ready), Ok updated)"
    unfolding update_node_metadata_def using assms(14) s1(1) by simp
  have at: "descriptor_at c (redb_abs s1) node = Some updated" using s1(5) up assms(8) by simp
  have ok: "descriptor_ok c bare"
    using cur assms(8,9,16) labels_ok_new by (simp add: descriptor_ok_labels descriptor_new_def)
  have "\<exists>s2. ensure_local_descriptor c ?so (s1, Ready) (tids (0 + 1)) node (nd_public_key current) published = ((s2, Ready), Ok ()) \<and>
      redb_inv s2 \<and> descriptor_at c (redb_abs s2) node = Some bare"
    by (rule ensure_overwrites [OF s1(2) assms(2) sha s1(4) assms(5) _ at assms(15,10) _ _ _ ok b(2)])
      (use up ne [OF assms(6)] ne [OF assms(12)] in \<open>auto simp: s1(3) assms(16)\<close>)
  with u at show ?thesis by (auto simp: assms(16) descriptor_new_def label_set_new_def)
qed

section \<open>A sample node\<close>

definition sample_endpoint :: "ustr \<Rightarrow> endpoint" where
  "sample_endpoint host = \<lparr>ep_canonical = endpoint_text False host 443, ep_host = host, ep_port = 443\<rparr>"

abbreviation sample_node :: ustr where "sample_node \<equiv> sample_ident NodeId 1"

definition sample_label :: qualified_tag where
  "sample_label = make_tag (lit ''a.example'') (lit ''labels'') (lit ''zone'')"

definition sample_current :: node_descriptor where
  "sample_current = descriptor_new sample_node (replicate 32 7) [sample_endpoint (lit ''a.example'')] 1 False 1"

definition sample_patch :: metadata_patch where
  "sample_patch = patch_new\<lparr>mp_add_endpoints := [sample_endpoint (lit ''b.example'')], mp_set_labels := [(sample_label, lit ''x'')]\<rparr>"

definition sample_updated :: node_descriptor where
  "sample_updated = with_labels (descriptor_new sample_node (replicate 32 7)
     [sample_endpoint (lit ''a.example''), sample_endpoint (lit ''b.example'')] 2 False 1) \<lparr>ls_entries = [(sample_label, lit ''x'')]\<rparr>"

definition sample_bare :: node_descriptor where
  "sample_bare = descriptor_new sample_node (replicate 32 7) [sample_endpoint (lit ''a.example'')] 3 False 1"

definition sample_shapes :: "(descriptor_wire \<times> byte list) list" where
  "sample_shapes = [(descriptor_to_wire sample_current, [1]), (descriptor_to_wire sample_updated, [2]), (descriptor_to_wire sample_bare, [3])]"

definition sample_descriptor_codec :: descriptor_codec where
  "sample_descriptor_codec = \<lparr>dc_dns = (\<lambda>_. True), dc_sha = sample_sha,
     dc_encode = (\<lambda>w. ok_or (map_of sample_shapes w) (invalid_input ''encoding'')),
     dc_decode = (\<lambda>b. ok_or (map_of (map prod.swap sample_shapes) b) (invalid_input ''decoding'')),
     dc_encode_v1 = (\<lambda>_. Err (invalid_input ''encoding'')), dc_decode_v1 = (\<lambda>_. Err (invalid_input ''decoding''))\<rparr>"

definition sample_members :: redb_database where
  "sample_members = empty_db\<lparr>rd_entries := [(composite_key descriptor_ns (descriptor_key sample_node), [1])]\<rparr>"

lemma sample_endpoint_parse:
  "endpoint_parse (\<lambda>_. True) (lit ''wss://a.example'') = Ok (sample_endpoint (lit ''a.example''))"
  "endpoint_parse (\<lambda>_. True) (lit ''wss://b.example'') = Ok (sample_endpoint (lit ''b.example''))"
  by code_simp+

lemma sample_label_parse: "label_key_parse (\<lambda>_. True) (lit ''a.example/labels/zone'') = Ok sample_label"
  by code_simp

lemma sample_descriptor_codec_simps:
  "dc_dns sample_descriptor_codec = (\<lambda>_. True)" "dc_sha sample_descriptor_codec = sample_sha"
  by (simp_all add: sample_descriptor_codec_def)

lemma sample_shapes_distinct: "distinct (map fst sample_shapes)" "distinct (map snd sample_shapes)"
  by (simp_all add: sample_shapes_def descriptor_to_wire_def sample_current_def sample_updated_def sample_bare_def descriptor_new_def with_labels_def)

lemma sample_descriptor_codec_ok: "descriptor_codec_ok sample_descriptor_codec"
proof -
  have "map_of (map prod.swap sample_shapes) b = Some w" if "map_of sample_shapes w = Some b" for w b
    using that sample_shapes_distinct by (force dest: map_of_SomeD intro!: map_of_is_SomeI simp: comp_def)
  then show ?thesis by (auto simp: descriptor_codec_ok_def sample_descriptor_codec_def ok_or_def split: option.split_asm)
qed

lemma sample_shape_encodes:
  "descriptor_encode sample_descriptor_codec sample_current = Ok [1]"
  "descriptor_encode sample_descriptor_codec sample_updated = Ok [2]"
  "descriptor_encode sample_descriptor_codec sample_bare = Ok [3]"
proof -
  have "descriptor_encode sample_descriptor_codec d = Ok b" if "(descriptor_to_wire d, b) \<in> set sample_shapes" for d b
    using map_of_is_SomeI [OF sample_shapes_distinct(1) that] by (simp add: descriptor_encode_def sample_descriptor_codec_def ok_or_def)
  then show "descriptor_encode sample_descriptor_codec sample_current = Ok [1]"
    "descriptor_encode sample_descriptor_codec sample_updated = Ok [2]"
    "descriptor_encode sample_descriptor_codec sample_bare = Ok [3]" by (simp_all add: sample_shapes_def)
qed

lemma sample_descriptors_ok: "descriptor_ok sample_descriptor_codec sample_current" "patch_ok sample_descriptor_codec sample_patch"
  using sample_endpoint_parse sample_label_parse sample_ident_parse [of 1 NodeId] labels_ok_new
  by (auto simp: descriptor_ok_labels patch_ok_def sample_descriptor_codec_simps sample_current_def descriptor_new_def sample_patch_def patch_new_def
      label_value_parse_def LABEL_VALUE_MAX_BYTES_def)

lemma sample_patch_applies: "apply_metadata_patch sample_current sample_patch = Ok sample_updated"
  by (simp add: apply_metadata_patch_def sample_current_def sample_patch_def patch_new_def descriptor_new_def sample_updated_def with_labels_def
      sample_endpoint_def label_set_insert_def label_set_remove_def label_set_contains_def label_set_new_def bt_remove_def LABEL_SET_MAX_ENTRIES_def)

lemma sample_members_entries:
  "as_entries (redb_abs sample_members) (ns, key) = (if ns = descriptor_ns \<and> key = descriptor_key sample_node then Some [1] else None)"
proof (cases "namespace_ok ns")
  case True
  then show ?thesis
    using composite_key_inj [OF True descriptor_ns_ok(1)] by (auto simp: redb_abs_def redb_tables_abs_def sample_members_def)
next
  case False
  with descriptor_ns_ok(1) show ?thesis by (auto simp: redb_abs_def redb_tables_abs_def)
qed

lemma sample_members_facts: "redb_inv sample_members" "as_generation (redb_abs sample_members) = 0" "as_receipts (redb_abs sample_members) t = None"
  using empty_db_inv empty_db_receipts [of t]
  by (simp_all add: redb_inv_def sample_members_def bt_ok_def redb_abs_def redb_tables_abs_def empty_db_def redb_initialize_def
      current_generation_def decode_revision_def)

lemma sample_members_supply: "fresh_supply (redb_abs sample_members) (\<lambda>i. Ok (lit ''txn_'' @ replicate i 48)) 0"
proof -
  have "lit ''txn_'' @ replicate k 48 = lit ''txn_'' @ replicate j 48 \<longrightarrow> k = j" for j k :: nat
    by (auto dest: arg_cong [where f = length])
  then show ?thesis
    unfolding fresh_supply_def sample_members_entries using descriptor_ns_ok(3) by (simp add: is_ascii_def list_all_iff sample_members_facts(3))
qed

lemma sample_descriptor_at: "descriptor_at sample_descriptor_codec (redb_abs sample_members) sample_node = Some sample_current"
  using descriptor_decode_encode [OF sample_descriptor_codec_ok sample_descriptors_ok(1) sample_shape_encodes(1)]
  by (simp add: descriptor_at_def sample_members_entries)

theorem metadata_update_lost_witness:
  "\<exists>s1 s2. update_node_metadata sample_descriptor_codec (redb_storage sample_sha no_faults) (sample_members, Ready) (Ok (lit ''txn_''))
      sample_node 1 sample_patch = ((s1, Ready), Ok sample_updated) \<and>
    ensure_local_descriptor sample_descriptor_codec (redb_storage sample_sha no_faults) (s1, Ready) (Ok (lit ''txn_0'')) sample_node
      (replicate 32 7) [sample_endpoint (lit ''a.example'')] = ((s2, Ready), Ok ()) \<and>
    descriptor_at sample_descriptor_codec (redb_abs s2) sample_node = Some sample_bare"
proof -
  have f: "nd_node sample_current = sample_node" "nd_endpoints sample_current = [sample_endpoint (lit ''a.example'')]"
    "\<not> nd_removed sample_current" "unat (nd_revision sample_current) + 2 < 2 ^ 64" "nd_revision sample_current = 1"
    "nd_public_key sample_current = replicate 32 7"
    by (simp_all add: sample_current_def descriptor_new_def)
  have u: "nd_endpoints sample_updated \<noteq> [sample_endpoint (lit ''a.example'')]"
    by (simp add: sample_updated_def with_labels_def descriptor_new_def)
  have b: "sample_bare = descriptor_new sample_node (nd_public_key sample_current) [sample_endpoint (lit ''a.example'')]
      (nd_revision sample_current + 1 + 1) False 1" by (simp add: sample_bare_def f(5,6))
  have g: "unat (as_generation (redb_abs sample_members)) + 2 < 2 ^ 64" by (simp add: sample_members_facts(2))
  have p: "dc_dns sample_descriptor_codec BUILTIN_DOMAIN" "\<forall>bytes. length (dc_sha sample_descriptor_codec bytes) = 32"
    by (simp_all add: sample_descriptor_codec_simps sample_sha_def)
  have e: "is_ok (descriptor_encode sample_descriptor_codec sample_updated)" "is_ok (descriptor_encode sample_descriptor_codec sample_bare)"
    by (simp_all add: sample_shape_encodes)
  from metadata_update_lost [OF sample_members_facts(1) p sample_members_supply sample_descriptor_codec_ok g sample_descriptor_at f(1,2) _ f(3,4)
      sample_descriptors_ok(2) sample_patch_applies u b e]
  show ?thesis unfolding f(5,6) sample_descriptor_codec_simps by auto
qed

theorem descriptor_register_monotone_witness:
  "\<exists>s' new. descriptor_run sample_descriptor_codec sample_members s' \<and> redb_abs s' \<noteq> redb_abs sample_members \<and>
    descriptor_at sample_descriptor_codec (redb_abs s') sample_node = Some new \<and> nd_revision sample_current \<le> nd_revision new"
proof -
  let ?c = sample_descriptor_codec and ?t = "\<lambda>i. Ok (lit ''txn_'' @ replicate i 48) :: transaction_id result"
  note up = patched_descriptor_ok [OF sample_descriptors_ok sample_patch_applies]
  have p: "dc_dns ?c BUILTIN_DOMAIN" "\<And>bytes. length (dc_sha ?c bytes) = 32" by (simp_all add: sample_descriptor_codec_simps sample_sha_def)
  have n: "nd_node sample_updated = sample_node" "nd_revision sample_current = 1" "nd_revision sample_updated = 2" "\<not> nd_removed sample_current"
    by (simp_all add: sample_updated_def sample_current_def with_labels_def descriptor_new_def)
  have adm: "admissible ?c (redb_abs sample_members) sample_updated"
    by (rule admissible_next [where current = sample_current]) (use n sample_descriptor_at in simp_all)
  have g: "as_generation (redb_abs sample_members) \<noteq> - 1" by (simp add: sample_members_facts(2))
  obtain s' where s': "store_descriptor ?c (redb_storage (dc_sha ?c) no_faults) sample_members (sample_members, Ready) (?t 0) sample_updated =
      ((s', Ready), Ok ())" "descriptor_at ?c (redb_abs s') (nd_node sample_updated) = Some sample_updated"
    by (rule descriptor_lands [where c = ?c and d = sample_updated and tids = ?t and i = 0,
          OF sample_members_facts(1) p sample_members_supply sample_descriptor_codec_ok conjunct1 [OF up] adm sample_shape_encodes(2) g])
  have run: "descriptor_run ?c sample_members s'"
    by (rule run_store [OF run_start sample_members_facts(1) later_refl _ conjunct1 [OF up] s'(1)])
      (simp add: fresh_id_def is_ascii_def sample_members_facts(3))
  have "\<forall>bytes. length (dc_sha ?c bytes) = 32" using p(2) by simp
  from descriptor_register_monotone [OF run sample_members_facts(1) p(1) this sample_descriptor_codec_ok sample_descriptor_at]
  obtain new where "descriptor_at ?c (redb_abs s') sample_node = Some new" "new = sample_current \<or> nd_revision sample_current < nd_revision new" by blast
  moreover have "redb_abs s' \<noteq> redb_abs sample_members" using s'(2) sample_descriptor_at n by auto
  ultimately show ?thesis using run by auto
qed

end
