(* ===== verification/Membership_Page.thy ===== *)
theory Membership_Page
  imports Node_Descriptor Paging Canonical_Cbor
begin

text \<open>
  Membership anti-entropy (\<^verbatim>\<open>src/src/membership/page.rs\<close>, the payloads of
  \<^verbatim>\<open>src/src/membership/sync.rs\<close>, the page envelope of \<^verbatim>\<open>src/src/paging.rs\<close> and the bounded body
  reader of \<^verbatim>\<open>src/src/sync_common.rs\<close>): bounded pages of node descriptors, their emission from
  a scan of the register and their application to it. The CBOR codecs of the envelope and of
  the payload are arguments; \<open>tids\<close> supplies the transaction ids of the stores.
\<close>

section \<open>The page envelope\<close>

record page_wire =
  pw_schema :: ustr
  pw_items :: "byte list list"
  pw_cursor :: "byte list option"

definition strict_error :: "string \<Rightarrow> strict_decode_failure \<Rightarrow> error" where
  "strict_error ctx failure = (case failure of DecodeFailure e \<Rightarrow> e | NonCanonicalFailure \<Rightarrow> invalid_input ctx)"

definition encode_page :: "page_wire wire_codec \<Rightarrow> ustr \<Rightarrow> byte list list \<Rightarrow> byte list option \<Rightarrow> byte list result" where
  "encode_page pc schema items cursor = wc_encode pc \<lparr>pw_schema = schema, pw_items = items, pw_cursor = cursor\<rparr>"

definition decode_page ::
  "page_wire wire_codec \<Rightarrow> byte list \<Rightarrow> ustr \<Rightarrow> nat \<Rightarrow> string \<Rightarrow> (byte list list \<times> byte list option) result" where
  "decode_page pc bytes schema max_items ctx =
     and_then (map_err (wc_decode pc bytes) (strict_error ctx)) (\<lambda>w.
       if pw_schema w \<noteq> schema then Err (invalid_input ctx)
       else and_then (check_page_shape (length (pw_items w)) max_items None ctx) (\<lambda>_. Ok (pw_items w, pw_cursor w)))"

section \<open>Membership pages\<close>

definition MEMBERSHIP_PAGE_SCHEMA :: ustr where
  "MEMBERSHIP_PAGE_SCHEMA = lit ''radiata.woooo.tech/schemas/membership-page-v1''"
definition DEFAULT_PAGE_LIMIT :: nat where "DEFAULT_PAGE_LIMIT = 16"
definition MAX_PAGE_DESCRIPTORS :: nat where "MAX_PAGE_DESCRIPTORS = 64"

record membership_page =
  mb_descriptors :: "node_descriptor list"
  mb_cursor :: "byte list option"

definition membership_page_new :: "node_descriptor list \<Rightarrow> byte list option \<Rightarrow> membership_page result" where
  "membership_page_new descriptors cursor =
     and_then (check_page_shape (length descriptors) MAX_PAGE_DESCRIPTORS cursor ''membership page'') (\<lambda>_.
       Ok \<lparr>mb_descriptors = descriptors, mb_cursor = cursor\<rparr>)"

definition membership_page_encode :: "descriptor_codec \<Rightarrow> page_wire wire_codec \<Rightarrow> membership_page \<Rightarrow> byte list result" where
  "membership_page_encode c pc page =
     and_then (map_result (descriptor_encode c) (mb_descriptors page)) (\<lambda>items.
       encode_page pc MEMBERSHIP_PAGE_SCHEMA items (mb_cursor page))"

definition membership_page_decode :: "descriptor_codec \<Rightarrow> page_wire wire_codec \<Rightarrow> byte list \<Rightarrow> membership_page result" where
  "membership_page_decode c pc bytes =
     and_then (decode_page pc bytes MEMBERSHIP_PAGE_SCHEMA MAX_PAGE_DESCRIPTORS ''membership page'') (\<lambda>(items, cursor).
     and_then (map_result (\<lambda>encoded. map_err (decode_descriptor c encoded) (\<lambda>_. invalid_input ''membership page descriptor'')) items)
       (\<lambda>descriptors. membership_page_new descriptors cursor))"

definition emit_page ::
  "descriptor_codec \<Rightarrow> 's storage \<Rightarrow> 's \<Rightarrow> byte list option \<Rightarrow> nat \<Rightarrow> membership_page result" where
  "emit_page c so snap cursor limit =
     and_then (descriptor_namespace c) (\<lambda>ns.
     and_then (scan_paged (map (\<lambda>(key, v). Inr (key, sv_value v)) (so_scan so snap ns [])) cursor
         (max 1 (min limit MAX_PAGE_DESCRIPTORS)) (\<lambda>_ bytes. and_then (decode_descriptor c bytes) (\<lambda>d. Ok (Some d)))) (\<lambda>paged.
       membership_page_new (pg_items paged) (pg_next paged)))"

text \<open>Application is best effort: a descriptor that is not newer is skipped, and one the register
  refuses is left out of the answer.\<close>

definition apply_descriptor ::
  "descriptor_codec \<Rightarrow> 's storage \<Rightarrow> 's \<times> commit_state \<Rightarrow> transaction_id result \<Rightarrow> node_descriptor \<Rightarrow> ('s \<times> commit_state) \<times> ustr list" where
  "apply_descriptor c so sys tid d =
     (if (case read_descriptor c so (fst sys) (nd_node d) of
            Inr (Some current) \<Rightarrow> nd_revision d \<le> nd_revision current | _ \<Rightarrow> False)
      then (sys, [])
      else case store_descriptor c so (fst sys) sys tid d of
          (sys', Inr _) \<Rightarrow> (sys', [nd_node d])
        | (sys', Inl _) \<Rightarrow> (sys', []))"

primrec apply_page ::
  "descriptor_codec \<Rightarrow> 's storage \<Rightarrow> (nat \<Rightarrow> transaction_id result) \<Rightarrow> nat \<Rightarrow> 's \<times> commit_state \<Rightarrow> node_descriptor list \<Rightarrow>
   ('s \<times> commit_state) \<times> ustr list" where
  "apply_page c so tids i sys [] = (sys, [])"
| "apply_page c so tids i sys (d # ds) =
     (let (sys1, installed) = apply_descriptor c so sys (tids i) d;
          (sys2, rest) = apply_page c so tids (i + 1) sys1 ds
      in (sys2, installed @ rest))"

section \<open>Sync payloads\<close>

definition SYNC_PAYLOAD_SCHEMA :: ustr where
  "SYNC_PAYLOAD_SCHEMA = lit ''radiata.woooo.tech/schemas/membership-sync-payload-v1''"
definition SYNC_KIND_PAGE :: byte where "SYNC_KIND_PAGE = 1"
definition SYNC_KIND_SNAPSHOT :: byte where "SYNC_KIND_SNAPSHOT = 2"

datatype sync_payload = PagePayload "byte list" | SnapshotPayload "byte list"

record sync_payload_wire =
  sp_schema :: ustr
  sp_kind :: byte
  sp_payload :: "byte list"

definition sync_payload_encode :: "sync_payload_wire wire_codec \<Rightarrow> sync_payload \<Rightarrow> byte list result" where
  "sync_payload_encode sc p =
     (let (kind, payload) = (case p of PagePayload e \<Rightarrow> (SYNC_KIND_PAGE, e) | SnapshotPayload e \<Rightarrow> (SYNC_KIND_SNAPSHOT, e))
      in wc_encode sc \<lparr>sp_schema = SYNC_PAYLOAD_SCHEMA, sp_kind = kind, sp_payload = payload\<rparr>)"

definition sync_payload_decode :: "sync_payload_wire wire_codec \<Rightarrow> byte list \<Rightarrow> sync_payload result" where
  "sync_payload_decode sc bytes =
     and_then (map_err (wc_decode sc bytes) (strict_error ''membership sync payload canonical form'')) (\<lambda>w.
       if sp_schema w \<noteq> SYNC_PAYLOAD_SCHEMA then Err (invalid_input ''membership sync payload schema'')
       else if sp_kind w = SYNC_KIND_PAGE then Ok (PagePayload (sp_payload w))
       else if sp_kind w = SYNC_KIND_SNAPSHOT then Ok (SnapshotPayload (sp_payload w))
       else Err (invalid_input ''membership sync payload kind''))"

text \<open>A body is the list of what its chunk reads will return; an exhausted one has ended.\<close>

definition MAX_SYNC_BYTES :: nat where "MAX_SYNC_BYTES = 256 * 1024"
definition MAX_SYNC_CHUNKS :: nat where "MAX_SYNC_CHUNKS = 4096"

fun drain_loop :: "string \<Rightarrow> nat \<Rightarrow> byte list \<Rightarrow> byte list result list \<Rightarrow> byte list result" where
  "drain_loop ctx chunks bytes [] = Ok bytes"
| "drain_loop ctx chunks bytes (Inl e # body) = Err e"
| "drain_loop ctx chunks bytes (Inr chunk # body) =
     (if chunks + 1 > MAX_SYNC_CHUNKS \<or> length bytes + length chunk > MAX_SYNC_BYTES then Err (resource_exhausted ctx)
      else drain_loop ctx (chunks + 1) (bytes @ chunk) body)"

definition drain_body :: "string \<Rightarrow> byte list result list \<Rightarrow> byte list result" where
  "drain_body ctx body = drain_loop ctx 0 [] body"

section \<open>Pages and payloads on the wire\<close>

lemma map_result_encode_decode:
  "map_result f xs = Ok ys \<Longrightarrow> (\<And>x y. x \<in> set xs \<Longrightarrow> f x = Ok y \<Longrightarrow> g y = Ok x) \<Longrightarrow> map_result g ys = Ok xs"
  by (induction xs arbitrary: ys) (auto simp: and_then_Ok_iff)

lemma map_result_length: "map_result f xs = Ok ys \<Longrightarrow> length ys = length xs"
  by (induction xs arbitrary: ys) (auto simp: and_then_Ok_iff)

text \<open>An encoded page decodes to itself.\<close>

lemma membership_page_decode_encode:
  assumes "wire_codec_ok pc" "descriptor_codec_ok c" "\<forall>d\<in>set (mb_descriptors page). descriptor_ok c d"
    and "membership_page_new (mb_descriptors page) (mb_cursor page) = Ok page" "membership_page_encode c pc page = Ok bytes"
  shows "membership_page_decode c pc bytes = Ok page"
proof -
  obtain items where i: "map_result (descriptor_encode c) (mb_descriptors page) = Ok items"
    "wc_encode pc \<lparr>pw_schema = MEMBERSHIP_PAGE_SCHEMA, pw_items = items, pw_cursor = mb_cursor page\<rparr> = Ok bytes"
    using assms(5) by (auto simp: membership_page_encode_def encode_page_def and_then_Ok_iff)
  have "wc_decode pc bytes = Ok \<lparr>pw_schema = MEMBERSHIP_PAGE_SCHEMA, pw_items = items, pw_cursor = mb_cursor page\<rparr>"
    using assms(1) i(2) by (simp add: wire_codec_ok_def)
  moreover have "map_result (\<lambda>encoded. map_err (decode_descriptor c encoded) (\<lambda>_. invalid_input ''membership page descriptor'')) items =
      Ok (mb_descriptors page)"
    by (rule map_result_encode_decode [OF i(1)]) (use assms(2,3) descriptor_decode_encode in \<open>auto\<close>)
  moreover have "length items \<le> MAX_PAGE_DESCRIPTORS"
    using assms(4) map_result_length [OF i(1)] by (auto simp: membership_page_new_def check_page_shape_def and_then_Ok_iff split: if_split_asm)
  ultimately show ?thesis using assms(4)
    by (simp add: membership_page_decode_def decode_page_def check_page_shape_def)
qed

lemma sync_payload_decode_encode:
  "wire_codec_ok sc \<Longrightarrow> sync_payload_encode sc p = Ok bytes \<Longrightarrow> sync_payload_decode sc bytes = Ok p"
proof -
  assume a: "wire_codec_ok sc" "sync_payload_encode sc p = Ok bytes"
  have d: "wc_encode sc w = Ok bytes \<Longrightarrow> wc_decode sc bytes = Ok w" for w using a(1) by (simp add: wire_codec_ok_def)
  show ?thesis
  proof (cases p)
    case (PagePayload e)
    with a(2) d [of "\<lparr>sp_schema = SYNC_PAYLOAD_SCHEMA, sp_kind = SYNC_KIND_PAGE, sp_payload = e\<rparr>"] show ?thesis
      by (simp add: sync_payload_encode_def sync_payload_decode_def)
  next
    case (SnapshotPayload e)
    with a(2) d [of "\<lparr>sp_schema = SYNC_PAYLOAD_SCHEMA, sp_kind = SYNC_KIND_SNAPSHOT, sp_payload = e\<rparr>"] show ?thesis
      by (simp add: sync_payload_encode_def sync_payload_decode_def SYNC_KIND_PAGE_def SYNC_KIND_SNAPSHOT_def)
  qed
qed

text \<open>The bounded reader returns the whole body or an error, and never more than its budget.\<close>

lemma drain_loop_bounded:
  "drain_loop ctx chunks bytes body = Ok r \<Longrightarrow> chunks \<le> MAX_SYNC_CHUNKS \<Longrightarrow> length bytes \<le> MAX_SYNC_BYTES \<Longrightarrow>
   (\<exists>cs. body = map Inr cs \<and> r = bytes @ concat cs \<and> chunks + length cs \<le> MAX_SYNC_CHUNKS) \<and> length r \<le> MAX_SYNC_BYTES"
proof (induction ctx chunks bytes body rule: drain_loop.induct)
  case (3 ctx chunks bytes chunk body)
  then obtain cs where "body = map Inr cs" "r = (bytes @ chunk) @ concat cs" "chunks + 1 + length cs \<le> MAX_SYNC_CHUNKS"
    "length r \<le> MAX_SYNC_BYTES" by (force split: if_split_asm)
  then show ?case by (intro conjI exI [of _ "chunk # cs"]) simp_all
qed auto

section \<open>Repair\<close>

lemma admissible_agree:
  "as_entries st (descriptor_ns, descriptor_key (nd_node d)) = as_entries st' (descriptor_ns, descriptor_key (nd_node d)) \<Longrightarrow>
   as_entries st (binding_ns, descriptor_key (nd_node d)) = as_entries st' (binding_ns, descriptor_key (nd_node d)) \<Longrightarrow>
   admissible c st d \<longleftrightarrow> admissible c st' d"
  by (simp add: admissible_def descriptor_at_def)

lemma admissible_not_held: "descriptor_at c st (nd_node d) = Some e \<Longrightarrow> nd_revision d \<le> nd_revision e \<Longrightarrow> \<not> admissible c st d"
  by (auto simp: admissible_def descriptor_at_def split: option.split_asm)

lemma fresh_supply_Suc: "fresh_supply st tids i \<Longrightarrow> fresh_supply st tids (i + 1)"
  by (simp add: fresh_supply_def)

lemma apply_descriptor_refused:
  assumes "redb_inv s" "dc_dns c BUILTIN_DOMAIN" "\<not> admissible c (redb_abs s) d"
  shows "apply_descriptor c (redb_storage (dc_sha c) io) (s, Ready) tid d = ((s, Ready), [])"
proof -
  have "check_descriptor c (redb_storage (dc_sha c) io) s descriptor_ns d \<noteq> Ok ()"
    using rs.check_descriptor_Ok [OF assms(1,2)] assms(3) by blast
  then obtain e where "check_descriptor c (redb_storage (dc_sha c) io) s descriptor_ns d = Err e"
    by (cases "check_descriptor c (redb_storage (dc_sha c) io) s descriptor_ns d") auto
  then show ?thesis by (simp add: apply_descriptor_def store_descriptor_def descriptor_namespace_Ok [OF assms(2)])
qed

lemma apply_descriptor_installs:
  assumes "redb_inv s" "dc_dns c BUILTIN_DOMAIN" "\<And>bytes. length (dc_sha c bytes) = 32" "fresh_supply (redb_abs s) tids i"
    and "descriptor_codec_ok c" "descriptor_ok c d" "admissible c (redb_abs s) d" "is_ok (descriptor_encode c d)"
    and "as_generation (redb_abs s) \<noteq> - 1"
  obtains s' where "apply_descriptor c (redb_storage (dc_sha c) no_faults) (s, Ready) (tids i) d = ((s', Ready), [nd_node d])"
    "redb_inv s'" "as_generation (redb_abs s') = as_generation (redb_abs s) + 1" "fresh_supply (redb_abs s') tids (i + 1)"
    "descriptor_at c (redb_abs s') (nd_node d) = Some d"
    "\<And>ns key. ns \<noteq> internal_ns \<Longrightarrow> (ns, key) \<noteq> (descriptor_ns, descriptor_key (nd_node d)) \<Longrightarrow>
      as_entries (redb_abs s') (ns, key) = as_entries (redb_abs s) (ns, key)"
proof -
  obtain bytes where b: "descriptor_encode c d = Ok bytes" using assms(8) by (auto simp: is_ok_iff)
  obtain s' where s': "store_descriptor c (redb_storage (dc_sha c) no_faults) s (s, Ready) (tids i) d = ((s', Ready), Ok ())"
    "redb_inv s'" "as_generation (redb_abs s') = as_generation (redb_abs s) + 1" "fresh_supply (redb_abs s') tids (i + 1)"
    "descriptor_at c (redb_abs s') (nd_node d) = Some d"
    "\<And>ns key. ns \<noteq> internal_ns \<Longrightarrow> (ns, key) \<noteq> (descriptor_ns, descriptor_key (nd_node d)) \<Longrightarrow>
      as_entries (redb_abs s') (ns, key) = as_entries (redb_abs s) (ns, key)"
    by (rule descriptor_lands [where c = c and d = d and tids = tids and i = i, OF assms(1-7) b assms(9)]) blast
  have "\<not> nd_revision d \<le> nd_revision e" if "read_descriptor c (redb_storage (dc_sha c) no_faults) s (nd_node d) = Ok (Some e)" for e
  proof -
    have "descriptor_at c (redb_abs s) (nd_node d) = Some e" using that rs.read_descriptor_Ok(1) [OF assms(1,2)] by blast
    from admissible_not_held [OF this] assms(7) show ?thesis by blast
  qed
  then have "\<not> (case read_descriptor c (redb_storage (dc_sha c) no_faults) s (nd_node d) of
      Inr (Some current) \<Rightarrow> nd_revision d \<le> nd_revision current | _ \<Rightarrow> False)" by (simp split: sum.split option.split)
  then have "apply_descriptor c (redb_storage (dc_sha c) no_faults) (s, Ready) (tids i) d = ((s', Ready), [nd_node d])"
    by (simp add: apply_descriptor_def s'(1))
  from that [OF this s'(2-6)] show ?thesis by blast
qed

lemma page_lands:
  assumes "dc_dns c BUILTIN_DOMAIN" "\<And>bytes. length (dc_sha c bytes) = 32" "descriptor_codec_ok c"
    and "redb_inv s" "fresh_supply (redb_abs s) tids i" "unat (as_generation (redb_abs s)) + length ds < 2 ^ 64"
    and "distinct (map nd_node ds)" "\<forall>d\<in>set ds. descriptor_ok c d \<and> is_ok (descriptor_encode c d)"
  shows "\<exists>s'. apply_page c (redb_storage (dc_sha c) no_faults) tids i (s, Ready) ds =
      ((s', Ready), map nd_node (filter (admissible c (redb_abs s)) ds)) \<and> redb_inv s' \<and>
    (\<forall>d\<in>set ds. admissible c (redb_abs s) d \<longrightarrow> descriptor_at c (redb_abs s') (nd_node d) = Some d) \<and>
    (\<forall>ns key. ns \<noteq> internal_ns \<longrightarrow> \<not> (ns = descriptor_ns \<and> (\<exists>d\<in>set ds. admissible c (redb_abs s) d \<and> key = descriptor_key (nd_node d))) \<longrightarrow>
      as_entries (redb_abs s') (ns, key) = as_entries (redb_abs s) (ns, key))"
  using assms(4-8)
proof (induction ds arbitrary: s i)
  case (Cons d ds)
  let ?so = "redb_storage (dc_sha c) no_faults"
  show ?case
  proof (cases "admissible c (redb_abs s) d")
    case False
    note r = apply_descriptor_refused [OF Cons.prems(1) assms(1) False]
    from Cons.IH [OF Cons.prems(1) fresh_supply_Suc [OF Cons.prems(2)]] Cons.prems(3-5)
    obtain s' where "apply_page c ?so tids (i + 1) (s, Ready) ds = ((s', Ready), map nd_node (filter (admissible c (redb_abs s)) ds))" "redb_inv s'"
      "\<forall>d\<in>set ds. admissible c (redb_abs s) d \<longrightarrow> descriptor_at c (redb_abs s') (nd_node d) = Some d"
      "\<forall>ns key. ns \<noteq> internal_ns \<longrightarrow> \<not> (ns = descriptor_ns \<and> (\<exists>d\<in>set ds. admissible c (redb_abs s) d \<and> key = descriptor_key (nd_node d))) \<longrightarrow>
        as_entries (redb_abs s') (ns, key) = as_entries (redb_abs s) (ns, key)" by auto
    with False r show ?thesis by (intro exI [of _ s']) auto
  next
    case True
    have g: "as_generation (redb_abs s) \<noteq> - 1" using Cons.prems(3) unat_minus_one_word [where ?'a = 64] by auto
    have ok: "descriptor_ok c d" "is_ok (descriptor_encode c d)" using Cons.prems(5) by simp_all
    obtain s1 where s1: "apply_descriptor c ?so (s, Ready) (tids i) d = ((s1, Ready), [nd_node d])" "redb_inv s1"
      "as_generation (redb_abs s1) = as_generation (redb_abs s) + 1" "fresh_supply (redb_abs s1) tids (i + 1)"
      "descriptor_at c (redb_abs s1) (nd_node d) = Some d"
      "\<And>ns key. ns \<noteq> internal_ns \<Longrightarrow> (ns, key) \<noteq> (descriptor_ns, descriptor_key (nd_node d)) \<Longrightarrow>
        as_entries (redb_abs s1) (ns, key) = as_entries (redb_abs s) (ns, key)"
      by (rule apply_descriptor_installs [where c = c and d = d and tids = tids and i = i,
            OF Cons.prems(1) assms(1,2) Cons.prems(2) assms(3) ok(1) True ok(2) g]) blast
    have other: "descriptor_key (nd_node x) \<noteq> descriptor_key (nd_node d)" if "x \<in> set ds" for x
    proof -
      have "nd_node x \<noteq> nd_node d" using that Cons.prems(4) by (metis distinct.simps(2) image_eqI list.simps(9) set_map)
      moreover have "id_parse NodeId (nd_node x) = Ok (nd_node x)" "id_parse NodeId (nd_node d) = Ok (nd_node d)"
        using that Cons.prems(5) by (simp_all add: descriptor_ok_def)
      ultimately show ?thesis using descriptor_key_inj by blast
    qed
    have adm: "admissible c (redb_abs s1) x \<longleftrightarrow> admissible c (redb_abs s) x" if "x \<in> set ds" for x
      by (rule admissible_agree) (use s1(6) other [OF that] descriptor_ns_ok in auto)
    have fl: "filter (admissible c (redb_abs s1)) ds = filter (admissible c (redb_abs s)) ds"
      by (rule filter_cong) (simp_all add: adm)
    have "unat (as_generation (redb_abs s1)) + length ds < 2 ^ 64" using Cons.prems(3) unat_add_one [OF g] by (simp add: s1(3))
    from Cons.IH [OF s1(2,4) this] Cons.prems(4,5) obtain s' where s':
      "apply_page c ?so tids (i + 1) (s1, Ready) ds = ((s', Ready), map nd_node (filter (admissible c (redb_abs s)) ds))" "redb_inv s'"
      "\<And>x. x \<in> set ds \<Longrightarrow> admissible c (redb_abs s) x \<Longrightarrow> descriptor_at c (redb_abs s') (nd_node x) = Some x"
      "\<And>ns key. ns \<noteq> internal_ns \<Longrightarrow> \<not> (ns = descriptor_ns \<and> (\<exists>x\<in>set ds. admissible c (redb_abs s) x \<and> key = descriptor_key (nd_node x))) \<Longrightarrow>
        as_entries (redb_abs s') (ns, key) = as_entries (redb_abs s1) (ns, key)" unfolding fl using adm by auto
    have run: "apply_page c ?so tids i (s, Ready) (d # ds) = ((s', Ready), map nd_node (filter (admissible c (redb_abs s)) (d # ds)))"
      using True s'(1) by (simp add: s1(1))
    have "as_entries (redb_abs s') (descriptor_ns, descriptor_key (nd_node d)) = as_entries (redb_abs s1) (descriptor_ns, descriptor_key (nd_node d))"
      using s'(4) [OF descriptor_ns_ok(3)] other by metis
    then have d: "descriptor_at c (redb_abs s') (nd_node d) = Some d" using s1(5) descriptor_at_key(2) by metis
    have "as_entries (redb_abs s') (ns, key) = as_entries (redb_abs s) (ns, key)"
      if "ns \<noteq> internal_ns" "\<not> (ns = descriptor_ns \<and> (\<exists>x\<in>set (d # ds). admissible c (redb_abs s) x \<and> key = descriptor_key (nd_node x)))" for ns key
      using s'(4) [OF that(1), of key] s1(6) [OF that(1), of key] that(2) True by auto
    with run s'(2,3) d show ?thesis by (intro exI [of _ s']) auto
  qed
qed simp

text \<open>C19: a membership page repairs the register and is safe to replay. Over a fault-free store the
  application of a page with one descriptor per node installs exactly the descriptors the
  register accepts (a higher revision than the current one and never a live one over a removal;
  where there is none, revision 1 or a bound node), reports exactly their nodes, changes
  nothing else outside the internal namespace, and leaves a register that accepts none of them
  again, so that a second delivery installs nothing.\<close>

theorem page_repairs:
  assumes "dc_dns c BUILTIN_DOMAIN" "\<forall>bytes. length (dc_sha c bytes) = 32" "descriptor_codec_ok c"
    and "redb_inv s" "fresh_supply (redb_abs s) tids i" "unat (as_generation (redb_abs s)) + length ds < 2 ^ 64"
    and "distinct (map nd_node ds)" "\<forall>d\<in>set ds. descriptor_ok c d \<and> is_ok (descriptor_encode c d)"
  shows "\<exists>s'. apply_page c (redb_storage (dc_sha c) no_faults) tids i (s, Ready) ds =
      ((s', Ready), map nd_node (filter (admissible c (redb_abs s)) ds)) \<and> redb_inv s' \<and>
    (\<forall>d\<in>set ds. admissible c (redb_abs s) d \<longrightarrow> descriptor_at c (redb_abs s') (nd_node d) = Some d) \<and>
    (\<forall>d\<in>set ds. \<not> admissible c (redb_abs s') d) \<and>
    (\<forall>ns key. ns \<noteq> internal_ns \<longrightarrow> \<not> (ns = descriptor_ns \<and> (\<exists>d\<in>set ds. admissible c (redb_abs s) d \<and> key = descriptor_key (nd_node d))) \<longrightarrow>
      as_entries (redb_abs s') (ns, key) = as_entries (redb_abs s) (ns, key))"
proof -
  obtain s' where s': "apply_page c (redb_storage (dc_sha c) no_faults) tids i (s, Ready) ds =
      ((s', Ready), map nd_node (filter (admissible c (redb_abs s)) ds))" "redb_inv s'"
    "\<forall>d\<in>set ds. admissible c (redb_abs s) d \<longrightarrow> descriptor_at c (redb_abs s') (nd_node d) = Some d"
    "\<forall>ns key. ns \<noteq> internal_ns \<longrightarrow> \<not> (ns = descriptor_ns \<and> (\<exists>d\<in>set ds. admissible c (redb_abs s) d \<and> key = descriptor_key (nd_node d))) \<longrightarrow>
      as_entries (redb_abs s') (ns, key) = as_entries (redb_abs s) (ns, key)"
    using page_lands [OF assms(1) _ assms(3-8)] assms(2) by blast
  have key: "descriptor_key (nd_node d) = descriptor_key (nd_node x) \<Longrightarrow> d = x" if "d \<in> set ds" "x \<in> set ds" for d x
  proof -
    assume k: "descriptor_key (nd_node d) = descriptor_key (nd_node x)"
    have "nd_node d = nd_node x" by (rule descriptor_key_inj [OF _ _ k]) (use assms(8) that in \<open>simp_all add: descriptor_ok_def\<close>)
    with assms(7) that show "d = x" by (metis distinct_map inj_onD)
  qed
  have "\<not> admissible c (redb_abs s') d" if d: "d \<in> set ds" for d
  proof (cases "admissible c (redb_abs s) d")
    case True
    with s'(3) d have "descriptor_at c (redb_abs s') (nd_node d) = Some d" by blast
    from admissible_not_held [OF this] show ?thesis by simp
  next
    case False
    have "\<not> (\<exists>x\<in>set ds. admissible c (redb_abs s) x \<and> descriptor_key (nd_node d) = descriptor_key (nd_node x))"
      using key [OF d] False by blast
    then have "admissible c (redb_abs s') d \<longleftrightarrow> admissible c (redb_abs s) d"
      using s'(4) descriptor_ns_ok(3,5,6) by (intro admissible_agree) blast+
    with False show ?thesis by simp
  qed
  with s' show ?thesis by (intro exI [of _ s']) simp
qed

theorem page_repairs_witness:
  "\<exists>s'. apply_page sample_descriptor_codec (redb_storage sample_sha no_faults) (\<lambda>i. Ok (lit ''txn_'' @ replicate i 48)) 0
      (sample_members, Ready) [sample_updated] = ((s', Ready), [sample_node]) \<and>
    descriptor_at sample_descriptor_codec (redb_abs s') sample_node = Some sample_updated"
proof -
  let ?c = sample_descriptor_codec
  note up = patched_descriptor_ok [OF sample_descriptors_ok sample_patch_applies]
  have p: "dc_dns ?c BUILTIN_DOMAIN" "\<forall>bytes. length (dc_sha ?c bytes) = 32" by (simp_all add: sample_descriptor_codec_simps sample_sha_def)
  have n: "nd_node sample_updated = sample_node" "nd_revision sample_current = 1" "nd_revision sample_updated = 2" "\<not> nd_removed sample_current"
    by (simp_all add: sample_updated_def sample_current_def with_labels_def descriptor_new_def)
  have adm: "admissible ?c (redb_abs sample_members) sample_updated"
    by (rule admissible_next [where current = sample_current]) (use n sample_descriptor_at in simp_all)
  have g: "unat (as_generation (redb_abs sample_members)) + length [sample_updated] < 2 ^ 64" by (simp add: sample_members_facts(2))
  have ok: "\<forall>d\<in>set [sample_updated]. descriptor_ok ?c d \<and> is_ok (descriptor_encode ?c d)" using up sample_shape_encodes by simp
  from page_repairs [OF p sample_descriptor_codec_ok sample_members_facts(1) sample_members_supply g _ ok] adm n(1)
  show ?thesis by (simp add: sample_descriptor_codec_simps) blast
qed

end
