(* ===== verification/Spec2Isabelle.thy ===== *)
theory Spec2Isabelle
  imports Hex_Codec Identifiers Qualified_Tags Labels Wire_Prelude Selectors Route_Context
    Admission_Rate Paging Neighbor_Plan Recovery Metadata_Store Resource_Store Session_Exchange Receipt_Safety Join_Credential Route_Trace Membership_Page
begin

text \<open>
  A verification development of the \<^verbatim>\<open>radiata\<close> relay library under \<^verbatim>\<open>src/src\<close>.

  \<^bold>\<open>The program.\<close> A node joins a cluster of relays. It keeps its metadata (identity, membership,
  resources, traces) in a versioned key-value store behind one of two adapters, negotiates
  features with each peer it authenticates, forwards packets along bounded routes chosen by
  label selectors, replicates signed resource records with its peers, and keeps a sparse set
  of neighbours connected. Components call each other downwards: records and routing use tags,
  labels and identifiers; the resource register uses the storage interface; the storage
  interface is served by the metadata commit machine over an adapter.

  \<^bold>\<open>Values.\<close>
  \<^item> \<open>Relay_Prelude\<close>: result combinators, UTF-8 text (\<open>ustr\<close>), big-endian words, checked and
    saturating arithmetic, ordered maps and sets (\<open>btree\<close>), and the facts the components share.
  \<^item> \<open>Hex_Codec\<close> (\<^verbatim>\<open>hex.rs\<close>), \<open>Identifiers\<close> (\<^verbatim>\<open>identity/id.rs\<close>), \<open>Qualified_Tags\<close>
    (\<^verbatim>\<open>protocol/tag.rs\<close>), \<open>Labels\<close> (\<^verbatim>\<open>label.rs\<close>): parsers, canonical forms and generators, with
    round trips and exact acceptance.
  \<^item> \<open>Wire_Prelude\<close> (\<^verbatim>\<open>protocol/wire.rs\<close>, \<^verbatim>\<open>protocol/envelope.rs\<close>): the closed kind registry and
    the fixed prelude; a message splits exactly when it is a declared prelude and its body.

  \<^bold>\<open>Negotiation.\<close>
  \<^item> \<open>Feature_Registry\<close> (\<^verbatim>\<open>protocol/feature.rs\<close>): definitions, their builders and the validated
    registry. The recursive dependency walk terminates on every graph and accepts exactly the
    closed acyclic ones.
  \<^item> \<open>Feature_Offer\<close> (\<^verbatim>\<open>protocol/offer.rs\<close>) and \<open>Feature_Selection\<close> (\<^verbatim>\<open>protocol/selection.rs\<close>):
    canonical offers, their wire form, and selection as the greatest dependency-closed common
    set, on which both sides agree.

  \<^bold>\<open>Authentication.\<close>
  \<^item> \<open>Canonical_Cbor\<close> (\<^verbatim>\<open>protocol/cbor.rs\<close>): the bounded encoder, the iterative validator with its
    container stack, and the strict decoder. The validator returns on every input and accepts
    exactly the deterministic encodings; the strict decoder inverts the encoder.
  \<^item> \<open>Signatures\<close> (\<^verbatim>\<open>identity/signature.rs\<close>, \<^verbatim>\<open>protocol/credential.rs\<close>): domain-separated
    signatures and role-separated credential proofs.
  \<^item> \<open>Handshake\<close> (\<^verbatim>\<open>protocol/handshake.rs\<close>): one endpoint's state machine, every message and the
    transcript. \<open>Handshake_Safety\<close>: its reachable states, their invariant, and lockstep.
  \<^item> \<open>Session_Exchange\<close> (\<^verbatim>\<open>session/driver.rs\<close>, positions one to five): the driver's segments over
    two endpoints, and \<open>key_log\<close>, what the driver has a key provider sign. An honest exchange
    completes. An accepted proof whose signature is in the log of the peer key was made by a
    session of the other role with the same transcript; that it is one follows from the signing
    domains and the driver.
  \<^item> \<open>Join_Credential\<close> (\<^verbatim>\<open>identity/credential.rs\<close>, the reservation guard of \<^verbatim>\<open>session/driver.rs\<close>): the
    credential text and the life cycle of a generation under any interleaving of the operator and
    admission attempts; a generation is consumed at most once.

  \<^bold>\<open>Routing and membership.\<close>
  \<^item> \<open>Selectors\<close> and \<open>Route_Context\<close> (\<^verbatim>\<open>routing.rs\<close>): the selector grammar with its canonical
    form and meaning; the route envelope, whose runs over honest holders never revisit a node.
  \<^item> \<open>Admission_Rate\<close> (\<^verbatim>\<open>identity/admission_rate.rs\<close>): the limiter as a reachable-state machine
    with its counters and rate bound.
  \<^item> \<open>Neighbor_Plan\<close> and \<open>Recovery\<close> (\<^verbatim>\<open>membership/neighbor.rs\<close>, \<^verbatim>\<open>membership/recovery.rs\<close>): the
    planned topology and the recovery backoff.
  \<^item> \<open>Endpoints\<close> (\<^verbatim>\<open>transport/endpoint.rs\<close>): endpoint addresses and their canonical text.
  \<^item> \<open>Node_Descriptor\<close> (\<^verbatim>\<open>membership.rs\<close>, \<^verbatim>\<open>membership/sync.rs\<close>, the metadata update of
    \<^verbatim>\<open>runtime/supervisor.rs\<close>): descriptors and their register, whose revisions only grow and whose
    removals stay. \<open>Membership_Page\<close> (\<^verbatim>\<open>membership/page.rs\<close>): pages of descriptors and what applying
    one installs.
  \<^item> \<open>Route_Trace\<close> (\<^verbatim>\<open>routing/trace.rs\<close>, \<^verbatim>\<open>time.rs\<close>): trace records, their termination at a restart
    and the retention sweep, in batched transactions.

  \<^bold>\<open>Storage.\<close>
  \<^item> \<open>Paging\<close> (\<^verbatim>\<open>paging.rs\<close>): key-set pages; following the cursors delivers every entry once.
  \<^item> \<open>Store_Provider\<close> (\<^verbatim>\<open>provider.rs\<close>): values, operations, transactions and their digests.
  \<^item> \<open>Store_Contract\<close>: the abstract versioned store (\<open>abs_store\<close>, \<open>commit_spec\<close>,
    \<open>reconcile_spec\<close>). The locale \<open>store_backend\<close> asks of an adapter that each commit is an atomic
    step (\<open>atomic_step\<close>); \<open>definite_backend\<close> also that an error other than an indeterminate one
    has no effect (\<open>commit_spec\<close>).
  \<^item> \<open>Json_Store\<close> (\<^verbatim>\<open>storage/json\<close>): the file adapter with the outcome of every file operation as
    an input; it interprets \<open>definite_backend\<close>.
  \<^item> \<open>Redb_Store\<close> (\<^verbatim>\<open>storage/redb\<close>): the engine adapter with an engine fault of every phase of a
    commit as an input. What a failing engine commit leaves is not documented, so the input also
    says whether its write became durable. The adapter answers such a commit with a definite
    error, so it interprets \<open>store_backend\<close> only.
  \<^item> \<open>Metadata_Store\<close> (\<^verbatim>\<open>storage/mod.rs\<close>): the commit machine that freezes on an indeterminate
    outcome until reconciliation decides it. Over redb it never freezes; over JSON reconciliation
    answers from memory. Both differ from the design and are stated as they are.
  \<^item> \<open>Receipts\<close>, \<open>Receipt_Index\<close> and \<open>Receipt_Safety\<close> (\<^verbatim>\<open>storage/receipt.rs\<close>): transactions with
    their permanent id markers, the index of references to receipts, its cleanup, and the
    invariant every run keeps; a used id never commits again.
  \<^item> \<open>Store_Snapshot\<close>: the storage interface with snapshot reads and scans (locale
    \<open>snapshot_backend\<close>), interpreted for both adapters.

  \<^bold>\<open>Resources.\<close>
  \<^item> \<open>Resource_Record\<close> (\<^verbatim>\<open>resource/mod.rs\<close>, \<^verbatim>\<open>identity/signature.rs\<close>): signed records, their
    canonical body, decoding with the digest check, verification, the tuple order.
  \<^item> \<open>Resource_Store\<close> (\<^verbatim>\<open>resource/store.rs\<close>, \<^verbatim>\<open>resource/retention.rs\<close>): conditional puts and
    removals on a snapshot other writers may have overtaken, proved once over
    \<open>snapshot_backend\<close>; convergence of replicas; the retention pass.

  \<^bold>\<open>State, errors and loops.\<close> A stateful operation takes the state and returns it updated; a
  fallible one returns \<open>result\<close> (\<open>Inl\<close> the error). An asynchronous call is the sequence of its
  state changes, with what other tasks did in between as an argument. Loops are structural
  recursion or \<open>function\<close> with a measure; the CBOR validator, whose progress is the crate's, is a
  \<open>partial_function (option)\<close> proved total. Only \<open>walk_pages\<close>, a client that follows cursors, has
  fuel, and more fuel than entries is proved enough. Machine integers are words where they can
  overflow; lengths are \<open>nat\<close>.

  \<^bold>\<open>Parameters.\<close> SHA-256, Ed25519, HKDF, HMAC, the item decoder of the \<^verbatim>\<open>minicbor\<close> crate and the
  codecs it derives for the wire records, the JSON serialiser, the
  DNS name grammar of the \<^verbatim>\<open>domain\<close> crate, the base64 engine, entropy, clocks and the redb engine are arguments;
  what is assumed of them (the decoder inverts the encoder, digests have 32 bytes, host names
  are case-insensitive, signatures verify) is a named hypothesis with a witness.

  \<^bold>\<open>Not modelled.\<close> The TLS and WebSocket transport, the session and runtime tasks and the public
  facade are asynchronous input and output over tokio, rustls and tungstenite. Packet frames and
  stream multiplexing, resource selection, pages and their exchange, the trust snapshots and the
  membership tick, the pending journal, migrations and the identity lifecycle records are left
  out; what they call in storage, records and negotiation is modelled.
\<close>

end
